(* ===== verification/Prelude.thy ===== *)
theory Prelude
  imports Main "HOL-Library.Word"
begin

text \<open>
  Machine types, memory windows and byte orders that the components share.

  A C object of \<open>n\<close> bytes is a list of length \<open>n\<close>; \<open>mem_read\<close> and \<open>mem_write\<close> are
  \<open>memcpy\<close> out of and into it.  The program runs on little-endian targets
  (\<open>BADVPN_LITTLE_ENDIAN\<close> in the build), so \<open>le16_bytes\<close> and \<open>le32_bytes\<close> are the memory images
  of the unsigned types, and \<open>le16_of\<close>, \<open>le32_of\<close> read them back.
\<close>

unbundle bit_operations_syntax

type_synonym byte = "8 word"
type_synonym u16 = "16 word"
type_synonym u32 = "32 word"
type_synonym u64 = "64 word"
type_synonym bytes = "byte list"

subsection \<open>Memory windows and byte orders\<close>

definition mem_read :: "'a list \<Rightarrow> nat \<Rightarrow> nat \<Rightarrow> 'a list" where
  "mem_read m off n = take n (drop off m)"

definition mem_write :: "'a list \<Rightarrow> nat \<Rightarrow> 'a list \<Rightarrow> 'a list" where
  "mem_write m off xs = take off m @ xs @ drop (off + length xs) m"

definition le16_bytes :: "u16 \<Rightarrow> bytes" where
  "le16_bytes w = [ucast w, ucast (drop_bit 8 w)]"

fun le16_of :: "bytes \<Rightarrow> u16" where
  "le16_of (a # b # _) = ucast a OR push_bit 8 (ucast b)"
| "le16_of _ = 0"

definition le32_bytes :: "u32 \<Rightarrow> bytes" where
  "le32_bytes w = [ucast w, ucast (drop_bit 8 w), ucast (drop_bit 16 w), ucast (drop_bit 24 w)]"

fun le32_of :: "bytes \<Rightarrow> u32" where
  "le32_of (a # b # c # d # _) =
     ucast a OR push_bit 8 (ucast b) OR push_bit 16 (ucast c) OR push_bit 24 (ucast d)"
| "le32_of _ = 0"

text \<open>C string literals as octets.\<close>

definition ascii :: "string \<Rightarrow> bytes" where
  "ascii s = map of_char s"

lemma length_ascii [simp]: "length (ascii s) = length s"
  by (simp add: ascii_def)

subsection \<open>Lemmas on windows and words\<close>

lemma length_mem_write [simp]:
  "off + length xs \<le> length m \<Longrightarrow> length (mem_write m off xs) = length m"
  by (simp add: mem_write_def)

lemma mem_read_write_same [simp]:
  "off + length xs \<le> length m \<Longrightarrow> mem_read (mem_write m off xs) off (length xs) = xs"
  by (simp add: mem_read_def mem_write_def)

lemma mem_read_write_before:
  "a + n \<le> off \<Longrightarrow> off + length xs \<le> length m \<Longrightarrow>
     mem_read (mem_write m off xs) a n = mem_read m a n"
  by (simp add: mem_read_def mem_write_def take_drop)

lemma mem_read_write_after:
  "off + length xs \<le> a \<Longrightarrow> off + length xs \<le> length m \<Longrightarrow>
     mem_read (mem_write m off xs) a n = mem_read m a n"
  by (simp add: mem_read_def mem_write_def)

lemma mem_write_read: "off + n \<le> length m \<Longrightarrow> mem_write m off (mem_read m off n) = m"
  by (simp add: mem_write_def mem_read_def) (metis append_take_drop_id drop_drop add.commute)

lemma length_mem_read [simp]: "off + n \<le> length m \<Longrightarrow> length (mem_read m off n) = n"
  by (simp add: mem_read_def)

lemma unat_ucast_byte_u32 [simp]: "unat (ucast (c :: byte) :: u32) = unat c"
proof -
  have "unat c < 2 ^ 8" using unsigned_less [of c] by simp
  then have "unat c < 2 ^ 32" by simp
  then show ?thesis by (simp add: unsigned_ucast_eq take_bit_nat_eq_self del: unsigned_less)
qed

lemma unat_drop_bit_div: "unat (drop_bit k w) = unat w div 2 ^ k" for w :: "'a :: len word"
  by (metis unat_drop_bit_eq drop_bit_eq_div)

lemma unat_and_mask_mod: "unat (w AND mask k) = unat w mod 2 ^ k" for w :: "'a :: len word"
  by (metis take_bit_eq_mask unsigned_take_bit_eq take_bit_eq_mod)

lemma unat_u64: "unat (x :: u64) < 2 ^ 64"
proof -
  have "unat x < 2 ^ LENGTH(64)" by (rule unsigned_less)
  then show ?thesis by simp
qed

lemma unat_word_of_nat_mod: "unat (word_of_nat n :: 'a :: len word) = n mod 2 ^ LENGTH('a)"
  by (simp add: unsigned_of_nat take_bit_eq_mod)

lemma carry_div: "x < w \<Longrightarrow> y < w \<Longrightarrow> (x + y) div w = (if w \<le> x + y then 1 else 0)" for x y w :: nat
  by (auto intro!: div_nat_eqI)

text \<open>Unsigned addition wraps exactly when the sum of the values reaches the modulus.\<close>

lemma word_add_wraps: "(a + b < b) = (2 ^ LENGTH('a) \<le> unat a + unat b)" for a b :: "'a :: len word"
proof -
  have a: "unat a < 2 ^ LENGTH('a)" and b: "unat b < 2 ^ LENGTH('a)" by (rule unsigned_less)+
  have "(a + b < b) = ((unat a + unat b) mod 2 ^ LENGTH('a) < unat b)"
    by (simp add: word_less_nat_alt unat_word_ariths)
  also have "\<dots> = (2 ^ LENGTH('a) \<le> unat a + unat b)"
  proof (cases "unat a + unat b < 2 ^ LENGTH('a)")
    case False
    have "unat a + unat b - 2 ^ LENGTH('a) < 2 ^ LENGTH('a)" using a b by linarith
    with False have "(unat a + unat b) mod 2 ^ LENGTH('a) = unat a + unat b - 2 ^ LENGTH('a)"
      by (simp add: le_mod_geq not_less)
    then show ?thesis using False a by linarith
  qed simp
  finally show ?thesis .
qed

lemma length_le16_bytes [simp]: "length (le16_bytes w) = 2"
  by (simp add: le16_bytes_def)

lemma length_le32_bytes [simp]: "length (le32_bytes w) = 4"
  by (simp add: le32_bytes_def)

lemma le16_of_bytes [simp]: "le16_of (le16_bytes w @ xs) = w"
  by (auto simp add: le16_bytes_def bit_eq_iff bit_simps)

lemma le32_of_bytes [simp]: "le32_of (le32_bytes w @ xs) = w"
proof (rule bit_eqI)
  fix n
  assume "possible_bit TYPE(32 word) n"
  then consider "n < 8" | "8 \<le> n" "n < 16" | "16 \<le> n" "n < 24" | "24 \<le> n" "n < 32"
    by fastforce
  then show "bit (le32_of (le32_bytes w @ xs)) n = bit w n"
    by cases (auto simp: le32_bytes_def bit_simps)
qed

end
