(* ===== verification/Base64.thy ===== *)
theory Base64
  imports Prelude
begin

text \<open>
  \<open>redsocks/base64.c\<close>: the encoder used for HTTP basic authentication and the decoder.  The
  definitions follow the loops of the C code, with its accumulator registers at 32 bits; the
  reference \<open>base64_ref\<close> is the three-octets-to-four-characters table of RFC 4648.
\<close>

subsection \<open>The code\<close>

definition map2 :: bytes where
  "map2 = [
    0x3e, 0xff, 0xff, 0xff, 0x3f, 0x34, 0x35, 0x36,
    0x37, 0x38, 0x39, 0x3a, 0x3b, 0x3c, 0x3d, 0xff,
    0xff, 0xff, 0xff, 0xff, 0xff, 0xff, 0x00, 0x01,
    0x02, 0x03, 0x04, 0x05, 0x06, 0x07, 0x08, 0x09,
    0x0a, 0x0b, 0x0c, 0x0d, 0x0e, 0x0f, 0x10, 0x11,
    0x12, 0x13, 0x14, 0x15, 0x16, 0x17, 0x18, 0x19,
    0xff, 0xff, 0xff, 0xff, 0xff, 0xff, 0x1a, 0x1b,
    0x1c, 0x1d, 0x1e, 0x1f, 0x20, 0x21, 0x22, 0x23,
    0x24, 0x25, 0x26, 0x27, 0x28, 0x29, 0x2a, 0x2b,
    0x2c, 0x2d, 0x2e, 0x2f, 0x30, 0x31, 0x32, 0x33]"

fun base64_decode_loop :: "bytes \<Rightarrow> nat \<Rightarrow> u32 \<Rightarrow> bytes \<Rightarrow> int \<Rightarrow> bytes option" where
  "base64_decode_loop [] i v out out_size = Some out"
| "base64_decode_loop (c # cs) i v out out_size =
     (if c = 0 \<or> c = 61 then Some out
      else
        let index = ucast c - 43 :: u32 in
        if unat index \<ge> length map2 \<or> map2 ! unat index = 0xff then None
        else
          let v' = push_bit 6 v + ucast (map2 ! unat index);
              out' = (if i mod 4 \<noteq> 0 \<and> int (length out) < out_size
                      then out @ [ucast (drop_bit (6 - 2 * (i mod 4)) v')] else out)
          in base64_decode_loop cs (Suc i) v' out' out_size)"

definition base64_decode :: "bytes \<Rightarrow> int \<Rightarrow> bytes option" where
  "base64_decode s out_size = base64_decode_loop s 0 0 [] out_size"

definition b64 :: bytes where
  "b64 = map of_char ''ABCDEFGHIJKLMNOPQRSTUVWXYZabcdefghijklmnopqrstuvwxyz0123456789+/''"

definition BASE64_SIZE :: "int \<Rightarrow> int" where
  "BASE64_SIZE x = (x + 2) div 3 * 4 + 1"

function base64_emit :: "u32 \<Rightarrow> int \<Rightarrow> bool \<Rightarrow> bytes \<Rightarrow> int \<times> bytes" where
  "base64_emit i_bits i_shift fin dst =
     (let dst' = dst @ [b64 ! unat (drop_bit (nat i_shift) (push_bit 6 i_bits) AND 0x3f)];
          i_shift' = i_shift - 6
      in if i_shift' > 6 \<or> (fin \<and> i_shift' > 0)
         then base64_emit i_bits i_shift' fin dst' else (i_shift', dst'))"
  by pat_completeness auto
termination
  by (relation "measure (\<lambda>(b, s, l, d). nat s)") auto

declare base64_emit.simps [simp del]

fun base64_encode_loop :: "bytes \<Rightarrow> u32 \<Rightarrow> int \<Rightarrow> bytes \<Rightarrow> bytes" where
  "base64_encode_loop [] i_bits i_shift dst = dst"
| "base64_encode_loop (c # cs) i_bits i_shift dst =
     (let i_bits' = push_bit 8 i_bits + ucast c;
          (i_shift', dst') = base64_emit i_bits' (i_shift + 8) (cs = []) dst
      in base64_encode_loop cs i_bits' i_shift' dst')"

function base64_pad :: "bytes \<Rightarrow> bytes" where
  "base64_pad dst = (if length dst mod 4 \<noteq> 0 then base64_pad (dst @ [61]) else dst)"
  by pat_completeness auto
termination
proof (relation "measure (\<lambda>dst. (4 - length dst mod 4) mod 4)", goal_cases)
  case (2 dst)
  then have "length dst mod 4 = 1 \<or> length dst mod 4 = 2 \<or> length dst mod 4 = 3"
    by presburger
  then show ?case
    by (auto simp: mod_Suc)
qed simp

declare base64_pad.simps [simp del]

definition base64_encode :: "int \<Rightarrow> bytes \<Rightarrow> bytes option" where
  "base64_encode out_size inp =
     (let in_size = int (length inp) in
      if in_size \<ge> (2 ^ 32 - 1) div 4 \<or> out_size < BASE64_SIZE in_size then None
      else Some (base64_pad (base64_encode_loop inp 0 0 []) @ [0]))"


subsection \<open>Reference encoding\<close>

definition b64_char :: "byte \<Rightarrow> byte" where
  "b64_char x = b64 ! unat x"

fun base64_ref :: "bytes \<Rightarrow> bytes" where
  "base64_ref [] = []"
| "base64_ref [a] = [b64_char (drop_bit 2 a), b64_char (push_bit 4 a AND 0x3f), 61, 61]"
| "base64_ref [a, b] = [b64_char (drop_bit 2 a), b64_char ((push_bit 4 a OR drop_bit 4 b) AND 0x3f),
     b64_char (push_bit 2 b AND 0x3f), 61]"
| "base64_ref (a # b # c # r) =
     [b64_char (drop_bit 2 a), b64_char ((push_bit 4 a OR drop_bit 4 b) AND 0x3f),
      b64_char ((push_bit 2 b OR drop_bit 6 c) AND 0x3f), b64_char (c AND 0x3f)] @ base64_ref r"


subsection \<open>The encoder computes the reference\<close>

lemma mask6: "(0x3f :: 'a::len word) = mask 6" by (simp add: mask_eq_exp_minus_1)

text \<open>The accumulator after one more octet, kept folded so that the sextet lemmas apply to it.\<close>

definition shift_in :: "u32 \<Rightarrow> byte \<Rightarrow> u32" where
  "shift_in x c = push_bit 8 x + ucast c"

lemma shift_in_or: "shift_in x c = push_bit 8 x OR ucast c"
  unfolding shift_in_def
  by (rule disjunctive_add_eq_or) (auto simp: bit_eq_iff bit_simps dest: bit_imp_le_length)

lemma b64_index: "x = ucast y \<Longrightarrow> b64 ! unat (x :: u32) = b64_char y"
  by (simp add: b64_char_def)

lemma sextet_8:
  "b64 ! unat (drop_bit 8 (push_bit 6 (shift_in x a)) AND 0x3f) = b64_char (drop_bit 2 a)"
  by (rule b64_index) (auto simp: shift_in_or mask6 bit_eq_iff bit_simps dest: bit_imp_le_length)

lemma sextet_2:
  "b64 ! unat (drop_bit 2 (push_bit 6 (shift_in x a)) AND 0x3f)
     = b64_char (push_bit 4 a AND 0x3f)"
  by (rule b64_index) (auto simp: shift_in_or mask6 bit_eq_iff bit_simps dest: bit_imp_le_length)

lemma sextet_10:
  "b64 ! unat (drop_bit 10 (push_bit 6 (shift_in (shift_in x a) b)) AND 0x3f)
     = b64_char ((push_bit 4 a OR drop_bit 4 b) AND 0x3f)"
  by (rule b64_index) (auto simp: shift_in_or mask6 bit_eq_iff bit_simps dest: bit_imp_le_length)

lemma sextet_4:
  "b64 ! unat (drop_bit 4 (push_bit 6 (shift_in x b)) AND 0x3f)
     = b64_char (push_bit 2 b AND 0x3f)"
  by (rule b64_index) (auto simp: shift_in_or mask6 bit_eq_iff bit_simps dest: bit_imp_le_length)

lemma sextet_12:
  "b64 ! unat (drop_bit 12 (push_bit 6 (shift_in (shift_in x b) c)) AND 0x3f)
     = b64_char ((push_bit 2 b OR drop_bit 6 c) AND 0x3f)"
  by (rule b64_index) (auto simp: shift_in_or mask6 bit_eq_iff bit_simps dest: bit_imp_le_length)

lemma sextet_6:
  "b64 ! unat (drop_bit 6 (push_bit 6 (shift_in x c)) AND 0x3f)
     = b64_char (c AND 0x3f)"
  by (rule b64_index) (auto simp: shift_in_or mask6 bit_eq_iff bit_simps dest: bit_imp_le_length)

lemma sextet_14:
  "b64 ! unat (drop_bit 14 (push_bit 6 (shift_in (shift_in x c) a)) AND 0x3f)
     = b64_char (c AND 0x3f)"
  by (rule b64_index) (auto simp: shift_in_or mask6 bit_eq_iff bit_simps dest: bit_imp_le_length)

lemmas sextets = sextet_2 sextet_4 sextet_6 sextet_8 sextet_10 sextet_12 sextet_14

lemma base64_emit_8: "base64_emit v 8 fin dst =
    (let d = dst @ [b64 ! unat (drop_bit 8 (push_bit 6 v) AND 0x3f)] in
     if fin then (-4, d @ [b64 ! unat (drop_bit 2 (push_bit 6 v) AND 0x3f)]) else (2, d))"
  by (simp add: base64_emit.simps [of v 8] base64_emit.simps [of v 2] Let_def)

lemma base64_emit_10: "base64_emit v 10 fin dst =
    (let d = dst @ [b64 ! unat (drop_bit 10 (push_bit 6 v) AND 0x3f)] in
     if fin then (-2, d @ [b64 ! unat (drop_bit 4 (push_bit 6 v) AND 0x3f)]) else (4, d))"
  by (simp add: base64_emit.simps [of v 10] base64_emit.simps [of v 4] Let_def)

lemma base64_emit_12: "base64_emit v 12 fin dst =
    (let d = dst @ [b64 ! unat (drop_bit 12 (push_bit 6 v) AND 0x3f)] in
     if fin then (0, d @ [b64 ! unat (drop_bit 6 (push_bit 6 v) AND 0x3f)]) else (6, d))"
  by (simp add: base64_emit.simps [of v 12] base64_emit.simps [of v 6] Let_def)

lemma base64_emit_14: "base64_emit v 14 fin dst =
    base64_emit v 8 fin (dst @ [b64 ! unat (drop_bit 14 (push_bit 6 v) AND 0x3f)])"
  by (simp add: base64_emit.simps [of v 14] Let_def)

lemmas base64_emits = base64_emit_8 base64_emit_10 base64_emit_12 base64_emit_14

text \<open>A sextet still pending at a group boundary is emitted before the next octet.\<close>

lemma base64_encode_loop_pending:
  "base64_encode_loop (a # cs) (shift_in x c) 6 dst =
   base64_encode_loop (a # cs) (shift_in x c) 0 (dst @ [b64_char (c AND 0x3f)])"
  by (simp flip: shift_in_def add: base64_emits sextets)

lemma base64_pad_full: "length dst mod 4 = 0 \<Longrightarrow> base64_pad dst = dst"
  by (simp add: base64_pad.simps)

lemma base64_pad_one: "length dst mod 4 = 0 \<Longrightarrow> base64_pad (dst @ [a, b, c]) = dst @ [a, b, c, 61]"
  by (simp add: base64_pad.simps [of "dst @ [a, b, c]"] base64_pad_full mod_Suc)

lemma base64_pad_two: "length dst mod 4 = 0 \<Longrightarrow> base64_pad (dst @ [a, b]) = dst @ [a, b, 61, 61]"
  by (simp add: base64_pad.simps [of "dst @ [a, b]"] base64_pad_one mod_Suc)

lemma base64_encode_loop_ref:
  "length dst mod 4 = 0 \<Longrightarrow> base64_pad (base64_encode_loop bs x 0 dst) = dst @ base64_ref bs"
proof (induction bs arbitrary: x dst rule: base64_ref.induct)
  case 1
  then show ?case by (simp add: base64_pad_full)
next
  case (2 a)
  then show ?case by (simp flip: shift_in_def add: base64_emits sextets base64_pad_two)
next
  case (3 a b)
  then show ?case by (simp flip: shift_in_def add: base64_emits sextets base64_pad_one)
next
  case (4 a b c r)
  show ?case
  proof (cases r)
    case Nil
    with 4 show ?thesis by (simp flip: shift_in_def add: base64_emits sextets base64_pad_full)
  next
    case (Cons d r')
    with 4 show ?thesis
      by (simp flip: shift_in_def add: base64_emits sextets base64_encode_loop_pending
          del: base64_encode_loop.simps(2) add: base64_encode_loop.simps(2) [of a "b # c # d # r'"]
             base64_encode_loop.simps(2) [of b "c # d # r'"] base64_encode_loop.simps(2) [of c "d # r'"])
  qed
qed

subsection \<open>Decoding\<close>

definition b64_value :: "byte \<Rightarrow> byte option" where
  "b64_value c =
     (let index = ucast c - 43 :: u32 in
      if unat index \<ge> length map2 \<or> map2 ! unat index = 0xff then None
      else Some (map2 ! unat index))"

lemma base64_decode_loop_step:
  "base64_decode_loop (c # cs) i v out out_size =
     (if c = 0 \<or> c = 61 then Some out
      else case b64_value c of None \<Rightarrow> None
        | Some x \<Rightarrow>
          base64_decode_loop cs (Suc i) (push_bit 6 v + ucast x)
            (if i mod 4 \<noteq> 0 \<and> int (length out) < out_size
             then out @ [ucast (drop_bit (6 - 2 * (i mod 4)) (push_bit 6 v + ucast x))] else out)
            out_size)"
  by (simp add: b64_value_def Let_def)

declare base64_decode_loop.simps(2) [simp del]

lemma base64_decode_stop: "c = 0 \<or> c = 61 \<Longrightarrow> base64_decode_loop (c # cs) i v out n = Some out"
  by (simp add: base64_decode_loop_step)

lemma length_b64 [simp]: "length b64 = 64"
  by (simp add: b64_def)

lemma b64_value_alphabet: "map b64_value b64 = map (\<lambda>k. Some (word_of_nat k)) [0..<64]"
  by (simp add: b64_value_def b64_def map2_def upt_conv_Cons)

lemma map2_inverse:
  "list_all (\<lambda>(x, c). x = 0xff \<or> b64 ! unat x = c \<and> unat x < 64) (zip map2 (map word_of_nat [43..<123]))"
  by (simp add: b64_def map2_def upt_rec_numeral)

lemma length_map2: "length map2 = 80"
  by (simp add: map2_def)

lemma map2_entry:
  "n < 80 \<Longrightarrow> map2 ! n \<noteq> 0xff \<Longrightarrow>
     b64 ! unat (map2 ! n) = word_of_nat (43 + n) \<and> unat (map2 ! n) < 64"
  using map2_inverse
  by (auto simp: list_all_length length_map2 simp del: upt_rec_numeral of_nat_add)

lemma b64_value_char: "unat x < 64 \<Longrightarrow> b64_value (b64_char x) = Some x"
  using arg_cong [OF b64_value_alphabet, of "\<lambda>l. l ! unat x"] by (simp add: b64_char_def)

lemma b64_char_not_end: "unat x < 64 \<Longrightarrow> b64_char x \<noteq> 0 \<and> b64_char x \<noteq> 61"
proof -
  assume x: "unat x < 64"
  have "b64_value 0 = None" "b64_value 61 = None"
    by (simp_all add: b64_value_def map2_def)
  with b64_value_char [OF x] show ?thesis by auto
qed

lemma b64_value_Some: "(\<exists>x. b64_value c = Some x) = (c \<in> set b64)"
proof
  assume "\<exists>x. b64_value c = Some x"
  let ?i = "unat (ucast c - 43 :: u32)"
  from \<open>\<exists>x. b64_value c = Some x\<close> have c: "?i < length map2" "map2 ! ?i \<noteq> 0xff"
    by (auto simp: b64_value_def Let_def not_le split: if_splits)
  then have "b64 ! unat (map2 ! ?i) = word_of_nat (43 + ?i)" "unat (map2 ! ?i) < 64"
    using map2_entry [of ?i] by (simp_all add: length_map2 del: of_nat_add)
  moreover have "word_of_nat (43 + ?i) = c"
  proof -
    have "(ucast c - 43 :: u32) = word_of_nat ?i" by simp
    then have "(ucast c :: u32) = word_of_nat (43 + ?i)" by (simp add: algebra_simps)
    then have "unat (ucast c :: u32) = unat (word_of_nat (43 + ?i) :: u32)" by (rule arg_cong)
    then have "unat c = 43 + ?i"
      using c(1) by (simp add: length_map2 unsigned_of_nat take_bit_nat_eq_self del: of_nat_add)
    then show ?thesis by (metis of_nat_unat ucast_id)
  qed
  ultimately show "c \<in> set b64"
    by (metis length_b64 nth_mem)
next
  assume "c \<in> set b64"
  then obtain k where "k < 64" "c = b64 ! k"
    by (metis in_set_conv_nth length_b64)
  then have "c = b64_char (word_of_nat k)" "unat (word_of_nat k :: byte) < 64"
    by (simp_all add: b64_char_def unsigned_of_nat take_bit_nat_eq_self)
  then show "\<exists>x. b64_value c = Some x"
    using b64_value_char by blast
qed


text \<open>The decoder's accumulator after one more sextet.\<close>

definition sextet_in :: "u32 \<Rightarrow> byte \<Rightarrow> u32" where
  "sextet_in v s = push_bit 6 v + ucast s"

lemma sextet_in_mask: "sextet_in v (s AND mask 6) = push_bit 6 v OR ucast (s AND mask 6)"
  unfolding sextet_in_def
  by (rule disjunctive_add_eq_or) (auto simp: bit_eq_iff bit_simps)

lemma sextet_in_first: "sextet_in v (drop_bit 2 a) = push_bit 6 v OR ucast (drop_bit 2 a)"
  unfolding sextet_in_def
  by (rule disjunctive_add_eq_or) (auto simp: bit_eq_iff bit_simps dest: bit_imp_le_length)

lemma Suc_Suc_diff_two: "2 \<le> n \<Longrightarrow> Suc (Suc (n - 2)) = n"
  by simp

lemma octet_1:
  "ucast (drop_bit 4 (sextet_in (sextet_in v (drop_bit 2 a)) ((push_bit 4 a OR drop_bit 4 b) AND 0x3f))) = a"
  "ucast (drop_bit 4 (sextet_in (sextet_in v (drop_bit 2 a)) (push_bit 4 a AND 0x3f))) = a"
  unfolding mask6 sextet_in_mask sextet_in_first
  by (auto simp: bit_eq_iff bit_simps Suc_Suc_diff_two dest: bit_imp_le_length)
    (case_tac "n < 2"; simp add: Suc_Suc_diff_two)+

lemma octet_2:
  "ucast (drop_bit 2 (sextet_in (sextet_in v ((push_bit 4 a OR drop_bit 4 b) AND 0x3f))
     ((push_bit 2 b OR drop_bit 6 c) AND 0x3f))) = b"
  "ucast (drop_bit 2 (sextet_in (sextet_in v ((push_bit 4 a OR drop_bit 4 b) AND 0x3f))
     (push_bit 2 b AND 0x3f))) = b"
  unfolding mask6 sextet_in_mask
  by (auto simp: bit_eq_iff bit_simps dest: bit_imp_le_length)

lemma octet_3:
  "ucast (sextet_in (sextet_in v ((push_bit 2 b OR drop_bit 6 c) AND 0x3f)) (c AND 0x3f)) = c"
  unfolding mask6 sextet_in_mask
  by (auto simp: bit_eq_iff bit_simps dest: bit_imp_le_length)

lemma sextet_less: "unat (s AND 0x3f :: byte) < 64" "unat (drop_bit 2 s :: byte) < 64"
proof -
  have "s AND 0x3f \<le> 0x3f" by (rule word_and_le1)
  then show "unat (s AND 0x3f) < 64" by (simp add: word_le_nat_alt)
  have "unat s < 2 ^ 8" using unsigned_less [of s] by simp
  then show "unat (drop_bit 2 s) < 64"
    by (simp add: drop_bit_eq_div unat_div del: unsigned_less)
qed

lemma base64_decode_char:
  "unat s < 64 \<Longrightarrow> base64_decode_loop (b64_char s # cs) i v out n =
     base64_decode_loop cs (Suc i) (sextet_in v s)
       (if i mod 4 \<noteq> 0 \<and> int (length out) < n
        then out @ [ucast (drop_bit (6 - 2 * (i mod 4)) (sextet_in v s))] else out) n"
  using b64_value_char [of s] b64_char_not_end [of s]
  by (simp add: base64_decode_loop_step sextet_in_def)

lemma base64_decode_ref:
  "i mod 4 = 0 \<Longrightarrow> int (length out + length bs) \<le> n \<Longrightarrow>
     base64_decode_loop (base64_ref bs @ [0]) i v out n = Some (out @ bs)"
proof (induction bs arbitrary: i v out rule: base64_ref.induct)
  case 1
  then show ?case by (simp add: base64_decode_stop)
next
  case (2 a)
  then show ?case by (simp add: base64_decode_char base64_decode_stop sextet_less octet_1 mod_Suc)
next
  case (3 a b)
  then show ?case by (simp add: base64_decode_char base64_decode_stop sextet_less octet_1 octet_2 mod_Suc)
next
  case (4 a b c r)
  then show ?case by (simp add: base64_decode_char base64_decode_stop sextet_less octet_1 octet_2 octet_3 mod_Suc)
qed


lemma base64_decode_loop_NUL: "base64_decode_loop (s @ [0]) i v out n = base64_decode_loop s i v out n"
  by (induction s arbitrary: i v out) (auto simp: base64_decode_loop_step split: option.splits)

lemma base64_decode_NUL: "base64_decode (s @ [0]) n = base64_decode s n"
  by (simp add: base64_decode_def base64_decode_loop_NUL)

subsection \<open>Properties\<close>

lemma base64_encode_cases:
  "base64_encode n bs =
     (if length bs \<ge> (2 ^ 32 - 1) div 4 \<or> n < BASE64_SIZE (int (length bs)) then None
      else Some (base64_ref bs @ [0]))"
  using base64_encode_loop_ref [of "[]" bs 0]
  by (auto simp: base64_encode_def Let_def)

lemma base64_encode_Some:
  "base64_encode n bs = Some s \<Longrightarrow>
     s = base64_ref bs @ [0] \<and> length bs < (2 ^ 32 - 1) div 4 \<and> BASE64_SIZE (int (length bs)) \<le> n"
  using base64_encode_loop_ref [of "[]" bs 0]
  by (auto simp: base64_encode_def Let_def split: if_splits)

lemma length_base64_ref: "length (base64_ref bs) = (length bs + 2) div 3 * 4"
  by (induction bs rule: base64_ref.induct) (auto, presburger)

lemma b64_char_in: "unat x < 64 \<Longrightarrow> b64_char x \<in> set b64"
  by (simp add: b64_char_def)

lemma set_base64_ref: "set (base64_ref bs) \<subseteq> insert 61 (set b64)"
  by (induction bs rule: base64_ref.induct) (auto simp: b64_char_in sextet_less)

text \<open>\<open>base64_encode\<close> is the RFC 4648 encoding followed by a terminating NUL, and it fails in
  exactly two cases: the input is at least a quarter of the unsigned range, or the output buffer is
  smaller than \<open>BASE64_SIZE\<close> of the input.\<close>

theorem base64_encode_eq_ref:
  "base64_encode n bs =
     (if length bs \<ge> (2 ^ 32 - 1) div 4 \<or> n < BASE64_SIZE (int (length bs)) then None
      else Some (base64_ref bs @ [0]))"
  by (rule base64_encode_cases)

text \<open>C40: decoding what was encoded gives the input back, for every output buffer of at least the
  input's size (the accumulator's wrap-around at 32 bits never loses a bit that is still needed).\<close>

theorem base64_roundtrip:
  assumes "base64_encode n bs = Some s" and "int (length bs) \<le> m"
  shows "base64_decode s m = Some bs"
  using base64_encode_Some [OF assms(1)] assms(2)
  by (simp add: base64_decode_def base64_decode_ref)

theorem base64_roundtrip_witness:
  "base64_encode 9 [0xff, 0x00, 0x61, 0x80] = Some (ascii ''/wBhgA=='' @ [0])
     \<and> base64_decode (ascii ''/wBhgA=='' @ [0]) 4 = Some [0xff, 0x00, 0x61, 0x80]"
proof -
  have e: "base64_encode 9 [0xff, 0x00, 0x61, 0x80] = Some (ascii ''/wBhgA=='' @ [0])"
    by (simp add: base64_encode_def BASE64_SIZE_def base64_emit.simps base64_pad.simps b64_def ascii_def)
  moreover have "int (length [0xff, 0x00, 0x61, 0x80 :: byte]) \<le> 4" by simp
  ultimately show ?thesis using base64_roundtrip [OF e] by blast
qed

text \<open>An encoding that succeeds stays inside the caller's buffer, has exactly the size the
  \<open>BASE64_SIZE\<close> macro promises, is NUL terminated and uses only the alphabet and the padding
  character.\<close>

theorem base64_encode_fits:
  assumes "base64_encode n bs = Some s"
  shows "int (length s) = BASE64_SIZE (int (length bs)) \<and> int (length s) \<le> n
         \<and> last s = 0 \<and> set (butlast s) \<subseteq> insert 61 (set b64)"
  using base64_encode_Some [OF assms] set_base64_ref [of bs]
  by (simp add: BASE64_SIZE_def length_base64_ref zdiv_int add.commute)

theorem base64_encode_fits_witness:
  "base64_encode 6 [0x61] = Some (ascii ''YQ=='' @ [0])
     \<and> int (length (ascii ''YQ=='' @ [0])) \<le> 6"
proof -
  have e: "base64_encode 6 [0x61] = Some (ascii ''YQ=='' @ [0])"
    by (simp add: base64_encode_def BASE64_SIZE_def base64_emit.simps base64_pad.simps b64_def ascii_def)
  then show ?thesis using base64_encode_fits [OF e] by blast
qed

lemma base64_decode_loop_None:
  "base64_decode_loop s i v out n = None \<longleftrightarrow>
     \<not> set (takeWhile (\<lambda>c. c \<noteq> 0 \<and> c \<noteq> 61) s) \<subseteq> set b64"
proof (induction s arbitrary: i v out)
  case (Cons c s)
  show ?case
  proof (cases "c = 0 \<or> c = 61")
    case False
    with Cons b64_value_Some [of c] show ?thesis
      by (auto simp: base64_decode_loop_step split: option.splits)
  qed (auto simp: base64_decode_stop)
qed simp

lemma base64_decode_loop_length:
  "base64_decode_loop s i v out n = Some r \<Longrightarrow> int (length out) \<le> max 0 n \<Longrightarrow> int (length r) \<le> max 0 n"
  by (induction s arbitrary: i v out) (auto simp: base64_decode_loop_step split: if_splits option.splits)

text \<open>\<open>base64_decode\<close> fails exactly when a character before the terminator (NUL or \<open>=\<close>) is
  outside the alphabet, and whatever the input it never stores more than \<open>out_size\<close> octets.\<close>

theorem base64_decode_safe:
  "(base64_decode s n = None \<longleftrightarrow> \<not> set (takeWhile (\<lambda>c. c \<noteq> 0 \<and> c \<noteq> 61) s) \<subseteq> set b64) \<and>
   (case base64_decode s n of None \<Rightarrow> True | Some r \<Rightarrow> int (length r) \<le> max 0 n)"
  using base64_decode_loop_length [of s 0 0 "[]" n]
  by (auto simp: base64_decode_def base64_decode_loop_None split: option.splits)

end
