(* ===== verification/Interfaces.thy ===== *)
theory Interfaces
  imports Prelude
begin

text \<open>
  The contracts between components.  Each locale fixes the operations a client calls and assumes
  the laws the provider promises; the theory of the provider interprets it on the definitions that
  translate the code.
\<close>

subsection \<open>Incremental message digests\<close>

text \<open>
  A digest fed piecewise: \<open>repr s m\<close> says that the context \<open>s\<close> has absorbed the message \<open>m\<close>.  The
  client (\<open>http-auth.c\<close>) calls \<open>append\<close> once per field and relies on the result being the digest of
  the concatenation.
\<close>

locale message_digest =
  fixes init :: 's
    and append :: "'s \<Rightarrow> bytes \<Rightarrow> 's"
    and finish :: "'s \<Rightarrow> bytes"
    and reference :: "bytes \<Rightarrow> bytes"
    and repr :: "'s \<Rightarrow> bytes \<Rightarrow> bool"
    and max_chunk :: nat
  assumes repr_init: "repr init []"
    and repr_append: "repr s m \<Longrightarrow> length d < max_chunk \<Longrightarrow> repr (append s d) (m @ d)"
    and finish_repr: "repr s m \<Longrightarrow> finish s = reference m"
begin

lemma repr_foldl:
  "repr s m \<Longrightarrow> \<forall>d \<in> set ds. length d < max_chunk \<Longrightarrow> repr (foldl append s ds) (m @ concat ds)"
proof (induction ds arbitrary: s m)
  case (Cons d ds)
  then have "repr (append s d) (m @ d)" by (simp add: repr_append)
  with Cons show ?case by fastforce
qed simp

lemma digest_chunks:
  "\<forall>d \<in> set ds. length d < max_chunk \<Longrightarrow> finish (foldl append init ds) = reference (concat ds)"
  using finish_repr [OF repr_foldl [OF repr_init]] by simp

lemma digest_rechunk:
  assumes "\<forall>d \<in> set ds. length d < max_chunk" and "\<forall>d \<in> set es. length d < max_chunk"
    and "concat ds = concat es"
  shows "finish (foldl append init ds) = finish (foldl append init es)"
  using assms by (simp add: digest_chunks)

end

subsection \<open>Packet stores\<close>

text \<open>
  A store of packets that publishes the memory its clients read and write: the producer writes a
  packet at \<open>in_dest\<close> (at most \<open>in_avail\<close> octets) and submits its length; the consumer reads
  \<open>out_avail\<close> octets at \<open>out_dest\<close> and consumes the packet.  The laws say that the store is a FIFO
  queue, that writes into the published window do not touch stored packets, that the published
  addresses stay valid while the other side works, and that a store sized for \<open>n\<close> packets of \<open>mtu\<close>
  octets accepts a packet while it holds fewer than \<open>n\<close>.
\<close>

datatype store_op = Put bytes | Take

text \<open>The bounded FIFO queue the store refines: at most \<open>n\<close> packets of at most \<open>mtu\<close> octets.\<close>

fun fifo_run :: "int \<Rightarrow> nat \<Rightarrow> bytes list \<Rightarrow> store_op list \<Rightarrow> (bytes list \<times> bytes list) option" where
  "fifo_run mtu n ps [] = Some (ps, [])"
| "fifo_run mtu n ps (Put p # ops) =
     (if length ps < n \<and> int (length p) \<le> mtu then fifo_run mtu n (ps @ [p]) ops else None)"
| "fifo_run mtu n ps (Take # ops) =
     (case ps of [] \<Rightarrow> None
      | p # ps' \<Rightarrow> map_option (\<lambda>(qs, out). (qs, p # out)) (fifo_run mtu n ps' ops))"

text \<open>The same operations on a store: write at the published address, submit; read, consume.\<close>

fun store_run ::
  "('s \<Rightarrow> int \<Rightarrow> bytes \<Rightarrow> 's) \<Rightarrow> ('s \<Rightarrow> int \<Rightarrow> int \<Rightarrow> bytes) \<Rightarrow> ('s \<Rightarrow> int option) \<Rightarrow> ('s \<Rightarrow> int option) \<Rightarrow> ('s \<Rightarrow> int)
   \<Rightarrow> ('s \<Rightarrow> int \<Rightarrow> 's option) \<Rightarrow> ('s \<Rightarrow> 's option) \<Rightarrow> 's \<Rightarrow> store_op list \<Rightarrow> ('s \<times> bytes list) option" where
  "store_run poke peek in_dest out_dest out_avail submit consume s [] = Some (s, [])"
| "store_run poke peek in_dest out_dest out_avail submit consume s (Put p # ops) =
     (case in_dest s of None \<Rightarrow> None
      | Some a \<Rightarrow> (case submit (poke s a p) (int (length p)) of None \<Rightarrow> None
          | Some s' \<Rightarrow> store_run poke peek in_dest out_dest out_avail submit consume s' ops))"
| "store_run poke peek in_dest out_dest out_avail submit consume s (Take # ops) =
     (case out_dest s of None \<Rightarrow> None
      | Some a \<Rightarrow> (case consume s of None \<Rightarrow> None
          | Some s' \<Rightarrow> map_option (\<lambda>(t, out). (t, peek s a (out_avail s) # out))
              (store_run poke peek in_dest out_dest out_avail submit consume s' ops)))"

locale packet_store =
  fixes repr :: "'s \<Rightarrow> bytes list \<Rightarrow> bool"
    and sized :: "'s \<Rightarrow> int \<Rightarrow> nat \<Rightarrow> bool"
    and poke :: "'s \<Rightarrow> int \<Rightarrow> bytes \<Rightarrow> 's"
    and peek :: "'s \<Rightarrow> int \<Rightarrow> int \<Rightarrow> bytes"
    and in_dest :: "'s \<Rightarrow> int option"
    and in_avail :: "'s \<Rightarrow> int"
    and out_dest :: "'s \<Rightarrow> int option"
    and out_avail :: "'s \<Rightarrow> int"
    and submit :: "'s \<Rightarrow> int \<Rightarrow> 's option"
    and consume :: "'s \<Rightarrow> 's option"
  assumes poke_repr: "repr s ps \<Longrightarrow> in_dest s = Some a \<Longrightarrow> int (length p) \<le> in_avail s \<Longrightarrow>
        repr (poke s a p) ps \<and> in_dest (poke s a p) = in_dest s \<and> in_avail (poke s a p) = in_avail s \<and>
        out_dest (poke s a p) = out_dest s \<and> out_avail (poke s a p) = out_avail s"
    and poke_sized: "sized (poke s a p) m n = sized s m n"
    and submit_repr: "repr s ps \<Longrightarrow> in_dest s = Some a \<Longrightarrow> int (length p) \<le> in_avail s \<Longrightarrow>
        \<exists>s'. submit (poke s a p) (int (length p)) = Some s' \<and> repr s' (ps @ [p]) \<and>
          (ps \<noteq> [] \<longrightarrow> out_dest s' = out_dest s \<and> out_avail s' = out_avail s)"
    and submit_sized: "submit s k = Some s' \<Longrightarrow> sized s m n \<Longrightarrow> sized s' m n"
    and consume_repr: "repr s (p # ps) \<Longrightarrow> \<exists>s'. consume s = Some s' \<and> repr s' ps \<and>
          (in_dest s \<noteq> None \<longrightarrow> in_dest s' = in_dest s) \<and> in_avail s \<le> in_avail s'"
    and consume_sized: "consume s = Some s' \<Longrightarrow> sized s m n \<Longrightarrow> sized s' m n"
    and out_repr: "repr s (p # ps) \<Longrightarrow>
        \<exists>a. out_dest s = Some a \<and> out_avail s = int (length p) \<and> peek s a (out_avail s) = p"
    and out_empty: "repr s [] \<Longrightarrow> out_dest s = None \<and> out_avail s < 0"
    and in_window: "repr s ps \<Longrightarrow> 0 \<le> in_avail s \<Longrightarrow> in_dest s \<noteq> None"
    and room: "repr s ps \<Longrightarrow> sized s mtu n \<Longrightarrow> 0 \<le> mtu \<Longrightarrow> \<forall>p \<in> set ps. int (length p) \<le> mtu \<Longrightarrow>
        length ps < n \<Longrightarrow> mtu \<le> in_avail s"
    and poke_peek: "repr s ps \<Longrightarrow> in_dest s = Some a \<Longrightarrow> 0 \<le> k \<Longrightarrow> k \<le> in_avail s \<Longrightarrow>
        int (length (peek s a k)) = k \<and> poke s a (peek s a k) = s"
begin

text \<open>Submitting what the producer left in the window stores exactly those octets.\<close>

lemma submit_in_place:
  assumes "repr s ps" and "in_dest s = Some a" and "0 \<le> k" and "k \<le> in_avail s"
  shows "\<exists>s'. submit s k = Some s' \<and> repr s' (ps @ [peek s a k]) \<and>
    (ps \<noteq> [] \<longrightarrow> out_dest s' = out_dest s \<and> out_avail s' = out_avail s)"
  using submit_repr [OF assms(1,2), of "peek s a k"] poke_peek [OF assms] assms(4) by simp

lemma run_refines_fifo:
  assumes "repr s ps" and "sized s mtu n" and "0 \<le> mtu" and "\<forall>p \<in> set ps. int (length p) \<le> mtu"
    and "fifo_run mtu n ps ops = Some (qs, out)"
  shows "\<exists>s'. store_run poke peek in_dest out_dest out_avail submit consume s ops = Some (s', out)
    \<and> repr s' qs \<and> sized s' mtu n"
  using assms
proof (induction ops arbitrary: s ps out)
  case (Cons op ops)
  show ?case
  proof (cases op)
    case (Put p)
    with Cons.prems have n: "length ps < n" "int (length p) \<le> mtu" "fifo_run mtu n (ps @ [p]) ops = Some (qs, out)"
      by (auto split: if_splits)
    have "mtu \<le> in_avail s" using room [OF Cons.prems(1-4) n(1)] .
    moreover from this obtain a where a: "in_dest s = Some a"
      using in_window [OF Cons.prems(1)] Cons.prems(3) by auto
    ultimately obtain s1 where s1: "submit (poke s a p) (int (length p)) = Some s1" "repr s1 (ps @ [p])"
      using submit_repr [OF Cons.prems(1) a, of p] n(2) by auto
    have "sized s1 mtu n" using submit_sized [OF s1(1)] Cons.prems(2) by (simp add: poke_sized)
    then obtain s' where "store_run poke peek in_dest out_dest out_avail submit consume s1 ops = Some (s', out)"
      "repr s' qs" "sized s' mtu n"
      using Cons.IH [OF s1(2) _ Cons.prems(3) _ n(3)] Cons.prems(4) n(2) by auto
    with Put a s1 show ?thesis by simp
  next
    case Take
    with Cons.prems obtain p ps' out' where ps: "ps = p # ps'" and r: "fifo_run mtu n ps' ops = Some (qs, out')"
      and out: "out = p # out'"
      by (auto split: list.splits)
    obtain s1 where s1: "consume s = Some s1" "repr s1 ps'"
      using consume_repr [of s p ps'] Cons.prems(1) ps by auto
    obtain a where a: "out_dest s = Some a" "peek s a (out_avail s) = p"
      using out_repr [of s p ps'] Cons.prems(1) ps by auto
    obtain s' where "store_run poke peek in_dest out_dest out_avail submit consume s1 ops = Some (s', out')"
      "repr s' qs" "sized s' mtu n"
      using Cons.IH [OF s1(2) consume_sized [OF s1(1) Cons.prems(2)] Cons.prems(3) _ r] Cons.prems(4) ps by auto
    with Take a s1 out show ?thesis by simp
  qed
qed simp

end

end
