(* ===== verification/Md5.thy ===== *)
theory Md5
  imports Interfaces
begin

text \<open>
  \<open>redsocks/md5.c\<close>: the unrolled MD5 block function, the streaming context and its padding.

  The reference is RFC 1321 read as a table: 64 uniform steps over the sine constants \<open>md5_K\<close>, the
  block chaining of a padded message, and the little-endian rendering of the chaining value.  The
  context represents the message absorbed so far (\<open>md5_repr\<close>), and every operation keeps that.
\<close>

subsection \<open>The code\<close>

type_synonym md5_abcd = "u32 \<times> u32 \<times> u32 \<times> u32"

record md5_state_t =
  count0 :: u32
  count1 :: u32
  abcd :: md5_abcd
  buf :: bytes

definition T_MASK :: u32 where
  "T_MASK = NOT 0"

definition md5_T :: "u32 list" where
  "md5_T = [
    T_MASK XOR 0x28955b87, T_MASK XOR 0x173848a9,
    0x242070db, T_MASK XOR 0x3e423111,
    T_MASK XOR 0x0a83f050, 0x4787c62a,
    T_MASK XOR 0x57cfb9ec, T_MASK XOR 0x02b96afe,
    0x698098d8, T_MASK XOR 0x74bb0850,
    T_MASK XOR 0x0000a44e, T_MASK XOR 0x76a32841,
    0x6b901122, T_MASK XOR 0x02678e6c,
    T_MASK XOR 0x5986bc71, 0x49b40821,
    T_MASK XOR 0x09e1da9d, T_MASK XOR 0x3fbf4cbf,
    0x265e5a51, T_MASK XOR 0x16493855,
    T_MASK XOR 0x29d0efa2, 0x02441453,
    T_MASK XOR 0x275e197e, T_MASK XOR 0x182c0437,
    0x21e1cde6, T_MASK XOR 0x3cc8f829,
    T_MASK XOR 0x0b2af278, 0x455a14ed,
    T_MASK XOR 0x561c16fa, T_MASK XOR 0x03105c07,
    0x676f02d9, T_MASK XOR 0x72d5b375,
    T_MASK XOR 0x0005c6bd, T_MASK XOR 0x788e097e,
    0x6d9d6122, T_MASK XOR 0x021ac7f3,
    T_MASK XOR 0x5b4115bb, 0x4bdecfa9,
    T_MASK XOR 0x0944b49f, T_MASK XOR 0x4140438f,
    0x289b7ec6, T_MASK XOR 0x155ed805,
    T_MASK XOR 0x2b10cf7a, 0x04881d05,
    T_MASK XOR 0x262b2fc6, T_MASK XOR 0x1924661a,
    0x1fa27cf8, T_MASK XOR 0x3b53a99a,
    T_MASK XOR 0x0bd6ddbb, 0x432aff97,
    T_MASK XOR 0x546bdc58, T_MASK XOR 0x036c5fc6,
    0x655b59c3, T_MASK XOR 0x70f3336d,
    T_MASK XOR 0x00100b82, T_MASK XOR 0x7a7ba22e,
    0x6fa87e4f, T_MASK XOR 0x01d3191f,
    T_MASK XOR 0x5cfebceb, 0x4e0811a1,
    T_MASK XOR 0x08ac817d, T_MASK XOR 0x42c50dca,
    0x2ad7d2bb, T_MASK XOR 0x14792c6e]"

definition ROTATE_LEFT :: "u32 \<Rightarrow> nat \<Rightarrow> u32" where
  "ROTATE_LEFT x n = (push_bit n x OR drop_bit (32 - n) x)"

definition md5_F :: "u32 \<Rightarrow> u32 \<Rightarrow> u32 \<Rightarrow> u32" where
  "md5_F x y z = ((x AND y) OR (NOT x AND z))"

definition md5_G :: "u32 \<Rightarrow> u32 \<Rightarrow> u32 \<Rightarrow> u32" where
  "md5_G x y z = ((x AND z) OR (y AND NOT z))"

definition md5_H :: "u32 \<Rightarrow> u32 \<Rightarrow> u32 \<Rightarrow> u32" where
  "md5_H x y z = (x XOR y XOR z)"

definition md5_I :: "u32 \<Rightarrow> u32 \<Rightarrow> u32 \<Rightarrow> u32" where
  "md5_I x y z = (y XOR (x OR NOT z))"

definition md5_SET :: "(u32 \<Rightarrow> u32 \<Rightarrow> u32 \<Rightarrow> u32) \<Rightarrow> u32 \<Rightarrow> u32 \<Rightarrow> u32 \<Rightarrow> u32 \<Rightarrow> u32 \<Rightarrow> nat \<Rightarrow> u32 \<Rightarrow> u32" where
  "md5_SET f a b c d x s ti = ROTATE_LEFT (a + f b c d + x + ti) s + b"

definition md5_X :: "bytes \<Rightarrow> nat \<Rightarrow> u32" where
  "md5_X data k = le32_of (drop (4 * k) data)"

definition md5_round1 :: "bytes \<Rightarrow> md5_abcd \<Rightarrow> md5_abcd" where
  "md5_round1 data r =
     (let (a, b, c, d) = r;
          a = md5_SET md5_F a b c d (md5_X data 0) 7 (md5_T ! 0);
          d = md5_SET md5_F d a b c (md5_X data 1) 12 (md5_T ! 1);
          c = md5_SET md5_F c d a b (md5_X data 2) 17 (md5_T ! 2);
          b = md5_SET md5_F b c d a (md5_X data 3) 22 (md5_T ! 3);
          a = md5_SET md5_F a b c d (md5_X data 4) 7 (md5_T ! 4);
          d = md5_SET md5_F d a b c (md5_X data 5) 12 (md5_T ! 5);
          c = md5_SET md5_F c d a b (md5_X data 6) 17 (md5_T ! 6);
          b = md5_SET md5_F b c d a (md5_X data 7) 22 (md5_T ! 7);
          a = md5_SET md5_F a b c d (md5_X data 8) 7 (md5_T ! 8);
          d = md5_SET md5_F d a b c (md5_X data 9) 12 (md5_T ! 9);
          c = md5_SET md5_F c d a b (md5_X data 10) 17 (md5_T ! 10);
          b = md5_SET md5_F b c d a (md5_X data 11) 22 (md5_T ! 11);
          a = md5_SET md5_F a b c d (md5_X data 12) 7 (md5_T ! 12);
          d = md5_SET md5_F d a b c (md5_X data 13) 12 (md5_T ! 13);
          c = md5_SET md5_F c d a b (md5_X data 14) 17 (md5_T ! 14);
          b = md5_SET md5_F b c d a (md5_X data 15) 22 (md5_T ! 15)
      in (a, b, c, d))"

definition md5_round2 :: "bytes \<Rightarrow> md5_abcd \<Rightarrow> md5_abcd" where
  "md5_round2 data r =
     (let (a, b, c, d) = r;
          a = md5_SET md5_G a b c d (md5_X data 1) 5 (md5_T ! 16);
          d = md5_SET md5_G d a b c (md5_X data 6) 9 (md5_T ! 17);
          c = md5_SET md5_G c d a b (md5_X data 11) 14 (md5_T ! 18);
          b = md5_SET md5_G b c d a (md5_X data 0) 20 (md5_T ! 19);
          a = md5_SET md5_G a b c d (md5_X data 5) 5 (md5_T ! 20);
          d = md5_SET md5_G d a b c (md5_X data 10) 9 (md5_T ! 21);
          c = md5_SET md5_G c d a b (md5_X data 15) 14 (md5_T ! 22);
          b = md5_SET md5_G b c d a (md5_X data 4) 20 (md5_T ! 23);
          a = md5_SET md5_G a b c d (md5_X data 9) 5 (md5_T ! 24);
          d = md5_SET md5_G d a b c (md5_X data 14) 9 (md5_T ! 25);
          c = md5_SET md5_G c d a b (md5_X data 3) 14 (md5_T ! 26);
          b = md5_SET md5_G b c d a (md5_X data 8) 20 (md5_T ! 27);
          a = md5_SET md5_G a b c d (md5_X data 13) 5 (md5_T ! 28);
          d = md5_SET md5_G d a b c (md5_X data 2) 9 (md5_T ! 29);
          c = md5_SET md5_G c d a b (md5_X data 7) 14 (md5_T ! 30);
          b = md5_SET md5_G b c d a (md5_X data 12) 20 (md5_T ! 31)
      in (a, b, c, d))"

definition md5_round3 :: "bytes \<Rightarrow> md5_abcd \<Rightarrow> md5_abcd" where
  "md5_round3 data r =
     (let (a, b, c, d) = r;
          a = md5_SET md5_H a b c d (md5_X data 5) 4 (md5_T ! 32);
          d = md5_SET md5_H d a b c (md5_X data 8) 11 (md5_T ! 33);
          c = md5_SET md5_H c d a b (md5_X data 11) 16 (md5_T ! 34);
          b = md5_SET md5_H b c d a (md5_X data 14) 23 (md5_T ! 35);
          a = md5_SET md5_H a b c d (md5_X data 1) 4 (md5_T ! 36);
          d = md5_SET md5_H d a b c (md5_X data 4) 11 (md5_T ! 37);
          c = md5_SET md5_H c d a b (md5_X data 7) 16 (md5_T ! 38);
          b = md5_SET md5_H b c d a (md5_X data 10) 23 (md5_T ! 39);
          a = md5_SET md5_H a b c d (md5_X data 13) 4 (md5_T ! 40);
          d = md5_SET md5_H d a b c (md5_X data 0) 11 (md5_T ! 41);
          c = md5_SET md5_H c d a b (md5_X data 3) 16 (md5_T ! 42);
          b = md5_SET md5_H b c d a (md5_X data 6) 23 (md5_T ! 43);
          a = md5_SET md5_H a b c d (md5_X data 9) 4 (md5_T ! 44);
          d = md5_SET md5_H d a b c (md5_X data 12) 11 (md5_T ! 45);
          c = md5_SET md5_H c d a b (md5_X data 15) 16 (md5_T ! 46);
          b = md5_SET md5_H b c d a (md5_X data 2) 23 (md5_T ! 47)
      in (a, b, c, d))"

definition md5_round4 :: "bytes \<Rightarrow> md5_abcd \<Rightarrow> md5_abcd" where
  "md5_round4 data r =
     (let (a, b, c, d) = r;
          a = md5_SET md5_I a b c d (md5_X data 0) 6 (md5_T ! 48);
          d = md5_SET md5_I d a b c (md5_X data 7) 10 (md5_T ! 49);
          c = md5_SET md5_I c d a b (md5_X data 14) 15 (md5_T ! 50);
          b = md5_SET md5_I b c d a (md5_X data 5) 21 (md5_T ! 51);
          a = md5_SET md5_I a b c d (md5_X data 12) 6 (md5_T ! 52);
          d = md5_SET md5_I d a b c (md5_X data 3) 10 (md5_T ! 53);
          c = md5_SET md5_I c d a b (md5_X data 10) 15 (md5_T ! 54);
          b = md5_SET md5_I b c d a (md5_X data 1) 21 (md5_T ! 55);
          a = md5_SET md5_I a b c d (md5_X data 8) 6 (md5_T ! 56);
          d = md5_SET md5_I d a b c (md5_X data 15) 10 (md5_T ! 57);
          c = md5_SET md5_I c d a b (md5_X data 6) 15 (md5_T ! 58);
          b = md5_SET md5_I b c d a (md5_X data 13) 21 (md5_T ! 59);
          a = md5_SET md5_I a b c d (md5_X data 4) 6 (md5_T ! 60);
          d = md5_SET md5_I d a b c (md5_X data 11) 10 (md5_T ! 61);
          c = md5_SET md5_I c d a b (md5_X data 2) 15 (md5_T ! 62);
          b = md5_SET md5_I b c d a (md5_X data 9) 21 (md5_T ! 63)
      in (a, b, c, d))"

definition md5_process :: "md5_abcd \<Rightarrow> bytes \<Rightarrow> md5_abcd" where
  "md5_process h data =
     (let (a, b, c, d) = md5_round4 data (md5_round3 data (md5_round2 data (md5_round1 data h)));
          (h0, h1, h2, h3) = h
      in (h0 + a, h1 + b, h2 + c, h3 + d))"

definition md5_init :: md5_state_t where
  "md5_init = \<lparr>count0 = 0, count1 = 0,
     abcd = (0x67452301, T_MASK XOR 0x10325476, T_MASK XOR 0x67452301, 0x10325476),
     buf = replicate 64 0\<rparr>"

function md5_blocks :: "md5_abcd \<Rightarrow> bytes \<Rightarrow> md5_abcd \<times> bytes" where
  "md5_blocks h p =
     (if length p \<ge> 64 then md5_blocks (md5_process h (take 64 p)) (drop 64 p) else (h, p))"
  by pat_completeness auto
termination
  by (relation "measure (\<lambda>(h, p). length p)") auto

declare md5_blocks.simps [simp del]

definition md5_append_tail :: "md5_state_t \<Rightarrow> bytes \<Rightarrow> md5_state_t" where
  "md5_append_tail s p =
     (let (h, left) = md5_blocks (abcd s) p
      in s\<lparr>abcd := h, buf := (if left \<noteq> [] then mem_write (buf s) 0 left else buf s)\<rparr>)"

definition md5_append :: "md5_state_t \<Rightarrow> bytes \<Rightarrow> md5_state_t" where
  "md5_append s data =
     (let nbytes = length data;
          offset = unat (drop_bit 3 (count0 s) AND 63);
          nbits = push_bit 3 (word_of_nat nbytes) :: u32
      in if nbytes = 0 then s
         else
           let c0 = count0 s + nbits;
               c1 = count1 s + drop_bit 29 (word_of_nat nbytes) + (if c0 < nbits then 1 else 0);
               s1 = s\<lparr>count0 := c0, count1 := c1\<rparr>
           in if offset \<noteq> 0 then
                let copy = (if offset + nbytes > 64 then 64 - offset else nbytes);
                    s2 = s1\<lparr>buf := mem_write (buf s1) offset (take copy data)\<rparr>
                in if offset + copy < 64 then s2
                   else md5_append_tail (s2\<lparr>abcd := md5_process (abcd s2) (buf s2)\<rparr>) (drop copy data)
              else md5_append_tail s1 data)"

definition md5_pad :: bytes where
  "md5_pad = 0x80 # replicate 63 0"

definition md5_digest_bytes :: "md5_abcd \<Rightarrow> bytes" where
  "md5_digest_bytes h =
     (let (a, b, c, d) = h in le32_bytes a @ le32_bytes b @ le32_bytes c @ le32_bytes d)"

definition md5_finish :: "md5_state_t \<Rightarrow> bytes" where
  "md5_finish s =
     (let data = le32_bytes (count0 s) @ le32_bytes (count1 s);
          s1 = md5_append s (take (unat ((55 - drop_bit 3 (count0 s)) AND 63) + 1) md5_pad);
          s2 = md5_append s1 data
      in md5_digest_bytes (abcd s2))"


subsection \<open>Reference definition and representation invariant\<close>

definition md5_K :: "u32 list" where
  "md5_K = [
    0xd76aa478, 0xe8c7b756, 0x242070db, 0xc1bdceee,
    0xf57c0faf, 0x4787c62a, 0xa8304613, 0xfd469501,
    0x698098d8, 0x8b44f7af, 0xffff5bb1, 0x895cd7be,
    0x6b901122, 0xfd987193, 0xa679438e, 0x49b40821,
    0xf61e2562, 0xc040b340, 0x265e5a51, 0xe9b6c7aa,
    0xd62f105d, 0x02441453, 0xd8a1e681, 0xe7d3fbc8,
    0x21e1cde6, 0xc33707d6, 0xf4d50d87, 0x455a14ed,
    0xa9e3e905, 0xfcefa3f8, 0x676f02d9, 0x8d2a4c8a,
    0xfffa3942, 0x8771f681, 0x6d9d6122, 0xfde5380c,
    0xa4beea44, 0x4bdecfa9, 0xf6bb4b60, 0xbebfbc70,
    0x289b7ec6, 0xeaa127fa, 0xd4ef3085, 0x04881d05,
    0xd9d4d039, 0xe6db99e5, 0x1fa27cf8, 0xc4ac5665,
    0xf4292244, 0x432aff97, 0xab9423a7, 0xfc93a039,
    0x655b59c3, 0x8f0ccc92, 0xffeff47d, 0x85845dd1,
    0x6fa87e4f, 0xfe2ce6e0, 0xa3014314, 0x4e0811a1,
    0xf7537e82, 0xbd3af235, 0x2ad7d2bb, 0xeb86d391]"

definition md5_ref_f :: "nat \<Rightarrow> u32 \<Rightarrow> u32 \<Rightarrow> u32 \<Rightarrow> u32" where
  "md5_ref_f i x y z =
     (if i < 16 then (x AND y) OR (NOT x AND z)
      else if i < 32 then (x AND z) OR (y AND NOT z)
      else if i < 48 then x XOR y XOR z
      else y XOR (x OR NOT z))"

definition md5_ref_k :: "nat \<Rightarrow> nat" where
  "md5_ref_k i =
     (if i < 16 then i else if i < 32 then (5 * i + 1) mod 16
      else if i < 48 then (3 * i + 5) mod 16 else (7 * i) mod 16)"

definition md5_ref_s :: "nat \<Rightarrow> nat" where
  "md5_ref_s i = [[7, 12, 17, 22], [5, 9, 14, 20], [4, 11, 16, 23], [6, 10, 15, 21]] ! (i div 16) ! (i mod 4)"

fun md5_ref_step :: "bytes \<Rightarrow> md5_abcd \<Rightarrow> nat \<Rightarrow> md5_abcd" where
  "md5_ref_step data (a, b, c, d) i =
     (d, b + word_rotl (md5_ref_s i) (a + md5_ref_f i b c d + le32_of (drop (4 * md5_ref_k i) data) + md5_K ! i), b, c)"

definition md5_ref_block :: "md5_abcd \<Rightarrow> bytes \<Rightarrow> md5_abcd" where
  "md5_ref_block h data =
     (let (a, b, c, d) = foldl (md5_ref_step data) h [0..<64];
          (h0, h1, h2, h3) = h
      in (h0 + a, h1 + b, h2 + c, h3 + d))"

definition md5_IV :: md5_abcd where
  "md5_IV = (0x67452301, 0xefcdab89, 0x98badcfe, 0x10325476)"

definition md5_padding :: "nat \<Rightarrow> bytes" where
  "md5_padding len = 0x80 # replicate ((119 - len mod 64) mod 64) 0"

function md5_ref_blocks :: "md5_abcd \<Rightarrow> bytes \<Rightarrow> md5_abcd" where
  "md5_ref_blocks h p =
     (if length p \<ge> 64 then md5_ref_blocks (md5_ref_block h (take 64 p)) (drop 64 p) else h)"
  by pat_completeness auto
termination
  by (relation "measure (\<lambda>(h, p). length p)") auto

declare md5_ref_blocks.simps [simp del]

text \<open>The output of RFC 1321, section 3.5: the four words, each from its low-order octet to its high-order octet.\<close>

definition md5_ref_output :: "md5_abcd \<Rightarrow> bytes" where
  "md5_ref_output h = (let (a, b, c, d) = h in concat (map (\<lambda>w. map (\<lambda>i. word_of_nat (unat w div 256 ^ i)) [0, 1, 2, 3]) [a, b, c, d]))"

definition md5_reference :: "bytes \<Rightarrow> bytes" where
  "md5_reference msg =
     md5_ref_output (md5_ref_blocks md5_IV
       (msg @ md5_padding (length msg)
          @ le32_bytes (word_of_nat (8 * length msg))
          @ le32_bytes (word_of_nat (8 * length msg div 2 ^ 32))))"

definition md5_repr :: "md5_state_t \<Rightarrow> bytes \<Rightarrow> bool" where
  "md5_repr s msg \<longleftrightarrow>
     count0 s = word_of_nat (8 * length msg) \<and>
     count1 s = word_of_nat (8 * length msg div 2 ^ 32) \<and>
     length (buf s) = 64 \<and>
     (\<exists>rest. md5_blocks md5_IV msg = (abcd s, rest) \<and> take (length rest) (buf s) = rest)"

subsection \<open>The unrolled block function is the reference\<close>

lemma le32_bytes_div: "le32_bytes w = map (\<lambda>i. word_of_nat (unat w div 256 ^ i)) [0, 1, 2, 3]"
proof -
  have u: "(ucast x :: byte) = word_of_nat (unat x)" for x :: u32 by simp
  have "(ucast (drop_bit n w) :: byte) = word_of_nat (unat w div 2 ^ n)" for n
    unfolding u unat_drop_bit_eq by (simp only: drop_bit_eq_div)
  from this [of 0] this [of 8] this [of 16] this [of 24] show ?thesis by (simp add: le32_bytes_def)
qed

lemma md5_digest_bytes_ref: "md5_digest_bytes h = md5_ref_output h"
  by (simp add: md5_digest_bytes_def md5_ref_output_def le32_bytes_div split: prod.splits)

lemma ROTATE_LEFT_rotl:
  assumes "0 < n" and "n < 32"
  shows "ROTATE_LEFT x n = word_rotl n x"
proof (rule bit_word_eqI)
  fix k
  assume "k < LENGTH(32)"
  then have k: "k < 32" by simp
  show "bit (ROTATE_LEFT x n) k = bit (word_rotl n x) k"
  proof (cases "n \<le> k")
    case True
    then have "(k + (32 - n)) mod 32 = k - n" using k assms by (simp add: le_mod_geq)
    moreover have "\<not> bit x (32 - n + k)" using True bit_imp_le_length [of x "32 - n + k"] by auto
    ultimately show ?thesis using True k assms
      by (simp add: ROTATE_LEFT_def bit_simps bit_word_rotl_iff)
  next
    case False
    then have "(k + (32 - n)) mod 32 = 32 - n + k" using k assms by simp
    then show ?thesis using False k assms
      by (simp add: ROTATE_LEFT_def bit_simps bit_word_rotl_iff)
  qed
qed

lemma md5_ref_s_bound:
  assumes "i < 64"
  shows "0 < md5_ref_s i \<and> md5_ref_s i < 32"
proof -
  have "list_all (\<lambda>i. 0 < md5_ref_s i \<and> md5_ref_s i < 32) [0..<64]" by code_simp
  with assms show ?thesis by (simp add: list_all_iff del: upt_rec_numeral)
qed

lemma md5_T_K: "md5_T = md5_K"
  by (simp add: md5_T_def md5_K_def T_MASK_def)

lemma foldl_step_Cons:
  "i < 64 \<Longrightarrow> foldl (md5_ref_step data) (a, b, c, d) (i # is) =
     (let x = md5_SET (md5_ref_f i) a b c d (md5_X data (md5_ref_k i)) (md5_ref_s i) (md5_T ! i)
      in foldl (md5_ref_step data) (d, x, b, c) is)"
  by (simp add: md5_SET_def md5_X_def md5_T_K md5_ref_s_bound ROTATE_LEFT_rotl add.commute)

lemma md5_ref_f_rounds:
  "i < 16 \<Longrightarrow> md5_ref_f i = md5_F"
  "16 \<le> i \<Longrightarrow> i < 32 \<Longrightarrow> md5_ref_f i = md5_G"
  "32 \<le> i \<Longrightarrow> i < 48 \<Longrightarrow> md5_ref_f i = md5_H"
  "48 \<le> i \<Longrightarrow> md5_ref_f i = md5_I"
  by (auto simp: fun_eq_iff md5_ref_f_def md5_F_def md5_G_def md5_H_def md5_I_def)



lemma md5_steps:
  "[0..<64] = ([0, 1, 2, 3, 4, 5, 6, 7, 8, 9, 10, 11, 12, 13, 14, 15] :: nat list)
     @ [16, 17, 18, 19, 20, 21, 22, 23, 24, 25, 26, 27, 28, 29, 30, 31]
     @ [32, 33, 34, 35, 36, 37, 38, 39, 40, 41, 42, 43, 44, 45, 46, 47]
     @ [48, 49, 50, 51, 52, 53, 54, 55, 56, 57, 58, 59, 60, 61, 62, 63]"
  by code_simp

lemma Let_stepI:
  assumes "i < 64" and "e = md5_SET (md5_ref_f i) a b c d (md5_X data (md5_ref_k i)) (md5_ref_s i) (md5_T ! i)"
    and "\<And>x. f x = foldl (md5_ref_step data) (d, x, b, c) is"
  shows "Let e f = foldl (md5_ref_step data) (a, b, c, d) (i # is)"
  unfolding foldl_step_Cons [OF assms(1)] assms(2) by (simp only: Let_def assms(3))

lemmas md5_ref_eval = md5_ref_f_rounds md5_ref_k_def md5_ref_s_def

lemma md5_round1_ref: "md5_round1 data (a, b, c, d) = foldl (md5_ref_step data) (a, b, c, d) [0, 1, 2, 3, 4, 5, 6, 7, 8, 9, 10, 11, 12, 13, 14, 15]"
  unfolding md5_round1_def Let_def [of "(a, b, c, d)"] prod.case
  by (rule Let_stepI, simp, simp add: md5_ref_eval)+ simp

lemma md5_round2_ref: "md5_round2 data (a, b, c, d) = foldl (md5_ref_step data) (a, b, c, d) [16, 17, 18, 19, 20, 21, 22, 23, 24, 25, 26, 27, 28, 29, 30, 31]"
  unfolding md5_round2_def Let_def [of "(a, b, c, d)"] prod.case
  by (rule Let_stepI, simp, simp add: md5_ref_eval)+ simp

lemma md5_round3_ref: "md5_round3 data (a, b, c, d) = foldl (md5_ref_step data) (a, b, c, d) [32, 33, 34, 35, 36, 37, 38, 39, 40, 41, 42, 43, 44, 45, 46, 47]"
  unfolding md5_round3_def Let_def [of "(a, b, c, d)"] prod.case
  by (rule Let_stepI, simp, simp add: md5_ref_eval)+ simp

lemma md5_round4_ref: "md5_round4 data (a, b, c, d) = foldl (md5_ref_step data) (a, b, c, d) [48, 49, 50, 51, 52, 53, 54, 55, 56, 57, 58, 59, 60, 61, 62, 63]"
  unfolding md5_round4_def Let_def [of "(a, b, c, d)"] prod.case
  by (rule Let_stepI, simp, simp add: md5_ref_eval)+ simp

lemma md5_process_ref: "md5_process h data = md5_ref_block h data"
proof -
  have "md5_round4 data (md5_round3 data (md5_round2 data (md5_round1 data h))) = foldl (md5_ref_step data) h [0..<64]"
    unfolding md5_steps foldl_append
    by (metis md5_round1_ref md5_round2_ref md5_round3_ref md5_round4_ref prod_cases4)
  then show ?thesis by (simp add: md5_process_def md5_ref_block_def)
qed

text \<open>C38: the 64 unrolled \<open>SET\<close> statements of \<open>md5_process\<close>, with the masked constants of the C file,
  compute the 64 uniform steps of RFC 1321 with rotations and the sine table, and add the result to
  the chaining value.\<close>

theorem md5_process_rfc1321: "md5_process h data = md5_ref_block h data"
  by (rule md5_process_ref)

lemma md5_blocks_ref: "fst (md5_blocks h p) = md5_ref_blocks h p"
proof (induction h p rule: md5_blocks.induct)
  case (1 h p)
  then show ?case
    by (simp add: md5_blocks.simps [of h p] md5_ref_blocks.simps [of h p] md5_process_ref)
qed

subsection \<open>The context represents the message\<close>

lemma md5_blocks_short: "length p < 64 \<Longrightarrow> md5_blocks h p = (h, p)"
  by (simp add: md5_blocks.simps)

lemma md5_blocks_block: "length p = 64 \<Longrightarrow> md5_blocks h (p @ q) = md5_blocks (md5_process h p) q"
  by (simp add: md5_blocks.simps [of h "p @ q"])

lemma md5_blocks_rest: "length (snd (md5_blocks h p)) = length p mod 64"
proof (induction h p rule: md5_blocks.induct)
  case (1 h p)
  show ?case
  proof (cases "64 \<le> length p")
    case True
    with 1 show ?thesis by (subst md5_blocks.simps) (simp add: le_mod_geq)
  next
    case False
    then show ?thesis by (simp add: md5_blocks_short)
  qed
qed

lemma md5_blocks_append: "md5_blocks h p = (h', r) \<Longrightarrow> md5_blocks h (p @ q) = md5_blocks h' (r @ q)"
proof (induction h p arbitrary: h' r rule: md5_blocks.induct)
  case (1 h p)
  then show ?case
    by (cases "length p < 64") (auto simp: md5_blocks_short md5_blocks.simps [of h p] md5_blocks.simps [of h "p @ q"])
qed

lemma md5_init_repr: "md5_repr md5_init []"
  by (simp add: md5_repr_def md5_init_def md5_IV_def T_MASK_def md5_blocks_short)

lemma md5_offset: "unat (drop_bit 3 (word_of_nat (8 * n) :: u32) AND 63) = n mod 64"
proof -
  have "unat (drop_bit 3 (word_of_nat (8 * n) :: u32) AND mask 6) = (8 * n mod 2 ^ 32 div 2 ^ 3) mod 2 ^ 6"
    by (simp only: unat_and_mask_mod unat_drop_bit_div unat_word_of_nat_mod) simp
  also have "8 * n mod 2 ^ 32 = 2 ^ 3 * (n mod 2 ^ 29)"
    by (simp add: mult_mod_right)
  finally show ?thesis by (simp add: mask_eq_exp_minus_1 mod_mod_cancel)
qed

lemma md5_counts:
  fixes m n :: nat
  assumes "n < 2 ^ 31"
  defines "nb \<equiv> push_bit 3 (word_of_nat n) :: u32"
    and "c \<equiv> word_of_nat (8 * m) :: u32"
  shows "c + nb = word_of_nat (8 * (m + n))"
    and "word_of_nat (8 * m div 2 ^ 32) + drop_bit 29 (word_of_nat n :: u32) + (if c + nb < nb then 1 else 0)
       = (word_of_nat (8 * (m + n) div 2 ^ 32) :: u32)"
proof -
  have nb: "nb = word_of_nat (8 * n)"
    by (simp add: nb_def push_bit_eq_mult)
  then show "c + nb = word_of_nat (8 * (m + n))"
    by (simp add: c_def algebra_simps)
  have "drop_bit 29 (word_of_nat n :: u32) = word_of_nat (8 * n div 2 ^ 32)"
  proof -
    have "unat (drop_bit 29 (word_of_nat n :: u32)) = n div 2 ^ 29"
      using assms(1) by (simp only: unat_drop_bit_div unat_word_of_nat_mod) simp
    moreover have "n div 2 ^ 29 = 8 * n div 2 ^ 32" by simp
    ultimately show ?thesis by (metis of_nat_unat ucast_id)
  qed
  moreover have "(if c + nb < nb then 1 else 0 :: u32) = word_of_nat ((8 * m mod 2 ^ 32 + 8 * n mod 2 ^ 32) div 2 ^ 32)"
    by (subst carry_div) (simp_all add: word_add_wraps nb c_def unat_word_of_nat_mod del: of_nat_mult)
  ultimately show "word_of_nat (8 * m div 2 ^ 32) + drop_bit 29 (word_of_nat n :: u32) + (if c + nb < nb then 1 else 0)
       = (word_of_nat (8 * (m + n) div 2 ^ 32) :: u32)"
    using div_add1_eq [of "8 * m" "8 * n" "2 ^ 32"]
    by (simp add: distrib_left del: of_nat_mult)
qed

lemma md5_append_tail_repr:
  assumes "md5_blocks md5_IV msg = md5_blocks (abcd s) p" and "length (buf s) = 64"
    and "count0 s = word_of_nat (8 * length msg)" and "count1 s = word_of_nat (8 * length msg div 2 ^ 32)"
  shows "md5_repr (md5_append_tail s p) msg"
proof -
  obtain h r where hr: "md5_blocks (abcd s) p = (h, r)" by fastforce
  have "length r < 64" using md5_blocks_rest [of "abcd s" p] hr by simp
  with hr assms show ?thesis
    by (auto simp: md5_repr_def md5_append_tail_def mem_write_def)
qed

lemma md5_append_repr:
  assumes "md5_repr s msg" and "length d < 2 ^ 31"
  shows "md5_repr (md5_append s d) (msg @ d)"
proof (cases "d = []")
  case True
  with assms show ?thesis by (simp add: md5_append_def)
next
  case False
  from assms(1) obtain rest where
    c0: "count0 s = word_of_nat (8 * length msg)"
    and c1: "count1 s = word_of_nat (8 * length msg div 2 ^ 32)"
    and buf: "length (buf s) = 64"
    and rest: "md5_blocks md5_IV msg = (abcd s, rest)" "take (length rest) (buf s) = rest"
    by (auto simp: md5_repr_def)
  have len: "length rest = length msg mod 64"
    using md5_blocks_rest [of md5_IV msg] rest(1) by simp
  then have lt: "length rest < 64" by simp
  have off: "unat (drop_bit 3 (count0 s) AND 63) = length rest"
    by (simp only: c0 md5_offset len)
  note counts = md5_counts(1) [OF assms(2), of "length msg"]
    md5_counts(2) [OF assms(2), of "length msg", unfolded md5_counts(1) [OF assms(2), of "length msg"]]
  have app: "md5_blocks md5_IV (msg @ d) = md5_blocks (abcd s) (rest @ d)"
    by (rule md5_blocks_append) (rule rest(1))
  define s1 where "s1 = s\<lparr>count0 := word_of_nat (8 * length (msg @ d)),
    count1 := word_of_nat (8 * length (msg @ d) div 2 ^ 32)\<rparr>"
  have s1: "md5_append s d = (if length rest \<noteq> 0 then
      let copy = (if length rest + length d > 64 then 64 - length rest else length d);
          s2 = s1\<lparr>buf := mem_write (buf s1) (length rest) (take copy d)\<rparr>
      in if length rest + copy < 64 then s2
         else md5_append_tail (s2\<lparr>abcd := md5_process (abcd s2) (buf s2)\<rparr>) (drop copy d)
      else md5_append_tail s1 d)"
    using False unfolding md5_append_def Let_def off
    unfolding c0 c1 counts by (simp add: s1_def Let_def)
  show ?thesis
  proof (cases "rest = [] \<or> 64 \<le> length rest + length d")
    case False
    then have short: "length (rest @ d) < 64" by simp
    with False buf rest(2) s1 app show ?thesis
      by (simp add: md5_repr_def s1_def md5_blocks_short mem_write_def Let_def)
  next
    case full: True
    let ?copy = "64 - length rest"
    have blk: "rest \<noteq> [] \<Longrightarrow> mem_write (buf s) (length rest) (take ?copy d) = rest @ take ?copy d"
      using full buf rest(2) by (simp add: mem_write_def)
    have "rest \<noteq> [] \<Longrightarrow> md5_blocks (abcd s) (rest @ d)
      = md5_blocks (md5_process (abcd s) (rest @ take ?copy d)) (drop ?copy d)"
      using full md5_blocks_block [of "rest @ take ?copy d" "abcd s" "drop ?copy d"] len by simp
    with full buf blk app lt show ?thesis
      unfolding s1
      by (auto simp: s1_def Let_def intro!: md5_append_tail_repr)
  qed
qed


lemma pad_arith: "(x + y) mod 64 = 55 \<Longrightarrow> x mod 64 = (119 - y mod 64) mod 64" for x y :: nat
proof -
  assume a: "(x + y) mod 64 = 55"
  define q r where "q = x mod 64" and "r = y mod 64"
  have "(q + r) mod 64 = 55" and q: "q < 64" and r: "r < 64"
    using a by (simp_all add: q_def r_def mod_add_eq)
  then have "q + r = 55 \<or> q + r = 119"
    by (cases "q + r < 64") (auto simp: le_mod_geq)
  then have "q = (119 - r) mod 64"
  proof
    assume "q + r = 55"
    then have "119 - r = 64 + q" by simp
    with q show ?thesis by simp
  next
    assume "q + r = 119"
    then have "119 - r = q" by simp
    with q show ?thesis by simp
  qed
  then show ?thesis by (simp add: q_def r_def)
qed

lemma md5_pad_length: "unat ((55 - drop_bit 3 (word_of_nat (8 * n) :: u32)) AND 63) = (119 - n mod 64) mod 64"
proof -
  let ?w = "drop_bit 3 (word_of_nat (8 * n) :: u32)"
  have "unat ?w mod 64 = n mod 64"
    using md5_offset [of n] unat_and_mask_mod [of ?w 6] by (simp add: mask_eq_exp_minus_1)
  moreover have "(unat (55 - ?w) + unat ?w) mod 2 ^ 32 = 55"
    using unat_word_ariths(1) [of "55 - ?w" ?w] by simp
  then have "((unat (55 - ?w) + unat ?w) mod 2 ^ 32) mod 64 = 55" by simp
  then have "(unat (55 - ?w) + unat ?w) mod 64 = 55" by (simp add: mod_mod_cancel)
  ultimately have "unat (55 - ?w) mod 64 = (119 - n mod 64) mod 64" by (metis pad_arith)
  then show ?thesis
    using unat_and_mask_mod [of "55 - ?w" 6] by (simp add: mask_eq_exp_minus_1)
qed

lemma md5_finish_repr:
  assumes "md5_repr s msg"
  shows "md5_finish s = md5_reference msg"
proof -
  let ?pad = "md5_padding (length msg)" and ?z = "(119 - length msg mod 64) mod 64"
  let ?len = "le32_bytes (count0 s) @ le32_bytes (count1 s)"
  have c: "count0 s = word_of_nat (8 * length msg)" "count1 s = word_of_nat (8 * length msg div 2 ^ 32)"
    using assms by (simp_all add: md5_repr_def)
  have "?z < 64" by simp
  then have pad: "take (unat ((55 - drop_bit 3 (count0 s)) AND 63) + 1) md5_pad = ?pad"
    by (simp only: c md5_pad_length) (simp add: md5_pad_def md5_padding_def)
  have "md5_repr (md5_append (md5_append s ?pad) ?len) ((msg @ ?pad) @ ?len)"
    by (intro md5_append_repr assms) (simp_all add: md5_padding_def)
  then show ?thesis
    unfolding md5_finish_def Let_def pad
    by (auto simp: md5_reference_def md5_repr_def c simp flip: md5_blocks_ref md5_digest_bytes_ref)
qed

text \<open>The streaming interface of the digest, discharged for this implementation.\<close>

interpretation md5: message_digest md5_init md5_append md5_finish md5_reference md5_repr "2 ^ 31"
  by unfold_locales (rule md5_init_repr md5_append_repr md5_finish_repr; assumption?)+

text \<open>However the caller cuts the message into \<open>md5_append\<close> calls (each below the range of the
  \<open>int\<close> length argument), \<open>md5_finish\<close> returns the RFC 1321 digest of the whole message: block
  buffering, the two-word bit count with its carry and the padding are right at every offset.\<close>

theorem md5_streaming:
  assumes "\<forall>d \<in> set ds. length d < 2 ^ 31"
  shows "md5_finish (foldl md5_append md5_init ds) = md5_reference (concat ds)"
  using assms by (rule md5.digest_chunks)

theorem md5_streaming_witness:
  "md5_finish (foldl md5_append md5_init [[0x61], [], [0x62, 0x63]]) = md5_reference [0x61, 0x62, 0x63]"
  using md5_streaming [of "[[0x61], [], [0x62, 0x63]]"] by simp

lemma length_md5_reference [simp]: "length (md5_reference msg) = 16"
  by (simp add: md5_reference_def md5_ref_output_def split: prod.splits)

lemma length_md5_finish [simp]: "length (md5_finish s) = 16"
  by (simp add: md5_finish_def md5_digest_bytes_def Let_def split: prod.splits)

end
