(* ===== verification/HttpAuth.thy ===== *)
theory HttpAuth
  imports Base64 Md5
begin

text \<open>
  \<open>redsocks/http-auth.c\<close>: the basic and digest credentials for an HTTP proxy.  C strings are lists of
  octets without the terminator.  \<open>malloc\<close> and \<open>calloc\<close> do not fail in the model; a \<open>NULL\<close> argument or
  result is \<open>None\<close>.
\<close>

subsection \<open>The code\<close>

definition isspace :: "byte \<Rightarrow> bool" where
  "isspace c \<longleftrightarrow> c = 32 \<or> (9 \<le> c \<and> c \<le> 13)"

definition tolower :: "byte \<Rightarrow> byte" where
  "tolower c = (if 65 \<le> c \<and> c \<le> 90 then c + 32 else c)"

fun strncasecmp_eq :: "bytes \<Rightarrow> bytes \<Rightarrow> nat \<Rightarrow> bool" where
  "strncasecmp_eq _ _ 0 = True"
| "strncasecmp_eq [] [] (Suc n) = True"
| "strncasecmp_eq (a # as) (b # bs) (Suc n) = (tolower a = tolower b \<and> strncasecmp_eq as bs n)"
| "strncasecmp_eq _ _ (Suc n) = False"

definition basic_authentication_encode :: "bytes \<Rightarrow> bytes \<Rightarrow> bytes option" where
  "basic_authentication_encode user passwd =
     (let pair = user @ ascii '':'' @ passwd
      in map_option butlast (base64_encode (BASE64_SIZE (int (length pair))) pair))"

definition hexdigit :: "byte \<Rightarrow> byte" where
  "hexdigit n = (if n < 10 then 48 + n else 87 + n)"

definition hex2 :: "byte \<Rightarrow> bytes" where
  "hex2 b = [hexdigit (drop_bit 4 b), hexdigit (b AND 15)]"

definition dump_hash :: "bytes \<Rightarrow> bytes" where
  "dump_hash hash = concat (map hex2 hash)"

definition hex8 :: "u32 \<Rightarrow> bytes" where
  "hex8 w = concat (map hex2 (rev (le32_bytes w)))"

definition extract_value :: "bytes \<Rightarrow> byte \<Rightarrow> (bytes \<times> bytes) option" where
  "extract_value p separator =
     (case dropWhile isspace p of
        [] \<Rightarrow> Some ([], [])
      | c # q \<Rightarrow>
          if c = 34 then
            let value = takeWhile (\<lambda>c. c \<noteq> 34) q;
                p = dropWhile (\<lambda>c. c \<noteq> 34) q
            in if p = [] then None
               else Some (value, tl (dropWhile (\<lambda>c. c \<noteq> separator) (dropWhile isspace (tl p))))
          else
            let value = takeWhile (\<lambda>c. c \<noteq> separator) (c # q)
            in Some (rev (dropWhile isspace (rev value)),
                     tl (dropWhile (\<lambda>c. c \<noteq> separator) (c # q))))"

definition name_char :: "byte \<Rightarrow> byte \<Rightarrow> bool" where
  "name_char separator c \<longleftrightarrow> \<not> isspace c \<and> c \<noteq> 61 \<and> c \<noteq> separator"

definition extract_param :: "bytes \<Rightarrow> byte \<Rightarrow> (bytes \<times> bytes \<times> bytes) option" where
  "extract_param source separator =
     (let p = dropWhile isspace source in
      if p = [] then None
      else
        let name = takeWhile (name_char separator) p;
            p = dropWhile (name_char separator) p
        in if name = [] then None
        else
          case dropWhile isspace p of
            [] \<Rightarrow> Some (name, [], [])
          | c # q \<Rightarrow>
              if c = separator then Some (name, [], q)
              else if c \<noteq> 61 then None
              else map_option (\<lambda>(value, rest). (name, value, rest)) (extract_value q separator))"

record digest_params =
  realm :: "bytes option"
  opaque :: "bytes option"
  nonce :: "bytes option"
  qop :: "bytes option"

definition no_params :: digest_params where
  "no_params = \<lparr>realm = None, opaque = None, nonce = None, qop = None\<rparr>"

definition set_param :: "digest_params \<Rightarrow> bytes \<Rightarrow> bytes \<Rightarrow> digest_params" where
  "set_param d name value =
     (let n = length name in
      if strncasecmp_eq name (ascii ''realm'') n then d\<lparr>realm := Some value\<rparr>
      else if strncasecmp_eq name (ascii ''opaque'') n then d\<lparr>opaque := Some value\<rparr>
      else if strncasecmp_eq name (ascii ''nonce'') n then d\<lparr>nonce := Some value\<rparr>
      else if strncasecmp_eq name (ascii ''qop'') n then d\<lparr>qop := Some value\<rparr>
      else d)"

lemma length_tl_dropWhile: "length (tl (dropWhile P xs)) \<le> length xs"
  by (metis diff_le_self dual_order.trans length_dropWhile_le length_tl)

lemma extract_value_length: "extract_value p c = Some (v, r) \<Longrightarrow> length r \<le> length p"
proof -
  assume ev: "extract_value p c = Some (v, r)"
  show ?thesis
  proof (cases "dropWhile isspace p")
    case Nil
    with ev show ?thesis by (simp add: extract_value_def)
  next
    case (Cons a q)
    have p: "length (a # q) \<le> length p"
      using length_dropWhile_le [of isspace p] Cons by simp
    have quoted: "length (tl (dropWhile P (dropWhile isspace (tl (dropWhile Q q))))) \<le> length q" for P Q
      by (meson le_trans length_dropWhile_le length_tl_dropWhile)
    have "length r \<le> length (a # q)"
    proof (cases "a = 34")
      case True
      with ev Cons have "r = tl (dropWhile (\<lambda>x. x \<noteq> c) (dropWhile isspace (tl (dropWhile (\<lambda>x. x \<noteq> 34) q))))"
        by (auto simp: extract_value_def Let_def split: if_splits)
      with quoted show ?thesis by (simp add: le_SucI)
    next
      case False
      with ev Cons have "r = tl (dropWhile (\<lambda>x. x \<noteq> c) (a # q))"
        by (auto simp: extract_value_def Let_def)
      then show ?thesis by (simp only: length_tl_dropWhile)
    qed
    with p show ?thesis by (rule le_trans [rotated])
  qed
qed

lemma extract_param_shorter:
  assumes "extract_param s c = Some (n, v, r)"
  shows "length r < length s"
proof -
  let ?p = "dropWhile isspace s"
  have "takeWhile (name_char c) ?p \<noteq> []" "?p \<noteq> []"
    using assms by (auto simp: extract_param_def Let_def split: if_splits)
  then have "length (dropWhile (name_char c) ?p) < length ?p"
    by (cases ?p) (auto simp: le_imp_less_Suc length_dropWhile_le split: if_splits)
  then have "length (dropWhile isspace (dropWhile (name_char c) ?p)) < length s"
    by (meson le_less_trans less_le_trans length_dropWhile_le)
  then show ?thesis
    using assms \<open>takeWhile (name_char c) ?p \<noteq> []\<close>
    by (auto simp: extract_param_def Let_def dest!: extract_value_length split: if_splits list.splits)
qed

function digest_parse :: "bytes \<Rightarrow> digest_params \<Rightarrow> digest_params" where
  "digest_parse line d =
     (case extract_param line 44 of
        None \<Rightarrow> d
      | Some (name, value, rest) \<Rightarrow> digest_parse rest (set_param d name value))"
  by pat_completeness auto
termination
  by (relation "measure (\<lambda>(line, d). length line)") (auto simp: extract_param_shorter)

declare digest_parse.simps [simp del]

definition md5_hex :: "bytes list \<Rightarrow> bytes" where
  "md5_hex chunks = dump_hash (md5_finish (foldl md5_append md5_init chunks))"

definition digest_response ::
  "bytes \<Rightarrow> bytes \<Rightarrow> bytes \<Rightarrow> bytes \<Rightarrow> bytes \<Rightarrow> bytes \<Rightarrow> bytes \<Rightarrow> bytes \<Rightarrow> bytes option \<Rightarrow> bytes" where
  "digest_response user passwd method path nc cnonce r n q =
     (let colon = ascii '':'';
          a1buf = md5_hex [user, colon, r, colon, passwd];
          a2buf = md5_hex [method, colon, path]
      in md5_hex ([a1buf, colon, n, colon]
           @ (case q of None \<Rightarrow> [] | Some q \<Rightarrow> [nc, colon, cnonce, colon, q, colon])
           @ [a2buf]))"

definition quoted :: "string \<Rightarrow> bytes \<Rightarrow> bytes" where
  "quoted key value = ascii key @ [61, 34] @ value @ [34]"

definition digest_header ::
  "bytes \<Rightarrow> bytes \<Rightarrow> bytes \<Rightarrow> bytes \<Rightarrow> bytes \<Rightarrow> bytes \<Rightarrow> bytes \<Rightarrow> bytes option \<Rightarrow> bytes option \<Rightarrow> bytes" where
  "digest_header user r n path response nc cnonce q opq =
     quoted ''username'' user @ ascii '', '' @ quoted ''realm'' r @ ascii '', '' @ quoted ''nonce'' n
     @ ascii '', '' @ quoted ''uri'' path @ ascii '', '' @ quoted ''response'' response
     @ (case q of None \<Rightarrow> []
        | Some q \<Rightarrow> ascii '', qop='' @ q @ ascii '', nc='' @ nc @ ascii '', '' @ quoted ''cnonce'' cnonce)
     @ (case opq of None \<Rightarrow> [] | Some opq \<Rightarrow> ascii '', '' @ quoted ''opaque'' opq)"

definition digest_alloc ::
  "bytes \<Rightarrow> bytes \<Rightarrow> bytes \<Rightarrow> bytes \<Rightarrow> bytes \<Rightarrow> bytes \<Rightarrow> bytes \<Rightarrow> bytes option \<Rightarrow> bytes option \<Rightarrow> nat" where
  "digest_alloc user r n path response nc cnonce q opq =
     256 + length user + length r + length n + length path + length response
     + (case q of None \<Rightarrow> 0 | Some q \<Rightarrow> length q + length nc + length cnonce)
     + (case opq of None \<Rightarrow> 0 | Some opq \<Rightarrow> length opq)"

definition digest_authentication_encode ::
  "bytes \<Rightarrow> bytes option \<Rightarrow> bytes option \<Rightarrow> bytes option \<Rightarrow> bytes option \<Rightarrow> u32 \<Rightarrow> bytes \<Rightarrow> bytes option" where
  "digest_authentication_encode line user passwd method path count cnonce =
     (let nc = hex8 count;
          d = digest_parse line no_params
      in case (realm d, nonce d, user, passwd, path, method) of
           (Some r, Some n, Some u, Some pw, Some uri, Some m) \<Rightarrow>
             if (case qop d of None \<Rightarrow> False | Some q \<Rightarrow> \<not> strncasecmp_eq q (ascii ''auth'') 5) then None
             else
               let response = digest_response u pw m uri nc cnonce r n (qop d)
               in Some (digest_header u r n uri response nc cnonce (qop d) (opaque d))
         | _ \<Rightarrow> None)"

subsection \<open>Lemmas\<close>

lemma length_hex2 [simp]: "length (hex2 b) = 2"
  by (simp add: hex2_def)

lemma length_dump_hash [simp]: "length (dump_hash h) = 2 * length h"
  by (induction h) (simp_all add: dump_hash_def)

lemma length_hex8 [simp]: "length (hex8 w) = 8"
  by (simp add: hex8_def le32_bytes_def)

lemma length_md5_hex [simp]: "length (md5_hex ds) = 32"
  by (simp add: md5_hex_def)

text \<open>RFC 2617, section 3.1.3: the bits of a digest from the most significant to the least, four bits at a time, each four
  by their notation in the characters \<open>0123456789abcdef\<close>.\<close>

definition lhex :: "nat \<Rightarrow> byte" where
  "lhex n = ascii ''0123456789abcdef'' ! n"

definition H_hex :: "bytes \<Rightarrow> bytes" where
  "H_hex msg = concat (map (\<lambda>b. [lhex (unat b div 16), lhex (unat b mod 16)]) (md5_reference msg))"

lemma hex2_lhex: "hex2 b = [lhex (unat b div 16), lhex (unat b mod 16)]"
proof -
  have "list_all (\<lambda>n. hex2 (word_of_nat n) = [lhex (n div 16), lhex (n mod 16)]) [0..<256]" by code_simp
  moreover have "unat b \<in> set [0..<256]" using unsigned_less [of b] by simp
  ultimately have "hex2 (word_of_nat (unat b)) = [lhex (unat b div 16), lhex (unat b mod 16)]" unfolding list_all_iff by (rule bspec)
  then show ?thesis by simp
qed

lemma hex2_eq: "hex2 = (\<lambda>b. [lhex (unat b div 16), lhex (unat b mod 16)])"
  by (rule ext) (rule hex2_lhex)

lemma md5_hex_reference: "\<forall>d \<in> set ds. length d < 2 ^ 31 \<Longrightarrow> md5_hex ds = H_hex (concat ds)"
  by (simp add: md5_hex_def H_hex_def dump_hash_def hex2_eq md5.digest_chunks del: power_numeral)

lemma length_H_hex [simp]: "length (H_hex msg) = 32"
  by (simp add: H_hex_def length_concat comp_def sum_list_triv)

text \<open>C39: the response computed by \<open>digest_authentication_encode\<close> is the RFC 2617 request digest over
  the RFC 1321 digests in lower-case hexadecimal, with and without a \<open>qop\<close> (the fields are below the \<open>int\<close> range
  of \<open>md5_append\<close>).\<close>

theorem digest_response_rfc2617:
  assumes "\<forall>s \<in> {user, passwd, method, path, nc, cnonce, r, n}. length s < 2 ^ 31"
    and "\<forall>s \<in> set_option q. length s < 2 ^ 31"
  shows "digest_response user passwd method path nc cnonce r n q =
    H_hex (H_hex (user @ ascii '':'' @ r @ ascii '':'' @ passwd) @ ascii '':'' @ n @ ascii '':''
      @ (case q of None \<Rightarrow> [] | Some q \<Rightarrow> nc @ ascii '':'' @ cnonce @ ascii '':'' @ q @ ascii '':'')
      @ H_hex (method @ ascii '':'' @ path))"
  using assms
  by (cases q) (simp_all add: digest_response_def Let_def md5_hex_reference)

theorem digest_response_rfc2617_witness:
  "digest_response [1] [2] [3] [4] [5] [6] [7] [8] (Some [9]) =
     H_hex (H_hex ([1] @ ascii '':'' @ [7] @ ascii '':'' @ [2]) @ ascii '':'' @ [8] @ ascii '':''
      @ ([5] @ ascii '':'' @ [6] @ ascii '':'' @ [9] @ ascii '':'')
      @ H_hex ([3] @ ascii '':'' @ [4]))"
  using digest_response_rfc2617 [of "[1]" "[2]" "[3]" "[4]" "[5]" "[6]" "[7]" "[8]" "Some [9]"] by simp

text \<open>The header line the two \<open>sprintf\<close> calls and the \<open>strcat\<close> calls produce, terminator
  included, never exceeds the length computed for its \<open>malloc\<close>, whatever the fields.\<close>

theorem digest_header_fits:
  "length (digest_header user r n path response nc cnonce q opq) + 1
     \<le> digest_alloc user r n path response nc cnonce q opq"
  by (cases q; cases opq) (simp_all add: digest_header_def digest_alloc_def quoted_def)

text \<open>The basic credentials decode back to \<open>user:password\<close>; encoding never fails for
  credentials of realistic size.\<close>

theorem basic_authentication_roundtrip:
  assumes "length user + length passwd < 2 ^ 29"
  shows "\<exists>s. basic_authentication_encode user passwd = Some s \<and>
     base64_decode s (int (length user + length passwd + 1)) = Some (user @ ascii '':'' @ passwd)"
proof -
  let ?pair = "user @ ascii '':'' @ passwd"
  have enc: "base64_encode (BASE64_SIZE (int (length ?pair))) ?pair = Some (base64_ref ?pair @ [0])"
    using assms by (simp add: base64_encode_cases)
  have "base64_decode (base64_ref ?pair) (int (length ?pair)) = Some ?pair"
    using base64_decode_ref [of 0 "[]" ?pair "int (length ?pair)" 0]
    by (simp add: base64_decode_def base64_decode_loop_NUL)
  with enc show ?thesis
    by (simp add: basic_authentication_encode_def Let_def)
qed

theorem basic_authentication_roundtrip_witness:
  "\<exists>s. basic_authentication_encode (ascii ''ab'') (ascii ''c'') = Some s \<and>
     base64_decode s 4 = Some (ascii ''ab:c'')"
  using basic_authentication_roundtrip [of "ascii ''ab''" "ascii ''c''"] by (simp add: ascii_def)

subsection \<open>Parsing a challenge\<close>

definition print_param :: "bytes \<times> bytes \<Rightarrow> bytes" where
  "print_param nv = fst nv @ [61, 34] @ snd nv @ [34]"

fun print_params :: "(bytes \<times> bytes) list \<Rightarrow> bytes" where
  "print_params [] = []"
| "print_params [nv] = print_param nv"
| "print_params (nv # nvs) = print_param nv @ [44, 32] @ print_params nvs"

definition wf_param :: "bytes \<times> bytes \<Rightarrow> bool" where
  "wf_param nv \<longleftrightarrow> fst nv \<noteq> [] \<and> list_all (name_char 44) (fst nv) \<and> 34 \<notin> set (snd nv)"

lemma extract_param_quoted:
  assumes "wf_param nv"
  shows "extract_param (print_param nv @ r) 44
     = Some (fst nv, snd nv, tl (dropWhile (\<lambda>c. c \<noteq> 44) (dropWhile isspace r)))"
proof -
  obtain a n v where nv: "nv = (a # n, v)"
    using assms by (cases nv; cases "fst nv") (auto simp: wf_param_def)
  have nm: "list_all (name_char 44) (a # n)" and v: "34 \<notin> set v"
    using assms nv by (auto simp: wf_param_def)
  then have a: "\<not> isspace a" by (simp add: name_char_def)
  have eq: "\<not> name_char 44 61" "\<not> isspace 61" "\<not> isspace 34"
    by (simp_all add: name_char_def isspace_def)
  have tw: "takeWhile (name_char 44) ((a # n) @ 61 # x) = a # n"
    "dropWhile (name_char 44) ((a # n) @ 61 # x) = 61 # x" for x
    using nm eq by (simp_all add: list_all_iff takeWhile_append2 dropWhile_append2)
  have vq: "takeWhile (\<lambda>c. c \<noteq> 34) (v @ 34 # x) = v" "dropWhile (\<lambda>c. c \<noteq> 34) (v @ 34 # x) = 34 # x" for x
    using v by (induction v) (simp_all add: eq_commute)
  have "extract_value (34 # v @ 34 # r) 44 = Some (v, tl (dropWhile (\<lambda>c. c \<noteq> 44) (dropWhile isspace r)))"
    using eq vq [of r] by (simp add: extract_value_def)
  then show ?thesis
    using a tw [of "34 # v @ 34 # r"] eq nv by (simp add: extract_param_def print_param_def)
qed

text \<open>A challenge printed as a comma separated list of quoted parameters is parsed back
  parameter by parameter: no parameter is skipped, split or merged, whatever the values contain
  (commas, blanks and equal signs included) as long as they hold no quote.\<close>

theorem digest_parse_challenge:
  assumes "list_all wf_param nvs"
  shows "digest_parse (print_params nvs) d = foldl (\<lambda>d nv. set_param d (fst nv) (snd nv)) d nvs"
  using assms
proof (induction nvs arbitrary: d rule: print_params.induct)
  case 1
  then show ?case by (simp add: digest_parse.simps extract_param_def)
next
  case (2 nv)
  then show ?case
    using extract_param_quoted [of nv "[]"]
    by (simp add: digest_parse.simps [of "print_param nv"]) (simp add: digest_parse.simps extract_param_def)
next
  case (3 nv nv' nvs)
  have sp: "isspace 32" "\<not> isspace 44" by (simp_all add: isspace_def)
  have skip: "digest_parse (32 # s) d = digest_parse s d" for s d
    using sp by (simp add: digest_parse.simps [of "32 # s"] digest_parse.simps [of s] extract_param_def)
  from 3 show ?case
    using extract_param_quoted [of nv "44 # 32 # print_params (nv' # nvs)"] sp
    by (simp add: digest_parse.simps [of "print_param nv @ 44 # 32 # print_params (nv' # nvs)"] skip)
qed

theorem digest_parse_challenge_witness:
  "digest_parse (print_params [(ascii ''realm'', ascii ''a, b''), (ascii ''nonce'', ascii ''x'')]) no_params =
     no_params\<lparr>realm := Some (ascii ''a, b''), nonce := Some (ascii ''x'')\<rparr>"
  using digest_parse_challenge [of "[(ascii ''realm'', ascii ''a, b''), (ascii ''nonce'', ascii ''x'')]" no_params]
  by (simp add: wf_param_def name_char_def isspace_def ascii_def set_param_def no_params_def tolower_def)

text \<open>A digest response is produced exactly when the challenge carries a realm and a nonce, every
  credential is present and the quality of protection is absent or \<open>auth\<close>; every other case is the
  \<open>NULL\<close> return.\<close>

theorem digest_authentication_encode_error:
  "digest_authentication_encode line user passwd method path count cnonce = None \<longleftrightarrow>
     realm (digest_parse line no_params) = None \<or> nonce (digest_parse line no_params) = None \<or>
     user = None \<or> passwd = None \<or> path = None \<or> method = None \<or>
     (\<exists>q. qop (digest_parse line no_params) = Some q \<and> map tolower q \<noteq> ascii ''auth'')"
proof -
  have auth: "strncasecmp_eq q (ascii ''auth'') 5 \<longleftrightarrow> map tolower q = ascii ''auth''" for q
  proof -
    have l: "ascii ''auth'' = [97, 117, 116, 104]" "tolower 97 = 97" "tolower 117 = 117"
      "tolower 116 = 116" "tolower 104 = 104"
      by (simp_all add: ascii_def tolower_def)
    have n: "(5 :: nat) = Suc (Suc (Suc (Suc (Suc 0))))" by simp
    show ?thesis
      unfolding n l
      by (cases q; cases "tl q"; cases "tl (tl q)"; cases "tl (tl (tl q))"; cases "tl (tl (tl (tl q)))")
        (auto simp: l)
  qed
  show ?thesis
    by (auto simp: digest_authentication_encode_def Let_def auth split: option.splits)
qed

end
