(* ===== verification/ChunkBuffer2.thy ===== *)
theory ChunkBuffer2
  imports Interfaces
begin

text \<open>
  \<open>badvpn/structure/ChunkBuffer2.h\<close>: packets in a ring of 4-byte blocks, each packet a length block followed
  by its bytes, never wrapped around the end of the ring.  The blocks are the byte list \<open>cb_buffer\<close>, in the
  little-endian layout of the targets; positions and sizes are in blocks, as in the code.  The model
  contains the assertions of the debug build.  \<open>cb_repr\<close> relates a ring to the packets it holds; the
  ring interprets the locale \<open>packet_store\<close> and so refines a FIFO of byte strings.
\<close>

subsection \<open>The code\<close>

definition bdivide_up :: "int \<Rightarrow> int \<Rightarrow> int" where
  "bdivide_up a b = (let r = a mod b in if r > 0 then a div b + 1 else a div b)"

record ChunkBuffer2 =
  cb_buffer :: bytes
  cb_size :: int
  cb_wrap :: int
  cb_start :: int
  cb_used :: int
  cb_mtu :: int
  cb_input_dest :: "int option"
  cb_input_avail :: int
  cb_output_dest :: "int option"
  cb_output_avail :: int

definition ChunkBuffer2_end :: "ChunkBuffer2 \<Rightarrow> int" where
  "ChunkBuffer2_end b =
     (if cb_used b \<ge> cb_wrap b - cb_start b then cb_used b - (cb_wrap b - cb_start b)
      else cb_start b + cb_used b)"

definition block_len :: "ChunkBuffer2 \<Rightarrow> int \<Rightarrow> int" where
  "block_len b i = sint (le32_of (drop (nat (4 * i)) (cb_buffer b)))"

definition ChunkBuffer2_free :: "ChunkBuffer2 \<Rightarrow> int" where
  "ChunkBuffer2_free b =
     (if cb_used b \<ge> cb_wrap b - cb_start b then cb_start b - ChunkBuffer2_end b
      else cb_size b - ChunkBuffer2_end b)"

definition ChunkBuffer2_assert_buffer :: "ChunkBuffer2 \<Rightarrow> bool" where
  "ChunkBuffer2_assert_buffer b \<longleftrightarrow>
     cb_size b > 0 \<and> cb_wrap b > 0 \<and> cb_wrap b \<le> cb_size b \<and> cb_start b \<ge> 0 \<and>
     cb_start b < cb_wrap b \<and> cb_used b \<ge> 0 \<and> cb_used b \<le> cb_wrap b \<and>
     (cb_wrap b = cb_size b \<or> cb_used b \<ge> cb_wrap b - cb_start b) \<and> cb_mtu b \<ge> 0"

definition ChunkBuffer2_assert_io :: "ChunkBuffer2 \<Rightarrow> bool" where
  "ChunkBuffer2_assert_io b \<longleftrightarrow>
     (let e = ChunkBuffer2_end b; free = ChunkBuffer2_free b in
      if cb_size b - e - 1 < cb_mtu b then cb_input_dest b = None \<and> cb_input_avail b = -1
      else if free > 0 then cb_input_dest b = Some (4 * (e + 1)) \<and> cb_input_avail b = (free - 1) * 4
      else cb_input_dest b = None \<and> cb_input_avail b = -1) \<and>
     (if cb_used b > 0 then
        let datalen = block_len b (cb_start b); blocklen = bdivide_up datalen 4 in
        datalen \<ge> 0 \<and> blocklen \<le> cb_used b - 1 \<and> blocklen \<le> cb_wrap b - cb_start b - 1 \<and>
        cb_output_dest b = Some (4 * (cb_start b + 1)) \<and> cb_output_avail b = datalen
      else cb_output_dest b = None \<and> cb_output_avail b = -1)"

definition ChunkBuffer2_update_input :: "ChunkBuffer2 \<Rightarrow> ChunkBuffer2" where
  "ChunkBuffer2_update_input b =
     (let e = ChunkBuffer2_end b in
      if cb_size b - e - 1 < cb_mtu b then b\<lparr>cb_input_dest := None, cb_input_avail := -1\<rparr>
      else
        let free = ChunkBuffer2_free b in
        if free > 0 then b\<lparr>cb_input_dest := Some (4 * (e + 1)), cb_input_avail := (free - 1) * 4\<rparr>
        else b\<lparr>cb_input_dest := None, cb_input_avail := -1\<rparr>)"

definition ChunkBuffer2_update_output :: "ChunkBuffer2 \<Rightarrow> ChunkBuffer2" where
  "ChunkBuffer2_update_output b =
     (if cb_used b > 0
      then b\<lparr>cb_output_dest := Some (4 * (cb_start b + 1)), cb_output_avail := block_len b (cb_start b)\<rparr>
      else b\<lparr>cb_output_dest := None, cb_output_avail := -1\<rparr>)"

definition INT_MAX :: int where
  "INT_MAX = 2147483647"

definition ChunkBuffer2_calc_blocks :: "int \<Rightarrow> int \<Rightarrow> int" where
  "ChunkBuffer2_calc_blocks chunk_len num =
     (let chunk_data_blocks = bdivide_up chunk_len 4 in
      if chunk_data_blocks > INT_MAX - 1 then -1
      else
        let chunk_blocks = 1 + chunk_data_blocks in
        if num > INT_MAX - 1 then -1
        else
          let num_chunks = num + 1 in
          if chunk_blocks > INT_MAX div num_chunks then -1
          else chunk_blocks * num_chunks)"

definition ChunkBuffer2_Init :: "bytes \<Rightarrow> int \<Rightarrow> int \<Rightarrow> ChunkBuffer2" where
  "ChunkBuffer2_Init buffer blocks mtu =
     ChunkBuffer2_update_output (ChunkBuffer2_update_input
       \<lparr>cb_buffer = buffer, cb_size = blocks, cb_wrap = blocks, cb_start = 0, cb_used = 0,
        cb_mtu = bdivide_up mtu 4, cb_input_dest = None, cb_input_avail = -1,
        cb_output_dest = None, cb_output_avail = -1\<rparr>)"

definition ChunkBuffer2_SubmitPacket :: "ChunkBuffer2 \<Rightarrow> int \<Rightarrow> ChunkBuffer2 option" where
  "ChunkBuffer2_SubmitPacket b len =
     (if cb_input_dest b = None \<or> \<not> len \<ge> 0 \<or> \<not> len \<le> cb_input_avail b \<or>
         \<not> ChunkBuffer2_assert_buffer b \<or> \<not> ChunkBuffer2_assert_io b then None
      else
        let e = ChunkBuffer2_end b;
            blocklen = bdivide_up len 4
        in if \<not> blocklen \<le> cb_size b - e - 1 \<or>
              \<not> (cb_used b < cb_wrap b - cb_start b \<or> blocklen \<le> cb_start b - e - 1) then None
        else
          let b1 = b\<lparr>cb_buffer := mem_write (cb_buffer b) (nat (4 * e)) (le32_bytes (word_of_int len)),
                     cb_used := cb_used b + 1 + blocklen\<rparr>;
              b2 = (if cb_used b1 \<le> cb_wrap b1 - cb_start b1 \<and>
                       cb_mtu b1 > cb_size b1 - (e + 1 + blocklen) - 1
                    then b1\<lparr>cb_wrap := e + 1 + blocklen\<rparr> else b1)
          in if \<not> ChunkBuffer2_assert_buffer b2 then None
          else
            let b3 = ChunkBuffer2_update_input b2;
                b4 = (if cb_used b3 = 1 + blocklen then ChunkBuffer2_update_output b3 else b3)
            in if ChunkBuffer2_assert_io b4 then Some b4 else None)"

definition ChunkBuffer2_ConsumePacket :: "ChunkBuffer2 \<Rightarrow> ChunkBuffer2 option" where
  "ChunkBuffer2_ConsumePacket b =
     (if cb_output_dest b = None \<or> \<not> ChunkBuffer2_assert_buffer b \<or> \<not> ChunkBuffer2_assert_io b \<or>
         \<not> 1 \<le> cb_wrap b - cb_start b \<or> \<not> 1 \<le> cb_used b then None
      else
        let blocklen = bdivide_up (block_len b (cb_start b)) 4
        in if \<not> blocklen \<le> cb_wrap b - cb_start b - 1 \<or> \<not> blocklen \<le> cb_used b - 1 then None
        else
          let data_wrapped = (cb_used b \<ge> cb_wrap b - cb_start b);
              b1 = b\<lparr>cb_start := cb_start b + (1 + blocklen), cb_used := cb_used b - (1 + blocklen)\<rparr>;
              b2 = (if cb_start b1 = cb_wrap b1 then b1\<lparr>cb_start := 0, cb_wrap := cb_size b1\<rparr> else b1)
          in if \<not> ChunkBuffer2_assert_buffer b2 then None
          else
            let b3 = (if data_wrapped then ChunkBuffer2_update_input b2 else b2);
                b4 = ChunkBuffer2_update_output b3
            in if ChunkBuffer2_assert_io b4 then Some b4 else None)"

subsection \<open>The stored packets\<close>

definition nblocks :: "bytes \<Rightarrow> int" where
  "nblocks p = 1 + bdivide_up (int (length p)) 4"

definition total_blocks :: "bytes list \<Rightarrow> int" where
  "total_blocks ps = sum_list (map nblocks ps)"

definition chunk_at :: "bytes \<Rightarrow> int \<Rightarrow> bytes \<Rightarrow> bool" where
  "chunk_at m i p \<longleftrightarrow> mem_read m (nat (4 * i)) 4 = le32_bytes (word_of_nat (length p)) \<and>
     mem_read m (nat (4 * (i + 1))) (length p) = p \<and> length p < 2 ^ 31"

fun chunks_at :: "bytes \<Rightarrow> int \<Rightarrow> bytes list \<Rightarrow> bool" where
  "chunks_at m i [] = True"
| "chunks_at m i (p # ps) \<longleftrightarrow> chunk_at m i p \<and> chunks_at m (i + nblocks p) ps"

definition cb_shape :: "ChunkBuffer2 \<Rightarrow> bytes list \<Rightarrow> bytes list \<Rightarrow> bool" where
  "cb_shape b ps1 ps2 \<longleftrightarrow>
     cb_used b = total_blocks ps1 + total_blocks ps2 \<and>
     (if cb_used b < cb_wrap b - cb_start b
      then ps2 = [] \<and> cb_wrap b = cb_size b \<and> cb_start b + cb_used b \<le> cb_size b - cb_mtu b - 1
      else ps1 \<noteq> [] \<and> total_blocks ps1 = cb_wrap b - cb_start b \<and> total_blocks ps2 \<le> cb_start b \<and>
           cb_wrap b \<le> cb_size b \<and> cb_wrap b \<ge> cb_size b - cb_mtu b \<and>
           cb_wrap b - nblocks (last ps1) \<le> cb_size b - cb_mtu b - 1)"

definition cb_layout :: "ChunkBuffer2 \<Rightarrow> bytes list \<Rightarrow> bytes list \<Rightarrow> bool" where
  "cb_layout b ps1 ps2 \<longleftrightarrow>
     chunks_at (cb_buffer b) (cb_start b) ps1 \<and> chunks_at (cb_buffer b) 0 ps2 \<and> cb_shape b ps1 ps2"

definition cb_repr :: "ChunkBuffer2 \<Rightarrow> bytes list \<Rightarrow> bool" where
  "cb_repr b ps \<longleftrightarrow>
     0 \<le> cb_start b \<and> 0 \<le> cb_mtu b \<and> cb_mtu b < cb_size b \<and> cb_size b < 2 ^ 29 \<and>
     int (length (cb_buffer b)) = 4 * cb_size b \<and>
     ChunkBuffer2_update_input b = b \<and> ChunkBuffer2_update_output b = b \<and>
     (\<exists>ps1 ps2. ps = ps1 @ ps2 \<and> cb_layout b ps1 ps2)"


lemma bdivide_up_4:
  assumes "0 \<le> a"
  shows "0 \<le> bdivide_up a 4" and "a \<le> 4 * bdivide_up a 4" and "4 * bdivide_up a 4 < a + 4"
  using assms by (simp_all add: bdivide_up_def Let_def pos_imp_zdiv_nonneg_iff) presburger+

lemma bdivide_up_le: "0 \<le> a \<Longrightarrow> a \<le> 4 * k \<Longrightarrow> bdivide_up a 4 \<le> k"
  using bdivide_up_4(3) [of a] by linarith

lemma nblocks_pos: "1 \<le> nblocks p"
  using bdivide_up_4(1) [of "int (length p)"] by (simp add: nblocks_def)

lemma length_le_nblocks: "int (length p) \<le> 4 * (nblocks p - 1)"
  using bdivide_up_4(2) [of "int (length p)"] by (simp add: nblocks_def)

lemma total_blocks_simps [simp]:
  "total_blocks [] = 0"
  "total_blocks (p # ps) = nblocks p + total_blocks ps"
  "total_blocks (ps @ qs) = total_blocks ps + total_blocks qs"
  by (simp_all add: total_blocks_def)

lemma total_blocks_nonneg: "0 \<le> total_blocks ps"
proof (induction ps)
  case (Cons p ps)
  then show ?case using nblocks_pos [of p] by simp
qed simp

lemma total_blocks_length: "int (length ps) \<le> total_blocks ps"
proof (induction ps)
  case (Cons p ps)
  then show ?case using nblocks_pos [of p] by simp
qed simp

lemma total_blocks_0 [simp]: "total_blocks ps = 0 \<longleftrightarrow> ps = []"
  using total_blocks_length [of ps] by auto

lemma chunks_at_append: "chunks_at m i (ps @ qs) \<longleftrightarrow> chunks_at m i ps \<and> chunks_at m (i + total_blocks ps) qs"
  by (induction ps arbitrary: i) (auto simp: add.assoc)

lemma chunk_at_frame:
  assumes "0 \<le> i" and "off + length xs \<le> length m"
    and "int off \<ge> 4 * (i + nblocks p) \<or> int off + int (length xs) \<le> 4 * i"
  shows "chunk_at (mem_write m off xs) i p = chunk_at m i p"
proof -
  have eq: "mem_read (mem_write m off xs) (nat (4 * i)) 4 = mem_read m (nat (4 * i)) 4"
    "mem_read (mem_write m off xs) (nat (4 * (i + 1))) (length p) = mem_read m (nat (4 * (i + 1))) (length p)"
    using assms length_le_nblocks [of p] nblocks_pos [of p]
    by (auto intro: mem_read_write_before mem_read_write_after)
  show ?thesis unfolding chunk_at_def eq ..
qed

lemma chunks_at_frame:
  assumes "0 \<le> i" and "off + length xs \<le> length m"
    and "int off \<ge> 4 * (i + total_blocks ps) \<or> int off + int (length xs) \<le> 4 * i"
  shows "chunks_at (mem_write m off xs) i ps = chunks_at m i ps"
  using assms
proof (induction ps arbitrary: i)
  case (Cons p ps)
  have "chunk_at (mem_write m off xs) i p = chunk_at m i p"
    using Cons.prems total_blocks_nonneg [of ps] by (intro chunk_at_frame) auto
  moreover have "chunks_at (mem_write m off xs) (i + nblocks p) ps = chunks_at m (i + nblocks p) ps"
    using Cons.prems nblocks_pos [of p] by (intro Cons.IH) auto
  ultimately show ?case by simp
qed simp

lemma chunk_at_read:
  assumes "chunk_at (cb_buffer b) i p"
  shows "block_len b i = int (length p)"
proof -
  let ?m = "drop (nat (4 * i)) (cb_buffer b)"
  have r: "take 4 ?m = le32_bytes (word_of_nat (length p))" and l: "length p < 2 ^ 31"
    using assms by (simp_all add: chunk_at_def mem_read_def)
  have "le32_of ?m = le32_of (take 4 ?m @ drop 4 ?m)" by (simp only: append_take_drop_id)
  also have "\<dots> = word_of_nat (length p)" by (simp only: r le32_of_bytes)
  finally have "block_len b i = sint (word_of_nat (length p) :: 32 word)" by (simp add: block_len_def)
  also have "\<dots> = int (length p)"
    using l by (simp add: signed_of_nat signed_take_bit_int_eq_self)
  finally show ?thesis .
qed

lemma chunk_at_write:
  assumes "0 \<le> i" and "4 * (i + nblocks p) \<le> int (length m)" and "length p < 2 ^ 31"
  shows "chunk_at (mem_write (mem_write m (nat (4 * (i + 1))) p) (nat (4 * i)) (le32_bytes (word_of_int (int (length p))))) i p"
proof -
  let ?m = "mem_write m (nat (4 * (i + 1))) p"
  have l: "nat (4 * (i + 1)) + length p \<le> length m"
    using assms length_le_nblocks [of p] by (simp add: nat_add_distrib)
  then have "length ?m = length m" by simp
  then have "nat (4 * i) + 4 \<le> length ?m" using l assms(1) by (simp add: nat_add_distrib)
  then show ?thesis
    using assms l mem_read_write_same [of "nat (4 * i)" "le32_bytes (word_of_nat (length p))" ?m]
      mem_read_write_after [of "nat (4 * i)" "le32_bytes (word_of_nat (length p))" "nat (4 * (i + 1))" ?m "length p"]
    by (simp add: chunk_at_def)
qed


lemma nblocks_last: "ps \<noteq> [] \<Longrightarrow> nblocks (last ps) \<le> total_blocks ps"
  using total_blocks_nonneg [of "butlast ps"] total_blocks_simps(3) [of "butlast ps" "[last ps]"] by simp

lemma cb_layout_cases:
  assumes "cb_layout b ps1 ps2"
  obtains (linear) "cb_used b < cb_wrap b - cb_start b" "ps2 = []" "cb_wrap b = cb_size b"
      "cb_used b = total_blocks ps1" "cb_start b + cb_used b \<le> cb_size b - cb_mtu b - 1"
      "ChunkBuffer2_end b = cb_start b + total_blocks ps1" "ChunkBuffer2_free b = cb_size b - ChunkBuffer2_end b"
  | (wrapped) "cb_wrap b - cb_start b \<le> cb_used b" "ps1 \<noteq> []" "total_blocks ps1 = cb_wrap b - cb_start b"
      "cb_used b = total_blocks ps1 + total_blocks ps2" "total_blocks ps2 \<le> cb_start b"
      "cb_wrap b \<le> cb_size b" "cb_size b - cb_mtu b \<le> cb_wrap b"
      "cb_wrap b - nblocks (last ps1) \<le> cb_size b - cb_mtu b - 1"
      "cb_start b \<le> cb_size b - cb_mtu b - 1" "cb_start b < cb_wrap b"
      "ChunkBuffer2_end b = total_blocks ps2" "ChunkBuffer2_free b = cb_start b - ChunkBuffer2_end b"
proof (cases "cb_used b < cb_wrap b - cb_start b")
  case True
  with assms show ?thesis
    by (intro linear) (auto simp add: cb_layout_def cb_shape_def ChunkBuffer2_end_def ChunkBuffer2_free_def)
next
  case False
  with assms have f: "ps1 \<noteq> []" "total_blocks ps1 = cb_wrap b - cb_start b" "total_blocks ps2 \<le> cb_start b"
      "cb_wrap b \<le> cb_size b" "cb_size b - cb_mtu b \<le> cb_wrap b"
      "cb_wrap b - nblocks (last ps1) \<le> cb_size b - cb_mtu b - 1"
      "cb_used b = total_blocks ps1 + total_blocks ps2"
    by (simp_all add: cb_layout_def cb_shape_def)
  with nblocks_last [of ps1] nblocks_pos [of "last ps1"] False show ?thesis
    by (intro wrapped) (simp_all add: ChunkBuffer2_end_def ChunkBuffer2_free_def)
qed

lemma cb_layout_bounds:
  assumes "cb_layout b ps1 ps2" and "0 \<le> cb_start b" and "0 \<le> cb_mtu b" and "cb_mtu b < cb_size b"
  shows "cb_start b < cb_wrap b" and "cb_wrap b \<le> cb_size b" and "0 \<le> cb_used b" and "cb_used b \<le> cb_wrap b"
    and "0 \<le> ChunkBuffer2_end b" and "ChunkBuffer2_end b \<le> cb_size b - cb_mtu b - 1"
    and "cb_wrap b = cb_size b \<or> cb_used b \<ge> cb_wrap b - cb_start b"
  using assms(2,3,4) total_blocks_nonneg [of ps1] total_blocks_nonneg [of ps2]
  by (rule_tac [!] cb_layout_cases [OF assms(1)]; linarith)+

lemma update_input_fields [simp]:
  "cb_buffer (ChunkBuffer2_update_input b) = cb_buffer b"
  "cb_size (ChunkBuffer2_update_input b) = cb_size b"
  "cb_wrap (ChunkBuffer2_update_input b) = cb_wrap b"
  "cb_start (ChunkBuffer2_update_input b) = cb_start b"
  "cb_used (ChunkBuffer2_update_input b) = cb_used b"
  "cb_mtu (ChunkBuffer2_update_input b) = cb_mtu b"
  "cb_output_dest (ChunkBuffer2_update_input b) = cb_output_dest b"
  "cb_output_avail (ChunkBuffer2_update_input b) = cb_output_avail b"
  by (simp_all add: ChunkBuffer2_update_input_def Let_def)

lemma update_output_fields [simp]:
  "cb_buffer (ChunkBuffer2_update_output b) = cb_buffer b"
  "cb_size (ChunkBuffer2_update_output b) = cb_size b"
  "cb_wrap (ChunkBuffer2_update_output b) = cb_wrap b"
  "cb_start (ChunkBuffer2_update_output b) = cb_start b"
  "cb_used (ChunkBuffer2_update_output b) = cb_used b"
  "cb_mtu (ChunkBuffer2_update_output b) = cb_mtu b"
  "cb_input_dest (ChunkBuffer2_update_output b) = cb_input_dest b"
  "cb_input_avail (ChunkBuffer2_update_output b) = cb_input_avail b"
  by (simp_all add: ChunkBuffer2_update_output_def)

text \<open>The fields the input and output sides publish depend on the layout fields only.\<close>

lemma io_layout_only [simp]:
  "ChunkBuffer2_end (ChunkBuffer2_update_input b) = ChunkBuffer2_end b"
  "ChunkBuffer2_end (ChunkBuffer2_update_output b) = ChunkBuffer2_end b"
  "ChunkBuffer2_free (ChunkBuffer2_update_input b) = ChunkBuffer2_free b"
  "ChunkBuffer2_free (ChunkBuffer2_update_output b) = ChunkBuffer2_free b"
  "block_len (ChunkBuffer2_update_input b) i = block_len b i"
  "block_len (ChunkBuffer2_update_output b) i = block_len b i"
  "ChunkBuffer2_assert_buffer (ChunkBuffer2_update_input b) = ChunkBuffer2_assert_buffer b"
  "ChunkBuffer2_assert_buffer (ChunkBuffer2_update_output b) = ChunkBuffer2_assert_buffer b"
  "cb_layout (ChunkBuffer2_update_input b) = cb_layout b"
  "cb_layout (ChunkBuffer2_update_output b) = cb_layout b"
  by (simp_all add: ChunkBuffer2_end_def ChunkBuffer2_free_def block_len_def ChunkBuffer2_assert_buffer_def
      cb_layout_def cb_shape_def fun_eq_iff)

lemma update_idem:
  "ChunkBuffer2_update_input (ChunkBuffer2_update_input b) = ChunkBuffer2_update_input b"
  "ChunkBuffer2_update_output (ChunkBuffer2_update_output b) = ChunkBuffer2_update_output b"
  "ChunkBuffer2_update_input (ChunkBuffer2_update_output b) =
     ChunkBuffer2_update_output (ChunkBuffer2_update_input b)"
  by (simp_all add: ChunkBuffer2_update_input_def ChunkBuffer2_update_output_def Let_def
      ChunkBuffer2_end_def ChunkBuffer2_free_def block_len_def)


lemma update_input_fixed:
  "ChunkBuffer2_update_input b = b \<longleftrightarrow>
     (if cb_size b - ChunkBuffer2_end b - 1 < cb_mtu b \<or> ChunkBuffer2_free b \<le> 0
      then cb_input_dest b = None \<and> cb_input_avail b = -1
      else cb_input_dest b = Some (4 * (ChunkBuffer2_end b + 1)) \<and>
           cb_input_avail b = (ChunkBuffer2_free b - 1) * 4)"
  by (cases b) (auto simp: ChunkBuffer2_update_input_def Let_def)

lemma update_output_fixed:
  "ChunkBuffer2_update_output b = b \<longleftrightarrow>
     (if cb_used b > 0 then cb_output_dest b = Some (4 * (cb_start b + 1)) \<and>
        cb_output_avail b = block_len b (cb_start b)
      else cb_output_dest b = None \<and> cb_output_avail b = -1)"
  by (cases b) (auto simp: ChunkBuffer2_update_output_def)

lemma cb_layout_head:
  assumes "cb_layout b ps1 ps2" and "0 < cb_used b"
  obtains p qs where "ps1 = p # qs" "block_len b (cb_start b) = int (length p)"
    "chunk_at (cb_buffer b) (cb_start b) p"
    "nblocks p \<le> cb_used b" "nblocks p \<le> cb_wrap b - cb_start b"
proof -
  have "ps1 \<noteq> []"
    using assms(2) by (cases rule: cb_layout_cases [OF assms(1)]) auto
  then obtain p qs where ps1: "ps1 = p # qs" by (cases ps1) auto
  then have c: "chunk_at (cb_buffer b) (cb_start b) p" using assms(1) by (simp add: cb_layout_def)
  have "nblocks p \<le> cb_used b" "nblocks p \<le> cb_wrap b - cb_start b"
    using ps1 total_blocks_nonneg [of qs] total_blocks_nonneg [of ps2]
    by (cases rule: cb_layout_cases [OF assms(1)]; simp)+
  with ps1 c show ?thesis by (intro that) (auto simp: chunk_at_read)
qed

lemma cb_repr_asserts:
  assumes "cb_repr b ps"
  shows "ChunkBuffer2_assert_buffer b" and "ChunkBuffer2_assert_io b"
proof -
  obtain ps1 ps2 where l: "cb_layout b ps1 ps2" and r: "0 \<le> cb_start b" "0 \<le> cb_mtu b" "cb_mtu b < cb_size b"
    "ChunkBuffer2_update_input b = b" "ChunkBuffer2_update_output b = b"
    using assms by (auto simp: cb_repr_def)
  show "ChunkBuffer2_assert_buffer b"
    using cb_layout_bounds [OF l r(1-3)] r by (auto simp: ChunkBuffer2_assert_buffer_def)
  have "cb_used b > 0 \<Longrightarrow> block_len b (cb_start b) \<ge> 0 \<and> bdivide_up (block_len b (cb_start b)) 4 \<le> cb_used b - 1
      \<and> bdivide_up (block_len b (cb_start b)) 4 \<le> cb_wrap b - cb_start b - 1"
    by (erule cb_layout_head [OF l]) (simp add: nblocks_def)
  then show "ChunkBuffer2_assert_io b"
    using r(4,5) unfolding update_input_fixed update_output_fixed ChunkBuffer2_assert_io_def Let_def
    by (auto split: if_splits)
qed

lemma cb_reprI:
  assumes "cb_layout b ps1 ps2" and "0 \<le> cb_start b" and "0 \<le> cb_mtu b" and "cb_mtu b < cb_size b"
    and "cb_size b < 2 ^ 29" and "int (length (cb_buffer b)) = 4 * cb_size b"
  shows "cb_repr (ChunkBuffer2_update_output (ChunkBuffer2_update_input b)) (ps1 @ ps2)"
  using assms update_idem [of b] update_idem [of "ChunkBuffer2_update_input b"]
  by (auto simp: cb_repr_def simp del: power_numeral)


lemma layout_block_len:
  "cb_layout b ps1 ps2 \<Longrightarrow> 0 < cb_used b \<Longrightarrow> block_len b (cb_start b) = int (length (hd ps1))"
  by (erule (1) cb_layout_head) simp

subsection \<open>Writing into the free window\<close>

definition cb_store :: "ChunkBuffer2 \<Rightarrow> bytes \<Rightarrow> ChunkBuffer2" where
  "cb_store b p = (case cb_input_dest b of None \<Rightarrow> b
     | Some d \<Rightarrow> b\<lparr>cb_buffer := mem_write (cb_buffer b) (nat d) p\<rparr>)"

lemma cb_window:
  assumes "cb_repr b ps" and "cb_input_dest b \<noteq> None" and "int (length p) \<le> cb_input_avail b"
  shows "cb_input_dest b = Some (4 * (ChunkBuffer2_end b + 1))" and "nblocks p \<le> ChunkBuffer2_free b"
    and "cb_input_avail b = (ChunkBuffer2_free b - 1) * 4"
proof -
  have "ChunkBuffer2_update_input b = b" using assms(1) by (simp add: cb_repr_def)
  with assms(2) show "cb_input_dest b = Some (4 * (ChunkBuffer2_end b + 1))"
    and a: "cb_input_avail b = (ChunkBuffer2_free b - 1) * 4"
    unfolding update_input_fixed by (auto split: if_splits)
  show "nblocks p \<le> ChunkBuffer2_free b"
    using assms(3) a bdivide_up_le [of "int (length p)" "ChunkBuffer2_free b - 1"]
    by (simp add: nblocks_def)
qed

lemma chunks_at_window:
  assumes "cb_layout b ps1 ps2" and "0 \<le> cb_start b" and "0 \<le> cb_mtu b" and "cb_mtu b < cb_size b"
    and "int (length (cb_buffer b)) = 4 * cb_size b" and "length m = length (cb_buffer b)"
    and "4 * ChunkBuffer2_end b \<le> int off"
    and "int off + int (length xs) \<le> 4 * (ChunkBuffer2_end b + ChunkBuffer2_free b)"
  shows "chunks_at (mem_write m off xs) (cb_start b) ps1 = chunks_at m (cb_start b) ps1"
    and "chunks_at (mem_write m off xs) 0 ps2 = chunks_at m 0 ps2"
proof -
  note b = cb_layout_bounds [OF assms(1-4)]
  have "int off + int (length xs) \<le> 4 * cb_size b"
    using assms(2,8) b by - (rule cb_layout_cases [OF assms(1)]; simp add: distrib_left)
  then have fit: "off + length xs \<le> length m" using assms(5,6) by linarith
  have ps1: "int off \<ge> 4 * (cb_start b + total_blocks ps1) \<or> int off + int (length xs) \<le> 4 * cb_start b"
    using assms(7,8) by - (rule cb_layout_cases [OF assms(1)]; simp add: distrib_left)
  have ps2: "int off \<ge> 4 * (0 + total_blocks ps2) \<or> int off + int (length xs) \<le> 4 * 0"
    using assms(7) by - (rule cb_layout_cases [OF assms(1)]; simp)
  show "chunks_at (mem_write m off xs) (cb_start b) ps1 = chunks_at m (cb_start b) ps1"
    by (rule chunks_at_frame [OF assms(2) fit ps1])
  show "chunks_at (mem_write m off xs) 0 ps2 = chunks_at m 0 ps2"
    by (rule chunks_at_frame [OF order_refl fit ps2])
qed

lemma cb_shape_buffer [simp]: "cb_shape (b\<lparr>cb_buffer := m\<rparr>) ps1 ps2 = cb_shape b ps1 ps2"
  by (simp add: cb_shape_def)

lemma cb_layout_buffer:
  "chunks_at m (cb_start b) ps1 \<Longrightarrow> chunks_at m 0 ps2 \<Longrightarrow> cb_layout b ps1 ps2 \<Longrightarrow>
     cb_layout (b\<lparr>cb_buffer := m\<rparr>) ps1 ps2"
  by (simp add: cb_layout_def)

lemma layout_fields_buffer [simp]:
  "ChunkBuffer2_end (b\<lparr>cb_buffer := m\<rparr>) = ChunkBuffer2_end b"
  "ChunkBuffer2_free (b\<lparr>cb_buffer := m\<rparr>) = ChunkBuffer2_free b"
  by (simp_all add: ChunkBuffer2_end_def ChunkBuffer2_free_def)

text \<open>Whatever is written into the published window, the stored packets stay as they are.\<close>

lemma cb_store_repr:
  assumes "cb_repr b ps" and "int (length p) \<le> cb_input_avail b"
  shows "cb_repr (cb_store b p) ps"
proof (cases "cb_input_dest b")
  case None
  with assms show ?thesis by (simp add: cb_store_def)
next
  case (Some d)
  obtain ps1 ps2 where l: "cb_layout b ps1 ps2" and ps: "ps = ps1 @ ps2"
    and r: "0 \<le> cb_start b" "0 \<le> cb_mtu b" "cb_mtu b < cb_size b"
    and fx: "ChunkBuffer2_update_input b = b" "ChunkBuffer2_update_output b = b"
    and sz: "cb_size b < 2 ^ 29" "int (length (cb_buffer b)) = 4 * cb_size b"
    using assms(1) by (auto simp: cb_repr_def)
  note w = cb_window [OF assms(1) _ assms(2)] and bd = cb_layout_bounds [OF l r]
  let ?m = "mem_write (cb_buffer b) (nat d) p"
  have d: "d = 4 * (ChunkBuffer2_end b + 1)" using w(1) Some by simp
  have fit: "int (nat d) + int (length p) \<le> 4 * (ChunkBuffer2_end b + ChunkBuffer2_free b)"
    using w(2) Some d bd(5) length_le_nblocks [of p] by simp
  have lo: "4 * ChunkBuffer2_end b \<le> int (nat d)" using d bd(5) by simp
  have "chunks_at (cb_buffer b) (cb_start b) ps1" "chunks_at (cb_buffer b) 0 ps2"
    using l by (simp_all add: cb_layout_def)
  then have "chunks_at ?m (cb_start b) ps1" "chunks_at ?m 0 ps2"
    unfolding chunks_at_window [OF l r sz(2) refl lo fit] by auto
  then have l': "cb_layout (b\<lparr>cb_buffer := ?m\<rparr>) ps1 ps2" using l by (rule cb_layout_buffer)
  have "cb_used b > 0 \<Longrightarrow> block_len (b\<lparr>cb_buffer := ?m\<rparr>) (cb_start b) = block_len b (cb_start b)"
    using layout_block_len [OF l] layout_block_len [OF l'] by simp
  moreover have "int (nat d) + int (length p) \<le> 4 * cb_size b"
    using fit r bd by - (rule cb_layout_cases [OF l]; simp add: distrib_left)
  ultimately show ?thesis
    using Some r sz fx l' ps unfolding cb_repr_def cb_store_def update_input_fixed update_output_fixed
    by (auto simp del: power_numeral split: if_splits)
qed


subsection \<open>Submitting a packet\<close>

lemma cb_repr_obtain:
  assumes "cb_repr b ps"
  obtains ps1 ps2 where "ps = ps1 @ ps2" "cb_layout b ps1 ps2" "0 \<le> cb_start b" "0 \<le> cb_mtu b" "cb_mtu b < cb_size b"
    "cb_size b < 2 ^ 29" "int (length (cb_buffer b)) = 4 * cb_size b"
    "ChunkBuffer2_update_input b = b" "ChunkBuffer2_update_output b = b"
  using assms by (auto simp: cb_repr_def simp del: power_numeral)

text \<open>The layout after the header of a packet whose data is already in the window is written.\<close>

lemma submit_shape:
  assumes "cb_shape b ps1 ps2" and "cb_layout b ps1 ps2" and "0 \<le> cb_start b" and "0 \<le> cb_mtu b" and "cb_mtu b < cb_size b"
    and "nblocks p \<le> ChunkBuffer2_free b"
  defines "e \<equiv> ChunkBuffer2_end b"
  defines "b1 \<equiv> b\<lparr>cb_used := cb_used b + nblocks p\<rparr>"
  defines "b2 \<equiv> (if cb_used b1 \<le> cb_wrap b1 - cb_start b1 \<and> cb_mtu b1 > cb_size b1 - (e + nblocks p) - 1
                 then b1\<lparr>cb_wrap := e + nblocks p\<rparr> else b1)"
  shows "if cb_used b < cb_wrap b - cb_start b then cb_shape b2 (ps1 @ [p]) [] else cb_shape b2 ps1 (ps2 @ [p])"
proof (rule cb_layout_cases [OF assms(2)], goal_cases)
  case 1
  then show ?thesis
    using assms(3-6) nblocks_pos [of p] total_blocks_nonneg [of ps1]
    by (simp add: b2_def b1_def e_def cb_shape_def)
next
  case 2
  then show ?thesis
    using assms(3-6) nblocks_pos [of p] total_blocks_nonneg [of ps2]
    by (simp add: b2_def b1_def e_def cb_shape_def)
qed


lemma assert_buffer_layout:
  "cb_layout b ps1 ps2 \<Longrightarrow> 0 \<le> cb_start b \<Longrightarrow> 0 \<le> cb_mtu b \<Longrightarrow> cb_mtu b < cb_size b \<Longrightarrow>
     ChunkBuffer2_assert_buffer b"
  using cb_layout_bounds [of b ps1 ps2] by (auto simp: ChunkBuffer2_assert_buffer_def)

text \<open>Publishing the first packet again changes nothing while the first packet stays the same.\<close>

lemma update_output_same_head:
  assumes "cb_layout b ps1 ps2" and "0 < cb_used b" and "ChunkBuffer2_update_output b = b"
    and "cb_layout c qs1 qs2" and "0 < cb_used c" and "hd qs1 = hd ps1" and "cb_start c = cb_start b"
    and "cb_output_dest c = cb_output_dest b" and "cb_output_avail c = cb_output_avail b"
  shows "ChunkBuffer2_update_output c = c"
  using assms(2,3,5-9) layout_block_len [OF assms(1,2)] layout_block_len [OF assms(4,5)]
  by (simp add: update_output_fixed)

lemma submit_layout:
  assumes "cb_repr b ps" and "cb_input_dest b \<noteq> None" and "int (length p) \<le> cb_input_avail b"
    and "cb_layout b ps1 ps2"
  defines "e \<equiv> ChunkBuffer2_end b" and "c \<equiv> cb_store b p"
  defines "m \<equiv> mem_write (cb_buffer c) (nat (4 * e)) (le32_bytes (word_of_int (int (length p))))"
  defines "b1 \<equiv> b\<lparr>cb_used := cb_used b + nblocks p\<rparr>"
  defines "b2 \<equiv> (if cb_used b1 \<le> cb_wrap b1 - cb_start b1 \<and> cb_mtu b1 > cb_size b1 - (e + nblocks p) - 1
                 then b1\<lparr>cb_wrap := e + nblocks p\<rparr> else b1)\<lparr>cb_buffer := m\<rparr>"
  shows "if cb_used b < cb_wrap b - cb_start b then cb_layout b2 (ps1 @ [p]) [] else cb_layout b2 ps1 (ps2 @ [p])"
    and "length m = length (cb_buffer b)"
proof -
  have r: "0 \<le> cb_start b" "0 \<le> cb_mtu b" "cb_mtu b < cb_size b" "cb_size b < 2 ^ 29"
    "int (length (cb_buffer b)) = 4 * cb_size b"
    using assms(1) by (auto simp: cb_repr_def simp del: power_numeral)
  note w = cb_window [OF assms(1-3)] and bd = cb_layout_bounds [OF assms(4) r(1-3)]
  have c: "cb_buffer c = mem_write (cb_buffer b) (nat (4 * (e + 1))) p"
    using w(1) by (simp add: c_def e_def cb_store_def)
  have "cb_repr c ps" unfolding c_def by (rule cb_store_repr [OF assms(1,3)])
  then have lc: "int (length (cb_buffer c)) = 4 * cb_size b"
    by (auto simp: cb_repr_def c_def cb_store_def split: option.splits)
  have "e + ChunkBuffer2_free b \<le> cb_size b"
    unfolding e_def using bd by - (rule cb_layout_cases [OF assms(4)]; simp)
  then have fit: "e + nblocks p \<le> cb_size b" using w(2) by linarith
  have e0: "0 \<le> e" using bd(5) by (simp add: e_def)
  have len: "length p < 2 ^ 31"
    using length_le_nblocks [of p] fit e0 r(4) by simp
  then have new: "chunk_at m e p"
    unfolding m_def c using e0 fit r(5) by (intro chunk_at_write) auto
  have lcb: "length (cb_buffer c) = length (cb_buffer b)" using lc r(5) by linarith
  have low: "4 * ChunkBuffer2_end b \<le> int (nat (4 * e))" using e0 by (simp add: e_def)
  have high: "int (nat (4 * e)) + int (length (le32_bytes (word_of_int (int (length p)))))
      \<le> 4 * (ChunkBuffer2_end b + ChunkBuffer2_free b)"
    using e0 w(2) nblocks_pos [of p] by (simp add: e_def)
  have "int (nat d) + int (length p) \<le> 4 * (ChunkBuffer2_end b + ChunkBuffer2_free b)" if "d = 4 * (e + 1)" for d
    using that e0 w(2) length_le_nblocks [of p] by (simp add: e_def)
  then have "chunks_at (cb_buffer c) (cb_start b) ps1" "chunks_at (cb_buffer c) 0 ps2"
    using chunks_at_window [OF assms(4) r(1-3,5) refl, of "nat (4 * (e + 1))" p] e0 assms(4)
    by (simp_all add: c e_def cb_layout_def)
  then have old: "chunks_at m (cb_start b) ps1" "chunks_at m 0 ps2"
    unfolding m_def chunks_at_window [OF assms(4) r(1-3,5) lcb low high] by auto
  show "length m = length (cb_buffer b)"
    using lcb e0 fit r(5) nblocks_pos [of p] by (simp add: m_def)
  have sh: "cb_shape b ps1 ps2" using assms(4) by (simp add: cb_layout_def)
  have b2: "cb_start b2 = cb_start b" "cb_buffer b2 = m" by (simp_all add: b2_def b1_def)
  have sh2: "if cb_used b < cb_wrap b - cb_start b then cb_shape b2 (ps1 @ [p]) [] else cb_shape b2 ps1 (ps2 @ [p])"
    unfolding b2_def cb_shape_buffer b1_def e_def by (rule submit_shape [OF sh assms(4) r(1-3) w(2)])
  show "if cb_used b < cb_wrap b - cb_start b then cb_layout b2 (ps1 @ [p]) [] else cb_layout b2 ps1 (ps2 @ [p])"
  proof (rule cb_layout_cases [OF assms(4)], goal_cases)
    case 1
    with sh2 old new b2 show ?thesis by (simp add: cb_layout_def chunks_at_append e_def)
  next
    case 2
    with sh2 old new b2 show ?thesis by (simp add: cb_layout_def chunks_at_append e_def)
  qed
qed

lemma cb_submit:
  assumes "cb_repr b ps" and "cb_input_dest b \<noteq> None" and "int (length p) \<le> cb_input_avail b"
  shows "\<exists>b'. ChunkBuffer2_SubmitPacket (cb_store b p) (int (length p)) = Some b' \<and> cb_repr b' (ps @ [p])
    \<and> cb_mtu b' = cb_mtu b \<and> cb_size b' = cb_size b"
proof -
  let ?c = "cb_store b p" and ?e = "ChunkBuffer2_end b" and ?n = "bdivide_up (int (length p)) 4"
  obtain ps1 ps2 where ps: "ps = ps1 @ ps2" and l: "cb_layout b ps1 ps2"
    and r: "0 \<le> cb_start b" "0 \<le> cb_mtu b" "cb_mtu b < cb_size b" "cb_size b < 2 ^ 29"
    "int (length (cb_buffer b)) = 4 * cb_size b" "ChunkBuffer2_update_output b = b"
    using assms(1) by (rule cb_repr_obtain)
  note w = cb_window [OF assms] and bd = cb_layout_bounds [OF l r(1-3)]
  obtain mm where c: "?c = b\<lparr>cb_buffer := mm\<rparr>"
    using assms(2) by (auto simp: cb_store_def)
  have cr: "cb_repr ?c ps" by (rule cb_store_repr [OF assms(1,3)])
  define m where "m = mem_write (cb_buffer ?c) (nat (4 * ?e)) (le32_bytes (word_of_int (int (length p))))"
  define b1 where "b1 = b\<lparr>cb_used := cb_used b + nblocks p\<rparr>"
  define b2 where "b2 = (if cb_used b1 \<le> cb_wrap b1 - cb_start b1 \<and> cb_mtu b1 > cb_size b1 - (?e + nblocks p) - 1
                 then b1\<lparr>cb_wrap := ?e + nblocks p\<rparr> else b1)\<lparr>cb_buffer := m\<rparr>"
  define qs1 qs2 where "qs1 = (if cb_used b < cb_wrap b - cb_start b then ps1 @ [p] else ps1)"
    and "qs2 = (if cb_used b < cb_wrap b - cb_start b then [] else ps2 @ [p])"
  have l2: "cb_layout b2 qs1 qs2" and lm: "length m = length (cb_buffer b)"
    using submit_layout [OF assms l, folded m_def b1_def, folded b2_def]
    by (simp_all add: qs1_def qs2_def split: if_splits)
  have f2: "cb_start b2 = cb_start b" "cb_mtu b2 = cb_mtu b" "cb_size b2 = cb_size b" "cb_buffer b2 = m"
    "cb_used b2 = cb_used b + nblocks p" "cb_output_dest b2 = cb_output_dest b" "cb_output_avail b2 = cb_output_avail b"
    by (simp_all add: b2_def b1_def)
  define b3 where "b3 = ChunkBuffer2_update_input b2"
  let ?b4 = "ChunkBuffer2_update_output b3"
  have qs: "qs1 @ qs2 = ps @ [p]"
    unfolding qs1_def qs2_def ps by (rule cb_layout_cases [OF l]; simp)
  have r4: "cb_repr ?b4 (ps @ [p])"
    unfolding b3_def qs [symmetric] using l2 r f2 lm by (intro cb_reprI) (simp_all del: power_numeral)
  have "?b4 = b3" if "cb_used b3 \<noteq> nblocks p"
  proof (rule update_output_same_head [OF l _ r(6)])
    show u: "0 < cb_used b" using that f2(5) bd(3) by (simp add: b3_def)
    show "cb_layout b3 qs1 qs2" using l2 by (simp add: b3_def)
    show "0 < cb_used b3" using u f2(5) nblocks_pos [of p] by (simp add: b3_def)
    show "hd qs1 = hd ps1" using cb_layout_head [OF l u] by (fastforce simp: qs1_def)
  qed (simp_all add: b3_def f2)
  then have b4: "(if cb_used b3 = 1 + ?n then ?b4 else b3) = ?b4" by (auto simp: nblocks_def)
  define d1 where "d1 = ?c\<lparr>cb_buffer := m, cb_used := cb_used b + 1 + ?n\<rparr>"
  have d: "cb_input_dest ?c = cb_input_dest b" "cb_input_avail ?c = cb_input_avail b" "cb_used ?c = cb_used b"
    "ChunkBuffer2_end ?c = ?e" "cb_size ?c = cb_size b" "cb_wrap ?c = cb_wrap b" "cb_start ?c = cb_start b"
    by (simp_all add: c)
  have d2: "(if cb_used d1 \<le> cb_wrap d1 - cb_start d1 \<and> cb_mtu d1 > cb_size d1 - (?e + 1 + ?n) - 1
             then d1\<lparr>cb_wrap := ?e + 1 + ?n\<rparr> else d1) = b2"
    unfolding d1_def b2_def b1_def nblocks_def c by (simp add: add.assoc)
  have g: "?n \<le> cb_size b - ?e - 1" "cb_used b < cb_wrap b - cb_start b \<or> ?n \<le> cb_start b - ?e - 1"
    using w(2) bd by (rule_tac [!] cb_layout_cases [OF l]) (simp_all add: nblocks_def)
  have a2: "ChunkBuffer2_assert_buffer b2"
    using r(1-3) by (intro assert_buffer_layout [OF l2]) (simp_all add: f2)
  have "ChunkBuffer2_SubmitPacket ?c (int (length p)) = Some ?b4"
    unfolding ChunkBuffer2_SubmitPacket_def Let_def d m_def [symmetric] d1_def [symmetric] d2 b3_def [symmetric] b4
    using assms(2,3) cb_repr_asserts [OF cr] cb_repr_asserts(2) [OF r4] g a2
    by (simp only: simp_thms if_False not_False_eq_True of_nat_0_le_iff de_Morgan_disj not_not if_True)
  with r4 show ?thesis by (auto simp: b3_def f2)
qed


subsection \<open>Consuming a packet\<close>

lemma consume_layout:
  assumes "cb_layout b (p # qs) ps2" and "0 \<le> cb_start b" and "0 \<le> cb_mtu b" and "cb_mtu b < cb_size b"
  defines "b1 \<equiv> b\<lparr>cb_start := cb_start b + nblocks p, cb_used := cb_used b - nblocks p\<rparr>"
  defines "b2 \<equiv> (if cb_start b1 = cb_wrap b1 then b1\<lparr>cb_start := 0, cb_wrap := cb_size b1\<rparr> else b1)"
  shows "\<exists>qs1 qs2. qs1 @ qs2 = qs @ ps2 \<and> cb_layout b2 qs1 qs2" and "0 \<le> cb_start b2"
    and "ChunkBuffer2_end b2 = ChunkBuffer2_end b"
    and "ChunkBuffer2_free b2 \<ge> ChunkBuffer2_free b"
    and "cb_used b < cb_wrap b - cb_start b \<Longrightarrow> ChunkBuffer2_free b2 = ChunkBuffer2_free b"
proof -
  have ch: "chunks_at (cb_buffer b) (cb_start b + nblocks p) qs" "chunks_at (cb_buffer b) 0 ps2"
    using assms(1) by (simp_all add: cb_layout_def)
  note bd = cb_layout_bounds [OF assms(1-4)] and pos = nblocks_pos [of p] total_blocks_nonneg [of qs] total_blocks_nonneg [of ps2]
  show "0 \<le> cb_start b2" using assms(2) pos by (simp add: b2_def b1_def)
  consider (linear) "cb_used b < cb_wrap b - cb_start b" | (wrapped) "\<not> cb_used b < cb_wrap b - cb_start b" "qs \<noteq> []"
    | (reset) "\<not> cb_used b < cb_wrap b - cb_start b" "qs = []" by blast
  then have "(\<exists>qs1 qs2. qs1 @ qs2 = qs @ ps2 \<and> cb_layout b2 qs1 qs2) \<and> ChunkBuffer2_end b2 = ChunkBuffer2_end b
    \<and> ChunkBuffer2_free b2 \<ge> ChunkBuffer2_free b
    \<and> (cb_used b < cb_wrap b - cb_start b \<longrightarrow> ChunkBuffer2_free b2 = ChunkBuffer2_free b)"
  proof cases
    case linear
    then have "b2 = b1" "cb_shape b1 qs []" "ps2 = []" "ChunkBuffer2_end b1 = ChunkBuffer2_end b"
      "ChunkBuffer2_free b1 = ChunkBuffer2_free b"
      using pos by (rule_tac [!] cb_layout_cases [OF assms(1)])
        (simp_all add: b2_def b1_def cb_shape_def ChunkBuffer2_end_def ChunkBuffer2_free_def)
    then have "qs @ [] = qs @ ps2 \<and> cb_layout b2 qs []" using ch by (simp add: cb_layout_def b1_def)
    then show ?thesis using \<open>b2 = b1\<close> \<open>ChunkBuffer2_end b1 = _\<close> \<open>ChunkBuffer2_free b1 = _\<close> by auto
  next
    case wrapped
    have "1 \<le> total_blocks qs" using wrapped(2) total_blocks_length [of qs] by (cases qs) auto
    with wrapped have "b2 = b1" "cb_shape b1 qs ps2" "ChunkBuffer2_end b1 = ChunkBuffer2_end b"
      "ChunkBuffer2_free b1 \<ge> ChunkBuffer2_free b"
      using pos by (rule_tac [!] cb_layout_cases [OF assms(1)])
        (simp_all add: b2_def b1_def cb_shape_def ChunkBuffer2_end_def ChunkBuffer2_free_def)
    then show ?thesis using ch wrapped by (auto simp: cb_layout_def b1_def)
  next
    case reset
    then have "b2 = b1\<lparr>cb_start := 0, cb_wrap := cb_size b1\<rparr>" "cb_shape b2 ps2 []" "ChunkBuffer2_end b2 = ChunkBuffer2_end b"
      "ChunkBuffer2_free b2 \<ge> ChunkBuffer2_free b"
      using pos assms(2-4) by (rule_tac [!] cb_layout_cases [OF assms(1)])
        (simp_all add: b2_def b1_def cb_shape_def ChunkBuffer2_end_def ChunkBuffer2_free_def)
    then have "ps2 @ [] = qs @ ps2 \<and> cb_layout b2 ps2 []" using ch reset by (simp add: cb_layout_def b1_def)
    then show ?thesis using reset(1) \<open>ChunkBuffer2_end b2 = _\<close> \<open>ChunkBuffer2_free b2 \<ge> _\<close> by auto
  qed
  then show "\<exists>qs1 qs2. qs1 @ qs2 = qs @ ps2 \<and> cb_layout b2 qs1 qs2"
    and "ChunkBuffer2_end b2 = ChunkBuffer2_end b" and "ChunkBuffer2_free b2 \<ge> ChunkBuffer2_free b"
    and "cb_used b < cb_wrap b - cb_start b \<Longrightarrow> ChunkBuffer2_free b2 = ChunkBuffer2_free b"
    by blast+
qed


lemma cb_consume:
  assumes "cb_repr b (p # ps)"
  shows "\<exists>b'. ChunkBuffer2_ConsumePacket b = Some b' \<and> cb_repr b' ps \<and> cb_mtu b' = cb_mtu b \<and> cb_size b' = cb_size b
    \<and> (cb_input_dest b \<noteq> None \<longrightarrow> cb_input_dest b' = cb_input_dest b) \<and> cb_input_avail b \<le> cb_input_avail b'"
proof -
  obtain ps1 ps2 where pp: "p # ps = ps1 @ ps2" and l0: "cb_layout b ps1 ps2"
    and r: "0 \<le> cb_start b" "0 \<le> cb_mtu b" "cb_mtu b < cb_size b" "cb_size b < 2 ^ 29"
    "int (length (cb_buffer b)) = 4 * cb_size b" "ChunkBuffer2_update_input b = b" "ChunkBuffer2_update_output b = b"
    using assms by (rule cb_repr_obtain)
  have "ps1 \<noteq> []"
  proof
    assume "ps1 = []"
    with pp have "ps2 \<noteq> []" by auto
    with \<open>ps1 = []\<close> show False by (rule_tac cb_layout_cases [OF l0]) auto
  qed
  then obtain qs where "ps1 = p # qs" and ps: "ps = qs @ ps2" using pp by (cases ps1) auto
  then have l: "cb_layout b (p # qs) ps2" using l0 by simp
  note bd = cb_layout_bounds [OF l r(1-3)]
  have u: "0 < cb_used b"
    using nblocks_pos [of p] total_blocks_nonneg [of qs] total_blocks_nonneg [of ps2]
    by (rule_tac cb_layout_cases [OF l]) simp_all
  have bl: "block_len b (cb_start b) = int (length p)" using layout_block_len [OF l u] by simp
  let ?n = "bdivide_up (int (length p)) 4"
  define b1 where "b1 = b\<lparr>cb_start := cb_start b + (1 + ?n), cb_used := cb_used b - (1 + ?n)\<rparr>"
  define b2 where "b2 = (if cb_start b1 = cb_wrap b1 then b1\<lparr>cb_start := 0, cb_wrap := cb_size b1\<rparr> else b1)"
  note cl = consume_layout [OF l r(1-3), unfolded nblocks_def, folded b1_def, folded b2_def]
  obtain qs1 qs2 where qs: "qs1 @ qs2 = ps" and l2: "cb_layout b2 qs1 qs2" using cl(1) ps by auto
  have f2: "cb_mtu b2 = cb_mtu b" "cb_size b2 = cb_size b" "cb_buffer b2 = cb_buffer b"
    "cb_input_dest b2 = cb_input_dest b" "cb_input_avail b2 = cb_input_avail b"
    by (simp_all add: b2_def b1_def)
  let ?w = "cb_used b \<ge> cb_wrap b - cb_start b"
  define b3 where "b3 = (if ?w then ChunkBuffer2_update_input b2 else b2)"
  have b3: "b3 = ChunkBuffer2_update_input b2"
    using r(6) cl(3,5) f2 by (simp add: b3_def update_input_fixed [symmetric, THEN iffD1] eq_commute [of b2])
      (simp add: update_input_fixed)
  have r4: "cb_repr (ChunkBuffer2_update_output b3) ps"
    unfolding b3 qs [symmetric] using l2 r cl(2) f2 by (intro cb_reprI) (simp_all del: power_numeral)
  have a2: "ChunkBuffer2_assert_buffer b2"
    using r(1-3) cl(2) by (intro assert_buffer_layout [OF l2]) (simp_all add: f2)
  have hd: "nblocks p \<le> cb_used b" "nblocks p \<le> cb_wrap b - cb_start b"
    by (rule cb_layout_head [OF l u], simp)+
  have g: "1 \<le> cb_wrap b - cb_start b" "1 \<le> cb_used b" "?n \<le> cb_wrap b - cb_start b - 1" "?n \<le> cb_used b - 1"
    using bd(1) u hd by (simp_all add: nblocks_def)
  have od: "cb_output_dest b \<noteq> None"
    using r(7) u by (simp add: update_output_fixed)
  have "ChunkBuffer2_ConsumePacket b = Some (ChunkBuffer2_update_output b3)"
    unfolding ChunkBuffer2_ConsumePacket_def Let_def bl b1_def [symmetric] b2_def [symmetric] b3_def [symmetric]
    using cb_repr_asserts [OF assms] cb_repr_asserts(2) [OF r4] g od a2
    by (simp only: simp_thms if_False not_False_eq_True de_Morgan_disj not_not if_True)
  moreover have "cb_input_avail b \<le> cb_input_avail b3" "cb_input_dest b \<noteq> None \<longrightarrow> cb_input_dest b3 = cb_input_dest b"
    using r(6) cl(3,4) f2 update_idem(1) [of b2]
    unfolding b3 [symmetric] update_input_fixed by (auto simp: b3 split: if_splits)
  ultimately show ?thesis using r4 by (auto simp: b3 f2)
qed


subsection \<open>The first packet, initialisation and capacity\<close>

lemma cb_head:
  assumes "cb_repr b (p # ps)"
  shows "cb_output_dest b = Some (4 * (cb_start b + 1))" and "cb_output_avail b = int (length p)"
    and "mem_read (cb_buffer b) (nat (4 * (cb_start b + 1))) (length p) = p"
    and "nat (4 * (cb_start b + 1)) + length p \<le> length (cb_buffer b)"
proof -
  obtain ps1 ps2 where pp: "p # ps = ps1 @ ps2" and l: "cb_layout b ps1 ps2"
    and r: "0 \<le> cb_start b" "0 \<le> cb_mtu b" "cb_mtu b < cb_size b" "int (length (cb_buffer b)) = 4 * cb_size b"
      "ChunkBuffer2_update_output b = b"
    using assms by (rule cb_repr_obtain)
  have u: "0 < cb_used b"
  proof -
    have "total_blocks (p # ps) = total_blocks ps1 + total_blocks ps2" by (simp only: pp total_blocks_simps)
    then have "0 < total_blocks ps1 + total_blocks ps2"
      using nblocks_pos [of p] total_blocks_nonneg [of ps] by simp
    then show ?thesis by (rule_tac cb_layout_cases [OF l]) simp_all
  qed
  obtain qs where qs: "ps1 = p # qs" and bl: "block_len b (cb_start b) = int (length p)"
    and ca: "chunk_at (cb_buffer b) (cb_start b) p" and nb: "nblocks p \<le> cb_wrap b - cb_start b"
    using cb_layout_head [OF l u] pp by (metis append_Cons list.inject)
  show "cb_output_dest b = Some (4 * (cb_start b + 1))" "cb_output_avail b = int (length p)"
    using r(5) u bl by (simp_all add: update_output_fixed)
  show "mem_read (cb_buffer b) (nat (4 * (cb_start b + 1))) (length p) = p"
    using ca by (simp add: chunk_at_def)
  have "4 * (cb_start b + 1) + int (length p) \<le> int (length (cb_buffer b))"
    using length_le_nblocks [of p] nb cb_layout_bounds(2) [OF l r(1-3)] r(4) by (simp add: algebra_simps)
  then show "nat (4 * (cb_start b + 1)) + length p \<le> length (cb_buffer b)" using r(1) by (simp flip: of_nat_le_iff [where 'a = int])
qed

lemma cb_empty:
  assumes "cb_repr b []"
  shows "cb_output_dest b = None" and "cb_output_avail b = -1"
  using assms by (auto simp: cb_repr_def cb_layout_def cb_shape_def update_output_fixed)

lemma cb_init:
  assumes "0 \<le> mtu" and "bdivide_up mtu 4 < blocks" and "blocks < 2 ^ 29" and "int (length buffer) = 4 * blocks"
  shows "cb_repr (ChunkBuffer2_Init buffer blocks mtu) []"
proof -
  let ?b = "\<lparr>cb_buffer = buffer, cb_size = blocks, cb_wrap = blocks, cb_start = 0, cb_used = 0,
        cb_mtu = bdivide_up mtu 4, cb_input_dest = None, cb_input_avail = -1,
        cb_output_dest = None, cb_output_avail = -1\<rparr>"
  have "cb_layout ?b [] []"
    using assms bdivide_up_4(1) [OF assms(1)] by (simp add: cb_layout_def cb_shape_def)
  then have "cb_repr (ChunkBuffer2_update_output (ChunkBuffer2_update_input ?b)) ([] @ [])"
    using assms bdivide_up_4(1) [OF assms(1)] by (intro cb_reprI) simp_all
  then show ?thesis by (simp add: ChunkBuffer2_Init_def)
qed

lemma calc_blocks_value:
  assumes "0 \<le> mtu" and "0 < n" and "ChunkBuffer2_calc_blocks mtu n \<noteq> -1"
  shows "ChunkBuffer2_calc_blocks mtu n = (1 + bdivide_up mtu 4) * (n + 1)"
    and "ChunkBuffer2_calc_blocks mtu n \<le> INT_MAX"
    and "bdivide_up mtu 4 < ChunkBuffer2_calc_blocks mtu n"
proof -
  show v: "ChunkBuffer2_calc_blocks mtu n = (1 + bdivide_up mtu 4) * (n + 1)"
    using assms(3) by (simp add: ChunkBuffer2_calc_blocks_def Let_def split: if_splits)
  have "1 + bdivide_up mtu 4 \<le> INT_MAX div (n + 1)"
    using assms(3) by (simp add: ChunkBuffer2_calc_blocks_def Let_def not_less split: if_splits)
  then have "(1 + bdivide_up mtu 4) * (n + 1) \<le> INT_MAX div (n + 1) * (n + 1)"
    using assms(2) by (intro mult_right_mono) simp_all
  also have "\<dots> \<le> INT_MAX"
    using assms(2) by (simp add: minus_mod_eq_div_mult [symmetric])
  finally show "ChunkBuffer2_calc_blocks mtu n \<le> INT_MAX" using v by simp
  show "bdivide_up mtu 4 < ChunkBuffer2_calc_blocks mtu n"
    unfolding v using bdivide_up_4(1) [OF assms(1)] assms(2) mult_nonneg_nonneg [of "bdivide_up mtu 4" n]
    by (simp add: distrib_left distrib_right add_pos_nonneg)
qed

lemma total_blocks_bound:
  "\<forall>p \<in> set ps. int (length p) \<le> mtu \<Longrightarrow> total_blocks ps \<le> int (length ps) * (1 + bdivide_up mtu 4)"
proof (induction ps)
  case (Cons p ps)
  have "0 \<le> mtu" using Cons.prems by force
  then have "nblocks p \<le> 1 + bdivide_up mtu 4"
    using Cons.prems bdivide_up_4(2) [of mtu] by (simp add: nblocks_def bdivide_up_le)
  with Cons show ?case by (simp add: distrib_right)
qed simp

lemma cb_room:
  assumes "cb_repr b ps" and "cb_mtu b = bdivide_up mtu 4" and "cb_size b = (1 + bdivide_up mtu 4) * (int n + 1)"
    and "0 \<le> mtu" and "\<forall>p \<in> set ps. int (length p) \<le> mtu" and "length ps < n"
  shows "mtu \<le> cb_input_avail b" and "cb_input_dest b \<noteq> None"
proof -
  obtain ps1 ps2 where pp: "ps = ps1 @ ps2" and l: "cb_layout b ps1 ps2"
    and r: "0 \<le> cb_start b" "0 \<le> cb_mtu b" "cb_mtu b < cb_size b" "ChunkBuffer2_update_input b = b"
    using assms(1) by (rule cb_repr_obtain)
  let ?k = "1 + bdivide_up mtu 4"
  have k: "1 \<le> ?k" "mtu \<le> 4 * (?k - 1)" using bdivide_up_4 [OF assms(4)] by simp_all
  have "total_blocks ps \<le> int (length ps) * ?k" by (rule total_blocks_bound [OF assms(5)])
  also have "\<dots> \<le> (int n - 1) * ?k" using assms(6) k by (intro mult_right_mono) auto
  finally have t: "total_blocks ps1 + total_blocks ps2 \<le> (int n - 1) * ?k" by (simp add: pp)
  have sz: "cb_size b = (int n - 1) * ?k + 2 * ?k" by (simp add: assms(3) algebra_simps)
  have free: "?k \<le> ChunkBuffer2_free b"
    using t sz assms(2) k r(1) by (rule_tac cb_layout_cases [OF l]) (simp_all add: distrib_left)
  have e: "ChunkBuffer2_end b \<le> cb_size b - cb_mtu b - 1" by (rule cb_layout_bounds(6) [OF l r(1-3)])
  show "mtu \<le> cb_input_avail b" "cb_input_dest b \<noteq> None"
    using r(4) e free k by (auto simp: update_input_fixed split: if_splits)
qed


subsection \<open>The store interface\<close>

definition cb_write :: "ChunkBuffer2 \<Rightarrow> int \<Rightarrow> bytes \<Rightarrow> ChunkBuffer2" where
  "cb_write b a p = b\<lparr>cb_buffer := mem_write (cb_buffer b) (nat a) p\<rparr>"

definition cb_read :: "ChunkBuffer2 \<Rightarrow> int \<Rightarrow> int \<Rightarrow> bytes" where
  "cb_read b a n = mem_read (cb_buffer b) (nat a) (nat n)"

definition cb_sized :: "ChunkBuffer2 \<Rightarrow> int \<Rightarrow> nat \<Rightarrow> bool" where
  "cb_sized b mtu n \<longleftrightarrow> cb_mtu b = bdivide_up mtu 4 \<and> cb_size b = (1 + bdivide_up mtu 4) * (int n + 1)"

lemma cb_write_store: "cb_input_dest b = Some a \<Longrightarrow> cb_write b a p = cb_store b p"
  by (simp add: cb_write_def cb_store_def)

lemma submit_frame:
  assumes "ChunkBuffer2_SubmitPacket b k = Some b'"
  shows "cb_size b' = cb_size b" and "cb_mtu b' = cb_mtu b" and "cb_start b' = cb_start b"
  using assms
  by (auto simp: ChunkBuffer2_SubmitPacket_def Let_def split: if_splits)

lemma consume_frame:
  assumes "ChunkBuffer2_ConsumePacket b = Some b'"
  shows "cb_size b' = cb_size b" and "cb_mtu b' = cb_mtu b"
  using assms
  by (auto simp: ChunkBuffer2_ConsumePacket_def Let_def split: if_splits)

lemma cb_poke_peek:
  assumes "cb_repr b ps" and "cb_input_dest b = Some a" and "0 \<le> k" and "k \<le> cb_input_avail b"
  shows "int (length (cb_read b a k)) = k \<and> cb_write b a (cb_read b a k) = b"
proof -
  obtain ps1 ps2 where l: "cb_layout b ps1 ps2"
    and r: "0 \<le> cb_start b" "0 \<le> cb_mtu b" "cb_mtu b < cb_size b" "int (length (cb_buffer b)) = 4 * cb_size b"
    using assms(1) by (rule cb_repr_obtain)
  note w = cb_window [OF assms(1), of "replicate (nat k) 0"] and bd = cb_layout_bounds [OF l r(1-3)]
  have a: "a = 4 * (ChunkBuffer2_end b + 1)" "cb_input_avail b = (ChunkBuffer2_free b - 1) * 4"
    using w assms(2-4) by auto
  have "ChunkBuffer2_end b + ChunkBuffer2_free b \<le> cb_size b"
    using bd by (rule_tac cb_layout_cases [OF l]) simp_all
  then have "a + k \<le> int (length (cb_buffer b))" using a assms(4) r(4) by (simp add: algebra_simps)
  moreover have "0 \<le> a" using a bd(5) by simp
  ultimately have "nat a + nat k \<le> length (cb_buffer b)" using assms(3) by linarith
  then show ?thesis
    using assms(3) by (simp add: cb_read_def cb_write_def mem_write_read)
qed

interpretation cb: packet_store cb_repr cb_sized cb_write cb_read cb_input_dest cb_input_avail
  cb_output_dest cb_output_avail ChunkBuffer2_SubmitPacket ChunkBuffer2_ConsumePacket
proof (unfold_locales, goal_cases)
  case (1 s ps a p)
  then show ?case using cb_store_repr [of s ps p] by (simp add: cb_write_store) (simp add: cb_store_def)
next
  case (2 s a p m n)
  then show ?case by (simp add: cb_sized_def cb_write_def)
next
  case (3 s ps a p)
  then obtain b' where b': "ChunkBuffer2_SubmitPacket (cb_write s a p) (int (length p)) = Some b'"
    "cb_repr b' (ps @ [p])"
    using cb_submit [of s ps p] by (auto simp: cb_write_store)
  moreover have "cb_start b' = cb_start s"
    using submit_frame(3) [OF b'(1)] by (simp add: cb_write_def)
  ultimately show ?case using 3 by (cases ps) (auto simp: cb_head)
next
  case (4 s k s' m n)
  then show ?case by (simp add: cb_sized_def submit_frame)
next
  case (5 s p ps)
  then show ?case using cb_consume [of s p ps] by blast
next
  case (6 s s' m n)
  then show ?case by (simp add: cb_sized_def consume_frame)
next
  case (7 s p ps)
  then show ?case using cb_head [OF 7] by (simp add: cb_read_def)
next
  case (8 s)
  then show ?case by (simp add: cb_empty)
next
  case (9 s ps)
  then show ?case by (auto simp: cb_repr_def update_input_fixed split: if_splits)
next
  case (10 s ps mtu n)
  then show ?case by (auto simp: cb_sized_def intro: cb_room(1))
next
  case (11 s ps a k)
  then show ?case by (rule cb_poke_peek)
qed


text \<open>C9: a \<open>ChunkBuffer2\<close> initialised on \<open>ChunkBuffer2_calc_blocks(mtu, n)\<close> blocks runs every sequence of
  operations that a FIFO queue of \<open>n\<close> packets of at most \<open>mtu\<close> octets allows: no assertion of the debug build
  fails, a packet is accepted whenever fewer than \<open>n\<close> are stored, and the packets come out
  unchanged and in order, however often the ring wraps.\<close>

theorem ChunkBuffer2_fifo:
  assumes "0 \<le> mtu" and "0 < n" and "ChunkBuffer2_calc_blocks mtu (int n) = blocks" and "0 \<le> blocks"
    and "blocks < 2 ^ 29" and "int (length memory) = 4 * blocks"
    and "fifo_run mtu n [] ops = Some (queue, out)"
  shows "\<exists>b. store_run cb_write cb_read cb_input_dest cb_output_dest cb_output_avail
      ChunkBuffer2_SubmitPacket ChunkBuffer2_ConsumePacket (ChunkBuffer2_Init memory blocks mtu) ops = Some (b, out)
    \<and> cb_repr b queue"
proof -
  have v: "blocks = (1 + bdivide_up mtu 4) * (int n + 1)" "bdivide_up mtu 4 < blocks"
    using calc_blocks_value [of mtu "int n"] assms(1-4) by auto
  have "cb_sized (ChunkBuffer2_Init memory blocks mtu) mtu n"
    by (simp add: cb_sized_def ChunkBuffer2_Init_def v)
  then show ?thesis
    using cb.run_refines_fifo [OF cb_init [OF assms(1) v(2) assms(5,6)] _ assms(1) _ assms(7)] by auto
qed

theorem ChunkBuffer2_fifo_witness:
  "\<exists>b. store_run cb_write cb_read cb_input_dest cb_output_dest cb_output_avail
      ChunkBuffer2_SubmitPacket ChunkBuffer2_ConsumePacket (ChunkBuffer2_Init (replicate 36 0) 9 5)
      [Put [1, 2, 3, 4, 5], Put [], Take, Put [7, 8], Take] = Some (b, [[1, 2, 3, 4, 5], []])
    \<and> cb_repr b [[7, 8]]"
proof -
  have b: "ChunkBuffer2_calc_blocks 5 (int 2) = 9"
    by (simp add: ChunkBuffer2_calc_blocks_def bdivide_up_def INT_MAX_def)
  show ?thesis
    by (rule ChunkBuffer2_fifo [OF _ _ b]) simp_all
qed

end
