(* ===== verification/FlowInterfaces.thy ===== *)
theory FlowInterfaces
  imports Prelude
begin

text \<open>
  \<open>badvpn/flow/PacketPassInterface\<close>, \<open>PacketRecvInterface\<close>, \<open>StreamPassInterface\<close> and
  \<open>StreamRecvInterface\<close>: the four one-operation-at-a-time interfaces between data flow modules.

  A job flag says whether the \<open>BPending\<close> job of the interface is scheduled.  An \<open>ASSERT\<close> of the code is
  a guard: an operation called against its contract has the value \<open>None\<close>.  A pointer is an offset into
  the memory of the module that passed it (\<open>None\<close> is \<open>NULL\<close>).  Each job returns the arguments of
  the handler it calls.
\<close>

datatype if_state = STATE_NONE | STATE_OPERATION_PENDING | STATE_BUSY | STATE_DONE_PENDING

record PacketPassInterface =
  ppi_mtu :: int
  ppi_has_cancel :: bool
  ppi_has_user :: bool
  ppi_job_operation :: bool
  ppi_job_operation_data :: "int option"
  ppi_job_operation_len :: int
  ppi_job_requestcancel :: bool
  ppi_job_done :: bool
  ppi_state :: if_state
  ppi_cancel_requested :: bool

definition PacketPassInterface_Init :: "int \<Rightarrow> PacketPassInterface" where
  "PacketPassInterface_Init mtu = \<lparr>ppi_mtu = mtu, ppi_has_cancel = False, ppi_has_user = False,
     ppi_job_operation = False, ppi_job_operation_data = None, ppi_job_operation_len = 0,
     ppi_job_requestcancel = False, ppi_job_done = False, ppi_state = STATE_NONE, ppi_cancel_requested = False\<rparr>"

definition PacketPassInterface_EnableCancel :: "PacketPassInterface \<Rightarrow> PacketPassInterface option" where
  "PacketPassInterface_EnableCancel i =
     (if ppi_has_cancel i \<or> ppi_has_user i then None else Some (i\<lparr>ppi_has_cancel := True\<rparr>))"

definition PacketPassInterface_Done :: "PacketPassInterface \<Rightarrow> PacketPassInterface option" where
  "PacketPassInterface_Done i =
     (if ppi_state i \<noteq> STATE_BUSY then None
      else Some (i\<lparr>ppi_job_requestcancel := False, ppi_job_done := True, ppi_state := STATE_DONE_PENDING\<rparr>))"

definition PacketPassInterface_Sender_Init :: "PacketPassInterface \<Rightarrow> PacketPassInterface option" where
  "PacketPassInterface_Sender_Init i = (if ppi_has_user i then None else Some (i\<lparr>ppi_has_user := True\<rparr>))"

definition PacketPassInterface_Sender_Send ::
  "PacketPassInterface \<Rightarrow> int option \<Rightarrow> int \<Rightarrow> PacketPassInterface option" where
  "PacketPassInterface_Sender_Send i data data_len =
     (if \<not> data_len \<ge> 0 \<or> \<not> data_len \<le> ppi_mtu i \<or> (data_len > 0 \<and> data = None) \<or>
         ppi_state i \<noteq> STATE_NONE \<or> \<not> ppi_has_user i then None
      else Some (i\<lparr>ppi_job_operation_data := data, ppi_job_operation_len := data_len,
                   ppi_job_operation := True, ppi_state := STATE_OPERATION_PENDING,
                   ppi_cancel_requested := False\<rparr>))"

definition PacketPassInterface_Sender_RequestCancel :: "PacketPassInterface \<Rightarrow> PacketPassInterface option" where
  "PacketPassInterface_Sender_RequestCancel i =
     (if ppi_state i = STATE_NONE \<or> \<not> ppi_has_cancel i then None
      else if ppi_cancel_requested i then Some i
      else
        let i = i\<lparr>ppi_cancel_requested := True\<rparr> in
        if ppi_state i = STATE_OPERATION_PENDING then
          Some (i\<lparr>ppi_job_operation := False, ppi_job_done := True, ppi_state := STATE_DONE_PENDING\<rparr>)
        else if ppi_state i = STATE_BUSY then Some (i\<lparr>ppi_job_requestcancel := True\<rparr>)
        else Some i)"

definition PacketPassInterface_job_operation ::
  "PacketPassInterface \<Rightarrow> (PacketPassInterface \<times> int option \<times> int) option" where
  "PacketPassInterface_job_operation i =
     (if \<not> ppi_job_operation i \<or> ppi_state i \<noteq> STATE_OPERATION_PENDING then None
      else Some (i\<lparr>ppi_job_operation := False, ppi_state := STATE_BUSY\<rparr>,
                 ppi_job_operation_data i, ppi_job_operation_len i))"

definition PacketPassInterface_job_requestcancel :: "PacketPassInterface \<Rightarrow> PacketPassInterface option" where
  "PacketPassInterface_job_requestcancel i =
     (if \<not> ppi_job_requestcancel i \<or> ppi_state i \<noteq> STATE_BUSY \<or> \<not> ppi_cancel_requested i \<or> \<not> ppi_has_cancel i
      then None else Some (i\<lparr>ppi_job_requestcancel := False\<rparr>))"

definition PacketPassInterface_job_done :: "PacketPassInterface \<Rightarrow> PacketPassInterface option" where
  "PacketPassInterface_job_done i =
     (if \<not> ppi_job_done i \<or> ppi_state i \<noteq> STATE_DONE_PENDING then None
      else Some (i\<lparr>ppi_job_done := False, ppi_state := STATE_NONE\<rparr>))"

text \<open>Which jobs are scheduled follows from the state: an operation or a completion is never lost or doubled.\<close>

definition ppi_inv :: "PacketPassInterface \<Rightarrow> bool" where
  "ppi_inv i \<longleftrightarrow>
     (ppi_job_operation i \<longleftrightarrow> ppi_state i = STATE_OPERATION_PENDING) \<and>
     (ppi_job_done i \<longleftrightarrow> ppi_state i = STATE_DONE_PENDING) \<and>
     (ppi_job_requestcancel i \<longrightarrow> ppi_state i = STATE_BUSY \<and> ppi_cancel_requested i \<and> ppi_has_cancel i)"

record PacketRecvInterface =
  pri_mtu :: int
  pri_has_user :: bool
  pri_job_operation :: bool
  pri_job_operation_data :: "int option"
  pri_job_done :: bool
  pri_job_done_len :: int
  pri_state :: if_state

definition PacketRecvInterface_Init :: "int \<Rightarrow> PacketRecvInterface" where
  "PacketRecvInterface_Init mtu = \<lparr>pri_mtu = mtu, pri_has_user = False, pri_job_operation = False,
     pri_job_operation_data = None, pri_job_done = False, pri_job_done_len = 0, pri_state = STATE_NONE\<rparr>"

definition PacketRecvInterface_Done :: "PacketRecvInterface \<Rightarrow> int \<Rightarrow> PacketRecvInterface option" where
  "PacketRecvInterface_Done i data_len =
     (if \<not> data_len \<ge> 0 \<or> \<not> data_len \<le> pri_mtu i \<or> pri_state i \<noteq> STATE_BUSY then None
      else Some (i\<lparr>pri_job_done_len := data_len, pri_job_done := True, pri_state := STATE_DONE_PENDING\<rparr>))"

definition PacketRecvInterface_Receiver_Init :: "PacketRecvInterface \<Rightarrow> PacketRecvInterface option" where
  "PacketRecvInterface_Receiver_Init i = (if pri_has_user i then None else Some (i\<lparr>pri_has_user := True\<rparr>))"

definition PacketRecvInterface_Receiver_Recv ::
  "PacketRecvInterface \<Rightarrow> int option \<Rightarrow> PacketRecvInterface option" where
  "PacketRecvInterface_Receiver_Recv i data =
     (if (pri_mtu i > 0 \<and> data = None) \<or> pri_state i \<noteq> STATE_NONE \<or> \<not> pri_has_user i then None
      else Some (i\<lparr>pri_job_operation_data := data, pri_job_operation := True,
                   pri_state := STATE_OPERATION_PENDING\<rparr>))"

definition PacketRecvInterface_job_operation ::
  "PacketRecvInterface \<Rightarrow> (PacketRecvInterface \<times> int option) option" where
  "PacketRecvInterface_job_operation i =
     (if \<not> pri_job_operation i \<or> pri_state i \<noteq> STATE_OPERATION_PENDING then None
      else Some (i\<lparr>pri_job_operation := False, pri_state := STATE_BUSY\<rparr>, pri_job_operation_data i))"

definition PacketRecvInterface_job_done :: "PacketRecvInterface \<Rightarrow> (PacketRecvInterface \<times> int) option" where
  "PacketRecvInterface_job_done i =
     (if \<not> pri_job_done i \<or> pri_state i \<noteq> STATE_DONE_PENDING then None
      else Some (i\<lparr>pri_job_done := False, pri_state := STATE_NONE\<rparr>, pri_job_done_len i))"

definition pri_inv :: "PacketRecvInterface \<Rightarrow> bool" where
  "pri_inv i \<longleftrightarrow>
     (pri_job_operation i \<longleftrightarrow> pri_state i = STATE_OPERATION_PENDING) \<and>
     (pri_job_done i \<longleftrightarrow> pri_state i = STATE_DONE_PENDING) \<and>
     (pri_state i = STATE_DONE_PENDING \<longrightarrow> 0 \<le> pri_job_done_len i \<and> pri_job_done_len i \<le> pri_mtu i)"

text \<open>The two stream interfaces carry an address and a length, and complete with a positive prefix.\<close>

record StreamInterface =
  si_has_user :: bool
  si_job_operation :: bool
  si_job_operation_data :: "int option"
  si_job_operation_len :: int
  si_job_done :: bool
  si_job_done_len :: int
  si_state :: if_state

type_synonym StreamPassInterface = StreamInterface
type_synonym StreamRecvInterface = StreamInterface

definition StreamInterface_Init :: StreamInterface where
  "StreamInterface_Init = \<lparr>si_has_user = False, si_job_operation = False, si_job_operation_data = None,
     si_job_operation_len = 0, si_job_done = False, si_job_done_len = 0, si_state = STATE_NONE\<rparr>"

definition StreamPassInterface_Init :: StreamPassInterface where
  "StreamPassInterface_Init = StreamInterface_Init"

definition StreamPassInterface_Done :: "StreamPassInterface \<Rightarrow> int \<Rightarrow> StreamPassInterface option" where
  "StreamPassInterface_Done i data_len =
     (if si_state i \<noteq> STATE_BUSY \<or> \<not> data_len > 0 \<or> \<not> data_len \<le> si_job_operation_len i then None
      else Some (i\<lparr>si_job_done_len := data_len, si_job_done := True, si_state := STATE_DONE_PENDING\<rparr>))"

definition StreamPassInterface_Sender_Init :: "StreamPassInterface \<Rightarrow> StreamPassInterface option" where
  "StreamPassInterface_Sender_Init i = (if si_has_user i then None else Some (i\<lparr>si_has_user := True\<rparr>))"

definition StreamPassInterface_Sender_Send ::
  "StreamPassInterface \<Rightarrow> int option \<Rightarrow> int \<Rightarrow> StreamPassInterface option" where
  "StreamPassInterface_Sender_Send i data data_len =
     (if \<not> data_len > 0 \<or> data = None \<or> si_state i \<noteq> STATE_NONE \<or> \<not> si_has_user i then None
      else Some (i\<lparr>si_job_operation_data := data, si_job_operation_len := data_len, si_job_operation := True,
                   si_state := STATE_OPERATION_PENDING\<rparr>))"

definition StreamPassInterface_job_operation ::
  "StreamPassInterface \<Rightarrow> (StreamPassInterface \<times> int option \<times> int) option" where
  "StreamPassInterface_job_operation i =
     (if \<not> si_job_operation i \<or> si_state i \<noteq> STATE_OPERATION_PENDING then None
      else Some (i\<lparr>si_job_operation := False, si_state := STATE_BUSY\<rparr>,
                 si_job_operation_data i, si_job_operation_len i))"

definition StreamPassInterface_job_done :: "StreamPassInterface \<Rightarrow> (StreamPassInterface \<times> int) option" where
  "StreamPassInterface_job_done i =
     (if \<not> si_job_done i \<or> si_state i \<noteq> STATE_DONE_PENDING then None
      else Some (i\<lparr>si_job_done := False, si_state := STATE_NONE\<rparr>, si_job_done_len i))"

definition StreamRecvInterface_Init :: StreamRecvInterface where
  "StreamRecvInterface_Init = StreamInterface_Init"

definition StreamRecvInterface_Done :: "StreamRecvInterface \<Rightarrow> int \<Rightarrow> StreamRecvInterface option" where
  "StreamRecvInterface_Done i data_len =
     (if si_state i \<noteq> STATE_BUSY \<or> \<not> data_len > 0 \<or> \<not> data_len \<le> si_job_operation_len i then None
      else Some (i\<lparr>si_job_done_len := data_len, si_job_done := True, si_state := STATE_DONE_PENDING\<rparr>))"

definition StreamRecvInterface_Receiver_Init :: "StreamRecvInterface \<Rightarrow> StreamRecvInterface option" where
  "StreamRecvInterface_Receiver_Init i = (if si_has_user i then None else Some (i\<lparr>si_has_user := True\<rparr>))"

definition StreamRecvInterface_Receiver_Recv ::
  "StreamRecvInterface \<Rightarrow> int option \<Rightarrow> int \<Rightarrow> StreamRecvInterface option" where
  "StreamRecvInterface_Receiver_Recv i data data_len =
     (if \<not> data_len > 0 \<or> data = None \<or> si_state i \<noteq> STATE_NONE \<or> \<not> si_has_user i then None
      else Some (i\<lparr>si_job_operation_data := data, si_job_operation_len := data_len, si_job_operation := True,
                   si_state := STATE_OPERATION_PENDING\<rparr>))"

definition StreamRecvInterface_job_operation ::
  "StreamRecvInterface \<Rightarrow> (StreamRecvInterface \<times> int option \<times> int) option" where
  "StreamRecvInterface_job_operation i =
     (if \<not> si_job_operation i \<or> si_state i \<noteq> STATE_OPERATION_PENDING then None
      else Some (i\<lparr>si_job_operation := False, si_state := STATE_BUSY\<rparr>,
                 si_job_operation_data i, si_job_operation_len i))"

definition StreamRecvInterface_job_done :: "StreamRecvInterface \<Rightarrow> (StreamRecvInterface \<times> int) option" where
  "StreamRecvInterface_job_done i =
     (if \<not> si_job_done i \<or> si_state i \<noteq> STATE_DONE_PENDING then None
      else Some (i\<lparr>si_job_done := False, si_state := STATE_NONE\<rparr>, si_job_done_len i))"

definition si_inv :: "StreamInterface \<Rightarrow> bool" where
  "si_inv i \<longleftrightarrow>
     (si_job_operation i \<longleftrightarrow> si_state i = STATE_OPERATION_PENDING) \<and>
     (si_job_done i \<longleftrightarrow> si_state i = STATE_DONE_PENDING) \<and>
     (si_state i \<noteq> STATE_NONE \<longrightarrow> 0 < si_job_operation_len i) \<and>
     (si_state i = STATE_DONE_PENDING \<longrightarrow> 0 < si_job_done_len i \<and> si_job_done_len i \<le> si_job_operation_len i)"

lemmas ppi_defs = PacketPassInterface_Init_def PacketPassInterface_EnableCancel_def PacketPassInterface_Done_def
  PacketPassInterface_Sender_Init_def PacketPassInterface_Sender_Send_def
  PacketPassInterface_Sender_RequestCancel_def PacketPassInterface_job_operation_def
  PacketPassInterface_job_requestcancel_def PacketPassInterface_job_done_def

lemmas pri_defs = PacketRecvInterface_Init_def PacketRecvInterface_Done_def PacketRecvInterface_Receiver_Init_def
  PacketRecvInterface_Receiver_Recv_def PacketRecvInterface_job_operation_def PacketRecvInterface_job_done_def

lemmas si_defs = StreamInterface_Init_def StreamPassInterface_Init_def StreamPassInterface_Done_def
  StreamPassInterface_Sender_Init_def StreamPassInterface_Sender_Send_def StreamPassInterface_job_operation_def
  StreamPassInterface_job_done_def StreamRecvInterface_Init_def StreamRecvInterface_Done_def
  StreamRecvInterface_Receiver_Init_def StreamRecvInterface_Receiver_Recv_def
  StreamRecvInterface_job_operation_def StreamRecvInterface_job_done_def


subsection \<open>The life of a packet-passing interface\<close>

text \<open>Every interface a sender and a provider can reach, with the operations the sender started and the
  completions it was told of.\<close>

inductive ppi_reach :: "PacketPassInterface \<Rightarrow> nat \<Rightarrow> nat \<Rightarrow> bool" where
  init: "PacketPassInterface_Sender_Init (PacketPassInterface_Init mtu) = Some i \<Longrightarrow> ppi_reach i 0 0"
| init_cancel: "PacketPassInterface_EnableCancel (PacketPassInterface_Init mtu) = Some c \<Longrightarrow>
    PacketPassInterface_Sender_Init c = Some i \<Longrightarrow> ppi_reach i 0 0"
| send: "ppi_reach i s d \<Longrightarrow> PacketPassInterface_Sender_Send i data len = Some i' \<Longrightarrow> ppi_reach i' (Suc s) d"
| cancel: "ppi_reach i s d \<Longrightarrow> PacketPassInterface_Sender_RequestCancel i = Some i' \<Longrightarrow> ppi_reach i' s d"
| provider_done: "ppi_reach i s d \<Longrightarrow> PacketPassInterface_Done i = Some i' \<Longrightarrow> ppi_reach i' s d"
| operation: "ppi_reach i s d \<Longrightarrow> PacketPassInterface_job_operation i = Some (i', data, len) \<Longrightarrow> ppi_reach i' s d"
| requestcancel: "ppi_reach i s d \<Longrightarrow> PacketPassInterface_job_requestcancel i = Some i' \<Longrightarrow> ppi_reach i' s d"
| job_done: "ppi_reach i s d \<Longrightarrow> PacketPassInterface_job_done i = Some i' \<Longrightarrow> ppi_reach i' s (Suc d)"

lemma ppi_reach_inv: "ppi_reach i s d \<Longrightarrow> ppi_inv i \<and> s = d + (if ppi_state i = STATE_NONE then 0 else 1)"
proof (induction rule: ppi_reach.induct)
  case (init mtu i)
  then show ?case by (auto simp: ppi_inv_def ppi_defs)
next
  case (init_cancel mtu c i)
  then show ?case by (auto simp: ppi_inv_def ppi_defs)
next
  case (send i s d data len i')
  then show ?case by (auto simp: ppi_inv_def PacketPassInterface_Sender_Send_def split: if_splits)
next
  case (cancel i s d i')
  then show ?case
    by (cases "ppi_state i") (auto simp: ppi_inv_def PacketPassInterface_Sender_RequestCancel_def Let_def split: if_splits)
next
  case (provider_done i s d i')
  then show ?case by (auto simp: ppi_inv_def PacketPassInterface_Done_def split: if_splits)
next
  case (operation i s d i' data len)
  then show ?case by (auto simp: ppi_inv_def PacketPassInterface_job_operation_def split: if_splits)
next
  case (requestcancel i s d i')
  then show ?case by (auto simp: ppi_inv_def PacketPassInterface_job_requestcancel_def split: if_splits)
next
  case (job_done i s d i')
  then show ?case by (auto simp: ppi_inv_def PacketPassInterface_job_done_def split: if_splits)
qed

text \<open>Whatever the sender (cancellation included) and the provider do within their contracts, every
  operation is completed exactly once: the started operations are the reported completions plus the
  one in progress, and a scheduled job always finds the interface in the state it asserts.\<close>

theorem ppi_one_completion:
  assumes "ppi_reach i s d"
  shows "s = d + (if ppi_state i = STATE_NONE then 0 else 1) \<and>
    (ppi_job_operation i \<longrightarrow> PacketPassInterface_job_operation i \<noteq> None) \<and>
    (ppi_job_requestcancel i \<longrightarrow> PacketPassInterface_job_requestcancel i \<noteq> None) \<and>
    (ppi_job_done i \<longrightarrow> PacketPassInterface_job_done i \<noteq> None)"
  using ppi_reach_inv [OF assms]
  by (auto simp: ppi_inv_def PacketPassInterface_job_operation_def PacketPassInterface_job_requestcancel_def
      PacketPassInterface_job_done_def)

theorem ppi_one_completion_witness:
  "\<exists>i. ppi_reach i 1 0 \<and> ppi_state i = STATE_OPERATION_PENDING \<and> PacketPassInterface_job_operation i \<noteq> None"
proof -
  define i0 where "i0 = the (PacketPassInterface_Sender_Init (PacketPassInterface_Init 10))"
  define i where "i = the (PacketPassInterface_Sender_Send i0 (Some 0) 5)"
  have "ppi_reach i0 0 0" by (rule ppi_reach.init [of 10]) (simp add: i0_def ppi_defs)
  then have r: "ppi_reach i (Suc 0) 0"
    by (rule ppi_reach.send [of _ _ _ "Some 0" 5]) (simp add: i_def i0_def ppi_defs)
  have st: "ppi_state i = STATE_OPERATION_PENDING" "ppi_job_operation i"
    by (simp_all add: i_def i0_def ppi_defs)
  have "PacketPassInterface_job_operation i \<noteq> None" using ppi_one_completion [OF r] st(2) by blast
  with r st(1) show ?thesis unfolding One_nat_def by blast
qed

end
