(* ===== verification/PacketBuffer.thy ===== *)
theory PacketBuffer
  imports ChunkBuffer2 FlowInterfaces "HOL-Library.Monad_Syntax"
begin

text \<open>
  \<open>badvpn/flow/PacketBuffer.c\<close>: a FIFO between a packet receiving and a packet passing interface.
  The handlers are translated with the interface calls they make; the environment (the providers of
  the two interfaces and the job queue) is a step relation that allows every order of events.
\<close>

subsection \<open>The code\<close>

record PacketBuffer =
  pb_input :: PacketRecvInterface
  pb_input_mtu :: int
  pb_output :: PacketPassInterface
  pb_buf :: ChunkBuffer2

definition PacketBuffer_input_handler_done :: "PacketBuffer \<Rightarrow> int \<Rightarrow> PacketBuffer option" where
  "PacketBuffer_input_handler_done buf in_len =
     (if \<not> in_len \<ge> 0 \<or> \<not> in_len \<le> pb_input_mtu buf then None
      else
        let was_empty = (cb_output_avail (pb_buf buf) < 0) in
        do {
          b \<leftarrow> ChunkBuffer2_SubmitPacket (pb_buf buf) in_len;
          i \<leftarrow> (if cb_input_avail b \<ge> pb_input_mtu buf
               then PacketRecvInterface_Receiver_Recv (pb_input buf) (cb_input_dest b)
               else Some (pb_input buf));
          out \<leftarrow> (if was_empty
               then PacketPassInterface_Sender_Send (pb_output buf) (cb_output_dest b) (cb_output_avail b)
               else Some (pb_output buf));
          Some (buf\<lparr>pb_buf := b, pb_input := i, pb_output := out\<rparr>)
        })"

definition PacketBuffer_output_handler_done :: "PacketBuffer \<Rightarrow> PacketBuffer option" where
  "PacketBuffer_output_handler_done buf =
     (let was_full = (cb_input_avail (pb_buf buf) < pb_input_mtu buf) in
      do {
        b \<leftarrow> ChunkBuffer2_ConsumePacket (pb_buf buf);
        i \<leftarrow> (if was_full \<and> cb_input_avail b \<ge> pb_input_mtu buf
             then PacketRecvInterface_Receiver_Recv (pb_input buf) (cb_input_dest b)
             else Some (pb_input buf));
        out \<leftarrow> (if cb_output_avail b \<ge> 0
             then PacketPassInterface_Sender_Send (pb_output buf) (cb_output_dest b) (cb_output_avail b)
             else Some (pb_output buf));
        Some (buf\<lparr>pb_buf := b, pb_input := i, pb_output := out\<rparr>)
      })"

text \<open>\<open>alloc\<close> is \<open>BAllocArray\<close>: the memory of the given number of blocks, or \<open>None\<close>.  The outer option
  is a failed assertion, the inner one the error return.\<close>

definition PacketBuffer_Init ::
  "(int \<Rightarrow> bytes option) \<Rightarrow> PacketRecvInterface \<Rightarrow> PacketPassInterface \<Rightarrow> int \<Rightarrow> PacketBuffer option option" where
  "PacketBuffer_Init alloc inp outp num_packets =
     (if \<not> ppi_mtu outp \<ge> pri_mtu inp \<or> \<not> num_packets > 0 then None
      else do {
        i \<leftarrow> PacketRecvInterface_Receiver_Init inp;
        out \<leftarrow> PacketPassInterface_Sender_Init outp;
        let input_mtu = pri_mtu inp;
        let num_blocks = ChunkBuffer2_calc_blocks input_mtu num_packets;
        if num_blocks < 0 then Some None
        else case alloc num_blocks of
            None \<Rightarrow> Some None
          | Some buf_data \<Rightarrow> do {
              let b = ChunkBuffer2_Init buf_data num_blocks input_mtu;
              i \<leftarrow> PacketRecvInterface_Receiver_Recv i (cb_input_dest b);
              Some (Some \<lparr>pb_input = i, pb_input_mtu = input_mtu, pb_output = out, pb_buf = b\<rparr>)
            }
      })"

subsection \<open>Events\<close>

text \<open>The packets received so far and the packets whose transmission the output has completed.\<close>

record pb_system =
  sys_pb :: PacketBuffer
  sys_rx :: "bytes list"
  sys_tx :: "bytes list"

inductive pb_step :: "pb_system \<Rightarrow> pb_system \<Rightarrow> bool" where
  recv_start: "PacketRecvInterface_job_operation (pb_input (sys_pb s)) = Some (i, data) \<Longrightarrow>
    pb_step s (s\<lparr>sys_pb := (sys_pb s)\<lparr>pb_input := i\<rparr>\<rparr>)"
| recv_write: "pri_state (pb_input (sys_pb s)) = STATE_BUSY \<Longrightarrow>
    pri_job_operation_data (pb_input (sys_pb s)) = Some a \<Longrightarrow> int (length p) \<le> pri_mtu (pb_input (sys_pb s)) \<Longrightarrow>
    pb_step s (s\<lparr>sys_pb := (sys_pb s)\<lparr>pb_buf := cb_write (pb_buf (sys_pb s)) a p\<rparr>\<rparr>)"
| recv_complete: "PacketRecvInterface_Done (pb_input (sys_pb s)) len = Some i \<Longrightarrow>
    pb_step s (s\<lparr>sys_pb := (sys_pb s)\<lparr>pb_input := i\<rparr>\<rparr>)"
| recv_done: "PacketRecvInterface_job_done (pb_input (sys_pb s)) = Some (i, len) \<Longrightarrow>
    pri_job_operation_data i = Some a \<Longrightarrow>
    PacketBuffer_input_handler_done ((sys_pb s)\<lparr>pb_input := i\<rparr>) len = Some b \<Longrightarrow>
    pb_step s (s\<lparr>sys_pb := b, sys_rx := sys_rx s @ [cb_read (pb_buf (sys_pb s)) a len]\<rparr>)"
| send_start: "PacketPassInterface_job_operation (pb_output (sys_pb s)) = Some (out, data, len) \<Longrightarrow>
    pb_step s (s\<lparr>sys_pb := (sys_pb s)\<lparr>pb_output := out\<rparr>\<rparr>)"
| send_complete: "PacketPassInterface_Done (pb_output (sys_pb s)) = Some out \<Longrightarrow>
    ppi_job_operation_data out = Some a \<Longrightarrow>
    pb_step s (s\<lparr>sys_pb := (sys_pb s)\<lparr>pb_output := out\<rparr>,
      sys_tx := sys_tx s @ [cb_read (pb_buf (sys_pb s)) a (ppi_job_operation_len out)]\<rparr>)"
| send_done: "PacketPassInterface_job_done (pb_output (sys_pb s)) = Some out \<Longrightarrow>
    PacketBuffer_output_handler_done ((sys_pb s)\<lparr>pb_output := out\<rparr>) = Some b \<Longrightarrow>
    pb_step s (s\<lparr>sys_pb := b\<rparr>)"

inductive pb_reach :: "int \<Rightarrow> nat \<Rightarrow> pb_system \<Rightarrow> bool" for mtu n where
  start: "pri_mtu inp = mtu \<Longrightarrow> 0 \<le> mtu \<Longrightarrow> pri_inv inp \<Longrightarrow> pri_state inp = STATE_NONE \<Longrightarrow>
    ppi_inv outp \<Longrightarrow> ppi_state outp = STATE_NONE \<Longrightarrow>
    \<forall>k. \<forall>m. alloc k = Some m \<longrightarrow> int (length m) = 4 * k \<and> k < 2 ^ 29 \<Longrightarrow>
    PacketBuffer_Init alloc inp outp (int n) = Some (Some b) \<Longrightarrow>
    pb_reach mtu n \<lparr>sys_pb = b, sys_rx = [], sys_tx = []\<rparr>"
| step: "pb_reach mtu n s \<Longrightarrow> pb_step s s' \<Longrightarrow> pb_reach mtu n s'"

definition pb_inv :: "int \<Rightarrow> nat \<Rightarrow> pb_system \<Rightarrow> bytes list \<Rightarrow> bool" where
  "pb_inv mtu n s ps \<longleftrightarrow>
     (let b = sys_pb s; cb = pb_buf b; i = pb_input b; out = pb_output b in
      0 \<le> mtu \<and> pb_input_mtu b = mtu \<and> pri_mtu i = mtu \<and> mtu \<le> ppi_mtu out \<and> pri_has_user i \<and> ppi_has_user out \<and>
      pri_inv i \<and> ppi_inv out \<and> 0 < n \<and>
      cb_repr cb ps \<and> cb_sized cb mtu n \<and> (\<forall>p \<in> set ps. int (length p) \<le> mtu) \<and>
      (pri_state i = STATE_NONE \<longleftrightarrow> cb_input_avail cb < mtu) \<and>
      (pri_state i \<noteq> STATE_NONE \<longrightarrow> pri_job_operation_data i = cb_input_dest cb) \<and>
      (ppi_state out = STATE_NONE \<longleftrightarrow> ps = []) \<and>
      (ppi_state out \<noteq> STATE_NONE \<longrightarrow> ppi_job_operation_data out = cb_output_dest cb \<and>
         ppi_job_operation_len out = cb_output_avail cb) \<and>
      (if ppi_state out = STATE_DONE_PENDING
       then \<exists>t. sys_tx s = t @ [hd ps] \<and> sys_rx s = t @ ps
       else sys_rx s = sys_tx s @ ps))"


lemma pri_job_done_Some:
  "PacketRecvInterface_job_done i = Some (i', len) \<longleftrightarrow>
     pri_job_done i \<and> pri_state i = STATE_DONE_PENDING \<and> len = pri_job_done_len i \<and>
     i' = i\<lparr>pri_job_done := False, pri_state := STATE_NONE\<rparr>"
  by (auto simp: PacketRecvInterface_job_done_def)

lemma ppi_job_done_Some:
  "PacketPassInterface_job_done i = Some i' \<longleftrightarrow>
     ppi_job_done i \<and> ppi_state i = STATE_DONE_PENDING \<and> i' = i\<lparr>ppi_job_done := False, ppi_state := STATE_NONE\<rparr>"
  by (auto simp: PacketPassInterface_job_done_def)

lemma input_handler_ok:
  assumes inv: "pb_inv mtu n s ps"
    and jd: "PacketRecvInterface_job_done (pb_input (sys_pb s)) = Some (i, len)"
  shows "\<exists>a b. pri_job_operation_data i = Some a \<and>
    PacketBuffer_input_handler_done ((sys_pb s)\<lparr>pb_input := i\<rparr>) len = Some b \<and>
    pb_inv mtu n (s\<lparr>sys_pb := b, sys_rx := sys_rx s @ [cb_read (pb_buf (sys_pb s)) a len]\<rparr>)
      (ps @ [cb_read (pb_buf (sys_pb s)) a len])"
proof -
  define pb cb where "pb = sys_pb s" and "cb = pb_buf pb"
  note folds = pb_def [symmetric] cb_def [symmetric]
  have i: "pri_job_done (pb_input pb)" "pri_state (pb_input pb) = STATE_DONE_PENDING" "len = pri_job_done_len (pb_input pb)"
    "i = (pb_input pb)\<lparr>pri_job_done := False, pri_state := STATE_NONE\<rparr>"
    using jd unfolding folds pri_job_done_Some by auto
  have m: "0 \<le> mtu" "pb_input_mtu pb = mtu" "pri_mtu (pb_input pb) = mtu" "mtu \<le> ppi_mtu (pb_output pb)"
    "pri_has_user (pb_input pb)" "ppi_has_user (pb_output pb)" "pri_inv (pb_input pb)" "ppi_inv (pb_output pb)" "0 < n"
    and r: "cb_repr cb ps" "cb_sized cb mtu n" "\<forall>p \<in> set ps. int (length p) \<le> mtu" "mtu \<le> cb_input_avail cb"
    "pri_job_operation_data (pb_input pb) = cb_input_dest cb"
    and o: "ppi_state (pb_output pb) = STATE_NONE \<longleftrightarrow> ps = []"
    "ppi_state (pb_output pb) \<noteq> STATE_NONE \<longrightarrow> ppi_job_operation_data (pb_output pb) = cb_output_dest cb \<and>
         ppi_job_operation_len (pb_output pb) = cb_output_avail cb"
    and t: "if ppi_state (pb_output pb) = STATE_DONE_PENDING
       then \<exists>t. sys_tx s = t @ [hd ps] \<and> sys_rx s = t @ ps else sys_rx s = sys_tx s @ ps"
    using inv i(2) unfolding pb_inv_def Let_def folds by auto
  have len: "0 \<le> len" "len \<le> mtu" using m(3,7) i by (auto simp: pri_inv_def)
  obtain a where a: "cb_input_dest cb = Some a"
    using cb.in_window [OF r(1)] r(4) m(1) by auto
  let ?p = "cb_read cb a len"
  obtain c where c: "ChunkBuffer2_SubmitPacket cb len = Some c" "cb_repr c (ps @ [?p])"
    "ps \<noteq> [] \<longrightarrow> cb_output_dest c = cb_output_dest cb \<and> cb_output_avail c = cb_output_avail cb"
    using cb.submit_in_place [OF r(1) a len(1)] len(2) r(4) by auto
  have p: "int (length ?p) = len" using cb.poke_peek [OF r(1) a len(1)] len(2) r(4) by auto
  have cs: "cb_sized c mtu n" using cb.submit_sized [OF c(1) r(2)] .
  define i' where "i' = (if cb_input_avail c \<ge> mtu
    then i\<lparr>pri_job_operation_data := cb_input_dest c, pri_job_operation := True, pri_state := STATE_OPERATION_PENDING\<rparr> else i)"
  have i': "(if cb_input_avail c \<ge> mtu then PacketRecvInterface_Receiver_Recv i (cb_input_dest c) else Some i) = Some i'"
    using cb.in_window [OF c(2)] m(1,5) by (auto simp: i'_def i(4) PacketRecvInterface_Receiver_Recv_def)
  have empty: "cb_output_avail cb < 0 \<longleftrightarrow> ps = []"
    using cb.out_empty [of cb] cb.out_repr [of cb] r(1) by (cases ps) fastforce+
  define out' where "out' = (if ps = [] then (pb_output pb)\<lparr>ppi_job_operation_data := cb_output_dest c,
      ppi_job_operation_len := cb_output_avail c, ppi_job_operation := True,
      ppi_state := STATE_OPERATION_PENDING, ppi_cancel_requested := False\<rparr> else pb_output pb)"
  have out': "(if ps = [] then PacketPassInterface_Sender_Send (pb_output pb) (cb_output_dest c) (cb_output_avail c)
      else Some (pb_output pb)) = Some out'"
    using cb.out_repr [of c ?p "[]"] c(2) o(1) m(4,6) p len
    by (auto simp: out'_def PacketPassInterface_Sender_Send_def)
  let ?b = "pb\<lparr>pb_input := i', pb_output := out', pb_buf := c\<rparr>"
  have h: "PacketBuffer_input_handler_done (pb\<lparr>pb_input := i\<rparr>) len = Some ?b"
    using len m(2) c(1) i' out' empty by (simp add: PacketBuffer_input_handler_done_def cb_def [symmetric] Let_def split del: if_split cong: if_cong)
  have ii: "pri_inv i'" "pri_mtu i' = mtu" "pri_has_user i'" "pri_state i' = STATE_NONE \<longleftrightarrow> cb_input_avail c < mtu"
    "pri_state i' \<noteq> STATE_NONE \<longrightarrow> pri_job_operation_data i' = cb_input_dest c"
    using m(3,5,7) i by (auto simp: i'_def pri_inv_def)
  have oo: "ppi_inv out'" "mtu \<le> ppi_mtu out'" "ppi_has_user out'" "ppi_state out' \<noteq> STATE_NONE"
    "ppi_job_operation_data out' = cb_output_dest c" "ppi_job_operation_len out' = cb_output_avail c"
    "ppi_state out' = STATE_DONE_PENDING \<longleftrightarrow> ppi_state (pb_output pb) = STATE_DONE_PENDING"
    using m(4,6,8) o c(3) by (auto simp: out'_def ppi_inv_def)
  have tt: "if ppi_state out' = STATE_DONE_PENDING
       then \<exists>t. sys_tx s = t @ [hd (ps @ [?p])] \<and> sys_rx s = t @ ps else sys_rx s = sys_tx s @ ps"
    using t o(1) oo(7) by (cases ps) auto
  have "pb_inv mtu n (s\<lparr>sys_pb := ?b, sys_rx := sys_rx s @ [?p]\<rparr>) (ps @ [?p])"
    unfolding pb_inv_def Let_def using m c(2) cs r(3) p len ii oo tt by simp
  then show ?thesis
    unfolding folds using h r(5) a i(4) by auto
qed


lemma output_handler_ok:
  assumes inv: "pb_inv mtu n s ps"
    and jd: "PacketPassInterface_job_done (pb_output (sys_pb s)) = Some out"
  shows "\<exists>b. PacketBuffer_output_handler_done ((sys_pb s)\<lparr>pb_output := out\<rparr>) = Some b \<and>
    pb_inv mtu n (s\<lparr>sys_pb := b\<rparr>) (tl ps)"
proof -
  define pb cb where "pb = sys_pb s" and "cb = pb_buf pb"
  note folds = pb_def [symmetric] cb_def [symmetric]
  have i: "ppi_job_done (pb_output pb)" "ppi_state (pb_output pb) = STATE_DONE_PENDING"
    "out = (pb_output pb)\<lparr>ppi_job_done := False, ppi_state := STATE_NONE\<rparr>"
    using jd unfolding folds ppi_job_done_Some by auto
  have m: "0 \<le> mtu" "pb_input_mtu pb = mtu" "pri_mtu (pb_input pb) = mtu" "mtu \<le> ppi_mtu (pb_output pb)"
    "pri_has_user (pb_input pb)" "ppi_has_user (pb_output pb)" "pri_inv (pb_input pb)" "ppi_inv (pb_output pb)" "0 < n"
    and r: "cb_repr cb ps" "cb_sized cb mtu n" "\<forall>p \<in> set ps. int (length p) \<le> mtu"
    "pri_state (pb_input pb) = STATE_NONE \<longleftrightarrow> cb_input_avail cb < mtu"
    "pri_state (pb_input pb) \<noteq> STATE_NONE \<longrightarrow> pri_job_operation_data (pb_input pb) = cb_input_dest cb"
    and o: "ps \<noteq> []"
    and t: "\<exists>t. sys_tx s = t @ [hd ps] \<and> sys_rx s = t @ ps"
    using inv i(2) unfolding pb_inv_def Let_def folds by auto
  obtain p qs where ps: "ps = p # qs" using o by (cases ps) auto
  obtain c where c: "ChunkBuffer2_ConsumePacket cb = Some c" "cb_repr c qs"
    "cb_input_dest cb \<noteq> None \<longrightarrow> cb_input_dest c = cb_input_dest cb" "cb_input_avail cb \<le> cb_input_avail c"
    using cb.consume_repr [of cb p qs] r(1) ps by auto
  have cs: "cb_sized c mtu n" using cb.consume_sized [OF c(1) r(2)] .
  have dest: "cb_input_avail cb \<ge> mtu \<Longrightarrow> cb_input_dest c = cb_input_dest cb"
    using c(3) cb.in_window [OF r(1)] m(1) by linarith
  define i' where "i' = (if cb_input_avail cb < mtu \<and> cb_input_avail c \<ge> mtu
    then (pb_input pb)\<lparr>pri_job_operation_data := cb_input_dest c, pri_job_operation := True,
      pri_state := STATE_OPERATION_PENDING\<rparr> else pb_input pb)"
  have i': "(if cb_input_avail cb < mtu \<and> cb_input_avail c \<ge> mtu
      then PacketRecvInterface_Receiver_Recv (pb_input pb) (cb_input_dest c) else Some (pb_input pb)) = Some i'"
    using cb.in_window [OF c(2)] m(1,5) r(4) by (auto simp: i'_def PacketRecvInterface_Receiver_Recv_def)
  have empty: "cb_output_avail c \<ge> 0 \<longleftrightarrow> qs \<noteq> []"
    using cb.out_empty [of c] cb.out_repr [of c] c(2) by (cases qs) fastforce+
  define out' where "out' = (if qs \<noteq> [] then out\<lparr>ppi_job_operation_data := cb_output_dest c,
      ppi_job_operation_len := cb_output_avail c, ppi_job_operation := True,
      ppi_state := STATE_OPERATION_PENDING, ppi_cancel_requested := False\<rparr> else out)"
  have out': "(if qs \<noteq> [] then PacketPassInterface_Sender_Send out (cb_output_dest c) (cb_output_avail c)
      else Some out) = Some out'"
  proof (cases qs)
    case (Cons q rs)
    with cb.out_repr [of c q rs] c(2) m(4,6) r(3) ps i(3) show ?thesis
      by (auto simp: out'_def PacketPassInterface_Sender_Send_def)
  qed (simp add: out'_def)
  let ?b = "pb\<lparr>pb_input := i', pb_output := out', pb_buf := c\<rparr>"
  have h: "PacketBuffer_output_handler_done (pb\<lparr>pb_output := out\<rparr>) = Some ?b"
    using m(2) c(1) i' out' empty
    by (simp add: PacketBuffer_output_handler_done_def cb_def [symmetric] Let_def split del: if_split cong: if_cong)
  have ii: "pri_inv i'" "pri_mtu i' = mtu" "pri_has_user i'" "pri_state i' = STATE_NONE \<longleftrightarrow> cb_input_avail c < mtu"
    "pri_state i' \<noteq> STATE_NONE \<longrightarrow> pri_job_operation_data i' = cb_input_dest c"
    using m(3,5,7) r(4,5) c(4) dest by (auto simp: i'_def pri_inv_def)
  have oo: "ppi_inv out'" "mtu \<le> ppi_mtu out'" "ppi_has_user out'" "ppi_state out' = STATE_NONE \<longleftrightarrow> qs = []"
    "ppi_state out' \<noteq> STATE_NONE \<longrightarrow> ppi_job_operation_data out' = cb_output_dest c \<and> ppi_job_operation_len out' = cb_output_avail c"
    "ppi_state out' \<noteq> STATE_DONE_PENDING"
    using m(4,6,8) i by (auto simp: out'_def ppi_inv_def)
  have tt: "sys_rx s = sys_tx s @ qs" using t ps by auto
  have "pb_inv mtu n (s\<lparr>sys_pb := ?b\<rparr>) qs"
    unfolding pb_inv_def Let_def using m c(2) cs r(3) ps ii oo tt by simp
  then show ?thesis unfolding folds using h ps by auto
qed


lemma pb_step_inv:
  assumes "pb_step s s'" and "pb_inv mtu n s ps"
  shows "\<exists>ps'. pb_inv mtu n s' ps'"
  using assms
proof (cases rule: pb_step.cases)
  case (recv_start i data)
  then have "pb_inv mtu n s' ps"
    using assms(2) unfolding pb_inv_def Let_def
    by (auto simp: PacketRecvInterface_job_operation_def pri_inv_def split: if_splits)
  then show ?thesis ..
next
  case (recv_write a p)
  let ?cb = "pb_buf (sys_pb s)"
  have w: "cb_repr ?cb ps" "cb_input_dest ?cb = Some a" "int (length p) \<le> cb_input_avail ?cb" "cb_sized ?cb mtu n"
    using assms(2) recv_write by (auto simp: pb_inv_def Let_def)
  have "pb_inv mtu n s' ps"
    using assms(2) cb.poke_repr [OF w(1-3)] cb.poke_sized [of ?cb a p mtu n]
    unfolding recv_write(1) pb_inv_def Let_def by simp
  then show ?thesis ..
next
  case (recv_complete len i)
  then have "pb_inv mtu n s' ps"
    using assms(2) unfolding pb_inv_def Let_def
    by (auto simp: PacketRecvInterface_Done_def pri_inv_def split: if_splits)
  then show ?thesis ..
next
  case (recv_done i len a b)
  then show ?thesis using input_handler_ok [OF assms(2) recv_done(2)] by auto
next
  case (send_start out data len)
  then have "pb_inv mtu n s' ps"
    using assms(2) unfolding pb_inv_def Let_def
    by (auto simp: PacketPassInterface_job_operation_def ppi_inv_def split: if_splits)
  then show ?thesis ..
next
  case (send_complete out a)
  have st: "ppi_state (pb_output (sys_pb s)) = STATE_BUSY" and
    out: "out = (pb_output (sys_pb s))\<lparr>ppi_job_requestcancel := False, ppi_job_done := True, ppi_state := STATE_DONE_PENDING\<rparr>"
    using send_complete(2) by (auto simp: PacketPassInterface_Done_def split: if_splits)
  then obtain p qs where ps: "ps = p # qs"
    using assms(2) by (cases ps) (auto simp: pb_inv_def Let_def)
  have "cb_read (pb_buf (sys_pb s)) a (ppi_job_operation_len out) = p"
    using cb.out_repr [of "pb_buf (sys_pb s)" p qs] assms(2) ps st send_complete(3) out
    by (auto simp: pb_inv_def Let_def)
  then have "pb_inv mtu n s' ps"
    using assms(2) st ps unfolding send_complete(1) pb_inv_def Let_def
    by (simp add: out ppi_inv_def)
  then show ?thesis ..
next
  case (send_done out b)
  then show ?thesis using output_handler_ok [OF assms(2) send_done(2)] by auto
qed

lemma pb_start_inv:
  assumes "pri_mtu inp = mtu" and "0 \<le> mtu" and "pri_inv inp" and "pri_state inp = STATE_NONE"
    and "ppi_inv outp" and "ppi_state outp = STATE_NONE"
    and alloc: "\<forall>k. \<forall>m. alloc k = Some m \<longrightarrow> int (length m) = 4 * k \<and> k < 2 ^ 29"
    and init: "PacketBuffer_Init alloc inp outp (int n) = Some (Some b)"
  shows "pb_inv mtu n \<lparr>sys_pb = b, sys_rx = [], sys_tx = []\<rparr> []"
proof -
  define k where "k = ChunkBuffer2_calc_blocks mtu (int n)"
  obtain m i where m: "alloc k = Some m" "0 \<le> k" "mtu \<le> ppi_mtu outp" "0 < n"
    "PacketRecvInterface_Receiver_Recv (inp\<lparr>pri_has_user := True\<rparr>) (cb_input_dest (ChunkBuffer2_Init m k mtu)) = Some i"
    "b = \<lparr>pb_input = i, pb_input_mtu = mtu, pb_output = outp\<lparr>ppi_has_user := True\<rparr>, pb_buf = ChunkBuffer2_Init m k mtu\<rparr>"
    using init assms(1)
    by (auto simp: PacketBuffer_Init_def PacketRecvInterface_Receiver_Init_def PacketPassInterface_Sender_Init_def
        Let_def k_def bind_eq_Some_conv split: if_splits option.splits)
  have v: "k = (1 + bdivide_up mtu 4) * (int n + 1)" "bdivide_up mtu 4 < k"
    using calc_blocks_value [OF assms(2), of "int n"] m(2,4) by (auto simp: k_def)
  let ?cb = "ChunkBuffer2_Init m k mtu"
  have r: "cb_repr ?cb []" using alloc m(1) by (intro cb_init [OF assms(2) v(2)]) auto
  have sz: "cb_sized ?cb mtu n" by (simp add: cb_sized_def ChunkBuffer2_Init_def v)
  have "mtu \<le> cb_input_avail ?cb" using cb.room [OF r sz assms(2)] m(4) by simp
  with m assms r sz cb.out_empty [OF r] show ?thesis
    by (auto simp: pb_inv_def Let_def PacketRecvInterface_Receiver_Recv_def pri_inv_def ppi_inv_def split: if_splits)
qed

lemma pb_reach_inv: "pb_reach mtu n s \<Longrightarrow> \<exists>ps. pb_inv mtu n s ps"
proof (induction rule: pb_reach.induct)
  case (start inp outp alloc b)
  then show ?case using pb_start_inv by blast
next
  case (step s s')
  then show ?case using pb_step_inv by blast
qed


subsection \<open>Properties\<close>

text \<open>The packets in the ring: what its own operations read out of it, one after the other, until it is empty.\<close>

primrec cb_drain :: "nat \<Rightarrow> ChunkBuffer2 \<Rightarrow> bytes list" where
  "cb_drain 0 b = []"
| "cb_drain (Suc k) b =
     (case cb_output_dest b of None \<Rightarrow> []
      | Some a \<Rightarrow> cb_read b a (cb_output_avail b) # (case ChunkBuffer2_ConsumePacket b of None \<Rightarrow> [] | Some b \<Rightarrow> cb_drain k b))"

lemma cb_drain_repr: "cb_repr b ps \<Longrightarrow> length ps \<le> k \<Longrightarrow> cb_drain k b = ps"
proof (induction k arbitrary: b ps)
  case (Suc k)
  show ?case
  proof (cases ps)
    case Nil
    then show ?thesis using cb.out_empty Suc.prems(1) by simp
  next
    case (Cons p qs)
    then obtain a b' where "cb_output_dest b = Some a" "cb_read b a (cb_output_avail b) = p"
      "ChunkBuffer2_ConsumePacket b = Some b'" "cb_repr b' qs"
      using cb.out_repr [of b p qs] cb.consume_repr [of b p qs] Suc.prems(1) by auto
    then show ?thesis using Suc.IH [of b' qs] Suc.prems(2) Cons by simp
  qed
qed simp

text \<open>C36: in every order of events, the packets the input has delivered are those the output has taken followed by those held in
  the ring, in order and unaltered; while the completion of a send is pending, the first one held is the one just
  taken.  A receive is outstanding while fewer than \<open>n\<close> packets are held, a send is outstanding
  while a packet is held, and the buffer never stops on both sides at once.\<close>

theorem PacketBuffer_fifo:
  assumes "pb_reach mtu n s"
  shows "\<exists>held. (\<forall>k. length held \<le> k \<longrightarrow> cb_drain k (pb_buf (sys_pb s)) = held) \<and>
    (if ppi_state (pb_output (sys_pb s)) = STATE_DONE_PENDING
     then \<exists>t. sys_tx s = t @ [hd held] \<and> sys_rx s = t @ held else sys_rx s = sys_tx s @ held) \<and>
    (length held < n \<longrightarrow> pri_state (pb_input (sys_pb s)) \<noteq> STATE_NONE) \<and>
    (held \<noteq> [] \<longleftrightarrow> ppi_state (pb_output (sys_pb s)) \<noteq> STATE_NONE) \<and>
    (pri_state (pb_input (sys_pb s)) \<noteq> STATE_NONE \<or> ppi_state (pb_output (sys_pb s)) \<noteq> STATE_NONE)"
proof -
  obtain ps where inv: "pb_inv mtu n s ps" using pb_reach_inv [OF assms] ..
  let ?cb = "pb_buf (sys_pb s)" and ?out = "pb_output (sys_pb s)"
  have drain: "\<forall>k. length ps \<le> k \<longrightarrow> cb_drain k ?cb = ps" using inv cb_drain_repr by (auto simp: pb_inv_def Let_def)
  have room: "length ps < n \<Longrightarrow> pri_state (pb_input (sys_pb s)) \<noteq> STATE_NONE"
    using inv cb.room [of ?cb ps mtu n] by (auto simp: pb_inv_def Let_def)
  have n: "0 < n" and out: "ppi_state ?out = STATE_NONE \<longleftrightarrow> ps = []"
    and tx: "if ppi_state ?out = STATE_DONE_PENDING then \<exists>t. sys_tx s = t @ [hd ps] \<and> sys_rx s = t @ ps else sys_rx s = sys_tx s @ ps"
    using inv by (auto simp: pb_inv_def Let_def)
  have "pri_state (pb_input (sys_pb s)) \<noteq> STATE_NONE \<or> ppi_state ?out \<noteq> STATE_NONE" using room n out by auto
  with drain tx show ?thesis using room out by (intro exI [of _ ps]) blast
qed

text \<open>No assertion of \<open>PacketBuffer\<close>, of its ring or of its interfaces can fail: whenever a completion job is
  scheduled, the handler it calls runs to its end (the requests it makes find the interfaces idle,
  the lengths are within the MTU and the addresses are not \<open>NULL\<close>).\<close>

theorem PacketBuffer_handlers_safe:
  assumes "pb_reach mtu n s"
  shows "(pri_job_done (pb_input (sys_pb s)) \<longrightarrow>
      (\<exists>i len. PacketRecvInterface_job_done (pb_input (sys_pb s)) = Some (i, len) \<and>
        PacketBuffer_input_handler_done ((sys_pb s)\<lparr>pb_input := i\<rparr>) len \<noteq> None)) \<and>
    (ppi_job_done (pb_output (sys_pb s)) \<longrightarrow>
      (\<exists>out. PacketPassInterface_job_done (pb_output (sys_pb s)) = Some out \<and>
        PacketBuffer_output_handler_done ((sys_pb s)\<lparr>pb_output := out\<rparr>) \<noteq> None))"
proof -
  obtain ps where inv: "pb_inv mtu n s ps" using pb_reach_inv [OF assms] ..
  have "PacketRecvInterface_job_done (pb_input (sys_pb s)) \<noteq> None" if "pri_job_done (pb_input (sys_pb s))"
    using that inv by (auto simp: pb_inv_def Let_def pri_inv_def PacketRecvInterface_job_done_def)
  moreover have "PacketPassInterface_job_done (pb_output (sys_pb s)) \<noteq> None" if "ppi_job_done (pb_output (sys_pb s))"
    using that inv by (auto simp: pb_inv_def Let_def ppi_inv_def PacketPassInterface_job_done_def)
  ultimately show ?thesis
    using input_handler_ok [OF inv] output_handler_ok [OF inv] by fastforce
qed

text \<open>A buffer for two packets of at most four octets, in its initial state.\<close>

definition pb_example :: PacketBuffer where
  "pb_example = the (the (PacketBuffer_Init (\<lambda>k. if k = 6 then Some (replicate 24 0) else None)
     (PacketRecvInterface_Init 4) (PacketPassInterface_Init 4) 2))"

lemma pb_example_reach: "pb_reach 4 2 \<lparr>sys_pb = pb_example, sys_rx = [], sys_tx = []\<rparr>"
proof (rule pb_reach.start)
  have "PacketBuffer_Init (\<lambda>k. if k = 6 then Some (replicate 24 0) else None)
     (PacketRecvInterface_Init 4) (PacketPassInterface_Init 4) 2 \<noteq> None \<and>
    PacketBuffer_Init (\<lambda>k. if k = 6 then Some (replicate 24 0) else None)
     (PacketRecvInterface_Init 4) (PacketPassInterface_Init 4) 2 \<noteq> Some None"
    by (simp add: PacketBuffer_Init_def pri_defs ppi_defs ChunkBuffer2_calc_blocks_def bdivide_up_def INT_MAX_def
        ChunkBuffer2_Init_def ChunkBuffer2_update_input_def ChunkBuffer2_end_def ChunkBuffer2_free_def Let_def)
  then show "PacketBuffer_Init (\<lambda>k. if k = 6 then Some (replicate 24 0) else None)
     (PacketRecvInterface_Init 4) (PacketPassInterface_Init 4) (int 2) = Some (Some pb_example)"
    by (auto simp: pb_example_def)
qed (auto simp: pri_inv_def ppi_inv_def pri_defs ppi_defs split: if_splits)

text \<open>The same buffer when the input has written a packet of three octets and reported it.\<close>

definition pb_example_rx :: pb_system where
  "pb_example_rx = \<lparr>sys_pb = pb_example\<lparr>
     pb_buf := cb_write (pb_buf pb_example) 4 [1, 2, 3],
     pb_input := (pb_input pb_example)\<lparr>pri_job_operation := False, pri_job_done_len := 3,
       pri_job_done := True, pri_state := STATE_DONE_PENDING\<rparr>\<rparr>, sys_rx = [], sys_tx = []\<rparr>"

lemma pb_example_input:
  "pri_job_operation (pb_input pb_example)" "pri_state (pb_input pb_example) = STATE_OPERATION_PENDING"
  "pri_job_operation_data (pb_input pb_example) = Some 4" "pri_mtu (pb_input pb_example) = 4"
  "cb_buffer (pb_buf pb_example) = replicate 24 0"
  by (simp_all add: pb_example_def PacketBuffer_Init_def pri_defs ppi_defs ChunkBuffer2_calc_blocks_def
      bdivide_up_def INT_MAX_def ChunkBuffer2_Init_def ChunkBuffer2_update_input_def ChunkBuffer2_end_def
      ChunkBuffer2_free_def Let_def)

lemma pb_example_rx_reach: "pb_reach 4 2 pb_example_rx"
proof -
  let ?i = "(pb_input pb_example)\<lparr>pri_job_operation := False, pri_state := STATE_BUSY\<rparr>"
  let ?s1 = "\<lparr>sys_pb = pb_example\<lparr>pb_input := ?i\<rparr>, sys_rx = [], sys_tx = []\<rparr>"
  have "pb_reach 4 2 ?s1"
    using pb_reach.step [OF pb_example_reach pb_step.recv_start, of ?i "Some 4"]
    by (simp add: PacketRecvInterface_job_operation_def pb_example_input)
  then have "pb_reach 4 2 (?s1\<lparr>sys_pb := (sys_pb ?s1)\<lparr>pb_buf := cb_write (pb_buf pb_example) 4 [1, 2, 3]\<rparr>\<rparr>)"
    using pb_reach.step [OF _ pb_step.recv_write [of ?s1 4 "[1, 2, 3]"]] by (simp add: pb_example_input)
  then show ?thesis
    using pb_reach.step [OF _ pb_step.recv_complete [of "?s1\<lparr>sys_pb := (sys_pb ?s1)\<lparr>pb_buf := cb_write (pb_buf pb_example) 4 [1, 2, 3]\<rparr>\<rparr>" 3]]
    by (simp add: pb_example_rx_def PacketRecvInterface_Done_def pb_example_input)
qed

theorem PacketBuffer_fifo_witness:
  "\<exists>s. pb_reach 4 2 s \<and> sys_rx s = [[1, 2, 3]] \<and> sys_tx s = [] \<and> ppi_state (pb_output (sys_pb s)) \<noteq> STATE_NONE"
proof -
  let ?s = pb_example_rx
  let ?i = "(pb_input (sys_pb ?s))\<lparr>pri_job_done := False, pri_state := STATE_NONE\<rparr>"
  have jd: "PacketRecvInterface_job_done (pb_input (sys_pb ?s)) = Some (?i, 3)"
    by (simp add: PacketRecvInterface_job_done_def pb_example_rx_def)
  have a: "pri_job_operation_data ?i = Some 4" by (simp add: pb_example_rx_def pb_example_input)
  have d: "cb_read (pb_buf (sys_pb ?s)) 4 3 = [1, 2, 3]"
    by (simp add: pb_example_rx_def cb_read_def cb_write_def mem_read_def mem_write_def pb_example_input)
  obtain ps b where "PacketBuffer_input_handler_done ((sys_pb ?s)\<lparr>pb_input := ?i\<rparr>) 3 = Some b"
    using pb_reach_inv [OF pb_example_rx_reach] input_handler_ok [OF _ jd] by blast
  then have r: "pb_reach 4 2 (?s\<lparr>sys_pb := b, sys_rx := [[1, 2, 3]]\<rparr>)"
    using pb_reach.step [OF pb_example_rx_reach pb_step.recv_done [OF jd a]] d by (simp add: pb_example_rx_def)
  show ?thesis
    using PacketBuffer_fifo [OF r] r by (intro exI [of _ "?s\<lparr>sys_pb := b, sys_rx := [[1, 2, 3]]\<rparr>"]) (auto simp: pb_example_rx_def)
qed

theorem PacketBuffer_handlers_safe_witness:
  "\<exists>i len. PacketRecvInterface_job_done (pb_input (sys_pb pb_example_rx)) = Some (i, len) \<and>
        PacketBuffer_input_handler_done ((sys_pb pb_example_rx)\<lparr>pb_input := i\<rparr>) len \<noteq> None"
  using PacketBuffer_handlers_safe [OF pb_example_rx_reach] by (simp add: pb_example_rx_def)

end
