(* ===== verification/PacketProto.thy ===== *)
theory PacketProto
  imports FlowInterfaces "HOL-Library.Monad_Syntax"
begin

text \<open>
  \<open>badvpn/flow/PacketProtoEncoder.c\<close>, \<open>PacketProtoDecoder.c\<close> and \<open>protocol/packetproto.h\<close>: packets over a
  byte stream, each preceded by its length as a 16-bit little-endian integer.
\<close>

subsection \<open>The protocol\<close>

definition PACKETPROTO_MAXPAYLOAD :: int where
  "PACKETPROTO_MAXPAYLOAD = 65535"

definition PACKETPROTO_ENCLEN :: "int \<Rightarrow> int" where
  "PACKETPROTO_ENCLEN len = 2 + len"

subsection \<open>The encoder\<close>

record PacketProtoEncoder =
  ppe_input :: PacketRecvInterface
  ppe_output :: PacketRecvInterface
  ppe_output_packet :: "int option"

definition PacketProtoEncoder_Init :: "PacketRecvInterface \<Rightarrow> PacketProtoEncoder option" where
  "PacketProtoEncoder_Init inp =
     (if \<not> pri_mtu inp \<le> PACKETPROTO_MAXPAYLOAD then None
      else do {
        i \<leftarrow> PacketRecvInterface_Receiver_Init inp;
        Some \<lparr>ppe_input = i, ppe_output = PacketRecvInterface_Init (PACKETPROTO_ENCLEN (pri_mtu inp)),
              ppe_output_packet = None\<rparr>
      })"

definition PacketProtoEncoder_output_handler_recv ::
  "PacketProtoEncoder \<Rightarrow> int option \<Rightarrow> PacketProtoEncoder option" where
  "PacketProtoEncoder_output_handler_recv enc data =
     (if ppe_output_packet enc \<noteq> None \<or> data = None then None
      else do {
        i \<leftarrow> PacketRecvInterface_Receiver_Recv (ppe_input enc) (map_option (\<lambda>d. d + 2) data);
        Some (enc\<lparr>ppe_output_packet := data, ppe_input := i\<rparr>)
      })"

text \<open>The memory is the receiver's packet buffer, which the header is written into.\<close>

definition PacketProtoEncoder_input_handler_done ::
  "PacketProtoEncoder \<Rightarrow> bytes \<Rightarrow> int \<Rightarrow> (PacketProtoEncoder \<times> bytes) option" where
  "PacketProtoEncoder_input_handler_done enc memory in_len =
     (case ppe_output_packet enc of None \<Rightarrow> None
      | Some d \<Rightarrow> do {
          let memory = mem_write memory (nat d) (le16_bytes (word_of_int in_len));
          out \<leftarrow> PacketRecvInterface_Done (ppe_output enc) (PACKETPROTO_ENCLEN in_len);
          Some (enc\<lparr>ppe_output_packet := None, ppe_output := out\<rparr>, memory)
        })"

subsection \<open>The decoder\<close>

record PacketProtoDecoder =
  ppd_input :: StreamRecvInterface
  ppd_output :: PacketPassInterface
  ppd_output_mtu :: int
  ppd_buf_size :: int
  ppd_buf_start :: int
  ppd_buf_used :: int
  ppd_buf :: bytes

text \<open>The result says whether \<open>handler_error\<close> is called.\<close>

definition PacketProtoDecoder_receive :: "PacketProtoDecoder \<Rightarrow> PacketProtoDecoder option" where
  "PacketProtoDecoder_receive enc = do {
     i \<leftarrow> StreamRecvInterface_Receiver_Recv (ppd_input enc) (Some (ppd_buf_start enc + ppd_buf_used enc))
            (ppd_buf_size enc - (ppd_buf_start enc + ppd_buf_used enc));
     Some (enc\<lparr>ppd_input := i\<rparr>)
   }"

definition PacketProtoDecoder_wait :: "PacketProtoDecoder \<Rightarrow> (PacketProtoDecoder \<times> bool) option" where
  "PacketProtoDecoder_wait enc =
     (let enc = (if ppd_buf_start enc + ppd_buf_used enc = ppd_buf_size enc
                 then enc\<lparr>ppd_buf := mem_write (ppd_buf enc) 0
                            (mem_read (ppd_buf enc) (nat (ppd_buf_start enc)) (nat (ppd_buf_used enc))),
                          ppd_buf_start := 0\<rparr>
                 else enc)
      in map_option (\<lambda>e. (e, False)) (PacketProtoDecoder_receive enc))"

definition PacketProtoDecoder_process_data ::
  "PacketProtoDecoder \<Rightarrow> (PacketProtoDecoder \<times> bool) option" where
  "PacketProtoDecoder_process_data enc =
     (let data = ppd_buf_start enc;
          left = ppd_buf_used enc
      in if left < 2 then PacketProtoDecoder_wait enc
      else
        let data_len = uint (le16_of (drop (nat data) (ppd_buf enc)));
            data = data + 2;
            left = left - 2
        in if data_len > ppd_output_mtu enc then
             map_option (\<lambda>e. (e, True)) (PacketProtoDecoder_receive (enc\<lparr>ppd_buf_start := 0, ppd_buf_used := 0\<rparr>))
           else if left < data_len then PacketProtoDecoder_wait enc
           else do {
             let enc = enc\<lparr>ppd_buf_start := ppd_buf_start enc + (2 + data_len),
                           ppd_buf_used := ppd_buf_used enc - (2 + data_len)\<rparr>;
             out \<leftarrow> PacketPassInterface_Sender_Send (ppd_output enc) (Some data) data_len;
             Some (enc\<lparr>ppd_output := out\<rparr>, False)
           })"

definition PacketProtoDecoder_input_handler_done ::
  "PacketProtoDecoder \<Rightarrow> int \<Rightarrow> (PacketProtoDecoder \<times> bool) option" where
  "PacketProtoDecoder_input_handler_done enc data_len =
     (if \<not> data_len > 0 \<or> \<not> data_len \<le> ppd_buf_size enc - (ppd_buf_start enc + ppd_buf_used enc) then None
      else PacketProtoDecoder_process_data (enc\<lparr>ppd_buf_used := ppd_buf_used enc + data_len\<rparr>))"

definition PacketProtoDecoder_output_handler_done ::
  "PacketProtoDecoder \<Rightarrow> (PacketProtoDecoder \<times> bool) option" where
  "PacketProtoDecoder_output_handler_done enc = PacketProtoDecoder_process_data enc"

text \<open>\<open>alloc\<close> is \<open>malloc\<close>; the outer option is a failed assertion, the inner one the error return.\<close>

definition PacketProtoDecoder_Init ::
  "(int \<Rightarrow> bytes option) \<Rightarrow> StreamRecvInterface \<Rightarrow> PacketPassInterface \<Rightarrow> PacketProtoDecoder option option" where
  "PacketProtoDecoder_Init alloc inp outp = do {
     i \<leftarrow> StreamRecvInterface_Receiver_Init inp;
     out \<leftarrow> PacketPassInterface_Sender_Init outp;
     let output_mtu = min (ppi_mtu outp) PACKETPROTO_MAXPAYLOAD;
     let buf_size = PACKETPROTO_ENCLEN output_mtu;
     case alloc buf_size of
       None \<Rightarrow> Some None
     | Some buf \<Rightarrow> do {
         i \<leftarrow> StreamRecvInterface_Receiver_Recv i (Some 0) buf_size;
         Some (Some \<lparr>ppd_input = i, ppd_output = out, ppd_output_mtu = output_mtu, ppd_buf_size = buf_size,
                     ppd_buf_start = 0, ppd_buf_used = 0, ppd_buf = buf\<rparr>)
       }
   }"

definition PacketProtoDecoder_Reset :: "PacketProtoDecoder \<Rightarrow> PacketProtoDecoder" where
  "PacketProtoDecoder_Reset enc =
     enc\<lparr>ppd_buf_start := ppd_buf_start enc + ppd_buf_used enc, ppd_buf_used := 0\<rparr>"

subsection \<open>What a stream means\<close>

definition packetproto_encode :: "bytes \<Rightarrow> bytes" where
  "packetproto_encode p = le16_bytes (word_of_nat (length p)) @ p"

function packetproto_parse :: "nat \<Rightarrow> bytes \<Rightarrow> bytes list \<times> bytes \<times> bool" where
  "packetproto_parse mtu bs =
     (if length bs < 2 then ([], bs, False)
      else
        let n = unat (le16_of bs) in
        if n > mtu then ([], bs, True)
        else if length bs - 2 < n then ([], bs, False)
        else
          let (ps, rest, err) = packetproto_parse mtu (drop (2 + n) bs)
          in (take n (drop 2 bs) # ps, rest, err))"
  by pat_completeness auto
termination
  by (relation "measure (\<lambda>(mtu, bs). length bs)") auto

declare packetproto_parse.simps [simp del]

lemma length_packetproto_encode [simp]: "length (packetproto_encode p) = 2 + length p"
  by (simp add: packetproto_encode_def)

lemma unat_le16: "length p \<le> 65535 \<Longrightarrow> unat (le16_of (packetproto_encode p @ r)) = length p"
  by (simp add: packetproto_encode_def unat_word_of_nat_mod)

lemma packetproto_parse_encode:
  assumes "length p \<le> mtu" and "mtu \<le> 65535"
  shows "packetproto_parse mtu (packetproto_encode p @ r) =
    (let (ps, rest, err) = packetproto_parse mtu r in (p # ps, rest, err))"
proof -
  have "drop 2 (packetproto_encode p @ r) = p @ r" by (simp add: packetproto_encode_def)
  moreover have "drop (2 + length p) (packetproto_encode p @ r) = r"
    by (metis append_eq_conv_conj length_packetproto_encode)
  ultimately show ?thesis
    using assms by (subst packetproto_parse.simps) (simp add: unat_le16 del: drop_append)
qed

lemma packetproto_parse_encodes:
  assumes "\<forall>p \<in> set ps. length p \<le> mtu" and "mtu \<le> 65535"
  shows "packetproto_parse mtu (concat (map packetproto_encode ps) @ r) =
    (let (qs, rest, err) = packetproto_parse mtu r in (ps @ qs, rest, err))"
  using assms
  by (induction ps) (auto simp: packetproto_parse_encode split: prod.splits)


subsection \<open>Events around the decoder\<close>

text \<open>The stream the decoder has received, less what a reset dropped, and the packets the output has taken of it.  When the
  decoder reports an error it starts over; the stream it gave up and the packets taken of it go to \<open>ds_failed\<close>, so that no
  history is lost.\<close>

record ppd_system =
  ds_dec :: PacketProtoDecoder
  ds_rx :: bytes
  ds_tx :: "bytes list"
  ds_failed :: "(bytes \<times> bytes list) list"

definition ppd_after :: "ppd_system \<Rightarrow> PacketProtoDecoder \<Rightarrow> bool \<Rightarrow> bytes \<Rightarrow> ppd_system" where
  "ppd_after s d err data =
     (if err then \<lparr>ds_dec = d, ds_rx = [], ds_tx = [], ds_failed = ds_failed s @ [(ds_rx s @ data, ds_tx s)]\<rparr>
      else s\<lparr>ds_dec := d, ds_rx := ds_rx s @ data\<rparr>)"

inductive ppd_step :: "ppd_system \<Rightarrow> ppd_system \<Rightarrow> bool" where
  recv_start: "StreamRecvInterface_job_operation (ppd_input (ds_dec s)) = Some (i, data, len) \<Longrightarrow>
    ppd_step s (s\<lparr>ds_dec := (ds_dec s)\<lparr>ppd_input := i\<rparr>\<rparr>)"
| recv_write: "si_state (ppd_input (ds_dec s)) = STATE_BUSY \<Longrightarrow>
    si_job_operation_data (ppd_input (ds_dec s)) = Some a \<Longrightarrow>
    int (length q) \<le> si_job_operation_len (ppd_input (ds_dec s)) \<Longrightarrow>
    ppd_step s (s\<lparr>ds_dec := (ds_dec s)\<lparr>ppd_buf := mem_write (ppd_buf (ds_dec s)) (nat a) q\<rparr>\<rparr>)"
| recv_complete: "StreamRecvInterface_Done (ppd_input (ds_dec s)) len = Some i \<Longrightarrow>
    ppd_step s (s\<lparr>ds_dec := (ds_dec s)\<lparr>ppd_input := i\<rparr>\<rparr>)"
| recv_done: "StreamRecvInterface_job_done (ppd_input (ds_dec s)) = Some (i, len) \<Longrightarrow>
    si_job_operation_data i = Some a \<Longrightarrow>
    PacketProtoDecoder_input_handler_done ((ds_dec s)\<lparr>ppd_input := i\<rparr>) len = Some (d, err) \<Longrightarrow>
    ppd_step s (ppd_after s d err (mem_read (ppd_buf (ds_dec s)) (nat a) (nat len)))"
| send_start: "PacketPassInterface_job_operation (ppd_output (ds_dec s)) = Some (out, data, len) \<Longrightarrow>
    ppd_step s (s\<lparr>ds_dec := (ds_dec s)\<lparr>ppd_output := out\<rparr>\<rparr>)"
| send_complete: "PacketPassInterface_Done (ppd_output (ds_dec s)) = Some out \<Longrightarrow>
    ppi_job_operation_data out = Some a \<Longrightarrow>
    ppd_step s (s\<lparr>ds_dec := (ds_dec s)\<lparr>ppd_output := out\<rparr>,
      ds_tx := ds_tx s @ [mem_read (ppd_buf (ds_dec s)) (nat a) (nat (ppi_job_operation_len out))]\<rparr>)"
| send_done: "PacketPassInterface_job_done (ppd_output (ds_dec s)) = Some out \<Longrightarrow>
    PacketProtoDecoder_output_handler_done ((ds_dec s)\<lparr>ppd_output := out\<rparr>) = Some (d, err) \<Longrightarrow>
    ppd_step s (ppd_after s d err [])"
| reset: "ppd_step s (s\<lparr>ds_dec := PacketProtoDecoder_Reset (ds_dec s),
    ds_rx := take (length (ds_rx s) - nat (ppd_buf_used (ds_dec s))) (ds_rx s)\<rparr>)"

definition ppd_contents :: "PacketProtoDecoder \<Rightarrow> bytes" where
  "ppd_contents d = mem_read (ppd_buf d) (nat (ppd_buf_start d)) (nat (ppd_buf_used d))"

definition ppd_wf :: "nat \<Rightarrow> PacketProtoDecoder \<Rightarrow> bool" where
  "ppd_wf mtu d \<longleftrightarrow> mtu \<le> 65535 \<and> ppd_output_mtu d = int mtu \<and> ppd_buf_size d = int mtu + 2 \<and>
     int (length (ppd_buf d)) = ppd_buf_size d \<and> 0 \<le> ppd_buf_start d \<and> 0 \<le> ppd_buf_used d \<and>
     ppd_buf_start d + ppd_buf_used d \<le> ppd_buf_size d \<and> int mtu \<le> ppi_mtu (ppd_output d) \<and>
     si_has_user (ppd_input d) \<and> ppi_has_user (ppd_output d) \<and> si_inv (ppd_input d) \<and> ppi_inv (ppd_output d)"

definition encodes :: "bytes list \<Rightarrow> bytes" where
  "encodes ps = concat (map packetproto_encode ps)"

definition ppd_receiving :: "nat \<Rightarrow> PacketProtoDecoder \<Rightarrow> bytes \<Rightarrow> bytes list \<Rightarrow> bool" where
  "ppd_receiving mtu d rx tx \<longleftrightarrow>
     si_state (ppd_input d) \<noteq> STATE_NONE \<and> ppi_state (ppd_output d) = STATE_NONE \<and>
     si_job_operation_data (ppd_input d) = Some (ppd_buf_start d + ppd_buf_used d) \<and>
     si_job_operation_len (ppd_input d) = ppd_buf_size d - (ppd_buf_start d + ppd_buf_used d) \<and>
     packetproto_parse mtu (ppd_contents d) = ([], ppd_contents d, False) \<and> rx = encodes tx @ ppd_contents d"

definition ppd_sending :: "nat \<Rightarrow> PacketProtoDecoder \<Rightarrow> bytes \<Rightarrow> bytes list \<Rightarrow> bool" where
  "ppd_sending mtu d rx tx \<longleftrightarrow>
     si_state (ppd_input d) = STATE_NONE \<and> ppi_state (ppd_output d) \<noteq> STATE_NONE \<and>
     (\<exists>p a. length p \<le> mtu \<and> ppi_job_operation_data (ppd_output d) = Some a \<and>
        ppi_job_operation_len (ppd_output d) = int (length p) \<and>
        mem_read (ppd_buf d) (nat a) (length p) = p \<and>
        (if ppi_state (ppd_output d) = STATE_DONE_PENDING
         then \<exists>t. tx = t @ [p] \<and> rx = encodes tx @ ppd_contents d
         else rx = encodes (tx @ [p]) @ ppd_contents d))"

definition failed_ok :: "nat \<Rightarrow> (bytes \<times> bytes list) list \<Rightarrow> bool" where
  "failed_ok mtu = list_all (\<lambda>(rx, tx). \<exists>rest. packetproto_parse mtu rx = (tx, rest, True))"

definition ppd_inv :: "nat \<Rightarrow> ppd_system \<Rightarrow> bool" where
  "ppd_inv mtu s \<longleftrightarrow> ppd_wf mtu (ds_dec s) \<and> failed_ok mtu (ds_failed s) \<and> (\<forall>p \<in> set (ds_tx s). length p \<le> mtu) \<and>
     (ppd_receiving mtu (ds_dec s) (ds_rx s) (ds_tx s) \<or> ppd_sending mtu (ds_dec s) (ds_rx s) (ds_tx s))"

subsection \<open>Processing buffered data\<close>

lemma le16_of_take: "2 \<le> n \<Longrightarrow> le16_of (take n xs) = le16_of xs"
  by (cases xs; cases "tl xs"; cases n; cases "n - 1") auto

lemma encodes_simps [simp]:
  "encodes [] = []" "encodes (p # ps) = packetproto_encode p @ encodes ps" "encodes (ps @ qs) = encodes ps @ encodes qs"
  by (simp_all add: encodes_def)

lemma packetproto_split:
  assumes "2 \<le> length bs" and "unat (le16_of bs) \<le> length bs - 2"
  shows "bs = packetproto_encode (take (unat (le16_of bs)) (drop 2 bs)) @ drop (2 + unat (le16_of bs)) bs"
proof -
  obtain a b r where bs: "bs = a # b # r"
    using assms(1) by (cases bs; cases "tl bs") auto
  let ?w = "le16_of bs"
  have "le16_bytes ?w = [a, b]"
    by (auto simp: bs le16_bytes_def bit_eq_iff bit_simps dest: bit_imp_le_length)
  moreover have "length (take (unat ?w) r) = unat ?w" using assms(2) bs by simp
  ultimately show ?thesis
    by (simp add: packetproto_encode_def bs del: length_take)
qed


lemma ppd_receive_ok:
  assumes "ppd_wf mtu d" and "si_state (ppd_input d) = STATE_NONE" and "ppi_state (ppd_output d) = STATE_NONE"
    and "ppd_buf_start d + ppd_buf_used d < ppd_buf_size d"
    and "packetproto_parse mtu (ppd_contents d) = ([], ppd_contents d, False)" and "rx = encodes tx @ ppd_contents d"
  shows "\<exists>d'. PacketProtoDecoder_receive d = Some d' \<and> ppd_wf mtu d' \<and> ppd_receiving mtu d' rx tx"
  using assms
  by (auto simp: PacketProtoDecoder_receive_def StreamRecvInterface_Receiver_Recv_def ppd_wf_def ppd_receiving_def
      si_inv_def ppd_contents_def)

lemma ppd_contents_length: "ppd_wf mtu d \<Longrightarrow> int (length (ppd_contents d)) = ppd_buf_used d"
  by (auto simp: ppd_wf_def ppd_contents_def mem_read_def)

lemma ppd_wait_ok:
  assumes "ppd_wf mtu d" and "si_state (ppd_input d) = STATE_NONE" and "ppi_state (ppd_output d) = STATE_NONE"
    and "ppd_buf_used d < ppd_buf_size d"
    and "packetproto_parse mtu (ppd_contents d) = ([], ppd_contents d, False)" and "rx = encodes tx @ ppd_contents d"
  shows "\<exists>d'. PacketProtoDecoder_wait d = Some (d', False) \<and> ppd_wf mtu d' \<and> ppd_receiving mtu d' rx tx"
proof (cases "ppd_buf_start d + ppd_buf_used d = ppd_buf_size d")
  case True
  define e where "e = d\<lparr>ppd_buf := mem_write (ppd_buf d) 0 (ppd_contents d), ppd_buf_start := 0\<rparr>"
  have len: "int (length (ppd_contents d)) = ppd_buf_used d" "int (length (ppd_buf d)) = ppd_buf_size d"
    using ppd_contents_length [OF assms(1)] assms(1) by (auto simp: ppd_wf_def)
  then have fit: "0 + length (ppd_contents d) \<le> length (ppd_buf d)" using assms(4) by linarith
  have n: "nat (ppd_buf_used d) = length (ppd_contents d)" using len(1) by linarith
  have c: "ppd_contents e = ppd_contents d"
    unfolding ppd_contents_def [of e] using mem_read_write_same [OF fit] by (simp add: e_def n)
  have "ppd_wf mtu e" using assms(1) fit by (auto simp: ppd_wf_def e_def)
  then have "\<exists>d'. PacketProtoDecoder_receive e = Some d' \<and> ppd_wf mtu d' \<and> ppd_receiving mtu d' rx tx"
    using assms(2-6) c by (intro ppd_receive_ok) (simp_all add: e_def)
  then show ?thesis
    using True by (auto simp: PacketProtoDecoder_wait_def Let_def ppd_contents_def [symmetric] e_def [symmetric])
next
  case False
  then have "ppd_buf_start d + ppd_buf_used d < ppd_buf_size d" using assms(1) by (auto simp: ppd_wf_def)
  then show ?thesis
    using False ppd_receive_ok [OF assms(1-3) _ assms(5,6)] by (auto simp: PacketProtoDecoder_wait_def)
qed

lemma ppd_header:
  assumes "ppd_wf mtu d" and "2 \<le> ppd_buf_used d"
  shows "uint (le16_of (drop (nat (ppd_buf_start d)) (ppd_buf d))) = int (unat (le16_of (ppd_contents d)))"
  using assms by (simp add: ppd_contents_def mem_read_def le16_of_take ppd_wf_def)

lemma ppd_process_ok:
  assumes wf: "ppd_wf mtu d" and "si_state (ppd_input d) = STATE_NONE" and "ppi_state (ppd_output d) = STATE_NONE"
    and tx: "\<forall>p \<in> set tx. length p \<le> mtu" and rx: "rx = encodes tx @ ppd_contents d" and f: "failed_ok mtu fs"
  shows "\<exists>d' err. PacketProtoDecoder_process_data d = Some (d', err) \<and>
    ppd_inv mtu (if err then \<lparr>ds_dec = d', ds_rx = [], ds_tx = [], ds_failed = fs @ [(rx, tx)]\<rparr>
      else \<lparr>ds_dec = d', ds_rx = rx, ds_tx = tx, ds_failed = fs\<rparr>)"
proof -
  let ?c = "ppd_contents d"
  define n where "n = unat (le16_of ?c)"
  have hdr: "2 \<le> ppd_buf_used d \<Longrightarrow> uint (le16_of (drop (nat (ppd_buf_start d)) (ppd_buf d))) = int n"
    unfolding n_def by (rule ppd_header [OF wf])
  have pc: "packetproto_parse mtu ?c =
     (if length ?c < 2 then ([], ?c, False) else if n > mtu then ([], ?c, True)
      else if length ?c - 2 < n then ([], ?c, False)
      else let (ps, rest, err) = packetproto_parse mtu (drop (2 + n) ?c) in (take n (drop 2 ?c) # ps, rest, err))"
    by (subst packetproto_parse.simps) (simp add: Let_def n_def)
  have len: "int (length ?c) = ppd_buf_used d" by (rule ppd_contents_length [OF wf])
  have m: "mtu \<le> 65535" "ppd_output_mtu d = int mtu" "ppd_buf_size d = int mtu + 2" "0 \<le> ppd_buf_start d"
    "int (length (ppd_buf d)) = ppd_buf_size d" "ppd_buf_start d + ppd_buf_used d \<le> ppd_buf_size d"
    using wf by (auto simp: ppd_wf_def)
  have prx: "packetproto_parse mtu rx = (let (qs, rest, err) = packetproto_parse mtu ?c in (tx @ qs, rest, err))"
    unfolding rx encodes_def by (rule packetproto_parse_encodes [OF tx m(1)])
  note wait = ppd_wait_ok [OF assms(1-3) _ _ rx]
  consider (short) "ppd_buf_used d < 2" | (big) "2 \<le> ppd_buf_used d" "mtu < n"
    | (partial) "2 \<le> ppd_buf_used d" "n \<le> mtu" "ppd_buf_used d - 2 < int n"
    | (full) "2 \<le> ppd_buf_used d" "n \<le> mtu" "int n \<le> ppd_buf_used d - 2" by linarith
  then show ?thesis
  proof cases
    case short
    then have "packetproto_parse mtu ?c = ([], ?c, False)" using len unfolding pc by auto
    with short wait m show ?thesis by (auto simp: PacketProtoDecoder_process_data_def ppd_inv_def tx f)
  next
    case big
    let ?e = "d\<lparr>ppd_buf_start := 0, ppd_buf_used := 0\<rparr>"
    have big': "int mtu < int n" using big(2) by (rule of_nat_less_iff [THEN iffD2])
    have pb: "packetproto_parse mtu ?c = ([], ?c, True)" using big len unfolding pc by auto
    have "packetproto_parse mtu (ppd_contents ?e) = ([], ppd_contents ?e, False)" "ppd_contents ?e = []"
      by (simp_all add: packetproto_parse.simps ppd_contents_def mem_read_def)
    then obtain d' where d': "PacketProtoDecoder_receive ?e = Some d'" "ppd_wf mtu d'" "ppd_receiving mtu d' [] []"
      using wf assms(2,3) m ppd_receive_ok [of mtu ?e "[]" "[]"] by (auto simp: ppd_wf_def)
    have "PacketProtoDecoder_process_data d = Some (d', True)"
      using big(1) big' m(2) d'(1)
      by (simp add: PacketProtoDecoder_process_data_def Let_def hdr)
    moreover have "packetproto_parse mtu rx = (tx, ?c, True)" unfolding prx pb by simp
    ultimately show ?thesis using d'(2,3) f by (auto simp: ppd_inv_def failed_ok_def)
  next
    case partial
    then have "packetproto_parse mtu ?c = ([], ?c, False)" using len unfolding pc by auto
    with partial wait m show ?thesis
      by (auto simp: PacketProtoDecoder_process_data_def Let_def hdr ppd_inv_def tx f)
  next
    case full
    define p where "p = take n (drop 2 ?c)"
    have lp: "length p = n" using full(3) len by (auto simp: p_def)
    have c: "?c = packetproto_encode p @ drop (2 + n) ?c"
      unfolding p_def n_def
      by (rule packetproto_split) (use full len in linarith, use full len in \<open>unfold n_def [symmetric], linarith\<close>)
    let ?out = "(ppd_output d)\<lparr>ppi_job_operation_data := Some (ppd_buf_start d + 2), ppi_job_operation_len := int n,
      ppi_job_operation := True, ppi_state := STATE_OPERATION_PENDING, ppi_cancel_requested := False\<rparr>"
    let ?e = "d\<lparr>ppd_buf_start := ppd_buf_start d + (2 + int n), ppd_buf_used := ppd_buf_used d - (2 + int n),
      ppd_output := ?out\<rparr>"
    have pd: "PacketProtoDecoder_process_data d = Some (?e, False)"
      using full m(2) wf assms(3)
      by (simp add: PacketProtoDecoder_process_data_def Let_def hdr PacketPassInterface_Sender_Send_def ppd_wf_def)
    have st: "nat (ppd_buf_start d + (2 + int n)) = (2 + n) + nat (ppd_buf_start d)"
      "nat (ppd_buf_used d - (2 + int n)) = nat (ppd_buf_used d) - (2 + n)"
      "nat (ppd_buf_start d + 2) = 2 + nat (ppd_buf_start d)"
      using m(4) full by linarith+
    have ce: "ppd_contents ?e = drop (2 + n) ?c"
      by (simp add: ppd_contents_def mem_read_def st drop_take del: drop_drop) (simp add: add.commute)
    have mp: "mem_read (ppd_buf d) (nat (ppd_buf_start d + 2)) (length p) = p"
      using full unfolding lp st by (simp add: p_def ppd_contents_def mem_read_def drop_take min_absorb1)
    have "ppd_wf mtu ?e" using wf full assms(3) by (auto simp: ppd_wf_def ppi_inv_def)
    moreover have "rx = encodes (tx @ [p]) @ ppd_contents ?e" using rx c ce by simp
    then have "ppd_sending mtu ?e rx tx"
      unfolding ppd_sending_def using mp full lp assms(2)
      by (intro conjI exI [of _ p] exI [of _ "ppd_buf_start d + 2"]) simp_all
    ultimately show ?thesis using pd tx f by (auto simp: ppd_inv_def)
  qed
qed


lemma ppd_inv_cases:
  assumes "ppd_inv mtu s"
  shows "si_state (ppd_input (ds_dec s)) \<noteq> STATE_NONE \<Longrightarrow> ppd_receiving mtu (ds_dec s) (ds_rx s) (ds_tx s)"
    and "ppi_state (ppd_output (ds_dec s)) \<noteq> STATE_NONE \<Longrightarrow> ppd_sending mtu (ds_dec s) (ds_rx s) (ds_tx s)"
  using assms by (auto simp: ppd_inv_def ppd_receiving_def ppd_sending_def)

lemma si_job_done_Some:
  "StreamRecvInterface_job_done i = Some (i', len) \<longleftrightarrow>
     si_job_done i \<and> si_state i = STATE_DONE_PENDING \<and> len = si_job_done_len i \<and>
     i' = i\<lparr>si_job_done := False, si_state := STATE_NONE\<rparr>"
  by (auto simp: StreamRecvInterface_job_done_def)

lemma ppd_input_ok:
  assumes inv: "ppd_inv mtu s" and jd: "StreamRecvInterface_job_done (ppd_input (ds_dec s)) = Some (i, len)"
  shows "\<exists>a d err. si_job_operation_data i = Some a \<and>
    PacketProtoDecoder_input_handler_done ((ds_dec s)\<lparr>ppd_input := i\<rparr>) len = Some (d, err) \<and>
    ppd_inv mtu (ppd_after s d err (mem_read (ppd_buf (ds_dec s)) (nat a) (nat len)))"
proof -
  define d where "d = ds_dec s"
  have j: "si_state (ppd_input d) = STATE_DONE_PENDING" "len = si_job_done_len (ppd_input d)"
    "i = (ppd_input d)\<lparr>si_job_done := False, si_state := STATE_NONE\<rparr>"
    using jd by (auto simp: si_job_done_Some d_def)
  have wf: "ppd_wf mtu d" and tx: "\<forall>p \<in> set (ds_tx s). length p \<le> mtu" and f: "failed_ok mtu (ds_failed s)" using inv by (auto simp: ppd_inv_def d_def)
  have r: "ppi_state (ppd_output d) = STATE_NONE"
    "si_job_operation_data (ppd_input d) = Some (ppd_buf_start d + ppd_buf_used d)"
    "si_job_operation_len (ppd_input d) = ppd_buf_size d - (ppd_buf_start d + ppd_buf_used d)"
    "ds_rx s = encodes (ds_tx s) @ ppd_contents d"
    using ppd_inv_cases(1) [OF inv] j(1) by (auto simp: ppd_receiving_def d_def)
  have len: "0 < len" "len \<le> ppd_buf_size d - (ppd_buf_start d + ppd_buf_used d)"
    using wf j r(3) by (auto simp: ppd_wf_def si_inv_def)
  let ?data = "mem_read (ppd_buf d) (nat (ppd_buf_start d + ppd_buf_used d)) (nat len)"
  let ?e = "d\<lparr>ppd_input := i, ppd_buf_used := ppd_buf_used d + len\<rparr>"
  have "0 \<le> ppd_buf_start d" "0 \<le> ppd_buf_used d" using wf by (auto simp: ppd_wf_def)
  then have "nat (ppd_buf_used d + len) = nat (ppd_buf_used d) + nat len"
    "nat (ppd_buf_start d + ppd_buf_used d) = nat (ppd_buf_used d) + nat (ppd_buf_start d)"
    using len by linarith+
  then have c: "ppd_contents ?e = ppd_contents d @ ?data"
    by (simp add: ppd_contents_def mem_read_def take_add)
  have "ppd_wf mtu ?e" using wf len j by (auto simp: ppd_wf_def si_inv_def)
  then obtain d' err where p: "PacketProtoDecoder_process_data ?e = Some (d', err)"
    "ppd_inv mtu (if err then \<lparr>ds_dec = d', ds_rx = [], ds_tx = [], ds_failed = ds_failed s @ [(ds_rx s @ ?data, ds_tx s)]\<rparr>
       else \<lparr>ds_dec = d', ds_rx = ds_rx s @ ?data, ds_tx = ds_tx s, ds_failed = ds_failed s\<rparr>)"
    using ppd_process_ok [of mtu ?e "ds_tx s" "ds_rx s @ ?data", OF _ _ _ _ _ f] tx r c j(3) by auto
  have "PacketProtoDecoder_input_handler_done (d\<lparr>ppd_input := i\<rparr>) len = Some (d', err)"
    using len p(1) by (simp add: PacketProtoDecoder_input_handler_done_def)
  moreover have "ppd_inv mtu (ppd_after s d' err ?data)" using p(2) by (cases s) (auto simp: ppd_after_def)
  ultimately show ?thesis using r(2) j(3) by (auto simp: d_def)
qed

lemma ppd_output_ok:
  assumes inv: "ppd_inv mtu s" and jd: "PacketPassInterface_job_done (ppd_output (ds_dec s)) = Some out"
  shows "\<exists>d err. PacketProtoDecoder_output_handler_done ((ds_dec s)\<lparr>ppd_output := out\<rparr>) = Some (d, err) \<and>
    ppd_inv mtu (ppd_after s d err [])"
proof -
  define d where "d = ds_dec s"
  have j: "ppi_state (ppd_output d) = STATE_DONE_PENDING"
    "out = (ppd_output d)\<lparr>ppi_job_done := False, ppi_state := STATE_NONE\<rparr>"
    using jd by (auto simp: PacketPassInterface_job_done_def d_def split: if_splits)
  have wf: "ppd_wf mtu d" and tx: "\<forall>p \<in> set (ds_tx s). length p \<le> mtu" and f: "failed_ok mtu (ds_failed s)" using inv by (auto simp: ppd_inv_def d_def)
  have r: "si_state (ppd_input d) = STATE_NONE" "ds_rx s = encodes (ds_tx s) @ ppd_contents d"
    using ppd_inv_cases(2) [OF inv] j(1) by (auto simp: ppd_sending_def d_def)
  let ?e = "d\<lparr>ppd_output := out\<rparr>"
  have "ppd_wf mtu ?e" using wf j by (auto simp: ppd_wf_def ppi_inv_def)
  moreover have "ppd_contents ?e = ppd_contents d" by (simp add: ppd_contents_def)
  ultimately obtain d' err where p: "PacketProtoDecoder_process_data ?e = Some (d', err)"
    "ppd_inv mtu (if err then \<lparr>ds_dec = d', ds_rx = [], ds_tx = [], ds_failed = ds_failed s @ [(ds_rx s, ds_tx s)]\<rparr>
       else \<lparr>ds_dec = d', ds_rx = ds_rx s, ds_tx = ds_tx s, ds_failed = ds_failed s\<rparr>)"
    using ppd_process_ok [of mtu ?e "ds_tx s" "ds_rx s", OF _ _ _ _ _ f] tx r j(2) by auto
  then show ?thesis
    by (cases s) (auto simp: PacketProtoDecoder_output_handler_done_def ppd_after_def d_def)
qed


lemma mem_write_outside:
  assumes "int a + int n \<le> int off" and "off + length q \<le> length m"
  shows "mem_read (mem_write m off q) a n = mem_read m a n"
  using assms by (intro mem_read_write_before) linarith+

lemma ppd_step_inv:
  assumes "ppd_step s s'" and inv: "ppd_inv mtu s"
  shows "ppd_inv mtu s'"
  using assms(1)
proof (cases rule: ppd_step.cases)
  case (recv_start i data len)
  then show ?thesis
    using inv ppd_inv_cases(1) [OF inv]
    by (auto simp: StreamRecvInterface_job_operation_def ppd_inv_def ppd_wf_def ppd_receiving_def ppd_contents_def si_inv_def
        split: if_splits)
next
  case (recv_write a q)
  let ?d = "ds_dec s"
  have wf: "ppd_wf mtu ?d" and r: "ppd_receiving mtu ?d (ds_rx s) (ds_tx s)"
    using inv ppd_inv_cases(1) [OF inv] recv_write(2) by (auto simp: ppd_inv_def)
  have b: "0 \<le> ppd_buf_start ?d" "0 \<le> ppd_buf_used ?d" "a = ppd_buf_start ?d + ppd_buf_used ?d"
    "int (length q) \<le> ppd_buf_size ?d - (ppd_buf_start ?d + ppd_buf_used ?d)" "int (length (ppd_buf ?d)) = ppd_buf_size ?d"
    using wf r recv_write(3,4) by (auto simp: ppd_wf_def ppd_receiving_def)
  have fit: "nat a + length q \<le> length (ppd_buf ?d)" using b by linarith
  let ?e = "?d\<lparr>ppd_buf := mem_write (ppd_buf ?d) (nat a) q\<rparr>"
  have c: "ppd_contents ?e = ppd_contents ?d"
    unfolding ppd_contents_def using b fit by (simp add: mem_write_outside)
  have "ppd_wf mtu ?e" using wf fit by (simp add: ppd_wf_def)
  moreover have "ppd_receiving mtu ?e (ds_rx s) (ds_tx s)" using r c by (simp add: ppd_receiving_def)
  ultimately show ?thesis using inv recv_write(1) by (simp add: ppd_inv_def)
next
  case (recv_complete len i)
  then show ?thesis
    using inv ppd_inv_cases(1) [OF inv]
    by (auto simp: StreamRecvInterface_Done_def ppd_inv_def ppd_wf_def ppd_receiving_def ppd_contents_def si_inv_def
        split: if_splits)
next
  case (recv_done i len a d err)
  then show ?thesis using ppd_input_ok [OF inv recv_done(2)] by auto
next
  case (send_start out data len)
  then show ?thesis
    using inv ppd_inv_cases(2) [OF inv]
    by (auto simp: PacketPassInterface_job_operation_def ppd_inv_def ppd_wf_def ppd_sending_def ppd_contents_def ppi_inv_def
        split: if_splits)
next
  case (send_complete out a)
  let ?d = "ds_dec s" and ?o = "ppd_output (ds_dec s)"
  have st: "ppi_state ?o = STATE_BUSY" and
    out: "out = ?o\<lparr>ppi_job_requestcancel := False, ppi_job_done := True, ppi_state := STATE_DONE_PENDING\<rparr>"
    using send_complete(2) by (auto simp: PacketPassInterface_Done_def split: if_splits)
  obtain p where p: "length p \<le> mtu" "ppi_job_operation_len ?o = int (length p)"
    "mem_read (ppd_buf ?d) (nat a) (length p) = p" "ds_rx s = encodes (ds_tx s @ [p]) @ ppd_contents ?d"
    "si_state (ppd_input ?d) = STATE_NONE"
    using ppd_inv_cases(2) [OF inv] st send_complete(3) out by (auto simp: ppd_sending_def)
  have "ppd_wf mtu (?d\<lparr>ppd_output := out\<rparr>)" using inv out st by (auto simp: ppd_inv_def ppd_wf_def ppi_inv_def)
  moreover have "ppd_sending mtu (?d\<lparr>ppd_output := out\<rparr>) (ds_rx s) (ds_tx s @ [p])"
    using p send_complete(3) unfolding ppd_sending_def by (auto simp: out ppd_contents_def intro!: exI [of _ p])
  ultimately show ?thesis
    using inv p send_complete(1) by (auto simp: ppd_inv_def out)
next
  case (send_done out d err)
  then show ?thesis using ppd_output_ok [OF inv send_done(2)] by auto
next
  case reset
  let ?d = "ds_dec s" and ?e = "PacketProtoDecoder_Reset (ds_dec s)"
  have wf: "ppd_wf mtu ?d" using inv by (simp add: ppd_inv_def)
  have c: "ppd_contents ?e = []" by (simp add: ppd_contents_def PacketProtoDecoder_Reset_def mem_read_def)
  have l: "nat (ppd_buf_used ?d) = length (ppd_contents ?d)" using ppd_contents_length [OF wf] by linarith
  have "ppd_wf mtu ?e" using wf by (auto simp: ppd_wf_def PacketProtoDecoder_Reset_def)
  moreover have "packetproto_parse mtu [] = ([], [], False)" by (simp add: packetproto_parse.simps)
  then have "ppd_receiving mtu ?d (ds_rx s) (ds_tx s) \<Longrightarrow> ppd_receiving mtu ?e (ds_rx s') (ds_tx s')"
    using c l reset by (auto simp: ppd_receiving_def PacketProtoDecoder_Reset_def)
  moreover have "ppd_sending mtu ?d (ds_rx s) (ds_tx s) \<Longrightarrow> ppd_sending mtu ?e (ds_rx s') (ds_tx s')"
    using c l reset by (auto simp: ppd_sending_def PacketProtoDecoder_Reset_def intro!: exI split: if_splits)
  ultimately show ?thesis using inv reset by (auto simp: ppd_inv_def)
qed


inductive ppd_reach :: "nat \<Rightarrow> ppd_system \<Rightarrow> bool" for mtu where
  start: "si_inv inp \<Longrightarrow> si_state inp = STATE_NONE \<Longrightarrow> ppi_inv outp \<Longrightarrow> ppi_state outp = STATE_NONE \<Longrightarrow>
    int mtu = min (ppi_mtu outp) PACKETPROTO_MAXPAYLOAD \<Longrightarrow>
    \<forall>k m. alloc k = Some m \<longrightarrow> int (length m) = k \<Longrightarrow>
    PacketProtoDecoder_Init alloc inp outp = Some (Some d) \<Longrightarrow>
    ppd_reach mtu \<lparr>ds_dec = d, ds_rx = [], ds_tx = [], ds_failed = []\<rparr>"
| step: "ppd_reach mtu s \<Longrightarrow> ppd_step s s' \<Longrightarrow> ppd_reach mtu s'"

lemma ppd_reach_inv: "ppd_reach mtu s \<Longrightarrow> ppd_inv mtu s"
proof (induction rule: ppd_reach.induct)
  case (start inp outp alloc d)
  then show ?case
    by (auto simp: PacketProtoDecoder_Init_def StreamRecvInterface_Receiver_Init_def PacketPassInterface_Sender_Init_def
        StreamRecvInterface_Receiver_Recv_def PACKETPROTO_ENCLEN_def PACKETPROTO_MAXPAYLOAD_def ppd_inv_def failed_ok_def ppd_wf_def
        ppd_receiving_def ppd_contents_def mem_read_def si_inv_def ppi_inv_def packetproto_parse.simps [of _ "[]"] Let_def
        bind_eq_Some_conv split: if_splits option.splits)
next
  case (step s s')
  then show ?case using ppd_step_inv by blast
qed

subsection \<open>Properties\<close>

text \<open>However the stream is cut into receives and whenever the output completes its sends, the
  decoder has passed on exactly the packets of the protocol: always a prefix of the packets in the
  stream received since the last error, less what a reset dropped, and all of its complete packets whenever it waits
  for more data.\<close>

theorem PacketProtoDecoder_parses:
  assumes "ppd_reach mtu s"
  shows "\<exists>qs rest err. packetproto_parse mtu (ds_rx s) = (ds_tx s @ qs, rest, err) \<and>
    (si_state (ppd_input (ds_dec s)) \<noteq> STATE_NONE \<longrightarrow> qs = [] \<and> \<not> err)"
proof -
  have inv: "ppd_inv mtu s" by (rule ppd_reach_inv [OF assms])
  then have tx: "\<forall>p \<in> set (ds_tx s). length p \<le> mtu" and m: "mtu \<le> 65535"
    by (auto simp: ppd_inv_def ppd_wf_def)
  note pe = packetproto_parse_encodes [OF tx m, folded encodes_def]
  from inv consider (recv) "ppd_receiving mtu (ds_dec s) (ds_rx s) (ds_tx s)"
    | (send) "ppd_sending mtu (ds_dec s) (ds_rx s) (ds_tx s)" by (auto simp: ppd_inv_def)
  then show ?thesis
  proof cases
    case recv
    then have "packetproto_parse mtu (ds_rx s) = (ds_tx s @ [], ppd_contents (ds_dec s), False)"
      by (simp add: ppd_receiving_def pe)
    then show ?thesis by blast
  next
    case send
    then obtain r where r: "ds_rx s = encodes (ds_tx s) @ r" and n: "si_state (ppd_input (ds_dec s)) = STATE_NONE"
      by (auto simp: ppd_sending_def split: if_splits)
    show ?thesis unfolding r pe using n by (auto split: prod.splits)
  qed
qed

lemma packetproto_parse_failed: "snd (snd (packetproto_parse mtu a)) \<Longrightarrow> snd (snd (packetproto_parse mtu (a @ b)))"
proof (induction mtu a rule: packetproto_parse.induct)
  case (1 mtu a)
  let ?n = "unat (le16_of a)"
  have l: "2 \<le> length a" using "1.prems" by (subst (asm) packetproto_parse.simps) (auto split: if_splits)
  then have n: "le16_of (a @ b) = le16_of a" using le16_of_take [of "length a" "a @ b"] by simp
  consider (big) "mtu < ?n" | (full) "?n \<le> mtu" "?n \<le> length a - 2"
    using "1.prems" by (subst (asm) packetproto_parse.simps) (auto simp: Let_def split: if_splits)
  then show ?case
  proof cases
    case big
    then show ?thesis using l n by (subst packetproto_parse.simps) simp
  next
    case full
    have "snd (snd (packetproto_parse mtu (drop (2 + ?n) a)))"
      using "1.prems" full l by (subst (asm) packetproto_parse.simps) (simp add: split_def Let_def)
    then have "snd (snd (packetproto_parse mtu (drop (2 + ?n) a @ b)))" using "1.IH" [OF _ refl] full l by simp
    then show ?thesis using full l n by (subst packetproto_parse.simps) (simp add: split_def Let_def)
  qed
qed

text \<open>C11: encoding packets of at most the MTU and receiving their encodings over the stream gives the
  packets back: when all that the decoder has ever received, less what resets dropped, is exactly the encodings, and it waits
  for more, it has reported no error and the output has got exactly these packets.\<close>

theorem PacketProto_roundtrip:
  assumes "ppd_reach mtu s" and "concat (map fst (ds_failed s)) @ ds_rx s = concat (map packetproto_encode ps)"
    and "\<forall>p \<in> set ps. length p \<le> mtu" and "si_state (ppd_input (ds_dec s)) \<noteq> STATE_NONE"
  shows "ds_failed s = [] \<and> ds_tx s = ps"
proof -
  have inv: "ppd_inv mtu s" by (rule ppd_reach_inv [OF assms(1)])
  then have r: "ppd_receiving mtu (ds_dec s) (ds_rx s) (ds_tx s)" and m: "mtu \<le> 65535"
    and tx: "\<forall>p \<in> set (ds_tx s). length p \<le> mtu" and f: "failed_ok mtu (ds_failed s)"
    using ppd_inv_cases(1) assms(4) by (auto simp: ppd_inv_def ppd_wf_def)
  have ps: "packetproto_parse mtu (concat (map packetproto_encode ps)) = (ps, [], False)"
    using packetproto_parse_encodes [OF assms(3) m, of "[]"] by (simp add: packetproto_parse.simps [of _ "[]"])
  have none: "ds_failed s = []"
  proof (cases "ds_failed s")
    case (Cons e es)
    then have "snd (snd (packetproto_parse mtu (fst e)))" using f by (auto simp: failed_ok_def)
    from packetproto_parse_failed [OF this, of "concat (map fst es) @ ds_rx s"] show ?thesis
      using assms(2) ps Cons by simp
  qed
  have "packetproto_parse mtu (ds_rx s) = (ds_tx s, ppd_contents (ds_dec s), False)"
    using r packetproto_parse_encodes [OF tx m] by (simp add: ppd_receiving_def encodes_def)
  then show ?thesis using none ps assms(2) by simp
qed

text \<open>The decoder never violates a contract of its interfaces: a completion job finds its handler
  able to run to the end (a receive is only requested for a positive number of octets, a packet is
  only sent within the output's MTU and while the output is idle), and it always has exactly one of
  the two operations in progress.\<close>

theorem PacketProtoDecoder_safe:
  assumes "ppd_reach mtu s"
  shows "(si_job_done (ppd_input (ds_dec s)) \<longrightarrow>
      (\<exists>i len. StreamRecvInterface_job_done (ppd_input (ds_dec s)) = Some (i, len) \<and>
        PacketProtoDecoder_input_handler_done ((ds_dec s)\<lparr>ppd_input := i\<rparr>) len \<noteq> None)) \<and>
    (ppi_job_done (ppd_output (ds_dec s)) \<longrightarrow>
      (\<exists>out. PacketPassInterface_job_done (ppd_output (ds_dec s)) = Some out \<and>
        PacketProtoDecoder_output_handler_done ((ds_dec s)\<lparr>ppd_output := out\<rparr>) \<noteq> None)) \<and>
    (si_state (ppd_input (ds_dec s)) = STATE_NONE \<longleftrightarrow> ppi_state (ppd_output (ds_dec s)) \<noteq> STATE_NONE)"
proof -
  have inv: "ppd_inv mtu s" by (rule ppd_reach_inv [OF assms])
  have "StreamRecvInterface_job_done (ppd_input (ds_dec s)) \<noteq> None" if "si_job_done (ppd_input (ds_dec s))"
    using that inv by (auto simp: ppd_inv_def ppd_wf_def si_inv_def StreamRecvInterface_job_done_def)
  moreover have "PacketPassInterface_job_done (ppd_output (ds_dec s)) \<noteq> None" if "ppi_job_done (ppd_output (ds_dec s))"
    using that inv by (auto simp: ppd_inv_def ppd_wf_def ppi_inv_def PacketPassInterface_job_done_def)
  moreover have "si_state (ppd_input (ds_dec s)) = STATE_NONE \<longleftrightarrow> ppi_state (ppd_output (ds_dec s)) \<noteq> STATE_NONE"
    using inv by (auto simp: ppd_inv_def ppd_receiving_def ppd_sending_def)
  ultimately show ?thesis
    using ppd_input_ok [OF inv] ppd_output_ok [OF inv] by fastforce
qed


subsection \<open>An execution\<close>

text \<open>A decoder with an MTU of four octets receives the encoding of a two octet packet in one piece.\<close>

definition ex_si :: "if_state \<Rightarrow> int \<Rightarrow> int \<Rightarrow> int \<Rightarrow> StreamInterface" where
  "ex_si st a len n = \<lparr>si_has_user = True, si_job_operation = (st = STATE_OPERATION_PENDING),
     si_job_operation_data = Some a, si_job_operation_len = len, si_job_done = (st = STATE_DONE_PENDING),
     si_job_done_len = n, si_state = st\<rparr>"

definition ex_ppi :: "if_state \<Rightarrow> int option \<Rightarrow> int \<Rightarrow> PacketPassInterface" where
  "ex_ppi st a len = \<lparr>ppi_mtu = 4, ppi_has_cancel = False, ppi_has_user = True,
     ppi_job_operation = (st = STATE_OPERATION_PENDING), ppi_job_operation_data = a, ppi_job_operation_len = len,
     ppi_job_requestcancel = False, ppi_job_done = (st = STATE_DONE_PENDING), ppi_state = st, ppi_cancel_requested = False\<rparr>"

definition ex_sys :: "StreamInterface \<Rightarrow> PacketPassInterface \<Rightarrow> int \<Rightarrow> bytes \<Rightarrow> bytes \<Rightarrow> bytes list \<Rightarrow> ppd_system" where
  "ex_sys i out start buf rx tx = \<lparr>ds_dec = \<lparr>ppd_input = i, ppd_output = out, ppd_output_mtu = 4, ppd_buf_size = 6,
     ppd_buf_start = start, ppd_buf_used = 0, ppd_buf = buf\<rparr>, ds_rx = rx, ds_tx = tx, ds_failed = []\<rparr>"

lemmas ex_defs = ex_si_def ex_ppi_def ex_sys_def

lemma ex_reach_done: "ppd_reach 4 (ex_sys (ex_si STATE_DONE_PENDING 0 6 4) (ex_ppi STATE_NONE None 0) 0 [2, 0, 7, 8, 0, 0] [] [])"
proof -
  let ?o = "ex_ppi STATE_NONE None 0"
  have "ppd_reach 4 (ex_sys (ex_si STATE_OPERATION_PENDING 0 6 0) ?o 0 (replicate 6 0) [] [])"
    unfolding ex_sys_def
    by (rule ppd_reach.start [of StreamRecvInterface_Init "PacketPassInterface_Init 4" _ "\<lambda>k. if k = 6 then Some (replicate 6 0) else None"])
      (auto simp: si_inv_def ppi_inv_def si_defs ppi_defs PACKETPROTO_MAXPAYLOAD_def PACKETPROTO_ENCLEN_def
        PacketProtoDecoder_Init_def ex_defs split: if_splits)
  then have "ppd_reach 4 (ex_sys (ex_si STATE_BUSY 0 6 0) ?o 0 (replicate 6 0) [] [])"
    using ppd_reach.step [OF _ ppd_step.recv_start] by (force simp: StreamRecvInterface_job_operation_def ex_defs)
  then have "ppd_reach 4 (ex_sys (ex_si STATE_BUSY 0 6 0) ?o 0 [2, 0, 7, 8, 0, 0] [] [])"
    using ppd_reach.step [OF _ ppd_step.recv_write [where q = "[2, 0, 7, 8]"]]
    by (force simp: ex_defs mem_write_def numeral_eq_Suc)
  then show ?thesis
    using ppd_reach.step [OF _ ppd_step.recv_complete [where len = 4]]
    by (force simp: StreamRecvInterface_Done_def ex_defs)
qed


lemma ex_reach_sent: "ppd_reach 4 (ex_sys (ex_si STATE_OPERATION_PENDING 4 2 4) (ex_ppi STATE_NONE (Some 2) 2) 4
  [2, 0, 7, 8, 0, 0] [2, 0, 7, 8] [[7, 8]])"
proof -
  let ?i = "ex_si STATE_NONE 0 6 4" and ?m = "[2, 0, 7, 8, 0, 0] :: bytes" and ?rx = "[2, 0, 7, 8] :: bytes"
  have "ppd_reach 4 (ex_sys ?i (ex_ppi STATE_OPERATION_PENDING (Some 2) 2) 4 ?m ?rx [])"
    using ppd_reach.step [OF ex_reach_done ppd_step.recv_done, of ?i 4 0 _ False]
    by (simp add: StreamRecvInterface_job_done_def PacketProtoDecoder_input_handler_done_def
        PacketProtoDecoder_process_data_def PacketPassInterface_Sender_Send_def ppd_after_def mem_read_def ex_defs)
  then have "ppd_reach 4 (ex_sys ?i (ex_ppi STATE_BUSY (Some 2) 2) 4 ?m ?rx [])"
    using ppd_reach.step [OF _ ppd_step.send_start] by (force simp: PacketPassInterface_job_operation_def ex_defs)
  then have "ppd_reach 4 (ex_sys ?i (ex_ppi STATE_DONE_PENDING (Some 2) 2) 4 ?m ?rx [[7, 8]])"
    using ppd_reach.step [OF _ ppd_step.send_complete] by (force simp: PacketPassInterface_Done_def mem_read_def ex_defs)
  from ppd_reach.step [OF this ppd_step.send_done, of "ex_ppi STATE_NONE (Some 2) 2" _ False] show ?thesis
    by (simp add: PacketPassInterface_job_done_def PacketProtoDecoder_output_handler_done_def
        PacketProtoDecoder_process_data_def PacketProtoDecoder_wait_def PacketProtoDecoder_receive_def
        StreamRecvInterface_Receiver_Recv_def ppd_after_def mem_read_def ex_defs)
qed

theorem PacketProtoDecoder_parses_witness:
  "\<exists>qs rest err. packetproto_parse 4 [2, 0, 7, 8] = ([[7, 8]] @ qs, rest, err)"
  using PacketProtoDecoder_parses [OF ex_reach_sent] by (auto simp: ex_defs)

theorem PacketProto_roundtrip_witness: "ds_failed (ex_sys (ex_si STATE_OPERATION_PENDING 4 2 4)
  (ex_ppi STATE_NONE (Some 2) 2) 4 [2, 0, 7, 8, 0, 0] [2, 0, 7, 8] [[7, 8]]) = [] \<and>
  ds_tx (ex_sys (ex_si STATE_OPERATION_PENDING 4 2 4)
  (ex_ppi STATE_NONE (Some 2) 2) 4 [2, 0, 7, 8, 0, 0] [2, 0, 7, 8] [[7, 8]]) = [[7, 8]]"
  by (rule PacketProto_roundtrip [OF ex_reach_sent]) (simp_all add: packetproto_encode_def le16_bytes_def ex_defs)

theorem PacketProtoDecoder_safe_witness:
  "\<exists>i len. StreamRecvInterface_job_done (ex_si STATE_DONE_PENDING 0 6 4) = Some (i, len) \<and>
    PacketProtoDecoder_input_handler_done ((ds_dec (ex_sys (ex_si STATE_DONE_PENDING 0 6 4)
      (ex_ppi STATE_NONE None 0) 0 [2, 0, 7, 8, 0, 0] [] []))\<lparr>ppd_input := i\<rparr>) len \<noteq> None"
  using PacketProtoDecoder_safe [OF ex_reach_done] by (simp add: ex_sys_def ex_si_def)

text \<open>The encoder completes its output with exactly the encoding of the packet its input wrote behind
  the header: the length on the wire is that of the packet, the packet is untouched, and the
  completion is within the MTU the encoder advertised.\<close>

theorem PacketProtoEncoder_encodes:
  assumes "ppe_output_packet enc = Some d" and "0 \<le> d" and "pri_state (ppe_output enc) = STATE_BUSY"
    and "pri_mtu (ppe_output enc) = PACKETPROTO_ENCLEN (int mtu)" and "mtu \<le> 65535" and "length p \<le> mtu"
    and "nat d + 2 + length p \<le> length memory" and "mem_read memory (nat d + 2) (length p) = p"
  shows "\<exists>enc' memory'. PacketProtoEncoder_input_handler_done enc memory (int (length p)) = Some (enc', memory') \<and>
    ppe_output_packet enc' = None \<and> pri_state (ppe_output enc') = STATE_DONE_PENDING \<and>
    pri_job_done_len (ppe_output enc') = int (length (packetproto_encode p)) \<and>
    mem_read memory' (nat d) (length (packetproto_encode p)) = packetproto_encode p"
proof -
  let ?w = "le16_bytes (word_of_int (int (length p)))" and ?m = "mem_write memory (nat d) (le16_bytes (word_of_int (int (length p))))"
  have "nat d + length ?w \<le> length memory" using assms(7) by simp
  then have "mem_read ?m (nat d) 2 = ?w" "mem_read ?m (nat d + 2) (length p) = p"
    using mem_read_write_same [of "nat d" ?w memory] mem_read_write_after [of "nat d" ?w "nat d + 2" memory "length p"] assms(8)
    by simp_all
  moreover have "mem_read ?m (nat d) (2 + length p) = mem_read ?m (nat d) 2 @ mem_read ?m (nat d + 2) (length p)"
    unfolding mem_read_def take_add drop_drop by (simp only: add.commute)
  ultimately show ?thesis
    using assms(1-6)
    by (simp add: PacketProtoEncoder_input_handler_done_def PacketRecvInterface_Done_def PACKETPROTO_ENCLEN_def packetproto_encode_def)
qed

theorem PacketProtoEncoder_encodes_witness:
  "\<exists>enc' memory'. PacketProtoEncoder_input_handler_done
      \<lparr>ppe_input = PacketRecvInterface_Init 4, ppe_output = (PacketRecvInterface_Init 6)\<lparr>pri_state := STATE_BUSY\<rparr>,
       ppe_output_packet = Some 0\<rparr> [0, 0, 7, 8, 9, 0] (int (length [7, 8, 9 :: byte])) = Some (enc', memory') \<and>
    ppe_output_packet enc' = None \<and> pri_state (ppe_output enc') = STATE_DONE_PENDING \<and>
    pri_job_done_len (ppe_output enc') = int (length (packetproto_encode [7, 8, 9])) \<and>
    mem_read memory' (nat 0) (length (packetproto_encode [7, 8, 9])) = packetproto_encode [7, 8, 9]"
  by (rule PacketProtoEncoder_encodes [where mtu = 4])
    (simp_all add: pri_defs PACKETPROTO_ENCLEN_def mem_read_def)

end
