(* ===== verification/BPending.thy ===== *)
theory BPending
  imports Prelude
begin

text \<open>
  \<open>badvpn/base/BPending.c\<close>: the job queue every flow module schedules its work on.  A group is the list of
  its pending jobs; a job is on the list at most once (\<open>BPending__ListIsRemoved\<close>).  Jobs are identified
  by the address of their \<open>BSmallPending\<close>; executing a job returns it, for the caller to run its handler.
\<close>

subsection \<open>The code\<close>

type_synonym 'j BPendingGroup = "'j list"

definition BPendingGroup_Init :: "'j BPendingGroup" where
  "BPendingGroup_Init = []"

definition BPendingGroup_HasJobs :: "'j BPendingGroup \<Rightarrow> bool" where
  "BPendingGroup_HasJobs g = (g \<noteq> [])"

definition BPendingGroup_ExecuteJob :: "'j BPendingGroup \<Rightarrow> ('j \<times> 'j BPendingGroup) option" where
  "BPendingGroup_ExecuteJob g = (case g of [] \<Rightarrow> None | p # g' \<Rightarrow> Some (p, g'))"

definition BPendingGroup_PeekJob :: "'j BPendingGroup \<Rightarrow> 'j option" where
  "BPendingGroup_PeekJob g = (case g of [] \<Rightarrow> None | p # g' \<Rightarrow> Some p)"

definition BSmallPending_IsSet :: "'j \<Rightarrow> 'j BPendingGroup \<Rightarrow> bool" where
  "BSmallPending_IsSet o' g = (o' \<in> set g)"

definition BSmallPending_Set :: "'j \<Rightarrow> 'j BPendingGroup \<Rightarrow> 'j BPendingGroup" where
  "BSmallPending_Set o' g =
     (let g' = (if BSmallPending_IsSet o' g then remove1 o' g else g) in o' # g')"

definition BSmallPending_Unset :: "'j \<Rightarrow> 'j BPendingGroup \<Rightarrow> 'j BPendingGroup" where
  "BSmallPending_Unset o' g = (if BSmallPending_IsSet o' g then remove1 o' g else g)"

definition BSmallPending_Free :: "'j \<Rightarrow> 'j BPendingGroup \<Rightarrow> 'j BPendingGroup" where
  "BSmallPending_Free o' g = (if BSmallPending_IsSet o' g then remove1 o' g else g)"

subsection \<open>Runs of a group\<close>

datatype 'j bp_op = OpSet 'j | OpUnset 'j | OpExec

text \<open>The jobs executed by a sequence of operations, and the group it leaves.\<close>

fun bp_run :: "'j BPendingGroup \<Rightarrow> 'j bp_op list \<Rightarrow> 'j list \<times> 'j BPendingGroup" where
  "bp_run g [] = ([], g)"
| "bp_run g (OpSet j # ops) = bp_run (BSmallPending_Set j g) ops"
| "bp_run g (OpUnset j # ops) = bp_run (BSmallPending_Unset j g) ops"
| "bp_run g (OpExec # ops) =
     (case BPendingGroup_ExecuteJob g of
        None \<Rightarrow> bp_run g ops
      | Some (j, g') \<Rightarrow> (let (js, g'') = bp_run g' ops in (j # js, g'')))"

lemma BSmallPending_Set_eq: "distinct g \<Longrightarrow> BSmallPending_Set j g = j # filter (\<lambda>x. x \<noteq> j) g"
  by (simp add: BSmallPending_Set_def BSmallPending_IsSet_def distinct_remove1_removeAll removeAll_filter_not_eq
      eq_commute [of j] remove1_idem)
    (metis (mono_tags, lifting) filter_True)

lemma BSmallPending_Unset_eq: "distinct g \<Longrightarrow> BSmallPending_Unset j g = filter (\<lambda>x. x \<noteq> j) g"
  by (simp add: BSmallPending_Unset_def BSmallPending_IsSet_def distinct_remove1_removeAll removeAll_filter_not_eq
      eq_commute [of j])
    (metis (mono_tags, lifting) filter_True)

lemma bp_distinct:
  "distinct g \<Longrightarrow> distinct (BSmallPending_Set j g)"
  "distinct g \<Longrightarrow> distinct (BSmallPending_Unset j g)"
  "distinct g \<Longrightarrow> BPendingGroup_ExecuteJob g = Some (j, g') \<Longrightarrow> distinct g'"
  by (auto simp: BSmallPending_Set_eq BSmallPending_Unset_eq BPendingGroup_ExecuteJob_def split: list.splits)

lemma bp_run_distinct: "distinct g \<Longrightarrow> distinct (snd (bp_run g ops))"
  by (induction g ops rule: bp_run.induct) (auto simp: bp_distinct split: option.splits prod.splits)

lemma bp_run_Exec_self: "bp_run g (replicate (length g) OpExec) = (g, [])"
  by (induction g) (simp_all add: BPendingGroup_ExecuteJob_def)

text \<open>C37: jobs run last in, first out: the jobs a handler schedules (again or anew) run before every job
  that was pending when it started, the most recently scheduled first, each once, and the others keep
  their order behind them.\<close>

theorem BPending_lifo:
  assumes "distinct g" and "distinct js"
  shows "bp_run g (map OpSet js @ replicate (length js + length (filter (\<lambda>j. j \<notin> set js) g)) OpExec)
     = (rev js @ filter (\<lambda>j. j \<notin> set js) g, [])"
proof -
  have run: "bp_run g (map OpSet js @ ops) = bp_run (rev js @ filter (\<lambda>j. j \<notin> set js) g) ops" for ops
    using assms
  proof (induction js arbitrary: g)
    case (Cons j js)
    have "filter (\<lambda>x. x \<notin> set js) (j # filter (\<lambda>x. x \<noteq> j) g) = j # filter (\<lambda>x. x \<notin> set (j # js)) g"
      using Cons.prems(2) by (auto intro: filter_cong)
    moreover have "distinct (BSmallPending_Set j g)" using Cons.prems(1) by (rule bp_distinct)
    ultimately show ?case using Cons by (simp add: BSmallPending_Set_eq)
  qed simp
  show ?thesis
    unfolding run using bp_run_Exec_self [of "rev js @ filter (\<lambda>j. j \<notin> set js) g"] by simp
qed

theorem BPending_lifo_witness:
  "bp_run [1, 2, 3 :: nat] [OpSet 2, OpSet 4, OpExec, OpExec, OpExec, OpExec] = ([4, 2, 1, 3], [])"
  using BPending_lifo [of "[1, 2, 3 :: nat]" "[2, 4]"] by (simp add: numeral_eq_Suc)

text \<open>A job never runs more often than it was scheduled, whatever else happens in between: from the
  empty group, the executions of a job plus its being pending are at most its schedulings.\<close>

theorem BPending_once:
  "count_list (fst (bp_run BPendingGroup_Init ops)) j + (if j \<in> set (snd (bp_run BPendingGroup_Init ops)) then 1 else 0)
     \<le> count_list ops (OpSet j)"
proof -
  have "distinct g \<Longrightarrow> count_list (fst (bp_run g ops)) j + (if j \<in> set (snd (bp_run g ops)) then 1 else 0)
     \<le> count_list ops (OpSet j) + (if j \<in> set g then 1 else 0)" for g
  proof (induction g ops rule: bp_run.induct)
    case (2 g k ops)
    then show ?case using bp_distinct(1) [of g k] by (force simp: BSmallPending_Set_eq split: if_splits)
  next
    case (3 g k ops)
    then show ?case using bp_distinct(2) [of g k] by (force simp: BSmallPending_Unset_eq split: if_splits)
  next
    case (4 g ops)
    then show ?case
      by (cases g) (force simp: BPendingGroup_ExecuteJob_def split: prod.splits if_splits)+
  qed simp
  from this [of BPendingGroup_Init] show ?thesis by (simp add: BPendingGroup_Init_def)
qed

end
