(* ===== verification/FairQueue.thy ===== *)
theory FairQueue
  imports FlowInterfaces "HOL-Library.Monad_Syntax"
begin

text \<open>
  \<open>badvpn/flow/PacketPassFairQueue.c\<close>: many packet flows share one output; the queued flow with the
  smallest virtual time sends next.  Flows are identified by their address.  The tree of queued flows
  (an AVL tree in the code) is the list of its elements in tree order; \<open>queued_tree\<close> is only searched
  for its first element, inserted into and removed from.  Times are 64-bit words.
\<close>

subsection \<open>The code\<close>

record fq_flow =
  ff_handler_busy :: bool
  ff_input :: PacketPassInterface
  ff_time :: u64
  ff_is_queued :: bool
  ff_data :: "int option"
  ff_data_len :: int

record PacketPassFairQueue =
  fq_output :: PacketPassInterface
  fq_use_cancel :: bool
  fq_packet_weight :: int
  fq_sending_flow :: "nat option"
  fq_sending_len :: int
  fq_previous_flow :: "nat option"
  fq_queued_tree :: "nat list"
  fq_flows_list :: "nat list"
  fq_flows :: "nat \<Rightarrow> fq_flow"
  fq_freeing :: bool
  fq_schedule_job :: bool

definition FAIRQUEUE_MAX_TIME :: u64 where
  "FAIRQUEUE_MAX_TIME = - 1"

abbreviation fq_time :: "PacketPassFairQueue \<Rightarrow> nat \<Rightarrow> u64" where
  "fq_time m f \<equiv> ff_time (fq_flows m f)"

definition set_flow :: "PacketPassFairQueue \<Rightarrow> nat \<Rightarrow> (fq_flow \<Rightarrow> fq_flow) \<Rightarrow> PacketPassFairQueue" where
  "set_flow m f g = m\<lparr>fq_flows := (fq_flows m)(f := g (fq_flows m f))\<rparr>"

definition compare_flows :: "PacketPassFairQueue \<Rightarrow> nat \<Rightarrow> nat \<Rightarrow> int" where
  "compare_flows m f1 f2 =
     (if fq_time m f1 < fq_time m f2 then -1 else if fq_time m f1 > fq_time m f2 then 1
      else if f1 < f2 then -1 else if f1 > f2 then 1 else 0)"

fun tree_insert :: "PacketPassFairQueue \<Rightarrow> nat \<Rightarrow> nat list \<Rightarrow> nat list" where
  "tree_insert m f [] = [f]"
| "tree_insert m f (g # gs) = (if compare_flows m f g < 0 then f # g # gs else g # tree_insert m f gs)"

definition tree_first :: "PacketPassFairQueue \<Rightarrow> nat option" where
  "tree_first m = (case fq_queued_tree m of [] \<Rightarrow> None | f # _ \<Rightarrow> Some f)"

definition get_current_time :: "PacketPassFairQueue \<Rightarrow> u64" where
  "get_current_time m =
     (case fq_sending_flow m of
        Some f \<Rightarrow> fq_time m f
      | None \<Rightarrow>
          let t = map_option (fq_time m) (tree_first m);
              t = (case fq_previous_flow m of
                     None \<Rightarrow> t
                   | Some p \<Rightarrow> (case t of None \<Rightarrow> Some (fq_time m p)
                       | Some x \<Rightarrow> if fq_time m p < x then Some (fq_time m p) else Some x))
          in case t of None \<Rightarrow> 0 | Some x \<Rightarrow> x)"

text \<open>The assertion on the first queued flow, which \<open>get_current_time\<close> makes when nothing is being sent, and \<open>increment_sent_flow\<close> too.\<close>

definition first_queued_ok :: "PacketPassFairQueue \<Rightarrow> bool" where
  "first_queued_ok m = (case tree_first m of None \<Rightarrow> True | Some g \<Rightarrow> ff_is_queued (fq_flows m g))"

definition increment_sent_flow :: "PacketPassFairQueue \<Rightarrow> nat \<Rightarrow> u64 \<Rightarrow> PacketPassFairQueue option" where
  "increment_sent_flow m f amount =
     (if ff_is_queued (fq_flows m f) \<or> fq_sending_flow m \<noteq> None then None
      else do {
        m \<leftarrow> (if amount > FAIRQUEUE_MAX_TIME - fq_time m f then
               (let subtract = (case tree_first m of None \<Rightarrow> fq_time m f | Some g \<Rightarrow> fq_time m g) in
                if \<not> first_queued_ok m \<or> (\<exists>g \<in> set (fq_flows_list m). subtract > fq_time m g \<and> g \<noteq> f \<and> ff_is_queued (fq_flows m g))
                then None
                else Some (m\<lparr>fq_flows := (\<lambda>g. if g \<in> set (fq_flows_list m)
                       then (fq_flows m g)\<lparr>ff_time :=
                              (if subtract > fq_time m g \<and> g \<noteq> f then 0 else fq_time m g - subtract)\<rparr>
                       else fq_flows m g)\<rparr>))
             else Some m);
        Some (set_flow m f (\<lambda>fl. fl\<lparr>ff_time := ff_time fl + amount\<rparr>))
      })"

definition fq_schedule :: "PacketPassFairQueue \<Rightarrow> PacketPassFairQueue option" where
  "fq_schedule m =
     (if fq_sending_flow m \<noteq> None \<or> fq_previous_flow m \<noteq> None \<or> fq_freeing m then None
      else case fq_queued_tree m of
        [] \<Rightarrow> None
      | q # qs \<Rightarrow>
          if \<not> ff_is_queued (fq_flows m q) then None
          else do {
            let m = set_flow (m\<lparr>fq_queued_tree := qs\<rparr>) q (\<lambda>fl. fl\<lparr>ff_is_queued := False\<rparr>);
            out \<leftarrow> PacketPassInterface_Sender_Send (fq_output m) (ff_data (fq_flows m q)) (ff_data_len (fq_flows m q));
            Some (m\<lparr>fq_output := out, fq_sending_flow := Some q, fq_sending_len := ff_data_len (fq_flows m q)\<rparr>)
          })"

definition schedule_job_handler :: "PacketPassFairQueue \<Rightarrow> PacketPassFairQueue option" where
  "schedule_job_handler m =
     (if fq_sending_flow m \<noteq> None \<or> fq_freeing m then None
      else
        let m = m\<lparr>fq_previous_flow := None\<rparr> in
        if fq_queued_tree m \<noteq> [] then fq_schedule m else Some m)"

definition FairQueue_input_handler_send ::
  "PacketPassFairQueue \<Rightarrow> nat \<Rightarrow> int option \<Rightarrow> int \<Rightarrow> PacketPassFairQueue option" where
  "FairQueue_input_handler_send m f data data_len =
     (if fq_sending_flow m = Some f \<or> ff_is_queued (fq_flows m f) \<or> fq_freeing m then None
      else if fq_previous_flow m \<noteq> Some f \<and> fq_sending_flow m = None \<and> \<not> first_queued_ok m then None
      else
        let m = (if fq_previous_flow m = Some f then m\<lparr>fq_previous_flow := None\<rparr>
                 else set_flow m f (\<lambda>fl. fl\<lparr>ff_time := max (ff_time fl) (get_current_time m)\<rparr>));
            m = set_flow m f (\<lambda>fl. fl\<lparr>ff_data := data, ff_data_len := data_len\<rparr>);
            m = m\<lparr>fq_queued_tree := tree_insert m f (fq_queued_tree m)\<rparr>;
            m = set_flow m f (\<lambda>fl. fl\<lparr>ff_is_queued := True\<rparr>)
        in if fq_sending_flow m = None \<and> \<not> fq_schedule_job m then fq_schedule m else Some m)"

text \<open>The second component says whether the busy handler of the finished flow is called.\<close>

definition FairQueue_output_handler_done :: "PacketPassFairQueue \<Rightarrow> (PacketPassFairQueue \<times> bool) option" where
  "FairQueue_output_handler_done m =
     (case fq_sending_flow m of None \<Rightarrow> None
      | Some f \<Rightarrow>
          if fq_previous_flow m \<noteq> None \<or> fq_schedule_job m \<or> fq_freeing m \<or> ff_is_queued (fq_flows m f) then None
          else do {
            let m = m\<lparr>fq_sending_flow := None, fq_previous_flow := Some f\<rparr>;
            m \<leftarrow> increment_sent_flow m f (word_of_int (fq_packet_weight m) + word_of_int (fq_sending_len m));
            let m = m\<lparr>fq_schedule_job := True\<rparr>;
            i \<leftarrow> PacketPassInterface_Done (ff_input (fq_flows m f));
            let busy = ff_handler_busy (fq_flows m f);
            Some (set_flow m f (\<lambda>fl. fl\<lparr>ff_input := i, ff_handler_busy := False\<rparr>), busy)
          })"

text \<open>The outer option is a failed assertion, the inner one the error return.\<close>

definition PacketPassFairQueue_Init ::
  "PacketPassInterface \<Rightarrow> bool \<Rightarrow> int \<Rightarrow> PacketPassFairQueue option option" where
  "PacketPassFairQueue_Init outp use_cancel packet_weight =
     (if \<not> packet_weight > 0 \<or> (use_cancel \<and> \<not> ppi_has_cancel outp) then None
      else if \<not> (ppi_mtu outp \<le> uint FAIRQUEUE_MAX_TIME \<and> packet_weight \<le> uint FAIRQUEUE_MAX_TIME - ppi_mtu outp)
      then Some None
      else do {
        out \<leftarrow> PacketPassInterface_Sender_Init outp;
        Some (Some \<lparr>fq_output = out, fq_use_cancel = use_cancel, fq_packet_weight = packet_weight,
          fq_sending_flow = None, fq_sending_len = 0, fq_previous_flow = None, fq_queued_tree = [],
          fq_flows_list = [], fq_flows = (\<lambda>f. \<lparr>ff_handler_busy = False, ff_input = PacketPassInterface_Init 0,
            ff_time = 0, ff_is_queued = False, ff_data = None, ff_data_len = 0\<rparr>),
          fq_freeing = False, fq_schedule_job = False\<rparr>)
      })"

definition PacketPassFairQueue_PrepareFree :: "PacketPassFairQueue \<Rightarrow> PacketPassFairQueue" where
  "PacketPassFairQueue_PrepareFree m = m\<lparr>fq_freeing := True\<rparr>"

definition PacketPassFairQueueFlow_Init :: "PacketPassFairQueue \<Rightarrow> nat \<Rightarrow> PacketPassFairQueue option" where
  "PacketPassFairQueueFlow_Init m f =
     (if fq_freeing m then None
      else Some (m\<lparr>fq_flows := (fq_flows m)(f := (fq_flows m f)\<lparr>ff_handler_busy := False,
             ff_input := PacketPassInterface_Init (ppi_mtu (fq_output m)), ff_time := 0, ff_is_queued := False\<rparr>),
           fq_flows_list := fq_flows_list m @ [f]\<rparr>))"

definition PacketPassFairQueueFlow_Free :: "PacketPassFairQueue \<Rightarrow> nat \<Rightarrow> PacketPassFairQueue option" where
  "PacketPassFairQueueFlow_Free m f =
     (if \<not> fq_freeing m \<and> fq_sending_flow m = Some f then None
      else
        let m = (if fq_sending_flow m = Some f then m\<lparr>fq_sending_flow := None\<rparr> else m);
            m = (if fq_previous_flow m = Some f then m\<lparr>fq_previous_flow := None\<rparr> else m);
            m = (if ff_is_queued (fq_flows m f) then m\<lparr>fq_queued_tree := remove1 f (fq_queued_tree m)\<rparr> else m)
        in Some (m\<lparr>fq_flows_list := remove1 f (fq_flows_list m)\<rparr>))"

definition PacketPassFairQueueFlow_RequestCancel :: "PacketPassFairQueue \<Rightarrow> nat \<Rightarrow> PacketPassFairQueue option" where
  "PacketPassFairQueueFlow_RequestCancel m f =
     (if fq_sending_flow m \<noteq> Some f \<or> \<not> fq_use_cancel m \<or> fq_freeing m \<or> fq_schedule_job m then None
      else do {
        out \<leftarrow> PacketPassInterface_Sender_RequestCancel (fq_output m);
        Some (m\<lparr>fq_output := out\<rparr>)
      })"

definition PacketPassFairQueueFlow_SetBusyHandler :: "PacketPassFairQueue \<Rightarrow> nat \<Rightarrow> bool \<Rightarrow> PacketPassFairQueue option" where
  "PacketPassFairQueueFlow_SetBusyHandler m f handler =
     (if fq_sending_flow m \<noteq> Some f \<or> fq_freeing m then None
      else Some (set_flow m f (\<lambda>fl. fl\<lparr>ff_handler_busy := handler\<rparr>)))"

definition PacketPassFairQueueFlow_IsBusy :: "PacketPassFairQueue \<Rightarrow> nat \<Rightarrow> bool option" where
  "PacketPassFairQueueFlow_IsBusy m f = (if fq_freeing m then None else Some (fq_sending_flow m = Some f))"

subsection \<open>Events\<close>

text \<open>What the users of the flows, the provider of the output and the job queue can do, in any order,
  until the queue is prepared for freeing.\<close>

inductive fq_step :: "PacketPassFairQueue \<Rightarrow> PacketPassFairQueue \<Rightarrow> bool" where
  flow_init: "f \<notin> set (fq_flows_list m) \<Longrightarrow> PacketPassFairQueueFlow_Init m f = Some m1 \<Longrightarrow>
    PacketPassInterface_Sender_Init (ff_input (fq_flows m1 f)) = Some i \<Longrightarrow>
    fq_step m (set_flow m1 f (\<lambda>fl. fl\<lparr>ff_input := i\<rparr>))"
| flow_free: "f \<in> set (fq_flows_list m) \<Longrightarrow> fq_sending_flow m \<noteq> Some f \<Longrightarrow> PacketPassFairQueueFlow_Free m f = Some m' \<Longrightarrow>
    fq_step m m'"
| flow_send: "f \<in> set (fq_flows_list m) \<Longrightarrow>
    PacketPassInterface_Sender_Send (ff_input (fq_flows m f)) data len = Some i \<Longrightarrow>
    fq_step m (set_flow m f (\<lambda>fl. fl\<lparr>ff_input := i\<rparr>))"
| flow_operation: "f \<in> set (fq_flows_list m) \<Longrightarrow>
    PacketPassInterface_job_operation (ff_input (fq_flows m f)) = Some (i, data, len) \<Longrightarrow>
    FairQueue_input_handler_send (set_flow m f (\<lambda>fl. fl\<lparr>ff_input := i\<rparr>)) f data len = Some m' \<Longrightarrow> fq_step m m'"
| flow_done: "f \<in> set (fq_flows_list m) \<Longrightarrow> PacketPassInterface_job_done (ff_input (fq_flows m f)) = Some i \<Longrightarrow>
    fq_step m (set_flow m f (\<lambda>fl. fl\<lparr>ff_input := i\<rparr>))"
| cancel: "PacketPassFairQueueFlow_RequestCancel m f = Some m' \<Longrightarrow> fq_step m m'"
| busy_handler: "PacketPassFairQueueFlow_SetBusyHandler m f h = Some m' \<Longrightarrow> fq_step m m'"
| output_operation: "PacketPassInterface_job_operation (fq_output m) = Some (out, data, len) \<Longrightarrow>
    fq_step m (m\<lparr>fq_output := out\<rparr>)"
| output_requestcancel: "PacketPassInterface_job_requestcancel (fq_output m) = Some out \<Longrightarrow>
    fq_step m (m\<lparr>fq_output := out\<rparr>)"
| output_complete: "PacketPassInterface_Done (fq_output m) = Some out \<Longrightarrow> fq_step m (m\<lparr>fq_output := out\<rparr>)"
| output_done: "PacketPassInterface_job_done (fq_output m) = Some out \<Longrightarrow>
    FairQueue_output_handler_done (m\<lparr>fq_output := out\<rparr>) = Some (m', busy) \<Longrightarrow> fq_step m m'"
| schedule_job: "fq_schedule_job m \<Longrightarrow> schedule_job_handler (m\<lparr>fq_schedule_job := False\<rparr>) = Some m' \<Longrightarrow> fq_step m m'"

definition flow_less :: "PacketPassFairQueue \<Rightarrow> nat \<Rightarrow> nat \<Rightarrow> bool" where
  "flow_less m f g \<longleftrightarrow> compare_flows m f g < 0"

definition fq_flow_inv :: "PacketPassFairQueue \<Rightarrow> nat \<Rightarrow> bool" where
  "fq_flow_inv m f \<longleftrightarrow>
     (let fl = fq_flows m f; i = ff_input fl in
      ppi_inv i \<and> ppi_mtu i = ppi_mtu (fq_output m) \<and> ppi_has_user i \<and> \<not> ppi_has_cancel i \<and>
      (ppi_state i \<noteq> STATE_NONE \<longrightarrow> 0 \<le> ppi_job_operation_len i \<and> ppi_job_operation_len i \<le> ppi_mtu (fq_output m) \<and>
         (ppi_job_operation_len i > 0 \<longrightarrow> ppi_job_operation_data i \<noteq> None)) \<and>
      (ff_is_queued fl \<longleftrightarrow> f \<in> set (fq_queued_tree m)) \<and>
      (ppi_state i = STATE_BUSY \<longleftrightarrow> ff_is_queued fl \<or> fq_sending_flow m = Some f) \<and>
      (ff_is_queued fl \<longrightarrow> ff_data fl = ppi_job_operation_data i \<and> ff_data_len fl = ppi_job_operation_len i))"

definition fq_core :: "PacketPassFairQueue \<Rightarrow> bool" where
  "fq_core m \<longleftrightarrow>
     distinct (fq_flows_list m) \<and> set (fq_queued_tree m) \<subseteq> set (fq_flows_list m) \<and>
     sorted_wrt (flow_less m) (fq_queued_tree m) \<and>
     (\<forall>f \<in> set (fq_flows_list m). fq_flow_inv m f) \<and>
     \<not> fq_freeing m \<and> ppi_inv (fq_output m) \<and> ppi_has_user (fq_output m) \<and>
     0 < fq_packet_weight m \<and> 0 \<le> ppi_mtu (fq_output m) \<and>
     fq_packet_weight m + ppi_mtu (fq_output m) \<le> uint FAIRQUEUE_MAX_TIME \<and>
     (fq_use_cancel m \<longrightarrow> ppi_has_cancel (fq_output m))"

definition fq_sending_inv :: "PacketPassFairQueue \<Rightarrow> bool" where
  "fq_sending_inv m \<longleftrightarrow>
     (case fq_sending_flow m of
        Some f \<Rightarrow> f \<in> set (fq_flows_list m) \<and> f \<notin> set (fq_queued_tree m) \<and> fq_previous_flow m = None \<and>
          \<not> fq_schedule_job m \<and> ppi_state (fq_output m) \<noteq> STATE_NONE \<and>
          0 \<le> fq_sending_len m \<and> fq_sending_len m \<le> ppi_mtu (fq_output m) \<and>
          (\<forall>q \<in> set (fq_queued_tree m). fq_time m f \<le> fq_time m q)
      | None \<Rightarrow> ppi_state (fq_output m) = STATE_NONE \<and> (fq_queued_tree m \<noteq> [] \<longrightarrow> fq_schedule_job m))"

definition fq_previous_inv :: "PacketPassFairQueue \<Rightarrow> bool" where
  "fq_previous_inv m \<longleftrightarrow>
     (case fq_previous_flow m of
        Some f \<Rightarrow> f \<in> set (fq_flows_list m) \<and> f \<notin> set (fq_queued_tree m) \<and> fq_schedule_job m
      | None \<Rightarrow> True)"

definition fq_inv :: "PacketPassFairQueue \<Rightarrow> bool" where
  "fq_inv m \<longleftrightarrow> fq_core m \<and> fq_sending_inv m \<and> fq_previous_inv m"

subsection \<open>The order of the tree\<close>

lemma flow_less_iff: "flow_less m f g \<longleftrightarrow> fq_time m f < fq_time m g \<or> fq_time m f = fq_time m g \<and> f < g"
  by (auto simp: flow_less_def compare_flows_def)

lemma set_tree_insert [simp]: "set (tree_insert m f gs) = insert f (set gs)"
  by (induction gs) auto

lemma tree_insert_sorted:
  assumes "sorted_wrt (flow_less m) gs" and "f \<notin> set gs"
  shows "sorted_wrt (flow_less m) (tree_insert m f gs)"
  using assms
proof (induction gs)
  case (Cons g gs)
  show ?case
  proof (cases "flow_less m f g")
    case True
    then have "flow_less m f h" if "h \<in> set gs" for h
      using Cons.prems(1) that by (auto simp: flow_less_iff)
    with True Cons.prems show ?thesis by (auto simp: flow_less_def)
  next
    case False
    then have "flow_less m g f" using Cons.prems(2) by (auto simp: flow_less_iff)
    with False Cons show ?thesis by (auto simp: flow_less_def)
  qed
qed simp

lemma sorted_times_cong:
  assumes "sorted_wrt (flow_less m) gs" and "\<forall>g \<in> set gs. fq_time m' g = fq_time m g"
  shows "sorted_wrt (flow_less m') gs"
  using assms by (auto simp: flow_less_iff intro: sorted_wrt_mono_rel [rotated])

lemma sorted_distinct: "sorted_wrt (flow_less m) gs \<Longrightarrow> distinct gs"
  by (induction gs) (auto simp: flow_less_iff)

lemma tree_head_least: "sorted_wrt (flow_less m) (q # qs) \<Longrightarrow> g \<in> set (q # qs) \<Longrightarrow> fq_time m q \<le> fq_time m g"
  by (auto simp: flow_less_iff)

lemma fq_flow_inv_cong:
  assumes "fq_flow_inv m f" and "fq_flows m' f = fq_flows m f \<or> fq_flows m' f = (fq_flows m f)\<lparr>ff_time := t\<rparr>"
    and "f \<in> set (fq_queued_tree m') \<longleftrightarrow> f \<in> set (fq_queued_tree m)"
    and "fq_sending_flow m' = Some f \<longleftrightarrow> fq_sending_flow m = Some f" and "ppi_mtu (fq_output m') = ppi_mtu (fq_output m)"
  shows "fq_flow_inv m' f"
  using assms unfolding fq_flow_inv_def Let_def by (elim disjE) simp_all

lemma set_flow_simps [simp]:
  "fq_flows (set_flow m f g) = (fq_flows m)(f := g (fq_flows m f))"
  "fq_output (set_flow m f g) = fq_output m" "fq_use_cancel (set_flow m f g) = fq_use_cancel m"
  "fq_packet_weight (set_flow m f g) = fq_packet_weight m" "fq_sending_flow (set_flow m f g) = fq_sending_flow m"
  "fq_sending_len (set_flow m f g) = fq_sending_len m" "fq_previous_flow (set_flow m f g) = fq_previous_flow m"
  "fq_queued_tree (set_flow m f g) = fq_queued_tree m" "fq_flows_list (set_flow m f g) = fq_flows_list m"
  "fq_freeing (set_flow m f g) = fq_freeing m" "fq_schedule_job (set_flow m f g) = fq_schedule_job m"
  by (simp_all add: set_flow_def)

lemma schedule_ok:
  assumes "fq_core m" and "fq_sending_flow m = None" and "fq_previous_flow m = None"
    and "ppi_state (fq_output m) = STATE_NONE" and "\<not> fq_schedule_job m" and "fq_queued_tree m \<noteq> []"
  shows "\<exists>m'. fq_schedule m = Some m' \<and> fq_inv m'"
proof -
  obtain q qs where t: "fq_queued_tree m = q # qs" using assms(6) by (cases "fq_queued_tree m") auto
  have q: "q \<in> set (fq_flows_list m)" "fq_flow_inv m q" and s: "sorted_wrt (flow_less m) (q # qs)"
    and c: "\<not> fq_freeing m" "ppi_has_user (fq_output m)" "ppi_inv (fq_output m)"
    and fl: "\<And>f. f \<in> set (fq_flows_list m) \<Longrightarrow> fq_flow_inv m f"
    using assms(1) t unfolding fq_core_def by auto
  have d: "q \<notin> set qs" using sorted_distinct [OF s] by simp
  let ?fl = "fq_flows m q" and ?i = "ff_input (fq_flows m q)"
  have qi: "ff_is_queued ?fl" "ff_data ?fl = ppi_job_operation_data ?i" "ff_data_len ?fl = ppi_job_operation_len ?i"
    "0 \<le> ff_data_len ?fl" "ff_data_len ?fl \<le> ppi_mtu (fq_output m)" "ff_data_len ?fl > 0 \<longrightarrow> ff_data ?fl \<noteq> None"
    "ppi_state ?i = STATE_BUSY"
    using q(2) t unfolding fq_flow_inv_def Let_def by auto
  define out where "out = (fq_output m)\<lparr>ppi_job_operation_data := ff_data ?fl, ppi_job_operation_len := ff_data_len ?fl,
    ppi_job_operation := True, ppi_state := STATE_OPERATION_PENDING, ppi_cancel_requested := False\<rparr>"
  let ?m = "(set_flow (m\<lparr>fq_queued_tree := qs\<rparr>) q (\<lambda>fl. fl\<lparr>ff_is_queued := False\<rparr>))
    \<lparr>fq_output := out, fq_sending_flow := Some q, fq_sending_len := ff_data_len ?fl\<rparr>"
  have "fq_schedule m = Some ?m"
    using assms(2-4) t qi(1,4-6) c by (auto simp: fq_schedule_def PacketPassInterface_Sender_Send_def out_def Let_def)
  moreover have "fq_flow_inv ?m f" if "f \<in> set (fq_flows_list m)" for f
  proof (cases "f = q")
    case True
    then show ?thesis using q(2) qi d unfolding fq_flow_inv_def Let_def by (simp add: out_def)
  next
    case False
    then show ?thesis using assms(2) t by (intro fq_flow_inv_cong [OF fl [OF that]]) (auto simp: out_def)
  qed
  moreover have "sorted_wrt (flow_less ?m) qs"
    by (rule sorted_times_cong [of m]) (use s in auto)
  ultimately have "fq_core ?m"
    using assms(1,4) c t d unfolding fq_core_def by (auto simp: out_def ppi_inv_def)
  moreover have "fq_sending_inv ?m"
    using q(1) d assms(3,5) qi tree_head_least [OF s] by (auto simp: fq_sending_inv_def out_def)
  moreover have "fq_previous_inv ?m" using assms(3) by (simp add: fq_previous_inv_def)
  ultimately show ?thesis using \<open>fq_schedule m = Some ?m\<close> by (auto simp: fq_inv_def)
qed


subsection \<open>Advancing the time of a flow\<close>

lemma ff_time_self [simp]: "\<exists>t. fl = fl\<lparr>ff_time := t\<rparr>"
  by (cases fl) auto

lemma minus_one_sub: "unat (- 1 - x :: u64) = 2 ^ 64 - 1 - unat x"
proof -
  have "x \<le> - 1" by simp
  then have "unat (- 1 - x) = unat (- 1 :: u64) - unat x" by (rule unat_sub)
  then show ?thesis by (simp add: unsigned_minus_1_eq_mask mask_eq_exp_minus_1)
qed

text \<open>The time of the flow that just sent, when it is a lower bound of the queued times: it advances by the
  amount without wrapping around, if necessary after the least queued time was taken off everywhere.\<close>

lemma increment_ok:
  assumes "\<not> ff_is_queued (fq_flows m f)" and "fq_sending_flow m = None" and "f \<in> set (fq_flows_list m)"
    and "set (fq_queued_tree m) \<subseteq> set (fq_flows_list m)" and "f \<notin> set (fq_queued_tree m)"
    and "sorted_wrt (flow_less m) (fq_queued_tree m)"
    and "\<forall>q \<in> set (fq_queued_tree m). fq_time m f \<le> fq_time m q"
    and "\<forall>g \<in> set (fq_flows_list m). ff_is_queued (fq_flows m g) \<longleftrightarrow> g \<in> set (fq_queued_tree m)"
  shows "\<exists>m' c. increment_sent_flow m f amount = Some m' \<and>
    (\<forall>g. g \<noteq> f \<longrightarrow> (\<exists>t. fq_flows m' g = (fq_flows m g)\<lparr>ff_time := t\<rparr>)) \<and>
    (\<exists>t. fq_flows m' f = (fq_flows m f)\<lparr>ff_time := t\<rparr>) \<and> m' = m\<lparr>fq_flows := fq_flows m'\<rparr> \<and>
    (\<forall>q \<in> set (fq_queued_tree m). unat (fq_time m q) = unat (fq_time m' q) + c) \<and>
    unat (fq_time m' f) + c = unat (fq_time m f) + unat amount"
proof (cases "amount > FAIRQUEUE_MAX_TIME - fq_time m f")
  case False
  have "unat (fq_time m f) + unat amount < 2 ^ 64"
    using False minus_one_sub [of "fq_time m f"] unat_u64 [of "fq_time m f"]
    by (simp add: FAIRQUEUE_MAX_TIME_def word_less_nat_alt)
  then have "unat (fq_time m f + amount) = unat (fq_time m f) + unat amount"
    by (simp add: unat_word_ariths)
  moreover have "increment_sent_flow m f amount = Some (set_flow m f (\<lambda>fl. fl\<lparr>ff_time := ff_time fl + amount\<rparr>))"
    using assms(1,2) False by (simp add: increment_sent_flow_def)
  ultimately show ?thesis using assms(5)
    by (intro exI [of _ "set_flow m f (\<lambda>fl. fl\<lparr>ff_time := ff_time fl + amount\<rparr>)"] exI [of _ 0]) (auto simp: set_flow_def)
next
  case True
  define sb where "sb = (case tree_first m of None \<Rightarrow> fq_time m f | Some g \<Rightarrow> fq_time m g)"
  have sbf: "fq_time m f \<le> sb" and sbq: "\<forall>q \<in> set (fq_queued_tree m). sb \<le> fq_time m q"
    using assms(6,7) tree_head_least by (auto simp: sb_def tree_first_def split: list.splits)
  define fls where "fls = (\<lambda>g. if g \<in> set (fq_flows_list m)
     then (fq_flows m g)\<lparr>ff_time := (if sb > fq_time m g \<and> g \<noteq> f then 0 else fq_time m g - sb)\<rparr> else fq_flows m g)"
  have ok: "\<not> (\<exists>g \<in> set (fq_flows_list m). sb > fq_time m g \<and> g \<noteq> f \<and> ff_is_queued (fq_flows m g))"
    using assms(8) sbq by (auto simp: not_less)
  let ?m = "set_flow (m\<lparr>fq_flows := fls\<rparr>) f (\<lambda>fl. fl\<lparr>ff_time := ff_time fl + amount\<rparr>)"
  have fo: "first_queued_ok m" using assms(4,8) by (auto simp: first_queued_ok_def tree_first_def split: list.splits)
  have inc: "increment_sent_flow m f amount = Some ?m"
    using assms(1,2) True ok fo unfolding increment_sent_flow_def sb_def fls_def Let_def by (simp del: not_None_eq)
  have q: "unat (fq_time m q) = unat (fq_time ?m q) + unat sb" if "q \<in> set (fq_queued_tree m)" for q
  proof -
    have "fq_time ?m q = fq_time m q - sb" using that assms(4,5) sbq by (auto simp: fls_def not_less)
    moreover have "sb \<le> fq_time m q" using sbq that by blast
    ultimately show ?thesis by (simp add: unat_sub word_le_nat_alt)
  qed
  have "2 ^ 64 \<le> unat (fq_time m f) + unat amount"
    using True minus_one_sub [of "fq_time m f"] unat_u64 [of "fq_time m f"]
    by (simp add: FAIRQUEUE_MAX_TIME_def word_less_nat_alt)
  then have r: "unat sb < unat (fq_time m f) + unat amount" using unat_u64 [of sb] by simp
  have ft: "fq_time ?m f = fq_time m f - sb + amount" using assms(3) by (simp add: fls_def)
  have "fq_time m f + amount - sb = word_of_nat (unat (fq_time m f) + unat amount - unat sb)"
    using r by (simp add: of_nat_diff)
  moreover have "unat (fq_time m f) + unat amount - unat sb < 2 ^ 64"
    using sbf unat_u64 [of amount] by (simp add: word_le_nat_alt)
  ultimately have u: "unat (fq_time m f + amount - sb) = unat (fq_time m f) + unat amount - unat sb"
    by (simp add: unat_word_of_nat_mod del: of_nat_diff of_nat_add)
  have e: "fq_time m f - sb + amount = fq_time m f + amount - sb" by simp
  have "unat (fq_time ?m f) + unat sb = unat (fq_time m f) + unat amount"
    unfolding ft e u using r by simp
  then show ?thesis
    using inc q by (intro exI [of _ ?m] exI [of _ "unat sb"]) (auto simp: fls_def set_flow_def intro: exI)
qed


subsection \<open>The handlers keep the invariant\<close>

lemma fq_core_flow: "fq_core m \<Longrightarrow> f \<in> set (fq_flows_list m) \<Longrightarrow> fq_flow_inv m f"
  by (simp add: fq_core_def)

lemma schedule_job_ok:
  assumes "fq_inv m" and "fq_schedule_job m"
  shows "\<exists>m'. schedule_job_handler (m\<lparr>fq_schedule_job := False\<rparr>) = Some m' \<and> fq_inv m'"
proof -
  let ?m = "m\<lparr>fq_schedule_job := False, fq_previous_flow := None\<rparr>"
  have s: "fq_sending_flow m = None" "ppi_state (fq_output m) = STATE_NONE" "\<not> fq_freeing m"
    using assms by (auto simp: fq_inv_def fq_sending_inv_def fq_core_def split: option.splits)
  have "sorted_wrt (flow_less ?m) (fq_queued_tree m)"
    by (rule sorted_times_cong [of m]) (use assms in \<open>auto simp: fq_inv_def fq_core_def\<close>)
  moreover have "fq_flow_inv ?m f" if "f \<in> set (fq_flows_list m)" for f
    by (rule fq_flow_inv_cong [of m]) (use assms that in \<open>auto simp: fq_inv_def fq_core_def\<close>)
  ultimately have c: "fq_core ?m"
    using assms by (simp add: fq_inv_def fq_core_def)
  show ?thesis
  proof (cases "fq_queued_tree m = []")
    case True
    then have "fq_inv ?m" using c s by (simp add: fq_inv_def fq_sending_inv_def fq_previous_inv_def)
    then show ?thesis using s True by (simp add: schedule_job_handler_def Let_def)
  next
    case False
    then show ?thesis using schedule_ok [OF c] s by (simp add: schedule_job_handler_def Let_def)
  qed
qed

lemma diff_of_sums: "a + d = b + w \<Longrightarrow> c = e + d \<Longrightarrow> int a - int e = int b - int c + int w"
  by linarith

lemma output_done_ok:
  assumes "fq_inv m" and "PacketPassInterface_job_done (fq_output m) = Some out"
  shows "\<exists>m' busy f. FairQueue_output_handler_done (m\<lparr>fq_output := out\<rparr>) = Some (m', busy) \<and> fq_inv m' \<and>
    fq_sending_flow m = Some f \<and> (\<forall>q \<in> set (fq_queued_tree m). uint (fq_time m' f) - uint (fq_time m' q) =
      uint (fq_time m f) - uint (fq_time m q) + (fq_packet_weight m + fq_sending_len m))"
proof -
  have o: "ppi_state (fq_output m) = STATE_DONE_PENDING" "out = (fq_output m)\<lparr>ppi_job_done := False, ppi_state := STATE_NONE\<rparr>"
    using assms(2) by (auto simp: PacketPassInterface_job_done_def split: if_splits)
  then obtain f where f: "fq_sending_flow m = Some f"
    using assms(1) by (auto simp: fq_inv_def fq_sending_inv_def split: option.splits)
  have c: "fq_core m" using assms(1) by (simp add: fq_inv_def)
  have s: "f \<in> set (fq_flows_list m)" "f \<notin> set (fq_queued_tree m)" "fq_previous_flow m = None" "\<not> fq_schedule_job m"
    "0 \<le> fq_sending_len m" "fq_sending_len m \<le> ppi_mtu (fq_output m)"
    "\<forall>q \<in> set (fq_queued_tree m). fq_time m f \<le> fq_time m q"
    using assms(1) f by (auto simp: fq_inv_def fq_sending_inv_def)
  have fi: "fq_flow_inv m g" if "g \<in> set (fq_flows_list m)" for g using fq_core_flow [OF c that] .
  have nq: "\<not> ff_is_queued (fq_flows m f)" and busy: "ppi_state (ff_input (fq_flows m f)) = STATE_BUSY"
    using fi [OF s(1)] s(2) f by (auto simp: fq_flow_inv_def Let_def)
  define m1 where "m1 = m\<lparr>fq_output := out, fq_sending_flow := None, fq_previous_flow := Some f\<rparr>"
  have m1: "fq_flows m1 = fq_flows m" "fq_queued_tree m1 = fq_queued_tree m" "fq_flows_list m1 = fq_flows_list m"
    "fq_sending_flow m1 = None" by (simp_all add: m1_def)
  have st: "sorted_wrt (flow_less m) (fq_queued_tree m)" "set (fq_queued_tree m) \<subseteq> set (fq_flows_list m)"
    using c by (auto simp: fq_core_def)
  have "sorted_wrt (flow_less m1) (fq_queued_tree m)" by (rule sorted_times_cong [OF st(1)]) (simp add: m1)
  moreover have "\<forall>g \<in> set (fq_flows_list m). ff_is_queued (fq_flows m g) \<longleftrightarrow> g \<in> set (fq_queued_tree m)"
    using fi by (auto simp: fq_flow_inv_def Let_def)
  ultimately obtain m2 d where m2: "increment_sent_flow m1 f (word_of_int (fq_packet_weight m1) + word_of_int (fq_sending_len m1)) = Some m2"
    "\<And>g. \<exists>t. fq_flows m2 g = (fq_flows m g)\<lparr>ff_time := t\<rparr>" "m2 = m1\<lparr>fq_flows := fq_flows m2\<rparr>"
    "\<forall>q \<in> set (fq_queued_tree m). unat (fq_time m q) = unat (fq_time m2 q) + d"
    "unat (fq_time m2 f) + d = unat (fq_time m f) + unat (word_of_int (fq_packet_weight m1) + word_of_int (fq_sending_len m1) :: u64)"
    using increment_ok [of m1 f "word_of_int (fq_packet_weight m1) + word_of_int (fq_sending_len m1)"] nq s st
    unfolding m1 by metis
  have f2: "fq_output m2 = out" "fq_sending_flow m2 = None" "fq_previous_flow m2 = Some f" "fq_queued_tree m2 = fq_queued_tree m"
    "fq_flows_list m2 = fq_flows_list m" "fq_packet_weight m2 = fq_packet_weight m" "fq_use_cancel m2 = fq_use_cancel m"
    "fq_freeing m2 = fq_freeing m" "fq_schedule_job m2 = fq_schedule_job m"
    by (subst m2(3), simp add: m1_def)+
  obtain tf where tf: "fq_flows m2 f = (fq_flows m f)\<lparr>ff_time := tf\<rparr>" using m2(2) by blast
  let ?i = "(ff_input (fq_flows m f))\<lparr>ppi_job_requestcancel := False, ppi_job_done := True, ppi_state := STATE_DONE_PENDING\<rparr>"
  define m3 where "m3 = set_flow (m2\<lparr>fq_schedule_job := True\<rparr>) f (\<lambda>fl. fl\<lparr>ff_input := ?i, ff_handler_busy := False\<rparr>)"
  have h: "FairQueue_output_handler_done (m\<lparr>fq_output := out\<rparr>) = Some (m3, ff_handler_busy (fq_flows m2 f))"
    using f s c nq m2(1) tf busy unfolding FairQueue_output_handler_done_def
    by (simp add: m1_def [symmetric] m3_def PacketPassInterface_Done_def fq_core_def)
  have f3: "fq_flows m3 g = (if g = f then (fq_flows m2 f)\<lparr>ff_input := ?i, ff_handler_busy := False\<rparr> else fq_flows m2 g)" for g
    by (simp add: m3_def)
  have "sorted_wrt (flow_less m3) (fq_queued_tree m)"
  proof (rule sorted_wrt_mono_rel [OF _ st(1)])
    fix x y assume "x \<in> set (fq_queued_tree m)" "y \<in> set (fq_queued_tree m)" "flow_less m x y"
    moreover have "fq_time m3 x = fq_time m2 x" "fq_time m3 y = fq_time m2 y" by (simp_all add: f3)
    moreover have "unat (fq_time m x) = unat (fq_time m2 x) + d" "unat (fq_time m y) = unat (fq_time m2 y) + d"
      using m2(4) \<open>x \<in> _\<close> \<open>y \<in> _\<close> by auto
    ultimately show "flow_less m3 x y"
      by (auto simp: flow_less_iff word_less_nat_alt word_unat_eq_iff)
  qed
  moreover have "fq_flow_inv m3 g" if "g \<in> set (fq_flows_list m)" for g
  proof (cases "g = f")
    case True
    then show ?thesis
      using fi [OF s(1)] s(2) nq busy f o(2) unfolding fq_flow_inv_def Let_def f3 tf
      by (simp add: m3_def f2 ppi_inv_def)
  next
    case False
    obtain t where t: "fq_flows m3 g = (fq_flows m g)\<lparr>ff_time := t\<rparr>" using m2(2) [of g] False f3 by auto
    show ?thesis
      by (rule fq_flow_inv_cong [OF fi [OF that], of m3 t]) (use t False f o(2) in \<open>auto simp: m3_def f2\<close>)
  qed
  ultimately have "fq_core m3"
    using c o unfolding fq_core_def by (simp add: m3_def f2 ppi_inv_def)
  moreover have "fq_sending_inv m3" "fq_previous_inv m3"
    using s o by (simp_all add: fq_sending_inv_def fq_previous_inv_def m3_def f2)
  moreover have "uint (fq_time m3 f) - uint (fq_time m3 q) =
      uint (fq_time m f) - uint (fq_time m q) + (fq_packet_weight m + fq_sending_len m)" if "q \<in> set (fq_queued_tree m)" for q
  proof -
    have w: "0 < fq_packet_weight m" "fq_packet_weight m + ppi_mtu (fq_output m) \<le> uint FAIRQUEUE_MAX_TIME"
      using c by (auto simp: fq_core_def)
    have "uint (word_of_int (fq_packet_weight m + fq_sending_len m) :: u64) = fq_packet_weight m + fq_sending_len m"
      using w s(5,6)
      by (simp add: uint_word_of_int_eq take_bit_int_eq_self FAIRQUEUE_MAX_TIME_def unsigned_minus_1_eq_mask
          mask_eq_exp_minus_1 del: of_int_add)
    then have a: "int (unat (word_of_int (fq_packet_weight m1) + word_of_int (fq_sending_len m1) :: u64))
        = fq_packet_weight m + fq_sending_len m"
      by (simp add: m1_def)
    have "fq_time m3 f = fq_time m2 f" "fq_time m3 q = fq_time m2 q" by (simp_all add: f3)
    moreover have "unat (fq_time m q) = unat (fq_time m2 q) + d" using m2(4) that by blast
    ultimately have "int (unat (fq_time m3 f)) - int (unat (fq_time m3 q)) =
        int (unat (fq_time m f)) - int (unat (fq_time m q)) + (fq_packet_weight m + fq_sending_len m)"
      unfolding a [symmetric] using diff_of_sums [OF m2(5)] by simp
    then show ?thesis by (simp only: uint_nat)
  qed
  ultimately show ?thesis using h f by (auto simp: fq_inv_def)
qed

lemma input_send_ok:
  assumes "fq_inv m" and f: "f \<in> set (fq_flows_list m)"
    and op: "PacketPassInterface_job_operation (ff_input (fq_flows m f)) = Some (i, data, len)"
  shows "\<exists>m'. FairQueue_input_handler_send (set_flow m f (\<lambda>fl. fl\<lparr>ff_input := i\<rparr>)) f data len = Some m' \<and> fq_inv m'"
proof -
  let ?i = "ff_input (fq_flows m f)"
  have c: "fq_core m" using assms(1) by (simp add: fq_inv_def)
  have fi: "fq_flow_inv m g" if "g \<in> set (fq_flows_list m)" for g using fq_core_flow [OF c that] .
  have i: "ppi_state ?i = STATE_OPERATION_PENDING" "i = ?i\<lparr>ppi_job_operation := False, ppi_state := STATE_BUSY\<rparr>"
    "data = ppi_job_operation_data ?i" "len = ppi_job_operation_len ?i"
    using op by (auto simp: PacketPassInterface_job_operation_def split: if_splits)
  have nq: "\<not> ff_is_queued (fq_flows m f)" "f \<notin> set (fq_queued_tree m)" "fq_sending_flow m \<noteq> Some f"
    using fi [OF f] i(1) by (auto simp: fq_flow_inv_def Let_def)
  define t where "t = (if fq_previous_flow m = Some f then fq_time m f
     else max (fq_time m f) (get_current_time (set_flow m f (\<lambda>fl. fl\<lparr>ff_input := i\<rparr>))))"
  define fl where "fl = (fq_flows m f)\<lparr>ff_input := i, ff_time := t, ff_data := data, ff_data_len := len, ff_is_queued := True\<rparr>"
  define m0 where "m0 = m\<lparr>fq_flows := (fq_flows m)(f := fl), fq_previous_flow := (if fq_previous_flow m = Some f then None else fq_previous_flow m)\<rparr>"
  define m1 where "m1 = m0\<lparr>fq_queued_tree := tree_insert m0 f (fq_queued_tree m)\<rparr>"
  have ti: "tree_insert a f gs = tree_insert b f gs" if "\<And>g. fq_time a g = fq_time b g" for a b gs
    using that by (induction gs) (simp_all add: compare_flows_def)
  have h: "FairQueue_input_handler_send (set_flow m f (\<lambda>fl. fl\<lparr>ff_input := i\<rparr>)) f data len =
     (if fq_sending_flow m1 = None \<and> \<not> fq_schedule_job m1 then fq_schedule m1 else Some m1)"
  proof -
    have fr: "\<not> fq_freeing m" using c by (simp add: fq_core_def)
    define mm where "mm = set_flow m f (\<lambda>fl. fl\<lparr>ff_input := i\<rparr>)"
    have fo: "first_queued_ok mm"
      using c nq by (cases "fq_queued_tree m") (auto simp: first_queued_ok_def tree_first_def mm_def set_flow_def fq_core_def fq_flow_inv_def Let_def)
    define m2 where "m2 = set_flow (if fq_previous_flow mm = Some f then mm\<lparr>fq_previous_flow := None\<rparr>
       else set_flow mm f (\<lambda>fl. fl\<lparr>ff_time := max (ff_time fl) (get_current_time mm)\<rparr>)) f (\<lambda>fl. fl\<lparr>ff_data := data, ff_data_len := len\<rparr>)"
    have m2: "fq_time m2 g = fq_time m0 g" "fq_queued_tree m2 = fq_queued_tree m" for g
      by (simp_all add: m2_def m0_def fl_def t_def mm_def)
    have "set_flow (m2\<lparr>fq_queued_tree := tree_insert m2 f (fq_queued_tree m2)\<rparr>) f (\<lambda>fl. fl\<lparr>ff_is_queued := True\<rparr>) = m1"
      unfolding m1_def m2(2) ti [OF m2(1)]
      by (simp add: m2_def m0_def set_flow_def fl_def t_def mm_def fun_upd_idem)
    then show ?thesis
      using nq fr fo unfolding FairQueue_input_handler_send_def Let_def mm_def [symmetric] m2_def [symmetric]
      by (simp add: mm_def)
  qed
  have t1: "fq_time m1 g = (if g = f then t else fq_time m g)" for g by (simp add: m1_def m0_def fl_def)
  have s0: "sorted_wrt (flow_less m0) (fq_queued_tree m)"
    by (rule sorted_times_cong [of m]) (use c nq(2) in \<open>auto simp: fq_core_def m0_def\<close>)
  have tr: "fq_queued_tree m1 = tree_insert m0 f (fq_queued_tree m)" by (simp add: m1_def)
  have "sorted_wrt (flow_less m1) (fq_queued_tree m1)"
    unfolding tr by (rule sorted_times_cong [OF tree_insert_sorted [OF s0 nq(2)]]) (simp add: m1_def)
  moreover have "fq_flow_inv m1 g" if "g \<in> set (fq_flows_list m)" for g
  proof (cases "g = f")
    case True
    then show ?thesis
      using fi [OF f] i unfolding fq_flow_inv_def Let_def by (simp add: m1_def m0_def fl_def ppi_inv_def)
  next
    case False
    show ?thesis
      by (rule fq_flow_inv_cong [OF fi [OF that]]) (use False in \<open>auto simp: m1_def m0_def\<close>)
  qed
  ultimately have c1: "fq_core m1"
    using c f unfolding fq_core_def by (simp add: m1_def m0_def)
  have nq1: "\<forall>q \<in> set (fq_queued_tree m1). fq_time m1 s \<le> fq_time m1 q" if s: "fq_sending_flow m = Some s" for s
  proof -
    have "s \<noteq> f" "\<forall>q \<in> set (fq_queued_tree m). fq_time m s \<le> fq_time m q" "fq_previous_flow m = None"
      using s nq assms(1) by (auto simp: fq_inv_def fq_sending_inv_def)
    moreover from this have "fq_time m s \<le> t" using s by (simp add: t_def get_current_time_def)
    ultimately show ?thesis unfolding t1 by (simp add: m1_def)
  qed
  show ?thesis
  proof (cases "fq_sending_flow m1 = None \<and> \<not> fq_schedule_job m1")
    case True
    then have "fq_previous_flow m = None"
      using assms(1) by (auto simp: fq_inv_def fq_previous_inv_def m1_def m0_def split: option.splits)
    then have "\<exists>m'. fq_schedule m1 = Some m' \<and> fq_inv m'"
      using assms(1) True by (intro schedule_ok [OF c1]) (auto simp: m1_def m0_def fq_inv_def fq_sending_inv_def split: list.splits)
    then show ?thesis using h True by simp
  next
    case False
    have "fq_sending_inv m1"
      using assms(1) False f nq nq1
      by (auto simp: fq_inv_def fq_sending_inv_def m1_def m0_def split: option.splits)
    moreover have "fq_previous_inv m1"
      using assms(1) by (auto simp: fq_inv_def fq_previous_inv_def m1_def m0_def split: option.splits)
    ultimately have "fq_inv m1" using c1 by (simp add: fq_inv_def)
    moreover have "FairQueue_input_handler_send (set_flow m f (\<lambda>fl. fl\<lparr>ff_input := i\<rparr>)) f data len = Some m1"
      unfolding h using False by (simp only: if_False)
    ultimately show ?thesis by blast
  qed
qed


text \<open>A change of one flow's input interface outside the states the queue works in.\<close>

lemma fq_inv_input:
  assumes "fq_inv m" and "f \<in> set (fq_flows_list m)"
    and "fq_flow_inv (set_flow m f (\<lambda>fl. fl\<lparr>ff_input := i\<rparr>)) f"
  shows "fq_inv (set_flow m f (\<lambda>fl. fl\<lparr>ff_input := i\<rparr>))"
proof -
  let ?m = "set_flow m f (\<lambda>fl. fl\<lparr>ff_input := i\<rparr>)"
  have c: "fq_core m" using assms(1) by (simp add: fq_inv_def)
  have t: "fq_time ?m g = fq_time m g" for g by simp
  have "fq_flow_inv ?m g" if "g \<in> set (fq_flows_list m)" for g
    using fq_flow_inv_cong [OF fq_core_flow [OF c that], of ?m] assms(3) by (cases "g = f") auto
  moreover have "sorted_wrt (flow_less ?m) (fq_queued_tree m)"
    by (rule sorted_times_cong [of m]) (use c in \<open>auto simp: fq_core_def\<close>)
  ultimately have "fq_core ?m" using c by (simp add: fq_core_def)
  moreover have "fq_sending_inv ?m" "fq_previous_inv ?m"
    using assms(1) unfolding fq_inv_def fq_sending_inv_def fq_previous_inv_def t by (auto split: option.splits)
  ultimately show ?thesis by (simp add: fq_inv_def)
qed

text \<open>A change of the output interface that does not end or begin an operation.\<close>

lemma fq_inv_output:
  assumes "fq_inv m" and "ppi_inv out" and "ppi_mtu out = ppi_mtu (fq_output m)" and "ppi_has_user out"
    and "ppi_has_cancel out = ppi_has_cancel (fq_output m)"
    and "ppi_state out = STATE_NONE \<longleftrightarrow> ppi_state (fq_output m) = STATE_NONE"
  shows "fq_inv (m\<lparr>fq_output := out\<rparr>)"
proof -
  let ?m = "m\<lparr>fq_output := out\<rparr>"
  have c: "fq_core m" using assms(1) by (simp add: fq_inv_def)
  have "fq_flow_inv ?m g" if "g \<in> set (fq_flows_list m)" for g
    by (rule fq_flow_inv_cong [OF fq_core_flow [OF c that]]) (use assms in auto)
  moreover have "sorted_wrt (flow_less ?m) (fq_queued_tree m)"
    by (rule sorted_times_cong [of m]) (use c in \<open>auto simp: fq_core_def\<close>)
  ultimately have "fq_core ?m" using c assms(2-5) by (simp add: fq_core_def)
  moreover have "fq_sending_inv ?m" "fq_previous_inv ?m"
    using assms(1,3,6) by (auto simp: fq_inv_def fq_sending_inv_def fq_previous_inv_def split: option.splits)
  ultimately show ?thesis by (simp add: fq_inv_def)
qed

lemma flow_init_ok:
  assumes "fq_inv m" and "f \<notin> set (fq_flows_list m)" and "PacketPassFairQueueFlow_Init m f = Some m1"
    and "PacketPassInterface_Sender_Init (ff_input (fq_flows m1 f)) = Some i"
  shows "fq_inv (set_flow m1 f (\<lambda>fl. fl\<lparr>ff_input := i\<rparr>))"
proof -
  define n where "n = set_flow m1 f (\<lambda>fl. fl\<lparr>ff_input := i\<rparr>)"
  have c: "fq_core m" using assms(1) by (simp add: fq_inv_def)
  have m: "fq_flows n = (fq_flows m)(f := (fq_flows m f)\<lparr>ff_handler_busy := False,
      ff_input := (PacketPassInterface_Init (ppi_mtu (fq_output m)))\<lparr>ppi_has_user := True\<rparr>, ff_time := 0, ff_is_queued := False\<rparr>)"
    "fq_flows_list n = fq_flows_list m @ [f]" "fq_queued_tree n = fq_queued_tree m" "fq_output n = fq_output m"
    "fq_sending_flow n = fq_sending_flow m" "fq_previous_flow n = fq_previous_flow m" "fq_freeing n = fq_freeing m"
    "fq_packet_weight n = fq_packet_weight m" "fq_use_cancel n = fq_use_cancel m" "fq_schedule_job n = fq_schedule_job m"
    "fq_sending_len n = fq_sending_len m"
    using assms(3,4) unfolding n_def
    by (auto simp: PacketPassFairQueueFlow_Init_def PacketPassInterface_Sender_Init_def PacketPassInterface_Init_def split: if_splits)
  have nt: "f \<notin> set (fq_queued_tree m)" "fq_sending_flow m \<noteq> Some f" "fq_previous_flow m \<noteq> Some f"
    using assms(1,2) by (auto simp: fq_inv_def fq_core_def fq_sending_inv_def fq_previous_inv_def)
  have "fq_flow_inv n g" if "g \<in> set (fq_flows_list n)" for g
  proof (cases "g = f")
    case True
    then show ?thesis using nt unfolding fq_flow_inv_def Let_def m
      by (simp add: PacketPassInterface_Init_def ppi_inv_def)
  next
    case False
    then have "fq_flow_inv m g" using fq_core_flow [OF c] that m(2) by simp
    then show ?thesis by (rule fq_flow_inv_cong) (use False in \<open>simp_all add: m\<close>)
  qed
  moreover have "sorted_wrt (flow_less n) (fq_queued_tree m)"
    by (rule sorted_times_cong [of m]) (use c nt in \<open>auto simp: fq_core_def m\<close>)
  ultimately have "fq_core n" using c assms(2) unfolding fq_core_def m(2-) by auto
  moreover have "fq_sending_inv n" "fq_previous_inv n"
    using assms(1,2) nt unfolding fq_inv_def fq_sending_inv_def fq_previous_inv_def m
    by (auto split: option.splits)
  ultimately show ?thesis by (simp add: fq_inv_def n_def [symmetric])
qed

lemma flow_free_ok:
  assumes "fq_inv m" and "f \<in> set (fq_flows_list m)" and "fq_sending_flow m \<noteq> Some f"
    and "PacketPassFairQueueFlow_Free m f = Some m'"
  shows "fq_inv m'"
proof -
  have c: "fq_core m" using assms(1) by (simp add: fq_inv_def)
  have q: "ff_is_queued (fq_flows m f) \<longleftrightarrow> f \<in> set (fq_queued_tree m)"
    using fq_core_flow [OF c assms(2)] by (simp add: fq_flow_inv_def Let_def)
  have m': "m' = m\<lparr>fq_previous_flow := (if fq_previous_flow m = Some f then None else fq_previous_flow m),
      fq_queued_tree := remove1 f (fq_queued_tree m), fq_flows_list := remove1 f (fq_flows_list m)\<rparr>"
    using assms(3,4) q by (auto simp: PacketPassFairQueueFlow_Free_def Let_def remove1_idem split: if_splits)
  have st: "sorted_wrt (flow_less m) (fq_queued_tree m)" and d: "distinct (fq_flows_list m)"
    using c by (auto simp: fq_core_def)
  have dt: "distinct (fq_queued_tree m)" by (rule sorted_distinct [OF st])
  have "sorted_wrt (flow_less m) (remove1 f (fq_queued_tree m))"
    unfolding distinct_remove1_removeAll [OF dt] removeAll_filter_not_eq by (rule sorted_wrt_filter [OF st])
  then have s: "sorted_wrt (flow_less m') (remove1 f (fq_queued_tree m))"
    by (rule sorted_times_cong) (simp add: m')
  have "fq_flow_inv m' g" if "g \<in> set (fq_flows_list m')" for g
  proof -
    have g: "g \<in> set (fq_flows_list m)" "g \<noteq> f" using that d by (auto simp: m')
    show ?thesis
      by (rule fq_flow_inv_cong [OF fq_core_flow [OF c g(1)]]) (use g(2) dt in \<open>auto simp: m'\<close>)
  qed
  then have "fq_core m'"
    using c s dt d unfolding fq_core_def by (auto simp: m')
  moreover have "fq_sending_inv m'"
    using assms(1,3) dt d by (auto simp: fq_inv_def fq_sending_inv_def m' split: option.splits)
  moreover have "fq_previous_inv m'"
    using assms(1) dt d by (auto simp: fq_inv_def fq_previous_inv_def m' split: option.splits)
  ultimately show ?thesis by (simp add: fq_inv_def)
qed


lemma fq_step_inv:
  assumes "fq_step m m'" and inv: "fq_inv m"
  shows "fq_inv m'"
  using assms(1)
proof (cases rule: fq_step.cases)
  case (flow_init f m1 i)
  then show ?thesis using flow_init_ok [OF inv] by blast
next
  case (flow_free f)
  then show ?thesis using flow_free_ok [OF inv] by blast
next
  case (flow_send f data len i)
  have "fq_flow_inv m f" using inv flow_send(2) by (simp add: fq_inv_def fq_core_def)
  then have "fq_flow_inv (set_flow m f (\<lambda>fl. fl\<lparr>ff_input := i\<rparr>)) f"
    using flow_send(3)
    by (auto simp: fq_flow_inv_def Let_def PacketPassInterface_Sender_Send_def ppi_inv_def split: if_splits)
  then show ?thesis using fq_inv_input [OF inv flow_send(2)] flow_send(1) by simp
next
  case (flow_operation f i data len)
  then show ?thesis using input_send_ok [OF inv flow_operation(1,2)] by auto
next
  case (flow_done f i)
  have "fq_flow_inv m f" using inv flow_done(2) by (simp add: fq_inv_def fq_core_def)
  then have "fq_flow_inv (set_flow m f (\<lambda>fl. fl\<lparr>ff_input := i\<rparr>)) f"
    using flow_done(3)
    by (auto simp: fq_flow_inv_def Let_def PacketPassInterface_job_done_def ppi_inv_def split: if_splits)
  then show ?thesis using fq_inv_input [OF inv flow_done(2)] flow_done(1) by simp
next
  case (cancel f)
  have "ppi_inv (fq_output m)" "ppi_has_user (fq_output m)" using inv by (auto simp: fq_inv_def fq_core_def)
  moreover obtain out where out: "PacketPassInterface_Sender_RequestCancel (fq_output m) = Some out" "m' = m\<lparr>fq_output := out\<rparr>"
    using cancel by (auto simp: PacketPassFairQueueFlow_RequestCancel_def bind_eq_Some_conv split: if_splits)
  moreover have "ppi_inv out \<and> ppi_mtu out = ppi_mtu (fq_output m) \<and> ppi_has_user out = ppi_has_user (fq_output m) \<and>
      ppi_has_cancel out = ppi_has_cancel (fq_output m) \<and> (ppi_state out = STATE_NONE \<longleftrightarrow> ppi_state (fq_output m) = STATE_NONE)"
    using out(1) \<open>ppi_inv (fq_output m)\<close>
    by (cases "ppi_state (fq_output m)")
      (auto simp: PacketPassInterface_Sender_RequestCancel_def ppi_inv_def Let_def split: if_splits)
  ultimately show ?thesis using fq_inv_output [OF inv, of out] by blast
next
  case (busy_handler f h)
  have m': "m' = set_flow m f (\<lambda>fl. fl\<lparr>ff_handler_busy := h\<rparr>)"
    using busy_handler by (auto simp: PacketPassFairQueueFlow_SetBusyHandler_def split: if_splits)
  have t: "fq_time m' g = fq_time m g" for g by (simp add: m')
  have c: "fq_core m" using inv by (simp add: fq_inv_def)
  have "fq_flow_inv m' g" if "g \<in> set (fq_flows_list m)" for g
    using fq_core_flow [OF c that] by (cases "g = f") (simp_all add: fq_flow_inv_def Let_def m')
  moreover have "sorted_wrt (flow_less m') (fq_queued_tree m)"
    by (rule sorted_times_cong [of m]) (use c t in \<open>auto simp: fq_core_def\<close>)
  ultimately have "fq_core m'" using c by (simp add: fq_core_def m')
  moreover have "fq_sending_inv m'" "fq_previous_inv m'"
    using inv unfolding fq_inv_def fq_sending_inv_def fq_previous_inv_def t by (auto simp: m' split: option.splits)
  ultimately show ?thesis by (simp add: fq_inv_def)
next
  case (output_operation out data len)
  then show ?thesis
    using inv fq_inv_output [OF inv, of out]
    by (auto simp: PacketPassInterface_job_operation_def ppi_inv_def fq_inv_def fq_core_def split: if_splits)
next
  case (output_requestcancel out)
  then show ?thesis
    using inv fq_inv_output [OF inv, of out]
    by (auto simp: PacketPassInterface_job_requestcancel_def ppi_inv_def fq_inv_def fq_core_def split: if_splits)
next
  case (output_complete out)
  then show ?thesis
    using inv fq_inv_output [OF inv, of out]
    by (auto simp: PacketPassInterface_Done_def ppi_inv_def fq_inv_def fq_core_def split: if_splits)
next
  case (output_done out busy)
  then show ?thesis using output_done_ok [OF inv output_done(1)] by auto
next
  case schedule_job
  then show ?thesis using schedule_job_ok [OF inv] by auto
qed

inductive fq_reach :: "PacketPassFairQueue \<Rightarrow> bool" where
  start: "ppi_inv outp \<Longrightarrow> ppi_state outp = STATE_NONE \<Longrightarrow> 0 \<le> ppi_mtu outp \<Longrightarrow>
    PacketPassFairQueue_Init outp use_cancel packet_weight = Some (Some m) \<Longrightarrow> fq_reach m"
| step: "fq_reach m \<Longrightarrow> fq_step m m' \<Longrightarrow> fq_reach m'"

lemma fq_reach_inv: "fq_reach m \<Longrightarrow> fq_inv m"
proof (induction rule: fq_reach.induct)
  case (start outp use_cancel packet_weight m)
  then have "m = \<lparr>fq_output = outp\<lparr>ppi_has_user := True\<rparr>, fq_use_cancel = use_cancel, fq_packet_weight = packet_weight,
          fq_sending_flow = None, fq_sending_len = 0, fq_previous_flow = None, fq_queued_tree = [],
          fq_flows_list = [], fq_flows = (\<lambda>f. \<lparr>ff_handler_busy = False, ff_input = PacketPassInterface_Init 0,
            ff_time = 0, ff_is_queued = False, ff_data = None, ff_data_len = 0\<rparr>),
          fq_freeing = False, fq_schedule_job = False\<rparr>"
    "0 < packet_weight" "use_cancel \<longrightarrow> ppi_has_cancel outp" "packet_weight \<le> uint FAIRQUEUE_MAX_TIME - ppi_mtu outp"
    by (auto simp: PacketPassFairQueue_Init_def PacketPassInterface_Sender_Init_def bind_eq_Some_conv split: if_splits)
  with start(1-3) show ?case
    by (simp add: fq_inv_def fq_core_def fq_sending_inv_def fq_previous_inv_def ppi_inv_def)
next
  case (step m m')
  then show ?case using fq_step_inv by blast
qed


subsection \<open>A run\<close>

text \<open>Flow 1 sends a packet of 3 bytes; while the output works on it, flow 2 hands over one of 5 bytes.\<close>

definition fq_run_flow :: "PacketPassFairQueue \<Rightarrow> nat \<Rightarrow> (PacketPassInterface \<Rightarrow> PacketPassInterface option) \<Rightarrow> PacketPassFairQueue" where
  "fq_run_flow m f g = set_flow m f (\<lambda>fl. fl\<lparr>ff_input := the (g (ff_input fl))\<rparr>)"

definition fq_run_start :: PacketPassFairQueue where
  "fq_run_start = the (the (PacketPassFairQueue_Init (PacketPassInterface_Init 100) False 1))"

definition fq_run_flows :: PacketPassFairQueue where
  "fq_run_flows = fq_run_flow (the (PacketPassFairQueueFlow_Init
     (fq_run_flow (the (PacketPassFairQueueFlow_Init fq_run_start 1)) 1 PacketPassInterface_Sender_Init) 2)) 2
     PacketPassInterface_Sender_Init"

definition fq_run_packet :: "PacketPassFairQueue \<Rightarrow> nat \<Rightarrow> int \<Rightarrow> PacketPassFairQueue" where
  "fq_run_packet m f len =
     (let m = fq_run_flow m f (\<lambda>i. PacketPassInterface_Sender_Send i (Some 0) len) in
      case PacketPassInterface_job_operation (ff_input (fq_flows m f)) of
        Some (i, data, len) \<Rightarrow> the (FairQueue_input_handler_send (set_flow m f (\<lambda>fl. fl\<lparr>ff_input := i\<rparr>)) f data len))"

definition fq_run_sent :: PacketPassFairQueue where
  "fq_run_sent = (let m = fq_run_packet (fq_run_packet fq_run_flows 1 3) 2 5 in
     case PacketPassInterface_job_operation (fq_output m) of
       Some (out, data, len) \<Rightarrow> m\<lparr>fq_output := the (PacketPassInterface_Done out)\<rparr>)"

lemma fq_reach_flow_init:
  assumes "fq_reach m" and "f \<notin> set (fq_flows_list m)"
  shows "fq_reach (fq_run_flow (the (PacketPassFairQueueFlow_Init m f)) f PacketPassInterface_Sender_Init)"
proof -
  have "\<not> fq_freeing m" using fq_reach_inv [OF assms(1)] by (simp add: fq_inv_def fq_core_def)
  then obtain m1 where m1: "PacketPassFairQueueFlow_Init m f = Some m1"
    by (simp add: PacketPassFairQueueFlow_Init_def)
  then have "PacketPassInterface_Sender_Init (ff_input (fq_flows m1 f)) \<noteq> None"
    by (auto simp: PacketPassFairQueueFlow_Init_def PacketPassInterface_Sender_Init_def PacketPassInterface_Init_def split: if_splits)
  then obtain i where i: "PacketPassInterface_Sender_Init (ff_input (fq_flows m1 f)) = Some i" by blast
  have "fq_run_flow (the (PacketPassFairQueueFlow_Init m f)) f PacketPassInterface_Sender_Init = set_flow m1 f (\<lambda>fl. fl\<lparr>ff_input := i\<rparr>)"
    using m1 i by (simp add: fq_run_flow_def set_flow_def)
  then show ?thesis using fq_reach.step [OF assms(1) fq_step.flow_init [OF assms(2) m1 i]] by simp
qed

lemma fq_run_packet_reach:
  assumes "fq_reach m" and f: "f \<in> set (fq_flows_list m)"
    and "PacketPassInterface_Sender_Send (ff_input (fq_flows m f)) (Some 0) len \<noteq> None"
  shows "fq_reach (fq_run_packet m f len)"
proof -
  obtain i where i: "PacketPassInterface_Sender_Send (ff_input (fq_flows m f)) (Some 0) len = Some i"
    using assms(3) by blast
  define m1 where "m1 = set_flow m f (\<lambda>fl. fl\<lparr>ff_input := i\<rparr>)"
  have r1: "fq_reach m1" unfolding m1_def by (rule fq_reach.step [OF assms(1) fq_step.flow_send [OF f i]])
  have f1: "f \<in> set (fq_flows_list m1)" using f by (simp add: m1_def)
  obtain j d l where j: "PacketPassInterface_job_operation (ff_input (fq_flows m1 f)) = Some (j, d, l)"
    using i by (auto simp: m1_def PacketPassInterface_Sender_Send_def PacketPassInterface_job_operation_def split: if_splits)
  obtain m2 where m2: "FairQueue_input_handler_send (set_flow m1 f (\<lambda>fl. fl\<lparr>ff_input := j\<rparr>)) f d l = Some m2"
    using input_send_ok [OF fq_reach_inv [OF r1] f1 j] by blast
  have "fq_run_packet m f len = m2"
    using i j m2 unfolding fq_run_packet_def fq_run_flow_def
    by (simp add: m1_def set_flow_def)
  then show ?thesis using fq_reach.step [OF r1 fq_step.flow_operation [OF f1 j m2]] by simp
qed

lemma fq_run_flows_reach: "fq_reach fq_run_flows"
proof -
  have "fq_reach fq_run_start"
  proof (rule fq_reach.start)
    show "PacketPassFairQueue_Init (PacketPassInterface_Init 100) False 1 = Some (Some fq_run_start)"
      by (simp add: fq_run_start_def PacketPassFairQueue_Init_def PacketPassInterface_Init_def
          PacketPassInterface_Sender_Init_def FAIRQUEUE_MAX_TIME_def unsigned_minus_1_eq_mask mask_eq_exp_minus_1)
  qed (simp_all add: PacketPassInterface_Init_def ppi_inv_def)
  moreover have "fq_flows_list fq_run_start = []" by code_simp
  ultimately show ?thesis
    unfolding fq_run_flows_def
    by (intro fq_reach_flow_init) (simp_all, code_simp)
qed

lemma fq_run_packets_reach: "fq_reach (fq_run_packet (fq_run_packet fq_run_flows 1 3) 2 5)"
proof (rule fq_run_packet_reach)
  show "fq_reach (fq_run_packet fq_run_flows 1 3)"
    by (rule fq_run_packet_reach [OF fq_run_flows_reach]) code_simp+
  show "2 \<in> set (fq_flows_list (fq_run_packet fq_run_flows 1 3))" by code_simp
  show "PacketPassInterface_Sender_Send (ff_input (fq_flows (fq_run_packet fq_run_flows 1 3) 2)) (Some 0) 5 \<noteq> None" by code_simp
qed

lemma fq_run_sent_reach: "fq_reach fq_run_sent"
proof -
  define m where "m = fq_run_packet (fq_run_packet fq_run_flows 1 3) 2 5"
  have "PacketPassInterface_job_operation (fq_output m) \<noteq> None" unfolding m_def by code_simp
  then obtain out d l where o: "PacketPassInterface_job_operation (fq_output m) = Some (out, d, l)" by auto
  then obtain out' where o': "PacketPassInterface_Done out = Some out'"
    by (auto simp: PacketPassInterface_job_operation_def PacketPassInterface_Done_def split: if_splits)
  have "fq_reach (m\<lparr>fq_output := out\<rparr>)"
    by (rule fq_reach.step [OF _ fq_step.output_operation [OF o]]) (unfold m_def, rule fq_run_packets_reach)
  from fq_reach.step [OF this fq_step.output_complete [of _ out']] o' have "fq_reach (m\<lparr>fq_output := out'\<rparr>)" by simp
  then show ?thesis using o o' unfolding fq_run_sent_def m_def [symmetric] Let_def by simp
qed

lemma fq_run_sent_facts: "set (fq_flows_list fq_run_sent) = {1, 2}" "fq_sending_flow fq_run_sent = Some 1"
  "ff_is_queued (fq_flows fq_run_sent 2)" "fq_packet_weight fq_run_sent + fq_sending_len fq_run_sent = 4"
  "fq_time fq_run_sent 1 = 0" "fq_time fq_run_sent 2 = 0"
  by code_simp+

lemma fq_run_sent_done: "\<exists>out. PacketPassInterface_job_done (fq_output fq_run_sent) = Some out"
proof -
  have "PacketPassInterface_job_done (fq_output fq_run_sent) \<noteq> None" by code_simp
  then show ?thesis by blast
qed

subsection \<open>Properties\<close>

text \<open>No assertion of the fair queue or of its interfaces can fail, in any order of events (flows coming and
  going and cancellation included): the send handler of every flow, the completion handler of the
  output and the scheduling job always run to their end.\<close>

theorem FairQueue_safe:
  assumes "fq_reach m"
  shows "(\<forall>f \<in> set (fq_flows_list m). \<forall>i data len.
      PacketPassInterface_job_operation (ff_input (fq_flows m f)) = Some (i, data, len) \<longrightarrow>
        FairQueue_input_handler_send (set_flow m f (\<lambda>fl. fl\<lparr>ff_input := i\<rparr>)) f data len \<noteq> None) \<and>
    (\<forall>out. PacketPassInterface_job_done (fq_output m) = Some out \<longrightarrow>
        FairQueue_output_handler_done (m\<lparr>fq_output := out\<rparr>) \<noteq> None) \<and>
    (fq_schedule_job m \<longrightarrow> schedule_job_handler (m\<lparr>fq_schedule_job := False\<rparr>) \<noteq> None)"
proof -
  have inv: "fq_inv m" by (rule fq_reach_inv [OF assms])
  show ?thesis
    using input_send_ok [OF inv] output_done_ok [OF inv] schedule_job_ok [OF inv] by fastforce
qed

theorem FairQueue_safe_witness:
  "\<exists>out. PacketPassInterface_job_done (fq_output fq_run_sent) = Some out \<and>
     FairQueue_output_handler_done (fq_run_sent\<lparr>fq_output := out\<rparr>) \<noteq> None"
  using FairQueue_safe [OF fq_run_sent_reach] fq_run_sent_done by blast

text \<open>C10: the flow whose packet is being sent has the least virtual time among all flows with a packet
  waiting, the output is never idle while a packet waits and no scheduling is due, and a packet a flow
  has handed over is either waiting or being sent (none is lost).\<close>

theorem FairQueue_least_time_first:
  assumes "fq_reach m"
  shows "(\<forall>f. fq_sending_flow m = Some f \<longrightarrow>
        (\<forall>q \<in> set (fq_flows_list m). ff_is_queued (fq_flows m q) \<longrightarrow> fq_time m f \<le> fq_time m q)) \<and>
    ((\<exists>q \<in> set (fq_flows_list m). ff_is_queued (fq_flows m q)) \<longrightarrow> fq_sending_flow m \<noteq> None \<or> fq_schedule_job m) \<and>
    (\<forall>f \<in> set (fq_flows_list m). ppi_state (ff_input (fq_flows m f)) = STATE_BUSY \<longleftrightarrow>
        ff_is_queued (fq_flows m f) \<or> fq_sending_flow m = Some f)"
proof -
  have inv: "fq_inv m" by (rule fq_reach_inv [OF assms])
  have q: "ff_is_queued (fq_flows m f) \<longleftrightarrow> f \<in> set (fq_queued_tree m)"
    "ppi_state (ff_input (fq_flows m f)) = STATE_BUSY \<longleftrightarrow> ff_is_queued (fq_flows m f) \<or> fq_sending_flow m = Some f"
    if "f \<in> set (fq_flows_list m)" for f
    using inv that by (auto simp: fq_inv_def fq_core_def fq_flow_inv_def Let_def)
  have s: "fq_sending_inv m" using inv by (simp add: fq_inv_def)
  show ?thesis
  proof (cases "fq_sending_flow m")
    case None
    with s q show ?thesis by (auto simp: fq_sending_inv_def)
  next
    case (Some f)
    with s q show ?thesis by (auto simp: fq_sending_inv_def)
  qed
qed

theorem FairQueue_least_time_first_witness:
  "fq_sending_flow fq_run_sent = Some 1 \<and> ff_is_queued (fq_flows fq_run_sent 2) \<and>
   fq_time fq_run_sent 1 \<le> fq_time fq_run_sent 2"
  using FairQueue_least_time_first [OF fq_run_sent_reach] fq_run_sent_facts(1-3) by simp

text \<open>When a packet has been sent, the virtual time of its flow advances by exactly the packet weight plus
  the packet length relative to every waiting flow, also when the 64-bit times have to be rebased
  because the sum would overflow.\<close>

theorem FairQueue_time_advances:
  assumes "fq_reach m" and "PacketPassInterface_job_done (fq_output m) = Some out"
  shows "\<exists>m' busy f. FairQueue_output_handler_done (m\<lparr>fq_output := out\<rparr>) = Some (m', busy) \<and>
    fq_sending_flow m = Some f \<and>
    (\<forall>q \<in> set (fq_flows_list m). ff_is_queued (fq_flows m q) \<longrightarrow>
      uint (fq_time m' f) - uint (fq_time m' q) =
        uint (fq_time m f) - uint (fq_time m q) + (fq_packet_weight m + fq_sending_len m))"
proof -
  have inv: "fq_inv m" by (rule fq_reach_inv [OF assms(1)])
  have q: "ff_is_queued (fq_flows m f) \<longleftrightarrow> f \<in> set (fq_queued_tree m)" if "f \<in> set (fq_flows_list m)" for f
    using inv that by (auto simp: fq_inv_def fq_core_def fq_flow_inv_def Let_def)
  show ?thesis using output_done_ok [OF inv assms(2)] q by blast
qed

theorem FairQueue_time_advances_witness:
  "\<exists>m' busy out. FairQueue_output_handler_done (fq_run_sent\<lparr>fq_output := out\<rparr>) = Some (m', busy) \<and>
     uint (fq_time m' 1) - uint (fq_time m' 2) = 4"
proof -
  obtain out where o: "PacketPassInterface_job_done (fq_output fq_run_sent) = Some out" using fq_run_sent_done by blast
  from FairQueue_time_advances [OF fq_run_sent_reach o] fq_run_sent_facts
  show ?thesis by fastforce
qed

text \<open>The scheduling job forgets which flow sent last but leaves its time, although the comment in
  \<open>output_handler_done\<close> says that the job removes it.\<close>

lemma schedule_job_keeps_times:
  assumes "schedule_job_handler m = Some m'"
  shows "fq_time m' f = fq_time m f"
  using assms
  by (auto simp: schedule_job_handler_def fq_schedule_def Let_def bind_eq_Some_conv split: if_splits list.splits)

end
