(* ===== verification/Bufferevent.thy ===== *)
theory Bufferevent
  imports Prelude
begin

text \<open>
  The part of \<open>libevent\<close> that \<open>redsocks\<close> is built on: socket bufferevents (\<open>bufferevent.c\<close>,
  \<open>bufferevent_sock.c\<close>), with an input and an output buffer, watermarks, and the read and write
  events that are armed.  The buffers are byte lists (\<open>evbuffer_add_buffer\<close> moves all chains).  The
  only reason for suspended reading is the high watermark (\<open>BEV_SUSPEND_WM\<close>); the callback
  \<open>bufferevent_inbuf_wm_cb\<close> is registered exactly while \<open>wm_read.high\<close> is not 0.  Sockets are connected by
  \<open>redsocks\<close> itself, so \<open>connecting\<close> is 0, no callback is deferred (\<open>options\<close> is 0), there are no rate
  limits and no timeouts, and adding and deleting events does not fail.  What \<open>shutdown\<close> did to the
  socket is part of the state.
\<close>

subsection \<open>The code\<close>

record bufferevent =
  bev_input :: bytes
  bev_output :: bytes
  bev_enabled_rd :: bool
  bev_enabled_wr :: bool
  bev_read_suspended :: bool
  bev_wm_read_low :: nat
  bev_wm_read_high :: nat
  bev_wm_write_low :: nat
  bev_wm_write_high :: nat
  bev_ev_read :: bool
  bev_ev_write :: bool
  bev_sock_shut_rd :: bool
  bev_sock_shut_wr :: bool

definition bufferevent_new :: bufferevent where
  "bufferevent_new = \<lparr>bev_input = [], bev_output = [], bev_enabled_rd = False, bev_enabled_wr = True,
     bev_read_suspended = False, bev_wm_read_low = 0, bev_wm_read_high = 0, bev_wm_write_low = 0,
     bev_wm_write_high = 0, bev_ev_read = False, bev_ev_write = False,
     bev_sock_shut_rd = False, bev_sock_shut_wr = False\<rparr>"

text \<open>Sets of events are pairs of flags, reading first.\<close>

definition be_socket_enable :: "bufferevent \<Rightarrow> bool \<Rightarrow> bool \<Rightarrow> bufferevent" where
  "be_socket_enable b rd wr =
     b\<lparr>bev_ev_read := bev_ev_read b \<or> rd, bev_ev_write := bev_ev_write b \<or> wr\<rparr>"

definition be_socket_disable :: "bufferevent \<Rightarrow> bool \<Rightarrow> bool \<Rightarrow> bufferevent" where
  "be_socket_disable b rd wr =
     b\<lparr>bev_ev_read := bev_ev_read b \<and> \<not> rd, bev_ev_write := bev_ev_write b \<and> \<not> wr\<rparr>"

definition bufferevent_suspend_read :: "bufferevent \<Rightarrow> bufferevent" where
  "bufferevent_suspend_read b =
     (let b = (if \<not> bev_read_suspended b then be_socket_disable b True False else b)
      in b\<lparr>bev_read_suspended := True\<rparr>)"

definition bufferevent_unsuspend_read :: "bufferevent \<Rightarrow> bufferevent" where
  "bufferevent_unsuspend_read b =
     (let b = b\<lparr>bev_read_suspended := False\<rparr>
      in if bev_enabled_rd b then be_socket_enable b True False else b)"

definition bufferevent_inbuf_wm_cb :: "bufferevent \<Rightarrow> bufferevent" where
  "bufferevent_inbuf_wm_cb b =
     (if length (bev_input b) \<ge> bev_wm_read_high b then bufferevent_suspend_read b
      else bufferevent_unsuspend_read b)"

definition input_changed :: "bufferevent \<Rightarrow> bufferevent" where
  "input_changed b = (if bev_wm_read_high b = 0 then b else bufferevent_inbuf_wm_cb b)"

definition bufferevent_socket_outbuf_cb :: "bufferevent \<Rightarrow> nat \<Rightarrow> bufferevent" where
  "bufferevent_socket_outbuf_cb b n_added =
     (if n_added > 0 \<and> bev_enabled_wr b \<and> \<not> bev_ev_write b then be_socket_enable b False True else b)"

text \<open>\<open>bufferevent_write_buffer (to, from->input)\<close>: the two bufferevents afterwards, \<open>from\<close> first.\<close>

definition bufferevent_write_input :: "bufferevent \<Rightarrow> bufferevent \<Rightarrow> bufferevent \<times> bufferevent" where
  "bufferevent_write_input to from =
     (if bev_input from = [] then (from, to)
      else (input_changed (from\<lparr>bev_input := []\<rparr>),
            bufferevent_socket_outbuf_cb (to\<lparr>bev_output := bev_output to @ bev_input from\<rparr>)
              (length (bev_input from))))"

text \<open>\<open>bufferevent_write_buffer\<close> with a buffer of the caller.\<close>

definition bufferevent_write_buffer :: "bufferevent \<Rightarrow> bytes \<Rightarrow> bufferevent" where
  "bufferevent_write_buffer b buf =
     (if buf = [] then b
      else bufferevent_socket_outbuf_cb (b\<lparr>bev_output := bev_output b @ buf\<rparr>) (length buf))"

text \<open>\<open>evbuffer_remove\<close> on the input buffer, with at least \<open>n\<close> bytes in it.\<close>

definition evbuffer_remove :: "bufferevent \<Rightarrow> nat \<Rightarrow> bytes \<times> bufferevent" where
  "evbuffer_remove b n =
     (if n = 0 then ([], b)
      else (take n (bev_input b), input_changed (b\<lparr>bev_input := drop n (bev_input b)\<rparr>)))"

definition bufferevent_enable :: "bufferevent \<Rightarrow> bool \<Rightarrow> bool \<Rightarrow> bufferevent" where
  "bufferevent_enable b rd wr =
     be_socket_enable (b\<lparr>bev_enabled_rd := bev_enabled_rd b \<or> rd, bev_enabled_wr := bev_enabled_wr b \<or> wr\<rparr>)
       (rd \<and> \<not> bev_read_suspended b) wr"

definition bufferevent_disable :: "bufferevent \<Rightarrow> bool \<Rightarrow> bool \<Rightarrow> bufferevent" where
  "bufferevent_disable b rd wr =
     be_socket_disable (b\<lparr>bev_enabled_rd := bev_enabled_rd b \<and> \<not> rd, bev_enabled_wr := bev_enabled_wr b \<and> \<not> wr\<rparr>) rd wr"

definition bufferevent_setwatermark :: "bufferevent \<Rightarrow> bool \<Rightarrow> bool \<Rightarrow> nat \<Rightarrow> nat \<Rightarrow> bufferevent" where
  "bufferevent_setwatermark b rd wr lowmark highmark =
     (let b = (if wr then b\<lparr>bev_wm_write_low := lowmark, bev_wm_write_high := highmark\<rparr> else b)
      in if rd then
           let b = b\<lparr>bev_wm_read_low := lowmark, bev_wm_read_high := highmark\<rparr> in
           if highmark > 0 then
             if length (bev_input b) \<ge> highmark then bufferevent_suspend_read b
             else bufferevent_unsuspend_read b
           else bufferevent_unsuspend_read b
         else b)"

text \<open>What \<open>evbuffer_read\<close> and \<open>evbuffer_write\<close> can return, and the user callback that runs then.\<close>

datatype read_result = ReadData bytes | ReadEof | ReadRetry | ReadRefused | ReadError

datatype write_result = Written nat | WriteRetry | WriteZero | WriteError

datatype bev_what = EVENT_READING_EOF | EVENT_READING_ERROR | EVENT_WRITING_EOF | EVENT_WRITING_ERROR

datatype bev_cb = NoCb | ReadCb | WriteCb | EventCb bev_what

definition MAX_SINGLE_READ_DEFAULT :: nat where
  "MAX_SINGLE_READ_DEFAULT = 16384"

text \<open>The number of bytes asked for: what is left below the watermark, at most one single read.\<close>

definition bev_howmuch :: "bufferevent \<Rightarrow> nat" where
  "bev_howmuch b =
     (if bev_wm_read_high b \<noteq> 0 then min (bev_wm_read_high b - length (bev_input b)) MAX_SINGLE_READ_DEFAULT
      else MAX_SINGLE_READ_DEFAULT)"

definition bufferevent_trigger_read :: "bufferevent \<Rightarrow> bev_cb" where
  "bufferevent_trigger_read b = (if length (bev_input b) \<ge> bev_wm_read_low b then ReadCb else NoCb)"

definition bufferevent_trigger_write :: "bufferevent \<Rightarrow> bev_cb" where
  "bufferevent_trigger_write b = (if length (bev_output b) \<le> bev_wm_write_low b then WriteCb else NoCb)"

definition bufferevent_readcb :: "bufferevent \<Rightarrow> read_result \<Rightarrow> bufferevent \<times> bev_cb" where
  "bufferevent_readcb b res =
     (if bev_wm_read_high b \<noteq> 0 \<and> bev_wm_read_high b \<le> length (bev_input b)
      then (bufferevent_suspend_read b, NoCb)
      else if bev_read_suspended b then (b, NoCb)
      else case res of
        ReadRetry \<Rightarrow> (b, NoCb)
      | ReadRefused \<Rightarrow> (b, NoCb)
      | ReadError \<Rightarrow> (bufferevent_disable b True False, EventCb EVENT_READING_ERROR)
      | ReadEof \<Rightarrow> (bufferevent_disable b True False, EventCb EVENT_READING_EOF)
      | ReadData ds \<Rightarrow>
          let b = input_changed (b\<lparr>bev_input := bev_input b @ ds\<rparr>) in (b, bufferevent_trigger_read b))"

definition bufferevent_writecb :: "bufferevent \<Rightarrow> write_result \<Rightarrow> bufferevent \<times> bev_cb" where
  "bufferevent_writecb b res =
     (if bev_output b \<noteq> [] then
        case res of
          WriteRetry \<Rightarrow> (b, NoCb)
        | WriteError \<Rightarrow> (bufferevent_disable b False True, EventCb EVENT_WRITING_ERROR)
        | WriteZero \<Rightarrow> (bufferevent_disable b False True, EventCb EVENT_WRITING_EOF)
        | Written n \<Rightarrow>
            let b = b\<lparr>bev_output := drop n (bev_output b)\<rparr>;
                b = (if bev_output b = [] then be_socket_disable b False True else b)
            in (b, bufferevent_trigger_write b)
      else let b = be_socket_disable b False True in (b, bufferevent_trigger_write b))"

text \<open>Results the system calls can have: a read returns at least one byte and at most what was asked for,
  a write between one byte and all of the output.\<close>

definition read_possible :: "bufferevent \<Rightarrow> read_result \<Rightarrow> bool" where
  "read_possible b res \<longleftrightarrow> (case res of ReadData ds \<Rightarrow> ds \<noteq> [] \<and> length ds \<le> bev_howmuch b | _ \<Rightarrow> True)"

definition write_possible :: "bufferevent \<Rightarrow> write_result \<Rightarrow> bool" where
  "write_possible b res \<longleftrightarrow> (case res of Written n \<Rightarrow> 0 < n \<and> n \<le> length (bev_output b) | _ \<Rightarrow> True)"

subsection \<open>The fields after each operation\<close>

lemma be_socket_fields [simp]:
  "be_socket_enable b rd wr = b\<lparr>bev_ev_read := bev_ev_read b \<or> rd, bev_ev_write := bev_ev_write b \<or> wr\<rparr>"
  "be_socket_disable b rd wr = b\<lparr>bev_ev_read := bev_ev_read b \<and> \<not> rd, bev_ev_write := bev_ev_write b \<and> \<not> wr\<rparr>"
  by (simp_all add: be_socket_enable_def be_socket_disable_def)

lemma suspend_eq: "bufferevent_suspend_read b =
    b\<lparr>bev_ev_read := bev_ev_read b \<and> bev_read_suspended b, bev_read_suspended := True\<rparr>"
  by (cases b) (simp add: bufferevent_suspend_read_def Let_def)

lemma unsuspend_eq: "bufferevent_unsuspend_read b =
    b\<lparr>bev_ev_read := bev_ev_read b \<or> bev_enabled_rd b, bev_read_suspended := False\<rparr>"
  by (cases b) (simp add: bufferevent_unsuspend_read_def Let_def)

lemma input_changed_eq: "input_changed b =
    (if bev_wm_read_high b = 0 then b
     else if bev_wm_read_high b \<le> length (bev_input b)
     then b\<lparr>bev_ev_read := bev_ev_read b \<and> bev_read_suspended b, bev_read_suspended := True\<rparr>
     else b\<lparr>bev_ev_read := bev_ev_read b \<or> bev_enabled_rd b, bev_read_suspended := False\<rparr>)"
  by (simp add: input_changed_def bufferevent_inbuf_wm_cb_def suspend_eq unsuspend_eq)

lemma input_changed_fields [simp]:
  "bev_input (input_changed b) = bev_input b" "bev_output (input_changed b) = bev_output b"
  "bev_enabled_rd (input_changed b) = bev_enabled_rd b" "bev_enabled_wr (input_changed b) = bev_enabled_wr b"
  "bev_wm_read_low (input_changed b) = bev_wm_read_low b" "bev_wm_read_high (input_changed b) = bev_wm_read_high b"
  "bev_wm_write_low (input_changed b) = bev_wm_write_low b" "bev_wm_write_high (input_changed b) = bev_wm_write_high b"
  "bev_ev_write (input_changed b) = bev_ev_write b"
  "bev_sock_shut_rd (input_changed b) = bev_sock_shut_rd b" "bev_sock_shut_wr (input_changed b) = bev_sock_shut_wr b"
  by (simp_all add: input_changed_eq)

lemma outbuf_cb_eq: "bufferevent_socket_outbuf_cb b n =
    b\<lparr>bev_ev_write := bev_ev_write b \<or> n > 0 \<and> bev_enabled_wr b\<rparr>"
  by (cases b) (auto simp: bufferevent_socket_outbuf_cb_def)

lemma enable_eq: "bufferevent_enable b rd wr =
    b\<lparr>bev_enabled_rd := bev_enabled_rd b \<or> rd, bev_enabled_wr := bev_enabled_wr b \<or> wr,
      bev_ev_read := bev_ev_read b \<or> rd \<and> \<not> bev_read_suspended b, bev_ev_write := bev_ev_write b \<or> wr\<rparr>"
  by (simp add: bufferevent_enable_def)

lemma disable_eq: "bufferevent_disable b rd wr =
    b\<lparr>bev_enabled_rd := bev_enabled_rd b \<and> \<not> rd, bev_enabled_wr := bev_enabled_wr b \<and> \<not> wr,
      bev_ev_read := bev_ev_read b \<and> \<not> rd, bev_ev_write := bev_ev_write b \<and> \<not> wr\<rparr>"
  by (simp add: bufferevent_disable_def)

lemma setwatermark_eq: "bufferevent_setwatermark b rd wr low high =
    (let b' = b\<lparr>bev_wm_write_low := if wr then low else bev_wm_write_low b,
                bev_wm_write_high := if wr then high else bev_wm_write_high b\<rparr>
     in if \<not> rd then b'
        else if high > 0 \<and> high \<le> length (bev_input b)
        then b'\<lparr>bev_wm_read_low := low, bev_wm_read_high := high,
                bev_ev_read := bev_ev_read b \<and> bev_read_suspended b, bev_read_suspended := True\<rparr>
        else b'\<lparr>bev_wm_read_low := low, bev_wm_read_high := high,
                bev_ev_read := bev_ev_read b \<or> bev_enabled_rd b, bev_read_suspended := False\<rparr>)"
  by (cases b) (simp add: bufferevent_setwatermark_def suspend_eq unsuspend_eq Let_def)

subsection \<open>Well-formed bufferevents\<close>

text \<open>The read event is armed exactly when reading is enabled and not suspended, reading is suspended
  exactly when the input has reached the high watermark, and a non-empty output keeps the write event
  armed as long as writing is enabled.\<close>

definition bev_inv :: "bufferevent \<Rightarrow> bool" where
  "bev_inv b \<longleftrightarrow>
     (bev_ev_read b \<longleftrightarrow> bev_enabled_rd b \<and> \<not> bev_read_suspended b) \<and>
     (bev_read_suspended b \<longleftrightarrow> bev_wm_read_high b \<noteq> 0 \<and> bev_wm_read_high b \<le> length (bev_input b)) \<and>
     (bev_output b \<noteq> [] \<and> bev_enabled_wr b \<longrightarrow> bev_ev_write b) \<and>
     (bev_ev_write b \<longrightarrow> bev_enabled_wr b)"

lemma bev_inv_new: "bev_inv bufferevent_new"
  by (simp add: bev_inv_def bufferevent_new_def)

lemma bev_inv_enable: "bev_inv b \<Longrightarrow> bev_inv (bufferevent_enable b rd wr)"
  by (auto simp: bev_inv_def enable_eq)

lemma bev_inv_disable: "bev_inv b \<Longrightarrow> bev_inv (bufferevent_disable b rd wr)"
  by (auto simp: bev_inv_def disable_eq)

lemma bev_inv_setwatermark: "bev_inv b \<Longrightarrow> bev_inv (bufferevent_setwatermark b rd wr low high)"
  by (auto simp: bev_inv_def setwatermark_eq Let_def)

lemma bev_inv_input:
  "bev_inv b \<Longrightarrow> bev_inv (input_changed (b\<lparr>bev_input := ds\<rparr>))"
  by (auto simp: bev_inv_def input_changed_eq)

lemma bev_inv_output:
  "bev_inv b \<Longrightarrow> bev_inv (bufferevent_socket_outbuf_cb (b\<lparr>bev_output := bev_output b @ ds\<rparr>) (length ds))"
  by (auto simp: bev_inv_def outbuf_cb_eq)

lemma bev_inv_write_input:
  assumes "bev_inv from" and "bev_inv to"
  shows "bev_inv (fst (bufferevent_write_input to from))" "bev_inv (snd (bufferevent_write_input to from))"
  using bev_inv_input [OF assms(1), of "[]"] bev_inv_output [OF assms(2), of "bev_input from"] assms
  by (simp_all add: bufferevent_write_input_def)

lemma bev_inv_write_buffer: "bev_inv b \<Longrightarrow> bev_inv (bufferevent_write_buffer b buf)"
  using bev_inv_output [of b buf] by (simp add: bufferevent_write_buffer_def)

lemma bev_inv_remove: "bev_inv b \<Longrightarrow> bev_inv (snd (evbuffer_remove b n))"
  using bev_inv_input [of b] by (simp add: evbuffer_remove_def)

lemma bev_inv_readcb:
  assumes "bev_inv b"
  shows "bev_inv (fst (bufferevent_readcb b res))"
proof (cases "bev_wm_read_high b \<noteq> 0 \<and> bev_wm_read_high b \<le> length (bev_input b) \<or> bev_read_suspended b")
  case True
  then show ?thesis using assms by (auto simp: bufferevent_readcb_def bev_inv_def suspend_eq)
next
  case False
  then show ?thesis
    using bev_inv_disable [OF assms] bev_inv_input [OF assms] assms
    by (auto simp: bufferevent_readcb_def Let_def split: read_result.splits)
qed

lemma bev_inv_writecb:
  assumes "bev_inv b"
  shows "bev_inv (fst (bufferevent_writecb b res))"
  using assms bev_inv_disable [OF assms]
  by (cases res) (auto simp: bufferevent_writecb_def Let_def bev_inv_def)

end
