(* ===== verification/Redsocks.thy ===== *)
theory Redsocks
  imports Bufferevent "HOL-Library.Code_Target_Nat"
begin

text \<open>
  \<open>redsocks/redsocks.c\<close>: a proxied connection, from the callbacks of the relay handshake to the two-way
  pump over bufferevents.  The fields of \<open>redsocks_client\<close> that exist once per socket (\<open>client\<close> and \<open>relay\<close>,
  \<open>client_evshut\<close> and \<open>relay_evshut\<close>, the callbacks) are functions of the side.  An operation returns the
  client, or \<open>Freed\<close> when it has dropped it, or \<open>Fault\<close> when it would touch a client it has freed or
  fail an assertion.  Logging and the time stamps of \<open>redsocks_touch_client\<close> are left out here.
\<close>

subsection \<open>The code\<close>

datatype side = Client | Relay

fun other :: "side \<Rightarrow> side" where
  "other Client = Relay"
| "other Relay = Client"

datatype 'a outcome = Live 'a | Freed | Fault

text \<open>Code that goes on to use the client after an operation.\<close>

fun and_then :: "'a outcome \<Rightarrow> ('a \<Rightarrow> 'b outcome) \<Rightarrow> 'b outcome" where
  "and_then (Live c) k = k c"
| "and_then Freed k = Fault"
| "and_then Fault k = Fault"

datatype bev_cbs = CbNone | CbConnecting | CbSubsys | CbPump

text \<open>The family is not a field: \<open>getdestaddr\<close> and \<open>accept\<close> fill in \<open>AF_INET\<close> addresses only (an \<open>AF_INET\<close> socket has no others), so
  the assertion \<open>sin_family == AF_INET\<close> of \<open>socks5_mkcommand_plain\<close> holds by the type.\<close>

record sockaddr_in =
  sin_addr :: u32
  sin_port :: u16

record redsocks_config =
  cfg_relayaddr :: sockaddr_in
  cfg_login :: "bytes option"
  cfg_password :: "bytes option"

record 'p redsocks_client =
  rc_config :: redsocks_config
  rc_bev :: "side \<Rightarrow> bufferevent"
  rc_has_relay :: bool
  rc_clientaddr :: sockaddr_in
  rc_destaddr :: sockaddr_in
  rc_state :: int
  rc_shut_rd :: "side \<Rightarrow> bool"
  rc_shut_wr :: "side \<Rightarrow> bool"
  rc_cbs :: "side \<Rightarrow> bev_cbs"
  rc_payload :: 'p

record 'p relay_subsys =
  ss_readcb :: "'p redsocks_client \<Rightarrow> 'p redsocks_client outcome"
  ss_writecb :: "'p redsocks_client \<Rightarrow> 'p redsocks_client outcome"
  ss_init :: "'p redsocks_client \<Rightarrow> 'p redsocks_client"
  ss_fini :: "'p redsocks_client \<Rightarrow> 'p redsocks_client"

definition REDSOCKS_RELAY_HALFBUFF :: nat where
  "REDSOCKS_RELAY_HALFBUFF = 4096"

definition pump_active :: int where
  "pump_active = -1"

definition set_bev :: "'p redsocks_client \<Rightarrow> side \<Rightarrow> bufferevent \<Rightarrow> 'p redsocks_client" where
  "set_bev c s b = c\<lparr>rc_bev := (rc_bev c)(s := b)\<rparr>"

definition shut_both :: "'p redsocks_client \<Rightarrow> bool" where
  "shut_both c \<longleftrightarrow> rc_shut_rd c Relay \<and> rc_shut_wr c Relay \<and> rc_shut_rd c Client \<and> rc_shut_wr c Client"

datatype shut_how = SHUT_RD | SHUT_WR | SHUT_RDWR

definition redsocks_shutdown :: "'p redsocks_client \<Rightarrow> side \<Rightarrow> shut_how \<Rightarrow> 'p redsocks_client outcome" where
  "redsocks_shutdown c s how =
     (if s = Relay \<and> \<not> rc_has_relay c then Fault
      else
        let rd = (how \<noteq> SHUT_WR); wr = (how \<noteq> SHUT_RD);
            b = rc_bev c s;
            b = (if \<not> (how = SHUT_RD \<and> rc_shut_wr c s)
                 then b\<lparr>bev_sock_shut_rd := bev_sock_shut_rd b \<or> rd, bev_sock_shut_wr := bev_sock_shut_wr b \<or> wr\<rparr>
                 else b);
            b = bufferevent_disable b rd wr;
            c = (set_bev c s b)\<lparr>rc_shut_rd := (rc_shut_rd c)(s := rc_shut_rd c s \<or> rd),
                               rc_shut_wr := (rc_shut_wr c)(s := rc_shut_wr c s \<or> wr)\<rparr>
        in if shut_both c then Freed else Live c)"

text \<open>\<open>from\<close> is the side whose bufferevent was read, the data goes to the other side.\<close>

definition redsocks_relay_readcb :: "'p redsocks_client \<Rightarrow> side \<Rightarrow> 'p redsocks_client outcome" where
  "redsocks_relay_readcb c from =
     (let f = rc_bev c from; t = rc_bev c (other from) in
      if length (bev_output t) < bev_wm_write_high t then
        let (f, t) = bufferevent_write_input t f in Live (set_bev (set_bev c from f) (other from) t)
      else if bev_enabled_rd f then Live (set_bev c from (bufferevent_disable f True False))
      else Live c)"

definition redsocks_relay_writecb :: "'p redsocks_client \<Rightarrow> side \<Rightarrow> 'p redsocks_client outcome" where
  "redsocks_relay_writecb c from =
     (let f = rc_bev c from; t = rc_bev c (other from); from_eof = rc_shut_rd c from in
      if bev_input f = [] \<and> from_eof then redsocks_shutdown c (other from) SHUT_WR
      else if length (bev_output t) < bev_wm_write_high t then
        let (f, t) = bufferevent_write_input t f;
            f = (if \<not> from_eof \<and> \<not> bev_enabled_rd f then bufferevent_enable f True False else f)
        in Live (set_bev (set_bev c from f) (other from) t)
      else Live c)"

definition redsocks_start_bufferpump :: "'p redsocks_client \<Rightarrow> 'p redsocks_client" where
  "redsocks_start_bufferpump c =
     (let cb = bufferevent_setwatermark (rc_bev c Client) True True 0 REDSOCKS_RELAY_HALFBUFF;
          rb = bufferevent_setwatermark (rc_bev c Relay) True True 0 REDSOCKS_RELAY_HALFBUFF;
          c = c\<lparr>rc_cbs := (\<lambda>s. CbPump)\<rparr>;
          c = set_bev c Client (bufferevent_enable cb (\<not> rc_shut_rd c Client) (\<not> rc_shut_wr c Client))
      in set_bev c Relay (bufferevent_enable rb (\<not> rc_shut_rd c Relay) (\<not> rc_shut_wr c Relay)))"

definition redsocks_start_relay :: "'p relay_subsys \<Rightarrow> 'p redsocks_client \<Rightarrow> 'p redsocks_client outcome" where
  "redsocks_start_relay ss c =
     (let c = ss_fini ss c; c = c\<lparr>rc_state := pump_active\<rparr> in Live (redsocks_start_bufferpump c))"

definition redsocks_event_error :: "'p redsocks_client \<Rightarrow> side \<Rightarrow> bev_what \<Rightarrow> 'p redsocks_client outcome" where
  "redsocks_event_error c s what =
     (if what = EVENT_READING_EOF then
        and_then (redsocks_shutdown c s SHUT_RD) (\<lambda>c.
          if rc_state c = pump_active \<and> \<not> (other s = Relay \<and> \<not> rc_has_relay c)
             \<and> bev_output (rc_bev c (other s)) = []
          then redsocks_shutdown c (other s) SHUT_WR
          else Live c)
      else Freed)"

definition redsocks_read_expected ::
  "'p redsocks_client \<Rightarrow> (nat \<Rightarrow> nat \<Rightarrow> bool) \<Rightarrow> nat \<Rightarrow> (bytes \<times> 'p redsocks_client) option" where
  "redsocks_read_expected c comparator expected =
     (let b = rc_bev c Relay in
      if comparator (length (bev_input b)) expected
      then let (ds, b) = evbuffer_remove b expected in Some (ds, set_bev c Relay b)
      else None)"

definition sizes_equal :: "nat \<Rightarrow> nat \<Rightarrow> bool" where
  "sizes_equal a b = (a = b)"

definition sizes_greater_equal :: "nat \<Rightarrow> nat \<Rightarrow> bool" where
  "sizes_greater_equal a b = (a \<ge> b)"

text \<open>The message maker fails (\<open>None\<close>) where its code would read a null pointer, and returns no message (\<open>Some None\<close>) when
  memory is short; without a maker nothing is sent.\<close>

definition redsocks_write_helper_ex ::
  "'p redsocks_client \<Rightarrow> ('p redsocks_client \<Rightarrow> bytes option option) option \<Rightarrow> int \<Rightarrow> nat \<Rightarrow> nat \<Rightarrow> 'p redsocks_client outcome" where
  "redsocks_write_helper_ex c mkmessage state wm_low wm_high =
     (let msg = (case mkmessage of None \<Rightarrow> Some (Some []) | Some mk \<Rightarrow> mk c) in
      case msg of
        None \<Rightarrow> Fault
      | Some None \<Rightarrow> Freed
      | Some (Some buff) \<Rightarrow>
          let b = bufferevent_write_buffer (rc_bev c Relay) buff;
              b = bufferevent_setwatermark b True False wm_low wm_high;
              b = bufferevent_enable b True False
          in Live (set_bev (c\<lparr>rc_state := state\<rparr>) Relay b))"

definition redsocks_write_helper ::
  "'p redsocks_client \<Rightarrow> ('p redsocks_client \<Rightarrow> bytes option option) option \<Rightarrow> int \<Rightarrow> nat \<Rightarrow> 'p redsocks_client outcome" where
  "redsocks_write_helper c mkmessage state wm_only = redsocks_write_helper_ex c mkmessage state wm_only wm_only"

text \<open>\<open>ok\<close> is the result of \<open>red_is_socket_connected_ok\<close>.\<close>

definition redsocks_relay_connected :: "'p relay_subsys \<Rightarrow> bool \<Rightarrow> 'p redsocks_client \<Rightarrow> 'p redsocks_client outcome" where
  "redsocks_relay_connected ss ok c =
     (if \<not> ok then Freed else ss_writecb ss (c\<lparr>rc_cbs := (rc_cbs c)(Relay := CbSubsys)\<rparr>))"

text \<open>\<open>connected\<close> is the result of creating and connecting the socket.\<close>

definition redsocks_connect_relay :: "bool \<Rightarrow> 'p redsocks_client \<Rightarrow> 'p redsocks_client outcome" where
  "redsocks_connect_relay connected c =
     (if \<not> connected then Freed
      else Live ((set_bev c Relay (bufferevent_enable bufferevent_new False True))
             \<lparr>rc_has_relay := True, rc_cbs := (rc_cbs c)(Relay := CbConnecting)\<rparr>))"

text \<open>The callback of a bufferevent, by what is installed on its side.\<close>

definition redsocks_callback ::
  "'p relay_subsys \<Rightarrow> bool \<Rightarrow> 'p redsocks_client \<Rightarrow> side \<Rightarrow> bev_cb \<Rightarrow> 'p redsocks_client outcome" where
  "redsocks_callback ss ok c s cb =
     (case cb of
        NoCb \<Rightarrow> Live c
      | EventCb what \<Rightarrow> redsocks_event_error c s what
      | ReadCb \<Rightarrow>
          (case rc_cbs c s of CbSubsys \<Rightarrow> ss_readcb ss c | CbPump \<Rightarrow> redsocks_relay_readcb c s | _ \<Rightarrow> Live c)
      | WriteCb \<Rightarrow>
          (case rc_cbs c s of CbConnecting \<Rightarrow> redsocks_relay_connected ss ok c
           | CbSubsys \<Rightarrow> ss_writecb ss c
           | CbPump \<Rightarrow> redsocks_relay_writecb c (other s)
           | CbNone \<Rightarrow> Live c))"

subsection \<open>Events\<close>

datatype sock_event = Readable read_result | Writable write_result

definition bev_event :: "bufferevent \<Rightarrow> sock_event \<Rightarrow> bufferevent \<times> bev_cb" where
  "bev_event b ev = (case ev of Readable r \<Rightarrow> bufferevent_readcb b r | Writable w \<Rightarrow> bufferevent_writecb b w)"

definition event_possible :: "bufferevent \<Rightarrow> sock_event \<Rightarrow> bool" where
  "event_possible b ev =
     (case ev of Readable r \<Rightarrow> bev_ev_read b \<and> read_possible b r | Writable w \<Rightarrow> bev_ev_write b \<and> write_possible b w)"

definition received :: "sock_event \<Rightarrow> bytes" where
  "received ev = (case ev of Readable (ReadData ds) \<Rightarrow> ds | _ \<Rightarrow> [])"

definition sent :: "bufferevent \<Rightarrow> sock_event \<Rightarrow> bytes" where
  "sent b ev = (case ev of Writable (Written n) \<Rightarrow> take n (bev_output b) | _ \<Rightarrow> [])"

definition socket_event ::
  "'p relay_subsys \<Rightarrow> bool \<Rightarrow> 'p redsocks_client \<Rightarrow> side \<Rightarrow> sock_event \<Rightarrow> 'p redsocks_client outcome" where
  "socket_event ss ok c s ev = (let (b, cb) = bev_event (rc_bev c s) ev in redsocks_callback ss ok (set_bev c s b) s cb)"

text \<open>A run from an outcome \<open>out0\<close>: the bytes the sockets have delivered and accepted are kept beside the client.\<close>

inductive event_run :: "'p relay_subsys \<Rightarrow> 'p redsocks_client outcome \<Rightarrow> (side \<Rightarrow> bytes) \<Rightarrow> 'p redsocks_client outcome \<Rightarrow>
    (side \<Rightarrow> bytes) \<Rightarrow> (side \<Rightarrow> bytes) \<Rightarrow> bool" for ss out0 rx0 where
  start: "event_run ss out0 rx0 out0 rx0 (\<lambda>s. [])"
| event: "event_run ss out0 rx0 (Live c) rx tx \<Longrightarrow> event_possible (rc_bev c s) ev \<Longrightarrow>
    socket_event ss ok c s ev = out \<Longrightarrow>
    event_run ss out0 rx0 out (rx(s := rx s @ received ev)) (tx(s := tx s @ sent (rc_bev c s) ev))"

text \<open>A run of the pump; what had arrived before counts as received.\<close>

definition pump_run :: "'p relay_subsys \<Rightarrow> 'p redsocks_client \<Rightarrow> 'p redsocks_client outcome \<Rightarrow>
    (side \<Rightarrow> bytes) \<Rightarrow> (side \<Rightarrow> bytes) \<Rightarrow> bool" where
  "pump_run ss c0 = event_run ss (redsocks_start_relay ss c0) (\<lambda>s. bev_input (rc_bev (ss_fini ss c0) s))"

subsection \<open>The invariant of the pump\<close>

lemma other_simps [simp]: "other (other s) = s" "other s \<noteq> s" "s \<noteq> other s"
  by (cases s; simp)+

lemma take_drop_append [simp]: "take n xs @ drop n xs @ ys = xs @ ys"
  by (metis append_assoc append_take_drop_id)

lemma side_all: "(\<forall>t. P t) \<longleftrightarrow> P s \<and> P (other s)"
  by (metis other.simps side.exhaust)

lemma shut_both_iff: "shut_both c \<longleftrightarrow> rc_shut_rd c s \<and> rc_shut_wr c s \<and> rc_shut_rd c (other s) \<and> rc_shut_wr c (other s)"
  by (cases s) (auto simp: shut_both_def)

lemma set_bev_fields [simp]:
  "rc_bev (set_bev c s b) t = (if t = s then b else rc_bev c t)"
  "rc_config (set_bev c s b) = rc_config c" "rc_has_relay (set_bev c s b) = rc_has_relay c"
  "rc_destaddr (set_bev c s b) = rc_destaddr c" "rc_clientaddr (set_bev c s b) = rc_clientaddr c"
  "rc_state (set_bev c s b) = rc_state c" "rc_shut_rd (set_bev c s b) = rc_shut_rd c"
  "rc_shut_wr (set_bev c s b) = rc_shut_wr c" "rc_cbs (set_bev c s b) = rc_cbs c" "rc_payload (set_bev c s b) = rc_payload c"
  by (simp_all add: set_bev_def)

lemma set_bev_twice [simp]: "set_bev (set_bev c s a) s b = set_bev c s b"
  by (simp add: set_bev_def)

lemma set_bev_same [simp]: "set_bev c s (rc_bev c s) = c"
  by (simp add: set_bev_def)

text \<open>The bounds on the lengths of an input and an output.\<close>

definition dir_len :: "nat \<Rightarrow> nat \<Rightarrow> nat \<Rightarrow> nat \<Rightarrow> bool" where
  "dir_len p i a b \<longleftrightarrow> a \<le> max REDSOCKS_RELAY_HALFBUFF i \<and> b \<le> max p (REDSOCKS_RELAY_HALFBUFF + max REDSOCKS_RELAY_HALFBUFF i)"

lemma dir_len_mono: "dir_len p i a b \<Longrightarrow> a' \<le> a \<Longrightarrow> b' \<le> b \<Longrightarrow> dir_len p i a' b'"
  by (simp add: dir_len_def)

lemma dir_len_move: "a \<le> max REDSOCKS_RELAY_HALFBUFF i \<Longrightarrow> b < REDSOCKS_RELAY_HALFBUFF \<Longrightarrow> dir_len p i 0 (b + a)"
  by (simp add: dir_len_def)

lemma dir_len_input: "dir_len p i a b \<Longrightarrow> a' \<le> max REDSOCKS_RELAY_HALFBUFF i \<Longrightarrow> dir_len p i a' b"
  by (simp add: dir_len_def)

lemma dir_len_start: "dir_len p i i p"
  by (simp add: dir_len_def)

text \<open>One direction, in terms of the bytes received and sent, the input it reads from, the output it writes to,
  whether reading is enabled (\<open>en\<close>), the end of the stream has been seen (\<open>sr\<close>) and passed on (\<open>sw\<close>), and the
  write event is armed (\<open>ew\<close>).  \<open>pre\<close> was in the output and \<open>in0\<close> in the input when the pump started.\<close>

definition dir_ok :: "bytes \<Rightarrow> bytes \<Rightarrow> bytes \<Rightarrow> bytes \<Rightarrow> bytes \<Rightarrow> bytes \<Rightarrow> bool \<Rightarrow> bool \<Rightarrow> bool \<Rightarrow> bool \<Rightarrow> bool" where
  "dir_ok pre in0 rx tx inp outp en sr sw ew \<longleftrightarrow>
     tx @ outp @ inp = pre @ rx \<and>
     (sw \<longrightarrow> sr \<and> outp = []) \<and>
     (inp \<noteq> [] \<longrightarrow> sw \<or> ew) \<and>
     (en \<longrightarrow> \<not> sr) \<and>
     (\<not> sr \<and> \<not> en \<longrightarrow> outp \<noteq> []) \<and>
     (sr \<and> \<not> sw \<longrightarrow> ew) \<and>
     (inp \<noteq> [] \<and> outp = [] \<longrightarrow> tx = pre \<and> inp = in0) \<and>
     dir_len (length pre) (length in0) (length inp) (length outp)"

definition pump_bev :: "bufferevent \<Rightarrow> bool \<Rightarrow> bool" where
  "pump_bev b sw \<longleftrightarrow> bev_inv b \<and> (bev_enabled_wr b \<longleftrightarrow> \<not> sw) \<and> bev_wm_read_low b = 0 \<and> bev_wm_write_low b = 0 \<and>
     bev_wm_read_high b = REDSOCKS_RELAY_HALFBUFF \<and> bev_wm_write_high b = REDSOCKS_RELAY_HALFBUFF"

definition pump_inv :: "(side \<Rightarrow> bytes) \<Rightarrow> (side \<Rightarrow> bytes) \<Rightarrow> 'p redsocks_client \<Rightarrow> (side \<Rightarrow> bytes) \<Rightarrow> (side \<Rightarrow> bytes) \<Rightarrow> bool" where
  "pump_inv pre in0 c rx tx \<longleftrightarrow>
     rc_state c = pump_active \<and> rc_has_relay c \<and> (\<forall>s. rc_cbs c s = CbPump) \<and> \<not> shut_both c \<and>
     (\<forall>s. pump_bev (rc_bev c s) (rc_shut_wr c s)) \<and>
     (\<forall>s. dir_ok (pre s) (in0 s) (rx s) (tx (other s)) (bev_input (rc_bev c s)) (bev_output (rc_bev c (other s)))
        (bev_enabled_rd (rc_bev c s)) (rc_shut_rd c s) (rc_shut_wr c (other s)) (bev_ev_write (rc_bev c (other s))))"

lemma pump_invI:
  assumes "rc_state c = pump_active" "rc_has_relay c" "\<And>s. rc_cbs c s = CbPump" "\<not> shut_both c"
    and "pump_bev (rc_bev c s) (rc_shut_wr c s)" "pump_bev (rc_bev c (other s)) (rc_shut_wr c (other s))"
    and "dir_ok (pre s) (in0 s) (rx s) (tx (other s)) (bev_input (rc_bev c s)) (bev_output (rc_bev c (other s)))
        (bev_enabled_rd (rc_bev c s)) (rc_shut_rd c s) (rc_shut_wr c (other s)) (bev_ev_write (rc_bev c (other s)))"
    and "dir_ok (pre (other s)) (in0 (other s)) (rx (other s)) (tx s) (bev_input (rc_bev c (other s))) (bev_output (rc_bev c s))
        (bev_enabled_rd (rc_bev c (other s))) (rc_shut_rd c (other s)) (rc_shut_wr c s) (bev_ev_write (rc_bev c s))"
  shows "pump_inv pre in0 c rx tx"
  using assms unfolding pump_inv_def by (simp add: side_all [of _ s])

lemma pump_invD:
  assumes "pump_inv pre in0 c rx tx"
  shows "rc_state c = pump_active" "rc_has_relay c" "rc_cbs c s = CbPump" "\<not> shut_both c"
    "pump_bev (rc_bev c s) (rc_shut_wr c s)"
    "dir_ok (pre s) (in0 s) (rx s) (tx (other s)) (bev_input (rc_bev c s)) (bev_output (rc_bev c (other s)))
        (bev_enabled_rd (rc_bev c s)) (rc_shut_rd c s) (rc_shut_wr c (other s)) (bev_ev_write (rc_bev c (other s)))"
    "dir_ok (pre (other s)) (in0 (other s)) (rx (other s)) (tx s) (bev_input (rc_bev c (other s))) (bev_output (rc_bev c s))
        (bev_enabled_rd (rc_bev c (other s))) (rc_shut_rd c (other s)) (rc_shut_wr c s) (bev_ev_write (rc_bev c s))"
  using assms unfolding pump_inv_def by (simp_all add: side_all [of _ s])

lemma halfbuff_pos: "0 < REDSOCKS_RELAY_HALFBUFF"
  by (simp add: REDSOCKS_RELAY_HALFBUFF_def)

text \<open>Steps of one direction.\<close>

lemma dir_move:
  assumes "dir_ok pre in0 rx tx inp outp en sr False ew" and "length outp < REDSOCKS_RELAY_HALFBUFF"
    and "inp' = inp @ ds" and "length inp' \<le> max REDSOCKS_RELAY_HALFBUFF (length in0)" and "inp' \<noteq> [] \<or> \<not> sr"
    and "sr \<or> en'" and "en' \<longrightarrow> \<not> sr" and "inp' \<noteq> [] \<longrightarrow> ew'"
  shows "dir_ok pre in0 (rx @ ds) tx [] (outp @ inp') en' sr False ew'"
proof -
  have "dir_len (length pre) (length in0) 0 (length (outp @ inp'))" using dir_len_move [OF assms(4,2)] by simp
  with assms(1,3,5-8) show ?thesis by (simp add: dir_ok_def) blast
qed

lemma dir_hold:
  assumes "dir_ok pre in0 rx tx inp outp en sr False ew" and "\<not> length outp < REDSOCKS_RELAY_HALFBUFF"
    and "length (inp @ ds) \<le> max REDSOCKS_RELAY_HALFBUFF (length in0)" and "\<not> sr" and "ew"
  shows "dir_ok pre in0 (rx @ ds) tx (inp @ ds) outp False sr False ew"
proof -
  have "outp \<noteq> []" using assms(2) halfbuff_pos by auto
  moreover have "dir_len (length pre) (length in0) (length (inp @ ds)) (length outp)"
    by (rule dir_len_input [of _ _ "length inp", OF _ assms(3)]) (use assms(1) in \<open>simp add: dir_ok_def\<close>)
  ultimately show ?thesis using assms(1,4,5) by (simp add: dir_ok_def)
qed

lemma dir_eof:
  assumes "dir_ok pre in0 rx tx inp outp en sr False ew" and "outp \<noteq> [] \<longrightarrow> ew"
  shows "outp \<noteq> [] \<Longrightarrow> dir_ok pre in0 rx tx inp outp False True False ew"
    and "outp = [] \<Longrightarrow> dir_ok pre in0 rx tx inp [] False True True ew'"
  using assms by (simp_all add: dir_ok_def)

lemma dir_send:
  assumes "dir_ok pre in0 rx tx inp outp en sr False ew" and "n < length outp" and "0 < n"
  shows "dir_ok pre in0 rx (tx @ take n outp) inp (drop n outp) en sr False ew"
proof -
  have "dir_len (length pre) (length in0) (length inp) (length (drop n outp))"
    by (rule dir_len_mono [of _ _ "length inp" "length outp"]) (use assms(1) in \<open>simp_all add: dir_ok_def\<close>)
  then show ?thesis using assms by (simp add: dir_ok_def)
qed

lemma dir_drained:
  assumes "dir_ok pre in0 rx tx inp outp en sr False ew" and "inp = []" and "sr"
  shows "dir_ok pre in0 rx (tx @ outp) [] [] en sr True ew'"
  using assms dir_len_mono [of "length pre" "length in0" "length inp" "length outp" 0 0] by (simp add: dir_ok_def)

lemma dir_refill:
  assumes "dir_ok pre in0 rx tx inp outp en sr False ew" and "inp \<noteq> [] \<or> \<not> sr"
    and "sr \<or> en'" and "en' \<longrightarrow> \<not> sr" and "inp \<noteq> [] \<longrightarrow> ew'"
  shows "dir_ok pre in0 rx (tx @ outp) [] inp en' sr False ew'"
proof -
  have "length inp \<le> max REDSOCKS_RELAY_HALFBUFF (length in0)" using assms(1) by (simp add: dir_ok_def dir_len_def)
  then have "dir_len (length pre) (length in0) 0 (length inp)" using dir_len_move [of _ _ 0] halfbuff_pos by simp
  with assms show ?thesis by (simp add: dir_ok_def) blast
qed

lemma move_fields:
  assumes "bufferevent_write_input t f = (f', t')" and "bev_enabled_wr t"
  shows "bev_input f' = []" "bev_output t' = bev_output t @ bev_input f" "bev_enabled_rd f' = bev_enabled_rd f"
    "bev_output f' = bev_output f" "bev_ev_write f' = bev_ev_write f" "bev_input t' = bev_input t"
    "bev_enabled_rd t' = bev_enabled_rd t" "bev_ev_write t' \<longleftrightarrow> bev_ev_write t \<or> bev_input f \<noteq> []"
  using assms by (auto simp: bufferevent_write_input_def outbuf_cb_eq split: if_splits)

lemma move_pump_bev:
  assumes "bufferevent_write_input t f = (f', t')" and "pump_bev f swf" and "pump_bev t swt"
  shows "pump_bev f' swf" "pump_bev t' swt"
  using assms bev_inv_write_input [of f t]
  by (auto simp: pump_bev_def bufferevent_write_input_def outbuf_cb_eq split: if_splits)

lemma pump_bev_enable: "pump_bev b sw \<Longrightarrow> pump_bev (bufferevent_enable b rd False) sw"
  using bev_inv_enable [of b rd False] by (simp add: pump_bev_def enable_eq)

lemma pump_bev_disable: "pump_bev b sw \<Longrightarrow> pump_bev (bufferevent_disable b rd wr) (sw \<or> wr)"
  using bev_inv_disable [of b rd wr] by (auto simp: pump_bev_def disable_eq)

lemma pump_bev_shut: "pump_bev b sw \<Longrightarrow> pump_bev (b\<lparr>bev_sock_shut_rd := x, bev_sock_shut_wr := y\<rparr>) sw"
  by (auto simp: pump_bev_def bev_inv_def)

text \<open>\<open>redsocks_shutdown\<close> as an update of the client.\<close>

definition shut_bev :: "bufferevent \<Rightarrow> bool \<Rightarrow> shut_how \<Rightarrow> bufferevent" where
  "shut_bev b sw how =
     bufferevent_disable (b\<lparr>bev_sock_shut_rd := bev_sock_shut_rd b \<or> how \<noteq> SHUT_WR \<and> \<not> (how = SHUT_RD \<and> sw),
       bev_sock_shut_wr := bev_sock_shut_wr b \<or> how \<noteq> SHUT_RD\<rparr>) (how \<noteq> SHUT_WR) (how \<noteq> SHUT_RD)"

lemma shut_bev_fields [simp]:
  "bev_input (shut_bev b sw how) = bev_input b" "bev_output (shut_bev b sw how) = bev_output b"
  "bev_enabled_rd (shut_bev b sw how) \<longleftrightarrow> bev_enabled_rd b \<and> how = SHUT_WR"
  "bev_ev_write (shut_bev b sw how) \<longleftrightarrow> bev_ev_write b \<and> how = SHUT_RD"
  by (simp_all add: shut_bev_def disable_eq)

lemma shut_bev_pump: "pump_bev b sw \<Longrightarrow> pump_bev (shut_bev b sw how) (sw \<or> how \<noteq> SHUT_RD)"
  unfolding shut_bev_def by (intro pump_bev_disable pump_bev_shut)

lemma shutdown_eq:
  assumes "rc_has_relay c"
  shows "redsocks_shutdown c s how =
    (let c' = (set_bev c s (shut_bev (rc_bev c s) (rc_shut_wr c s) how))
        \<lparr>rc_shut_rd := (rc_shut_rd c)(s := rc_shut_rd c s \<or> how \<noteq> SHUT_WR),
         rc_shut_wr := (rc_shut_wr c)(s := rc_shut_wr c s \<or> how \<noteq> SHUT_RD)\<rparr>
     in if shut_both c' then Freed else Live c')"
proof -
  have "(if \<not> (how = SHUT_RD \<and> sw)
     then b\<lparr>bev_sock_shut_rd := bev_sock_shut_rd b \<or> how \<noteq> SHUT_WR, bev_sock_shut_wr := bev_sock_shut_wr b \<or> how \<noteq> SHUT_RD\<rparr>
     else b) = b\<lparr>bev_sock_shut_rd := bev_sock_shut_rd b \<or> how \<noteq> SHUT_WR \<and> \<not> (how = SHUT_RD \<and> sw),
       bev_sock_shut_wr := bev_sock_shut_wr b \<or> how \<noteq> SHUT_RD\<rparr>" for b sw
    by (cases b) auto
  then show ?thesis using assms by (simp add: redsocks_shutdown_def shut_bev_def Let_def)
qed

subsection \<open>The invariant holds at the start\<close>

text \<open>A client whose handshake is over: the relay exists, both bufferevents are well-formed, nothing has been
  shut down for writing, and reading is disabled where the end of the stream has been seen.\<close>

definition pump_ready :: "'p redsocks_client \<Rightarrow> bool" where
  "pump_ready c \<longleftrightarrow> rc_has_relay c \<and>
     (\<forall>s. bev_inv (rc_bev c s) \<and> \<not> rc_shut_wr c s \<and>
        (bev_enabled_rd (rc_bev c s) \<longrightarrow> \<not> rc_shut_rd c s))"

definition pump_bev_start :: "bufferevent \<Rightarrow> bool \<Rightarrow> bool \<Rightarrow> bufferevent" where
  "pump_bev_start b rd wr =
     bufferevent_enable (bufferevent_setwatermark b True True 0 REDSOCKS_RELAY_HALFBUFF) rd wr"

lemma pump_bev_start:
  assumes "bev_inv b"
  shows "wr \<Longrightarrow> pump_bev (pump_bev_start b rd wr) False"
    "bev_input (pump_bev_start b rd wr) = bev_input b" "bev_output (pump_bev_start b rd wr) = bev_output b"
    "bev_enabled_rd (pump_bev_start b rd wr) \<longleftrightarrow> bev_enabled_rd b \<or> rd"
    "wr \<Longrightarrow> bev_ev_write (pump_bev_start b rd wr)"
  using assms bev_inv_enable [OF bev_inv_setwatermark [OF assms(1), of True True 0 REDSOCKS_RELAY_HALFBUFF], of rd wr] halfbuff_pos
  unfolding pump_bev_start_def by (auto simp: pump_bev_def enable_eq setwatermark_eq Let_def)

lemma start_relay_eq:
  "redsocks_start_relay ss c0 = (let c = ss_fini ss c0 in
     Live (c\<lparr>rc_state := pump_active, rc_cbs := (\<lambda>s. CbPump),
       rc_bev := (\<lambda>s. pump_bev_start (rc_bev c s) (\<not> rc_shut_rd c s) (\<not> rc_shut_wr c s))\<rparr>))"
proof -
  have side: "f(Client := g Client, Relay := g Relay) = (\<lambda>s. g s)" for f g :: "side \<Rightarrow> bufferevent"
  proof
    show "(f(Client := g Client, Relay := g Relay)) s = g s" for s by (cases s) auto
  qed
  define c where "c = ss_fini ss c0"
  note start = side [of _ "\<lambda>s. pump_bev_start (rc_bev c s) (\<not> rc_shut_rd c s) (\<not> rc_shut_wr c s)"]
  show ?thesis
    unfolding redsocks_start_relay_def redsocks_start_bufferpump_def Let_def set_bev_def c_def [symmetric]
    by (simp add: start flip: pump_bev_start_def)
qed

lemma pump_start_inv:
  assumes ready: "pump_ready (ss_fini ss c0)" and st: "redsocks_start_relay ss c0 = out"
  shows "\<exists>c. out = Live c \<and> pump_inv (\<lambda>s. bev_output (rc_bev (ss_fini ss c0) (other s)))
     (\<lambda>s. bev_input (rc_bev (ss_fini ss c0) s)) c (\<lambda>s. bev_input (rc_bev (ss_fini ss c0) s)) (\<lambda>s. [])"
proof -
  define c where "c = ss_fini ss c0"
  have b: "bev_inv (rc_bev c s)" "\<not> rc_shut_wr c s"
    "bev_enabled_rd (rc_bev c s) \<longrightarrow> \<not> rc_shut_rd c s" for s
    using ready by (auto simp: pump_ready_def c_def)
  define c' where "c' = c\<lparr>rc_state := pump_active, rc_cbs := (\<lambda>s. CbPump),
       rc_bev := (\<lambda>s. pump_bev_start (rc_bev c s) (\<not> rc_shut_rd c s) (\<not> rc_shut_wr c s))\<rparr>"
  have "out = Live c'" using st unfolding start_relay_eq Let_def by (simp add: c'_def c_def)
  moreover have "pump_inv (\<lambda>s. bev_output (rc_bev c (other s))) (\<lambda>s. bev_input (rc_bev c s)) c' (\<lambda>s. bev_input (rc_bev c s)) (\<lambda>s. [])"
    using ready pump_bev_start [OF b(1)] b(2,3)
    by (auto simp: pump_inv_def c'_def dir_ok_def pump_ready_def shut_both_def c_def dir_len_start)
  ultimately show ?thesis by (simp add: c_def)
qed

subsection \<open>The invariant is kept by every event\<close>

text \<open>An event on side \<open>s\<close> is read from or written to its own socket; the callback works on the direction
  from \<open>s\<close> (after reading) or to \<open>s\<close> (after writing).\<close>

definition out_ok :: "(side \<Rightarrow> bytes) \<Rightarrow> (side \<Rightarrow> bytes) \<Rightarrow> 'p redsocks_client outcome \<Rightarrow> (side \<Rightarrow> bytes) \<Rightarrow> (side \<Rightarrow> bytes) \<Rightarrow> bool" where
  "out_ok pre in0 out rx tx \<longleftrightarrow> (case out of Live c \<Rightarrow> pump_inv pre in0 c rx tx | Freed \<Rightarrow> True | Fault \<Rightarrow> False)"

definition pump_upd :: "'p redsocks_client \<Rightarrow> side \<Rightarrow> bufferevent \<Rightarrow> bufferevent \<Rightarrow> bool \<Rightarrow> bool \<Rightarrow> 'p redsocks_client" where
  "pump_upd c s f t sr sw = c\<lparr>rc_bev := (rc_bev c)(s := f, other s := t),
     rc_shut_rd := (rc_shut_rd c)(s := sr), rc_shut_wr := (rc_shut_wr c)(other s := sw)\<rparr>"

lemma pump_upd_eqs:
  "set_bev (set_bev c s f) (other s) t = pump_upd c s f t (rc_shut_rd c s) (rc_shut_wr c (other s))"
  "set_bev c s f = pump_upd c s f (rc_bev c (other s)) (rc_shut_rd c s) (rc_shut_wr c (other s))"
  "set_bev c (other s) t = pump_upd c s (rc_bev c s) t (rc_shut_rd c s) (rc_shut_wr c (other s))"
  by (simp_all add: pump_upd_def set_bev_def fun_upd_idem fun_upd_twist)

lemma pump_upd_fields [simp]:
  "rc_bev (pump_upd c s f t sr sw) s = f" "rc_bev (pump_upd c s f t sr sw) (other s) = t"
  "rc_shut_rd (pump_upd c s f t sr sw) = (rc_shut_rd c)(s := sr)"
  "rc_shut_wr (pump_upd c s f t sr sw) = (rc_shut_wr c)(other s := sw)"
  "rc_has_relay (pump_upd c s f t sr sw) = rc_has_relay c" "rc_state (pump_upd c s f t sr sw) = rc_state c"
  "rc_cbs (pump_upd c s f t sr sw) = rc_cbs c"
  by (simp_all add: pump_upd_def)

lemma fun_upd_other [simp]:
  "f(s := a, other s := f (other s)) = f(s := a)" "f(other s := a, s := f s) = f(other s := a)"
  by auto

lemma pump_shutdown_wr:
  "rc_has_relay c \<Longrightarrow> redsocks_shutdown (pump_upd c s f t sr sw) (other s) SHUT_WR =
     (let c' = pump_upd c s f (shut_bev t sw SHUT_WR) sr True in if shut_both c' then Freed else Live c')"
  by (simp add: shutdown_eq Let_def pump_upd_def set_bev_def fun_upd_twist)

lemma pump_shutdown_rd:
  "rc_has_relay c \<Longrightarrow> redsocks_shutdown (pump_upd c s f t sr sw) s SHUT_RD =
     (let c' = pump_upd c s (shut_bev f (rc_shut_wr c s) SHUT_RD) t True sw in if shut_both c' then Freed else Live c')"
  by (simp add: shutdown_eq Let_def pump_upd_def set_bev_def fun_upd_twist fun_upd_idem)

lemma pump_upd_inv:
  assumes inv: "pump_inv pre in0 c rx tx"
    and "pump_bev f (rc_shut_wr c s)" "pump_bev t sw"
    and "bev_output f = bev_output (rc_bev c s)" "bev_ev_write f = bev_ev_write (rc_bev c s)"
    and "bev_input t = bev_input (rc_bev c (other s))" "bev_enabled_rd t = bev_enabled_rd (rc_bev c (other s))"
    and "dir_ok (pre s) (in0 s) rx' tx' (bev_input f) (bev_output t) (bev_enabled_rd f) sr sw (bev_ev_write t)"
    and "\<not> shut_both (pump_upd c s f t sr sw)"
  shows "pump_inv pre in0 (pump_upd c s f t sr sw) (rx(s := rx')) (tx(other s := tx'))"
proof (rule pump_invI [of _ s])
  show "rc_state (pump_upd c s f t sr sw) = pump_active" "rc_has_relay (pump_upd c s f t sr sw)"
    "rc_cbs (pump_upd c s f t sr sw) x = CbPump" for x
    using pump_invD(1-3) [OF inv] by simp_all
qed (use assms pump_invD(7) [OF inv, of s] in simp_all)

lemmas pump_upd_out = pump_upd_inv [where sr = sr and sw = sw for sr sw]

lemma pump_upd_live:
  assumes "pump_inv pre in0 c rx tx"
    and "pump_bev f (rc_shut_wr c s)" "pump_bev t (rc_shut_wr c (other s))"
    and "bev_output f = bev_output (rc_bev c s)" "bev_ev_write f = bev_ev_write (rc_bev c s)"
    and "bev_input t = bev_input (rc_bev c (other s))" "bev_enabled_rd t = bev_enabled_rd (rc_bev c (other s))"
    and "dir_ok (pre s) (in0 s) rx' tx' (bev_input f) (bev_output t) (bev_enabled_rd f) (rc_shut_rd c s) (rc_shut_wr c (other s)) (bev_ev_write t)"
  shows "out_ok pre in0 (Live (pump_upd c s f t (rc_shut_rd c s) (rc_shut_wr c (other s)))) (rx(s := rx')) (tx(other s := tx'))"
proof -
  have "\<not> shut_both (pump_upd c s f t (rc_shut_rd c s) (rc_shut_wr c (other s)))"
    using pump_invD(4) [OF assms(1)] by (simp add: shut_both_def fun_upd_idem)
  then show ?thesis using pump_upd_inv [OF assms] by (simp add: out_ok_def)
qed

text \<open>What an armed read event says about its direction.\<close>

lemma reading:
  assumes inv: "pump_inv pre in0 c rx tx" and ev: "bev_ev_read (rc_bev c s)"
  shows "bev_enabled_rd (rc_bev c s)" "\<not> bev_read_suspended (rc_bev c s)" "\<not> rc_shut_rd c s" "\<not> rc_shut_wr c (other s)"
    "length (bev_input (rc_bev c s)) < REDSOCKS_RELAY_HALFBUFF"
    "bev_output (rc_bev c (other s)) \<noteq> [] \<longrightarrow> bev_ev_write (rc_bev c (other s))"
    "bev_enabled_wr (rc_bev c (other s))"
proof -
  have f: "bev_inv (rc_bev c s)" "bev_wm_read_high (rc_bev c s) = REDSOCKS_RELAY_HALFBUFF"
    using pump_invD(5) [OF inv, of s] by (simp_all add: pump_bev_def)
  show en: "bev_enabled_rd (rc_bev c s)" "\<not> bev_read_suspended (rc_bev c s)" using f(1) ev by (simp_all add: bev_inv_def)
  show "length (bev_input (rc_bev c s)) < REDSOCKS_RELAY_HALFBUFF" using f en(2) halfbuff_pos by (auto simp: bev_inv_def)
  show sr: "\<not> rc_shut_rd c s" using pump_invD(6) [OF inv, of s] en(1) by (simp add: dir_ok_def)
  then show sw: "\<not> rc_shut_wr c (other s)" using pump_invD(6) [OF inv, of s] by (auto simp: dir_ok_def)
  then show "bev_output (rc_bev c (other s)) \<noteq> [] \<longrightarrow> bev_ev_write (rc_bev c (other s))" "bev_enabled_wr (rc_bev c (other s))"
    using pump_invD(5) [OF inv, of "other s"] by (simp_all add: pump_bev_def bev_inv_def)
qed

lemma read_data_ok:
  assumes inv: "pump_inv pre in0 c rx tx" and ev: "bev_ev_read (rc_bev c s)"
    and ds: "ds \<noteq> []" "length ds \<le> bev_howmuch (rc_bev c s)"
  shows "out_ok pre in0 (redsocks_relay_readcb
      (set_bev c s (input_changed ((rc_bev c s)\<lparr>bev_input := bev_input (rc_bev c s) @ ds\<rparr>))) s) (rx(s := rx s @ ds)) tx"
proof -
  define f where "f = rc_bev c s"
  define t where "t = rc_bev c (other s)"
  define f1 where "f1 = input_changed (f\<lparr>bev_input := bev_input f @ ds\<rparr>)"
  note R = reading [OF inv ev, folded f_def t_def]
  have pf: "pump_bev f (rc_shut_wr c s)" and pt: "pump_bev t (rc_shut_wr c (other s))"
    using pump_invD(5) [OF inv] by (simp_all add: f_def t_def)
  have dir: "dir_ok (pre s) (in0 s) (rx s) (tx (other s)) (bev_input f) (bev_output t) (bev_enabled_rd f) False False (bev_ev_write t)"
    using pump_invD(6) [OF inv, of s] R by (simp add: f_def t_def)
  have "length (bev_input f @ ds) \<le> REDSOCKS_RELAY_HALFBUFF"
    using ds(2) pf R(5) halfbuff_pos by (auto simp: pump_bev_def bev_howmuch_def simp flip: f_def)
  then have len: "length (bev_input f @ ds) \<le> max REDSOCKS_RELAY_HALFBUFF (length (in0 s))" by linarith
  have pf1: "pump_bev f1 (rc_shut_wr c s)"
    using pf bev_inv_input [of f "bev_input f @ ds"] by (simp add: pump_bev_def f1_def)
  have hi: "bev_wm_write_high t = REDSOCKS_RELAY_HALFBUFF" using pt by (simp add: pump_bev_def)
  have cb: "redsocks_relay_readcb (set_bev c s f1) s =
      (if length (bev_output t) < REDSOCKS_RELAY_HALFBUFF
       then let (f, t) = bufferevent_write_input t f1 in Live (set_bev (set_bev c s f) (other s) t)
       else Live (set_bev c s (bufferevent_disable f1 True False)))"
    using hi R(1) by (simp add: redsocks_relay_readcb_def f1_def flip: t_def)
  have tx: "tx(other s := tx (other s)) = tx" by simp
  show ?thesis
  proof (cases "length (bev_output t) < REDSOCKS_RELAY_HALFBUFF")
    case True
    obtain f2 t2 where mv: "bufferevent_write_input t f1 = (f2, t2)" by fastforce
    note F = move_fields [OF mv R(7)] move_pump_bev [OF mv pf1 pt]
    have "dir_ok (pre s) (in0 s) (rx s @ ds) (tx (other s)) (bev_input f2) (bev_output t2) (bev_enabled_rd f2)
       (rc_shut_rd c s) (rc_shut_wr c (other s)) (bev_ev_write t2)"
      using dir_move [OF dir True refl len] R F ds by (simp add: f1_def)
    moreover have "redsocks_relay_readcb (set_bev c s f1) s = Live (pump_upd c s f2 t2 (rc_shut_rd c s) (rc_shut_wr c (other s)))"
      unfolding cb using True mv by (simp add: pump_upd_eqs(1))
    ultimately show ?thesis
      using pump_upd_live [OF inv F(9,10), of "rx s @ ds" "tx (other s)"] F unfolding tx
      by (simp add: f1_def flip: f_def t_def)
  next
    case False
    have "dir_ok (pre s) (in0 s) (rx s @ ds) (tx (other s)) (bev_input (bufferevent_disable f1 True False)) (bev_output t)
       (bev_enabled_rd (bufferevent_disable f1 True False)) (rc_shut_rd c s) (rc_shut_wr c (other s)) (bev_ev_write t)"
      using dir_hold [OF dir False len] R False halfbuff_pos by (auto simp: f1_def disable_eq)
    moreover have "redsocks_relay_readcb (set_bev c s f1) s =
        Live (pump_upd c s (bufferevent_disable f1 True False) t (rc_shut_rd c s) (rc_shut_wr c (other s)))"
      unfolding cb using False by (simp add: pump_upd_eqs(2) flip: t_def)
    moreover have "pump_bev (bufferevent_disable f1 True False) (rc_shut_wr c s)" using pump_bev_disable [OF pf1, of True False] by simp
    ultimately show ?thesis
      using pump_upd_live [OF inv _ pt, of "bufferevent_disable f1 True False" "rx s @ ds" "tx (other s)"] unfolding tx
      by (simp add: f1_def disable_eq flip: f_def t_def)
  qed
qed

lemma eof_ok:
  assumes inv: "pump_inv pre in0 c rx tx" and ev: "bev_ev_read (rc_bev c s)"
  shows "out_ok pre in0 (redsocks_event_error (set_bev c s (bufferevent_disable (rc_bev c s) True False)) s EVENT_READING_EOF) rx tx"
proof -
  define f where "f = rc_bev c s"
  define t where "t = rc_bev c (other s)"
  define f1 where "f1 = shut_bev (bufferevent_disable f True False) (rc_shut_wr c s) SHUT_RD"
  note R = reading [OF inv ev, folded f_def t_def]
  have pf: "pump_bev f (rc_shut_wr c s)" and pt: "pump_bev t False"
    using pump_invD(5) [OF inv, of s] pump_invD(5) [OF inv, of "other s"] R(4) by (simp_all add: f_def t_def)
  have dir: "dir_ok (pre s) (in0 s) (rx s) (tx (other s)) (bev_input f) (bev_output t) (bev_enabled_rd f) False False (bev_ev_write t)"
    using pump_invD(6) [OF inv, of s] R by (simp add: f_def t_def)
  have pf1: "pump_bev f1 (rc_shut_wr c s)"
    using shut_bev_pump [OF pump_bev_disable [OF pf, of True False], of SHUT_RD] by (simp add: f1_def)
  have f1: "bev_input f1 = bev_input f" "bev_output f1 = bev_output f" "\<not> bev_enabled_rd f1" "bev_ev_write f1 = bev_ev_write f"
    by (simp_all add: f1_def disable_eq)
  have live: "\<not> shut_both (pump_upd c s f1 t True False)" by (simp add: shut_both_iff [of _ s])
  have sd: "redsocks_shutdown (set_bev c s (bufferevent_disable f True False)) s SHUT_RD = Live (pump_upd c s f1 t True False)"
    unfolding pump_upd_eqs(2) [of c s] using pump_invD(2) [OF inv] live R(4)
    by (simp add: pump_shutdown_rd Let_def flip: f1_def t_def)
  have tx: "rx(s := rx s) = rx" "tx(other s := tx (other s)) = tx" by simp_all
  show ?thesis
  proof (cases "bev_output t = []")
    case True
    have "redsocks_event_error (set_bev c s (bufferevent_disable f True False)) s EVENT_READING_EOF =
        (let c' = pump_upd c s f1 (shut_bev t False SHUT_WR) True True in if shut_both c' then Freed else Live c')"
      using sd True pump_invD(1,2) [OF inv] by (simp add: redsocks_event_error_def pump_shutdown_wr)
    moreover have "pump_bev (shut_bev t False SHUT_WR) True" using shut_bev_pump [OF pt, of SHUT_WR] by simp
    moreover have "dir_ok (pre s) (in0 s) (rx s) (tx (other s)) (bev_input f1) (bev_output (shut_bev t False SHUT_WR))
        (bev_enabled_rd f1) True True (bev_ev_write (shut_bev t False SHUT_WR))"
      using dir_eof(2) [OF dir R(6) True] f1 True by simp
    ultimately show ?thesis
      using pump_upd_inv [OF inv pf1, of "shut_bev t False SHUT_WR" True "rx s" "tx (other s)" True] f1
      unfolding tx by (simp add: out_ok_def Let_def flip: f_def t_def)
  next
    case False
    have "redsocks_event_error (set_bev c s (bufferevent_disable f True False)) s EVENT_READING_EOF =
        Live (pump_upd c s f1 t True False)"
      using sd False by (simp add: redsocks_event_error_def)
    moreover have "dir_ok (pre s) (in0 s) (rx s) (tx (other s)) (bev_input f1) (bev_output t)
        (bev_enabled_rd f1) True False (bev_ev_write t)"
      using dir_eof(1) [OF dir R(6) False] f1 by simp
    ultimately show ?thesis
      using pump_upd_inv [OF inv pf1 pt, of "rx s" "tx (other s)" True] f1 live
      unfolding tx by (simp add: out_ok_def flip: f_def t_def)
  qed
qed

text \<open>A write event on side \<open>other s\<close> that leaves output behind, and one that drains it.\<close>

lemma write_part_ok:
  assumes inv: "pump_inv pre in0 c rx tx" and n: "0 < n" "n < length (bev_output (rc_bev c (other s)))"
  shows "out_ok pre in0 (Live (set_bev c (other s) ((rc_bev c (other s))\<lparr>bev_output := drop n (bev_output (rc_bev c (other s)))\<rparr>)))
    rx (tx(other s := tx (other s) @ take n (bev_output (rc_bev c (other s)))))"
proof -
  define t where "t = rc_bev c (other s)"
  have pt: "pump_bev t (rc_shut_wr c (other s))" using pump_invD(5) [OF inv, of "other s"] by (simp add: t_def)
  have sw: "\<not> rc_shut_wr c (other s)" using pump_invD(6) [OF inv, of s] n by (auto simp: dir_ok_def)
  have "pump_bev (t\<lparr>bev_output := drop n (bev_output t)\<rparr>) (rc_shut_wr c (other s))"
    using pt n unfolding pump_bev_def bev_inv_def t_def by auto
  moreover have "dir_ok (pre s) (in0 s) (rx s) (tx (other s) @ take n (bev_output t)) (bev_input (rc_bev c s)) (drop n (bev_output t))
      (bev_enabled_rd (rc_bev c s)) (rc_shut_rd c s) (rc_shut_wr c (other s)) (bev_ev_write t)"
    using dir_send [of "pre s" "in0 s" "rx s" "tx (other s)" "bev_input (rc_bev c s)" "bev_output t"] pump_invD(6) [OF inv, of s] sw n
    by (simp add: t_def)
  ultimately have "out_ok pre in0 (Live (pump_upd c s (rc_bev c s) (t\<lparr>bev_output := drop n (bev_output t)\<rparr>) (rc_shut_rd c s) (rc_shut_wr c (other s))))
      (rx(s := rx s)) (tx(other s := tx (other s) @ take n (bev_output t)))"
    by (intro pump_upd_live [OF inv pump_invD(5) [OF inv]]) (simp_all add: t_def)
  then show ?thesis by (simp add: pump_upd_eqs(3) t_def)
qed

lemma write_all_ok:
  assumes inv: "pump_inv pre in0 c rx tx" and ev: "bev_ev_write (rc_bev c (other s))"
  shows "out_ok pre in0 (redsocks_relay_writecb
      (set_bev c (other s) ((rc_bev c (other s))\<lparr>bev_output := [], bev_ev_write := False\<rparr>)) s)
    rx (tx(other s := tx (other s) @ bev_output (rc_bev c (other s))))"
proof -
  define f where "f = rc_bev c s"
  define t where "t = rc_bev c (other s)"
  define t1 where "t1 = t\<lparr>bev_output := [], bev_ev_write := False\<rparr>"
  have pf: "pump_bev f (rc_shut_wr c s)" using pump_invD(5) [OF inv, of s] by (simp add: f_def)
  have pt: "pump_bev t (rc_shut_wr c (other s))" using pump_invD(5) [OF inv, of "other s"] by (simp add: t_def)
  have sw: "\<not> rc_shut_wr c (other s)" using pt ev by (auto simp: pump_bev_def bev_inv_def simp flip: t_def)
  have pt1: "pump_bev t1 False" using pt sw by (auto simp: pump_bev_def bev_inv_def t1_def)
  have t1: "bev_input t1 = bev_input t" "bev_enabled_rd t1 = bev_enabled_rd t" "bev_output t1 = []" "bev_enabled_wr t1"
    using pt1 by (simp_all add: t1_def pump_bev_def)
  have dir: "dir_ok (pre s) (in0 s) (rx s) (tx (other s)) (bev_input f) (bev_output t) (bev_enabled_rd f) (rc_shut_rd c s) False (bev_ev_write t)"
    using pump_invD(6) [OF inv, of s] sw by (simp add: f_def t_def)
  have rx: "rx(s := rx s) = rx" by simp
  have c1: "set_bev c (other s) t1 = pump_upd c s f t1 (rc_shut_rd c s) False" using sw by (simp add: pump_upd_eqs(3) f_def)
  show ?thesis
  proof (cases "bev_input f = [] \<and> rc_shut_rd c s")
    case True
    have "redsocks_relay_writecb (set_bev c (other s) t1) s =
        (let c' = pump_upd c s f (shut_bev t1 False SHUT_WR) True True in if shut_both c' then Freed else Live c')"
      using True pump_invD(2) [OF inv] unfolding redsocks_relay_writecb_def
      by (simp add: c1 pump_shutdown_wr flip: f_def)
    moreover have "pump_bev (shut_bev t1 False SHUT_WR) True" using shut_bev_pump [OF pt1, of SHUT_WR] by simp
    moreover have "dir_ok (pre s) (in0 s) (rx s) (tx (other s) @ bev_output t) (bev_input f) (bev_output (shut_bev t1 False SHUT_WR))
        (bev_enabled_rd f) True True (bev_ev_write (shut_bev t1 False SHUT_WR))"
      using dir_drained [OF dir] True t1 by simp
    ultimately show ?thesis
      using pump_upd_inv [OF inv pf, of "shut_bev t1 False SHUT_WR" True "rx s" "tx (other s) @ bev_output t" True] t1
      unfolding rx by (simp add: out_ok_def Let_def flip: f_def t_def t1_def)
  next
    case False
    obtain f2 t2 where mv: "bufferevent_write_input t1 f = (f2, t2)" by fastforce
    note F = move_fields [OF mv t1(4)] move_pump_bev [OF mv pf pt1]
    define f3 where "f3 = (if \<not> rc_shut_rd c s \<and> \<not> bev_enabled_rd f2 then bufferevent_enable f2 True False else f2)"
    have f3: "pump_bev f3 (rc_shut_wr c s)" "bev_input f3 = []" "bev_output f3 = bev_output f" "bev_ev_write f3 = bev_ev_write f"
      "bev_enabled_rd f3 \<longleftrightarrow> bev_enabled_rd f \<or> \<not> rc_shut_rd c s"
      using F pump_bev_enable [OF F(9), of True] by (auto simp: f3_def enable_eq)
    have cb: "redsocks_relay_writecb (set_bev c (other s) t1) s = Live (pump_upd c s f3 t2 (rc_shut_rd c s) (rc_shut_wr c (other s)))"
      using False mv pt1 halfbuff_pos sw unfolding redsocks_relay_writecb_def c1
      by (auto simp: Let_def pump_upd_def set_bev_def f3_def pump_bev_def t1 fun_upd_twist simp flip: f_def)
    have "bev_enabled_rd f \<longrightarrow> \<not> rc_shut_rd c s" using dir by (simp add: dir_ok_def)
    then have "dir_ok (pre s) (in0 s) (rx s) (tx (other s) @ bev_output t) (bev_input f3) (bev_output t2) (bev_enabled_rd f3)
        (rc_shut_rd c s) (rc_shut_wr c (other s)) (bev_ev_write t2)"
      using dir_refill [OF dir, of "bev_enabled_rd f3" "bev_ev_write t2"] False F f3 sw t1 by auto
    from pump_upd_live [OF inv f3(1) _ _ _ _ _ this] F f3 sw t1 show ?thesis
      unfolding rx by (simp add: cb flip: f_def t_def t1_def)
  qed
qed

lemma pump_event_ok:
  assumes inv: "pump_inv pre in0 c rx tx" and ev: "event_possible (rc_bev c s) ev"
  shows "out_ok pre in0 (socket_event ss ok c s ev) (rx(s := rx s @ received ev)) (tx(s := tx s @ sent (rc_bev c s) ev))"
proof -
  define b where "b = rc_bev c s"
  have pb: "pump_bev b (rc_shut_wr c s)" and cbs: "rc_cbs c s = CbPump" using pump_invD(3,5) [OF inv] by (simp_all add: b_def)
  have same: "out_ok pre in0 (Live c) rx tx" using inv by (simp add: out_ok_def)
  show ?thesis
  proof (cases ev)
    case (Readable r)
    have rd: "bev_ev_read (rc_bev c s)" "read_possible (rc_bev c s) r" using ev by (simp_all add: event_possible_def Readable)
    have low: "\<not> (bev_wm_read_high b \<noteq> 0 \<and> bev_wm_read_high b \<le> length (bev_input b))" "\<not> bev_read_suspended b"
      using pb reading [OF inv rd(1)] by (auto simp: pump_bev_def b_def)
    note ev_def = socket_event_def bev_event_def Readable bufferevent_readcb_def redsocks_callback_def received_def sent_def
    show ?thesis
    proof (cases r)
      case (ReadData ds)
      have "ds \<noteq> []" "length ds \<le> bev_howmuch (rc_bev c s)" using rd(2) by (simp_all add: read_possible_def ReadData)
      from read_data_ok [OF inv rd(1) this] show ?thesis
        using low cbs pb
        by (auto simp: ev_def ReadData bufferevent_trigger_read_def pump_bev_def Let_def simp flip: b_def)
    next
      case ReadEof
      then show ?thesis using eof_ok [OF inv rd(1)] low by (auto simp: ev_def simp flip: b_def)
    next
      case ReadError
      then show ?thesis using low by (auto simp: ev_def redsocks_event_error_def out_ok_def simp flip: b_def)
    qed (use low same in \<open>auto simp: ev_def b_def\<close>)
  next
    case (Writable w)
    have wr: "bev_ev_write (rc_bev c (other (other s)))" "write_possible (rc_bev c s) w" using ev by (simp_all add: event_possible_def Writable)
    note all = write_all_ok [OF inv wr(1), simplified, folded b_def]
    note ev_def = socket_event_def bev_event_def Writable bufferevent_writecb_def redsocks_callback_def received_def sent_def
    show ?thesis
    proof (cases "bev_output b = []")
      case True
      then have "b\<lparr>bev_output := [], bev_ev_write := False\<rparr> = b\<lparr>bev_ev_write := False\<rparr>" by (cases b) simp
      note all = all [unfolded this]
      have "out_ok pre in0 (socket_event ss ok c s ev) rx tx"
        using all True cbs by (simp add: ev_def bufferevent_trigger_write_def Let_def flip: b_def)
      moreover have "sent b ev = []" using True by (auto simp: sent_def split: sock_event.splits write_result.splits)
      ultimately show ?thesis by (simp add: received_def Writable flip: b_def)
    next
      case False
      show ?thesis
      proof (cases w)
        case (Written n)
        have n: "0 < n" "n \<le> length (bev_output b)" using wr(2) by (simp_all add: write_possible_def Written b_def)
        have low: "bev_wm_write_low b = 0" using pb by (simp add: pump_bev_def)
        show ?thesis
        proof (cases "n = length (bev_output b)")
          case True
          then show ?thesis
            using all False cbs by (simp add: ev_def Written bufferevent_trigger_write_def Let_def flip: b_def)
        next
          case part: False
          then have "n < length (bev_output (rc_bev c (other (other s))))" using n by (simp add: b_def)
          from write_part_ok [OF inv n(1) this, simplified, folded b_def] show ?thesis
            using part n False low by (simp add: ev_def Written bufferevent_trigger_write_def Let_def flip: b_def)
        qed
      qed (use False same in \<open>simp_all add: ev_def redsocks_event_error_def out_ok_def flip: b_def\<close>, simp add: b_def)
    qed
  qed
qed

lemma pump_run_inv:
  assumes "pump_run ss c0 out rx tx" and "pump_ready (ss_fini ss c0)"
  shows "out_ok (\<lambda>s. bev_output (rc_bev (ss_fini ss c0) (other s))) (\<lambda>s. bev_input (rc_bev (ss_fini ss c0) s)) out rx tx"
  using assms(1) unfolding pump_run_def
proof (induction rule: event_run.induct)
  case start
  show ?case using pump_start_inv [OF assms(2) refl] by (auto simp: out_ok_def)
next
  case (event c rx tx s ev ok out)
  then have "pump_inv (\<lambda>s. bev_output (rc_bev (ss_fini ss c0) (other s))) (\<lambda>s. bev_input (rc_bev (ss_fini ss c0) s)) c rx tx"
    by (simp add: out_ok_def)
  from pump_event_ok [OF this event.hyps(2)] event.hyps(3) show ?case by blast
qed

lemma pump_run_live:
  assumes "pump_ready (ss_fini ss c0)" and "pump_run ss c0 (Live c) rx tx"
  shows "pump_inv (\<lambda>s. bev_output (rc_bev (ss_fini ss c0) (other s))) (\<lambda>s. bev_input (rc_bev (ss_fini ss c0) s)) c rx tx"
  using pump_run_inv [OF assms(2,1)] by (simp add: out_ok_def)

subsection \<open>After an early end of stream\<close>

lemma event_run_append:
  assumes "event_run ss out1 rx1 out2 rx2 tx2" and "event_run ss out0 rx0 out1 rx1 tx1"
  shows "event_run ss out0 rx0 out2 rx2 (\<lambda>t. tx1 t @ tx2 t)"
  using assms(1)
proof (induction rule: event_run.induct)
  case start
  then show ?case using assms(2) by simp
next
  case (event c rx tx s ev ok out)
  have e: "(\<lambda>t. tx1 t @ (tx(s := tx s @ sent (rc_bev c s) ev)) t) = (\<lambda>t. tx1 t @ tx t)(s := (tx1 s @ tx s) @ sent (rc_bev c s) ev)" by auto
  show ?case unfolding e by (rule event_run.event [OF event.IH event.hyps(2,3)])
qed

lemma shutdown_shut_wr:
  "redsocks_shutdown c s how = Live c' \<Longrightarrow> rc_shut_wr c' t \<longleftrightarrow> rc_shut_wr c t \<or> t = s \<and> how \<noteq> SHUT_RD"
  by (auto simp: redsocks_shutdown_def Let_def split: if_splits)

lemma event_error_shut_wr: "redsocks_event_error c s what = Live c' \<Longrightarrow> rc_shut_wr c t \<Longrightarrow> rc_shut_wr c' t"
  by (cases "redsocks_shutdown c s SHUT_RD") (auto simp: redsocks_event_error_def shutdown_shut_wr split: if_splits)

lemma socket_event_shut_wr:
  assumes "\<And>s. rc_cbs c s = CbPump" and "socket_event ss ok c s ev = Live c'" and "rc_shut_wr c t"
  shows "rc_shut_wr c' t"
proof -
  obtain b cb where b: "bev_event (rc_bev c s) ev = (b, cb)" by fastforce
  have "redsocks_callback ss ok (set_bev c s b) s cb = Live c'" using assms(2) b by (simp add: socket_event_def)
  then show ?thesis
    using assms(1,3) event_error_shut_wr [of "set_bev c s b" s _ c' t]
    by (cases cb) (auto simp: redsocks_callback_def redsocks_relay_readcb_def redsocks_relay_writecb_def Let_def shutdown_shut_wr split: if_splits prod.splits)
qed

lemma eof_shuts:
  assumes inv: "pump_inv pre in0 c rx tx" and ev: "event_possible (rc_bev c s) (Readable ReadEof)" and out: "bev_output (rc_bev c (other s)) = []"
    and e: "socket_event ss ok c s (Readable ReadEof) = Live c'"
  shows "rc_shut_wr c' (other s)"
proof -
  have rd: "bev_ev_read (rc_bev c s)" using ev by (simp add: event_possible_def)
  note R = reading [OF inv rd]
  let ?b = "bufferevent_disable (rc_bev c s) True False"
  have "bev_event (rc_bev c s) (Readable ReadEof) = (?b, EventCb EVENT_READING_EOF)"
    using R pump_invD(5) [OF inv, of s] by (simp add: bev_event_def bufferevent_readcb_def pump_bev_def)
  then have eq: "redsocks_event_error (set_bev c s ?b) s EVENT_READING_EOF = Live c'"
    using e by (simp add: socket_event_def redsocks_callback_def)
  then obtain c1 where c1: "redsocks_shutdown (set_bev c s ?b) s SHUT_RD = Live c1"
    by (cases "redsocks_shutdown (set_bev c s ?b) s SHUT_RD") (auto simp: redsocks_event_error_def)
  then have "rc_state c1 = pump_active" "rc_has_relay c1" "bev_output (rc_bev c1 (other s)) = []"
    using pump_invD(1,2) [OF inv] out by (auto simp: shutdown_eq Let_def split: if_splits)
  then have "redsocks_shutdown c1 (other s) SHUT_WR = Live c'" using eq c1 by (simp add: redsocks_event_error_def)
  then show ?thesis by (simp add: shutdown_shut_wr)
qed

lemma nothing_after_shutdown:
  assumes ready: "pump_ready (ss_fini ss c0)" and run: "pump_run ss c0 out1 rx1 tx1" and after: "event_run ss out1 rx1 out rx tx"
    and shut: "\<And>c. out1 = Live c \<Longrightarrow> rc_shut_wr c t"
  shows "tx t = [] \<and> (\<forall>c. out = Live c \<longrightarrow> rc_shut_wr c t)"
  using after
proof (induction rule: event_run.induct)
  case start
  then show ?case using shut by simp
next
  case (event c rx tx s ev ok out)
  have "pump_run ss c0 (Live c) rx (\<lambda>t. tx1 t @ tx t)" using event_run_append [OF event.hyps(1)] run unfolding pump_run_def by blast
  note inv = pump_run_live [OF ready this]
  have sw: "rc_shut_wr c t" "tx t = []" using event.IH by simp_all
  then have "bev_output (rc_bev c t) = []" using pump_invD(6) [OF inv, of "other t"] by (simp add: dir_ok_def)
  then have "s = t \<Longrightarrow> sent (rc_bev c s) ev = []" by (auto simp: sent_def split: sock_event.splits write_result.splits)
  then show ?case using sw event.hyps(3) socket_event_shut_wr [OF pump_invD(3) [OF inv], of ss ok s ev _ t] by auto
qed

subsection \<open>A run\<close>

text \<open>A client has sent two bytes before the handshake with the proxy was over.\<close>

definition demo_subsys :: "unit relay_subsys" where
  "demo_subsys = \<lparr>ss_readcb = Live, ss_writecb = Live, ss_init = id, ss_fini = id\<rparr>"

definition demo_client :: "unit redsocks_client" where
  "demo_client = \<lparr>rc_config = \<lparr>cfg_relayaddr = \<lparr>sin_addr = 0, sin_port = 0\<rparr>, cfg_login = None, cfg_password = None\<rparr>,
     rc_bev = (\<lambda>s. bufferevent_enable (bufferevent_new\<lparr>bev_input := (if s = Client then [1, 2] else [])\<rparr>) True False),
     rc_has_relay = True, rc_clientaddr = \<lparr>sin_addr = 0, sin_port = 0\<rparr>, rc_destaddr = \<lparr>sin_addr = 0, sin_port = 0\<rparr>,
     rc_state = 0, rc_shut_rd = (\<lambda>s. False), rc_shut_wr = (\<lambda>s. False), rc_cbs = (\<lambda>s. CbNone), rc_payload = ()\<rparr>"

fun is_live :: "'a outcome \<Rightarrow> bool" where
  "is_live (Live c) = True"
| "is_live _ = False"

fun the_live :: "'a outcome \<Rightarrow> 'a" where
  "the_live (Live c) = c"

text \<open>The two sides of a client, tabulated again after every event.\<close>

definition tabulate :: "(side \<Rightarrow> 'a) \<Rightarrow> side \<Rightarrow> 'a" where
  "tabulate f = (let a = f Client; b = f Relay in case_side a b)"

fun tabulated :: "'p redsocks_client outcome \<Rightarrow> 'p redsocks_client outcome" where
  "tabulated (Live c) = Live (c\<lparr>rc_bev := tabulate (rc_bev c), rc_shut_rd := tabulate (rc_shut_rd c),
     rc_shut_wr := tabulate (rc_shut_wr c), rc_cbs := tabulate (rc_cbs c)\<rparr>)"
| "tabulated Freed = Freed"
| "tabulated Fault = Fault"

lemma tabulate_id [simp]: "tabulate f = f"
  by (rule ext) (auto simp: tabulate_def Let_def split: side.splits)

lemma tabulated_id [simp]: "tabulated out = out"
  by (cases out) simp_all

fun pump_exec :: "'p relay_subsys \<Rightarrow> 'p redsocks_client outcome \<Rightarrow> (side \<times> sock_event) list \<Rightarrow> 'p redsocks_client outcome" where
  "pump_exec ss out [] = out"
| "pump_exec ss out ((s, ev) # evs) = pump_exec ss (tabulated (socket_event ss True (the_live out) s ev)) evs"

fun pump_possible :: "'p relay_subsys \<Rightarrow> 'p redsocks_client outcome \<Rightarrow> (side \<times> sock_event) list \<Rightarrow> bool" where
  "pump_possible ss out [] \<longleftrightarrow> is_live out"
| "pump_possible ss out ((s, ev) # evs) \<longleftrightarrow> is_live out \<and> event_possible (rc_bev (the_live out) s) ev \<and>
     pump_possible ss (tabulated (socket_event ss True (the_live out) s ev)) evs"

fun pump_sent :: "'p relay_subsys \<Rightarrow> 'p redsocks_client outcome \<Rightarrow> (side \<times> sock_event) list \<Rightarrow> side \<Rightarrow> bytes" where
  "pump_sent ss out [] t = []"
| "pump_sent ss out ((s, ev) # evs) t =
     (if s = t then sent (rc_bev (the_live out) s) ev else []) @ pump_sent ss (tabulated (socket_event ss True (the_live out) s ev)) evs t"

fun pump_received :: "(side \<times> sock_event) list \<Rightarrow> side \<Rightarrow> bytes" where
  "pump_received [] t = []"
| "pump_received ((s, ev) # evs) t = (if s = t then received ev else []) @ pump_received evs t"

lemma is_live_the_live: "is_live out \<Longrightarrow> out = Live (the_live out)"
  by (cases out) auto

lemma event_exec_run:
  "event_run ss out0 rx0 out rx tx \<Longrightarrow> pump_possible ss out evs \<Longrightarrow>
   event_run ss out0 rx0 (pump_exec ss out evs) (\<lambda>s. rx s @ pump_received evs s) (\<lambda>s. tx s @ pump_sent ss out evs s) \<and>
   is_live (pump_exec ss out evs)"
proof (induction evs arbitrary: out rx tx)
  case (Cons e evs)
  obtain s ev where e: "e = (s, ev)" by fastforce
  define c where "c = the_live out"
  have c: "out = Live c" "event_possible (rc_bev c s) ev" "pump_possible ss (socket_event ss True c s ev) evs"
    using Cons.prems(2) is_live_the_live [of out] by (simp_all add: e c_def)
  have r: "event_run ss out0 rx0 (socket_event ss True c s ev) (rx(s := rx s @ received ev)) (tx(s := tx s @ sent (rc_bev c s) ev))"
    by (rule event_run.event [OF _ c(2)]) (use Cons.prems(1) c(1) in auto)
  have "(\<lambda>t. (rx(s := rx s @ received ev)) t @ pump_received evs t) = (\<lambda>t. rx t @ pump_received (e # evs) t)"
    "(\<lambda>t. (tx(s := tx s @ sent (rc_bev c s) ev)) t @ pump_sent ss (socket_event ss True c s ev) evs t) = (\<lambda>t. tx t @ pump_sent ss out (e # evs) t)"
    by (auto simp: e c_def)
  with Cons.IH [OF r c(3)] show ?case by (simp add: e c_def)
qed simp

definition demo_run :: "(side \<times> sock_event) list \<Rightarrow> unit redsocks_client" where
  "demo_run evs = the_live (pump_exec demo_subsys (redsocks_start_relay demo_subsys demo_client) evs)"

lemma demo_pump_run:
  assumes "pump_possible demo_subsys (redsocks_start_relay demo_subsys demo_client) evs"
  shows "pump_run demo_subsys demo_client (Live (demo_run evs))
    (\<lambda>s. (if s = Client then [1, 2] else []) @ pump_received evs s)
    (pump_sent demo_subsys (redsocks_start_relay demo_subsys demo_client) evs)"
proof -
  have i: "bev_input (rc_bev (ss_fini demo_subsys demo_client) s) = (if s = Client then [1, 2] else [])" for s
    by (simp add: demo_subsys_def demo_client_def enable_eq)
  from event_exec_run [OF event_run.start assms, where rx0 = "\<lambda>s. bev_input (rc_bev (ss_fini demo_subsys demo_client) s)", folded pump_run_def]
  have r: "pump_run demo_subsys demo_client (pump_exec demo_subsys (redsocks_start_relay demo_subsys demo_client) evs)
      (\<lambda>s. (if s = Client then [1, 2] else []) @ pump_received evs s)
      (\<lambda>s. pump_sent demo_subsys (redsocks_start_relay demo_subsys demo_client) evs s)"
    and l: "is_live (pump_exec demo_subsys (redsocks_start_relay demo_subsys demo_client) evs)"
    unfolding i by (simp_all only: append_Nil)
  show ?thesis using r unfolding demo_run_def is_live_the_live [OF l, symmetric] .
qed

lemma demo_ready: "pump_ready (ss_fini demo_subsys demo_client)"
proof -
  have "bev_inv (rc_bev demo_client s)" "bev_enabled_wr (rc_bev demo_client s)" for s
  proof -
    define x where "x = (if s = Client then [1, 2] else [] :: bytes)"
    have "bev_inv (bufferevent_new\<lparr>bev_input := x\<rparr>)" by (simp add: bev_inv_def bufferevent_new_def)
    then have "bev_inv (bufferevent_enable (bufferevent_new\<lparr>bev_input := x\<rparr>) True False)" by (rule bev_inv_enable)
    moreover have b: "rc_bev demo_client s = bufferevent_enable (bufferevent_new\<lparr>bev_input := x\<rparr>) True False"
      by (simp add: demo_client_def x_def)
    ultimately show "bev_inv (rc_bev demo_client s)" by (simp only: b)
    show "bev_enabled_wr (rc_bev demo_client s)" unfolding b by (simp add: enable_eq bufferevent_new_def)
  qed
  moreover have "rc_has_relay demo_client" "\<not> rc_shut_wr demo_client s" "\<not> rc_shut_rd demo_client s" for s
    by (simp_all add: demo_client_def)
  ultimately show ?thesis by (simp add: pump_ready_def demo_subsys_def)
qed

definition demo_events :: "(side \<times> sock_event) list" where
  "demo_events = [(Relay, Writable WriteRetry), (Client, Readable (ReadData [3])), (Relay, Writable (Written 3)), (Client, Readable ReadEof)]"

lemma demo_events_possible: "pump_possible demo_subsys (redsocks_start_relay demo_subsys demo_client) demo_events"
  by code_simp

lemma demo_facts: "rc_shut_wr (demo_run demo_events) Relay" "bev_input (rc_bev (demo_run demo_events) Client) = []"
  "event_possible (rc_bev (demo_run demo_events) Relay) (Readable ReadEof)" 
  by code_simp+

subsection \<open>Properties\<close>

text \<open>C1: while a connection is relayed, no byte is lost, duplicated or reordered in either direction: what has
  been written to a socket, followed by what is buffered for it, is what was waiting there when the
  relaying started followed by everything the other socket has delivered.\<close>

theorem redsocks_pump_conserves:
  assumes "pump_ready (ss_fini ss c0)" and "pump_run ss c0 (Live c) rx tx"
  shows "tx (other s) @ bev_output (rc_bev c (other s)) @ bev_input (rc_bev c s) =
     bev_output (rc_bev (ss_fini ss c0) (other s)) @ rx s"
  using pump_invD(6) [OF pump_run_live [OF assms], of s] by (simp add: dir_ok_def)

theorem redsocks_pump_conserves_witness:
  "pump_sent demo_subsys (redsocks_start_relay demo_subsys demo_client) demo_events Relay = [1, 2, 3] \<and>
   bev_output (rc_bev (demo_run demo_events) Relay) @ bev_input (rc_bev (demo_run demo_events) Client) = []"
proof -
  have "pump_sent demo_subsys (redsocks_start_relay demo_subsys demo_client) demo_events Relay @
     bev_output (rc_bev (demo_run demo_events) Relay) @ bev_input (rc_bev (demo_run demo_events) Client) =
     bev_output (rc_bev (ss_fini demo_subsys demo_client) Relay) @ [1, 2] @ pump_received demo_events Client"
    using redsocks_pump_conserves [OF demo_ready demo_pump_run [OF demo_events_possible], of Client] by simp
  moreover have "pump_received demo_events Client = [3]" "bev_output (rc_bev (ss_fini demo_subsys demo_client) Relay) = []"
    "bev_output (rc_bev (demo_run demo_events) Relay) = []" "bev_input (rc_bev (demo_run demo_events) Client) = []"
    by code_simp+
  ultimately show ?thesis by simp
qed

text \<open>C20: an end of stream is passed on only after the data: when the sending side of a socket has been shut
  down, the other socket has reported its end, nothing is left in the output, and every byte was
  written, unless nothing at all was written since the relaying started and the only bytes
  received are those that had arrived before it.\<close>

theorem redsocks_pump_delivers:
  assumes "pump_ready (ss_fini ss c0)" and "pump_run ss c0 (Live c) rx tx" and "rc_shut_wr c (other s)"
  shows "rc_shut_rd c s \<and> bev_output (rc_bev c (other s)) = [] \<and>
     (tx (other s) = bev_output (rc_bev (ss_fini ss c0) (other s)) @ rx s \<or>
      tx (other s) = bev_output (rc_bev (ss_fini ss c0) (other s)) \<and> rx s = bev_input (rc_bev (ss_fini ss c0) s))"
  using pump_invD(6) [OF pump_run_live [OF assms(1,2)], of s] assms(3) by (auto simp: dir_ok_def)

theorem redsocks_pump_delivers_witness:
  "rc_shut_wr (demo_run demo_events) Relay \<and> rc_shut_rd (demo_run demo_events) Client \<and>
   bev_output (rc_bev (demo_run demo_events) Relay) = []"
  using redsocks_pump_delivers [OF demo_ready demo_pump_run [OF demo_events_possible], of Client] demo_facts(1) by simp

text \<open>No callback of the relay touches a client that has been freed or fails an assertion, in any order
  of socket events.\<close>

theorem redsocks_pump_safe:
  assumes "pump_ready (ss_fini ss c0)" and "pump_run ss c0 (Live c) rx tx" and "event_possible (rc_bev c s) ev"
  shows "socket_event ss ok c s ev \<noteq> Fault"
  using pump_event_ok [OF pump_run_live [OF assms(1,2)] assms(3), of ss ok] by (auto simp: out_ok_def)

theorem redsocks_pump_safe_witness:
  "socket_event demo_subsys True (demo_run demo_events) Relay (Readable ReadEof) \<noteq> Fault"
  by (rule redsocks_pump_safe [OF demo_ready demo_pump_run [OF demo_events_possible] demo_facts(3)])

text \<open>C23: a relayed connection never hangs: in each direction, either the end of the stream has been passed
  on, or the socket it comes from is being read, or data or an end of stream is pending and the
  socket it goes to is being written.\<close>

theorem redsocks_pump_live:
  assumes "pump_ready (ss_fini ss c0)" and "pump_run ss c0 (Live c) rx tx"
  shows "rc_shut_wr c (other s) \<or> bev_ev_read (rc_bev c s) \<or> bev_ev_write (rc_bev c (other s))"
proof -
  note inv = pump_run_live [OF assms]
  have d: "dir_ok (bev_output (rc_bev (ss_fini ss c0) (other s))) (bev_input (rc_bev (ss_fini ss c0) s)) (rx s) (tx (other s))
     (bev_input (rc_bev c s)) (bev_output (rc_bev c (other s))) (bev_enabled_rd (rc_bev c s)) (rc_shut_rd c s)
     (rc_shut_wr c (other s)) (bev_ev_write (rc_bev c (other s)))"
    using pump_invD(6) [OF inv, of s] by simp
  have p: "pump_bev (rc_bev c s) (rc_shut_wr c s)" "pump_bev (rc_bev c (other s)) (rc_shut_wr c (other s))"
    using pump_invD(5) [OF inv] by simp_all
  show ?thesis
  proof (cases "bev_enabled_rd (rc_bev c s)")
    case True
    then have "bev_ev_read (rc_bev c s) \<or> bev_input (rc_bev c s) \<noteq> []"
      using p(1) halfbuff_pos by (auto simp: pump_bev_def bev_inv_def)
    then show ?thesis using d by (auto simp: dir_ok_def)
  next
    case False
    then show ?thesis using d p unfolding dir_ok_def pump_bev_def bev_inv_def by blast
  qed
qed

theorem redsocks_pump_live_witness:
  "bev_ev_read (rc_bev (demo_run demo_events) Relay) \<or> bev_ev_write (rc_bev (demo_run demo_events) Client)"
proof -
  have "\<not> rc_shut_wr (demo_run demo_events) Client" by code_simp
  then show ?thesis
    using redsocks_pump_live [OF demo_ready demo_pump_run [OF demo_events_possible], of Relay] by simp
qed

text \<open>The memory a relayed connection takes is bounded: beyond what had arrived before the relaying started,
  an input buffer never holds more than 4096 bytes and an output buffer never more than 8192.\<close>

theorem redsocks_pump_bounded:
  assumes "pump_ready (ss_fini ss c0)" and "pump_run ss c0 (Live c) rx tx"
  shows "length (bev_input (rc_bev c s)) \<le> max 4096 (length (bev_input (rc_bev (ss_fini ss c0) s))) \<and>
     length (bev_output (rc_bev c (other s))) \<le>
       max (length (bev_output (rc_bev (ss_fini ss c0) (other s)))) (4096 + max 4096 (length (bev_input (rc_bev (ss_fini ss c0) s))))"
  using pump_invD(6) [OF pump_run_live [OF assms], of s] by (simp add: dir_ok_def dir_len_def REDSOCKS_RELAY_HALFBUFF_def)

theorem redsocks_pump_bounded_witness:
  "length (bev_input (rc_bev (demo_run demo_events) Client)) \<le> 4096"
proof -
  have "length (bev_input (rc_bev (ss_fini demo_subsys demo_client) Client)) = 2" by code_simp
  then show ?thesis
    using redsocks_pump_bounded [OF demo_ready demo_pump_run [OF demo_events_possible], of Client] by simp
qed

text \<open>C29: the exception of the delivery theorem does happen, and the data is lost for good: in every state of every relayed connection in which one side has
  bytes in its input that wait for the first write event of the other side, whose output is empty, an end of stream on the first side makes the code
  shut the other side for writing; then however the run goes on, the other socket is never sent a byte of what the first has delivered.\<close>

theorem redsocks_early_eof_loses_data:
  assumes "pump_ready (ss_fini ss c0)" and "pump_run ss c0 (Live c) rx tx"
    and "bev_input (rc_bev c s) \<noteq> []" and "bev_output (rc_bev c (other s)) = []"
    and "event_possible (rc_bev c s) (Readable ReadEof)" and "event_run ss (socket_event ss ok c s (Readable ReadEof)) rx out rx' tx'"
  shows "rx s = bev_input (rc_bev c s) \<and> tx (other s) @ tx' (other s) = bev_output (rc_bev (ss_fini ss c0) (other s)) \<and>
    (\<forall>c'. out = Live c' \<longrightarrow> rc_shut_wr c' (other s))"
proof -
  note inv = pump_run_live [OF assms(1,2)]
  have tx: "tx (other s) = bev_output (rc_bev (ss_fini ss c0) (other s))" "rx s = bev_input (rc_bev c s)"
    using pump_invD(6) [OF inv, of s] assms(3,4) by (auto simp: dir_ok_def)
  have "pump_run ss c0 (socket_event ss ok c s (Readable ReadEof)) (rx(s := rx s @ received (Readable ReadEof)))
      (tx(s := tx s @ sent (rc_bev c s) (Readable ReadEof)))"
    using event_run.event [OF assms(2) [unfolded pump_run_def] assms(5) refl] unfolding pump_run_def .
  then have run: "pump_run ss c0 (socket_event ss ok c s (Readable ReadEof)) rx tx" by (simp add: received_def sent_def)
  have "rc_shut_wr c' (other s)" if "socket_event ss ok c s (Readable ReadEof) = Live c'" for c'
    by (rule eof_shuts [OF inv assms(5,4) that])
  from nothing_after_shutdown [OF assms(1) run assms(6) this] tx show ?thesis by simp
qed

theorem redsocks_early_eof_loses_data_witness:
  "bev_input (rc_bev (demo_run []) Client) = [1, 2] \<and> rc_shut_wr (demo_run [(Client, Readable ReadEof)]) Relay"
proof -
  have p: "pump_possible demo_subsys (redsocks_start_relay demo_subsys demo_client) []" by code_simp
  have d: "bev_input (rc_bev (demo_run []) Client) = [1, 2]" "bev_output (rc_bev (demo_run []) (other Client)) = []"
    "event_possible (rc_bev (demo_run []) Client) (Readable ReadEof)" by code_simp+
  have "is_live (socket_event demo_subsys True (demo_run []) Client (Readable ReadEof))" by code_simp
  then have l: "socket_event demo_subsys True (demo_run []) Client (Readable ReadEof) = Live (demo_run [(Client, Readable ReadEof)])"
    by (simp add: demo_run_def is_live_the_live)
  from redsocks_early_eof_loses_data [OF demo_ready demo_pump_run [OF p] _ d(2,3) event_run.start, of True] show ?thesis
    using d(1) by (simp add: l)
qed

end
