(* ===== verification/Handshake.thy ===== *)
theory Handshake
  imports Redsocks
begin

text \<open>
  The contract between \<open>redsocks.c\<close> and a relay protocol whose replies have known lengths.  Before each reply
  the protocol sets both read watermarks to the length it expects, so its read callback runs
  when exactly the reply is in the buffer, however the network splits the stream.  The locale
  states what such a protocol promises as a machine over whole replies; the theorem is about the
  connection from the moment the proxy is being connected, through the handshake, to the relaying.
\<close>

subsection \<open>A new connection\<close>

text \<open>The client as \<open>redsocks_accept_client\<close> sets it up, up to the call of \<open>connect_relay\<close>.\<close>

definition redsocks_new_client ::
  "'p relay_subsys \<Rightarrow> redsocks_config \<Rightarrow> sockaddr_in \<Rightarrow> sockaddr_in \<Rightarrow> 'p \<Rightarrow> 'p redsocks_client" where
  "redsocks_new_client ss config clientaddr destaddr payload =
     (let c = \<lparr>rc_config = config, rc_bev = (\<lambda>s. bufferevent_new), rc_has_relay = False, rc_clientaddr = clientaddr,
               rc_destaddr = destaddr, rc_state = 0, rc_shut_rd = (\<lambda>s. False), rc_shut_wr = (\<lambda>s. False),
               rc_cbs = (\<lambda>s. CbNone), rc_payload = payload\<rparr>;
          c = ss_init ss c
      in set_bev c Client (bufferevent_enable bufferevent_new True False))"

text \<open>A connection from the moment its proxy is being connected.\<close>

definition relay_run :: "'p relay_subsys \<Rightarrow> 'p redsocks_client \<Rightarrow> 'p redsocks_client outcome \<Rightarrow>
    (side \<Rightarrow> bytes) \<Rightarrow> (side \<Rightarrow> bytes) \<Rightarrow> bool" where
  "relay_run ss c0 = event_run ss (redsocks_connect_relay True c0) (\<lambda>s. [])"

subsection \<open>Machines over whole replies\<close>

datatype 'st verdict = Go 'st bytes | Accept | Reject

datatype 'st parse = Waiting 'st bytes | Accepted bytes | Rejected

text \<open>What a machine makes of a stream, and the messages it sends.\<close>

function hs_parse :: "('st \<Rightarrow> nat) \<Rightarrow> ('st \<Rightarrow> bytes \<Rightarrow> 'st verdict) \<Rightarrow> 'st \<Rightarrow> bytes \<Rightarrow> 'st parse \<times> bytes" where
  "hs_parse need nxt st bs =
     (if need st = 0 \<or> length bs < need st then (Waiting st bs, [])
      else case nxt st (take (need st) bs) of
        Reject \<Rightarrow> (Rejected, [])
      | Accept \<Rightarrow> (Accepted (drop (need st) bs), [])
      | Go st' msg \<Rightarrow> (let (p, msgs) = hs_parse need nxt st' (drop (need st) bs) in (p, msg @ msgs)))"
  by pat_completeness auto
termination
  by (relation "measure (\<lambda>(need, nxt, st, bs). length bs)") auto

declare hs_parse.simps [simp del]

lemma hs_parse_append:
  "hs_parse need nxt st bs = (p, m) \<Longrightarrow> hs_parse need nxt st (bs @ ds) =
     (case p of Waiting st' r \<Rightarrow> (let (p', m') = hs_parse need nxt st' (r @ ds) in (p', m @ m'))
      | Accepted r \<Rightarrow> (Accepted (r @ ds), m) | Rejected \<Rightarrow> (Rejected, m))"
proof (induction need nxt st bs arbitrary: p m rule: hs_parse.induct)
  case (1 need nxt st bs)
  show ?case
  proof (cases "need st = 0 \<or> length bs < need st")
    case True
    then show ?thesis using 1(2) by (auto simp: hs_parse.simps [of need nxt st bs] split: prod.splits)
  next
    case False
    then show ?thesis
    proof (cases "nxt st (take (need st) bs)")
      case (Go st' msg)
      obtain p' m' where r: "hs_parse need nxt st' (drop (need st) bs) = (p', m')" by fastforce
      note ih = 1(1) [OF False Go r]
      have "p = p'" "m = msg @ m'" using 1(2) False Go r by (simp_all add: hs_parse.simps [of need nxt st bs])
      then show ?thesis
        using False Go ih by (auto simp: hs_parse.simps [of need nxt st "bs @ ds"] split: parse.splits prod.splits)
    qed (use 1(2) False in \<open>simp_all add: hs_parse.simps [of need nxt st bs] hs_parse.simps [of need nxt st "bs @ ds"]\<close>,
        (auto)?)
  qed
qed

lemma hs_parse_one:
  "0 < need st \<Longrightarrow> length bs = need st \<Longrightarrow> hs_parse need nxt st bs =
     (case nxt st bs of Reject \<Rightarrow> (Rejected, []) | Accept \<Rightarrow> (Accepted [], [])
      | Go st' msg \<Rightarrow> (let (p, msgs) = hs_parse need nxt st' [] in (p, msg @ msgs)))"
  by (cases "nxt st bs") (simp_all add: hs_parse.simps [of need nxt st bs])

lemma hs_parse_short: "length bs < need st \<Longrightarrow> hs_parse need nxt st bs = (Waiting st bs, [])"
  by (simp add: hs_parse.simps)

subsection \<open>The interface\<close>

text \<open>The relay's bufferevent after a reply of \<open>n\<close> bytes has been taken, a message sent and \<open>k\<close> bytes asked for.\<close>

definition hs_bev :: "bufferevent \<Rightarrow> nat \<Rightarrow> bytes \<Rightarrow> nat \<Rightarrow> bufferevent" where
  "hs_bev b n msg k =
     bufferevent_enable (bufferevent_setwatermark (bufferevent_write_buffer (snd (evbuffer_remove b n)) msg) True False k k) True False"

text \<open>The parts of a client the protocol may change.\<close>

definition hs_frame :: "'p redsocks_client \<Rightarrow> 'p redsocks_client \<Rightarrow> bufferevent \<Rightarrow> bool" where
  "hs_frame c c' b \<longleftrightarrow> (\<exists>state payload. c' = set_bev (c\<lparr>rc_state := state, rc_payload := payload\<rparr>) Relay b)"

text \<open>The configuration and the destination of a client never change.\<close>

definition same_config :: "'p redsocks_client \<Rightarrow> 'p redsocks_client outcome \<Rightarrow> bool" where
  "same_config c out \<longleftrightarrow> (case out of Live c' \<Rightarrow> rc_config c' = rc_config c \<and> rc_destaddr c' = rc_destaddr c | _ \<Rightarrow> True)"

locale relay_handshake =
  fixes ss :: "'p relay_subsys"
    and new :: "'p redsocks_client \<Rightarrow> bool"
    and rep :: "'p redsocks_client \<Rightarrow> 'st \<Rightarrow> bool"
    and need :: "'st \<Rightarrow> nat"
    and nxt :: "redsocks_config \<Rightarrow> sockaddr_in \<Rightarrow> 'st \<Rightarrow> bytes \<Rightarrow> 'st verdict"
    and first_state :: "redsocks_config \<Rightarrow> 'st"
    and first_msg :: "redsocks_config \<Rightarrow> sockaddr_in \<Rightarrow> bytes"
  assumes need_pos: "0 < need st"
    and rep_bev: "rep (c\<lparr>rc_bev := bevs, rc_shut_rd := sr\<rparr>) st = rep c st"
    and new_bev: "new (c\<lparr>rc_bev := bevs, rc_shut_rd := sr\<rparr>) = new c" "new (c\<lparr>rc_cbs := cbs\<rparr>) = new c"
      "new (c\<lparr>rc_has_relay := True\<rparr>) = new c"
    and init_new: "\<exists>state payload. ss_init ss c = c\<lparr>rc_state := state, rc_payload := payload\<rparr> \<and> new (ss_init ss c)"
    and fini: "ss_fini ss c = c"
    and idle: "new c \<Longrightarrow> rc_state c \<noteq> pump_active" "rep c st \<Longrightarrow> rc_state c \<noteq> pump_active"
    and config: "same_config c (ss_readcb ss c) \<and> same_config c (ss_writecb ss c)"
    and writecb_new: "new c \<Longrightarrow> \<exists>c'. ss_writecb ss c = Live c' \<and> rep c' (first_state (rc_config c)) \<and>
      hs_frame c c' (hs_bev (rc_bev c Relay) 0 (first_msg (rc_config c) (rc_destaddr c)) (need (first_state (rc_config c))))"
    and writecb: "rep c st \<Longrightarrow> ss_writecb ss c = Live c \<or>
      ss_writecb ss c = Live (set_bev c Relay (bufferevent_disable (rc_bev c Relay) False True))"
    and readcb: "rep c st \<Longrightarrow> length (bev_input (rc_bev c Relay)) = need st \<Longrightarrow>
      (case nxt (rc_config c) (rc_destaddr c) st (bev_input (rc_bev c Relay)) of
         Reject \<Rightarrow> ss_readcb ss c = Freed
       | Accept \<Rightarrow> ss_readcb ss c = redsocks_start_relay ss (set_bev c Relay (snd (evbuffer_remove (rc_bev c Relay) (need st))))
       | Go st' msg \<Rightarrow> \<exists>c'. ss_readcb ss c = Live c' \<and> rep c' st' \<and> hs_frame c c' (hs_bev (rc_bev c Relay) (need st) msg (need st')))"

subsection \<open>The helpers of \<open>redsocks.c\<close> in terms of the interface\<close>

lemma write_helper_hs_bev:
  assumes "(case mk of None \<Rightarrow> Some (Some []) | Some f \<Rightarrow> f c) = Some (Some bs)" and "rc_bev c Relay = snd (evbuffer_remove b n)"
  shows "redsocks_write_helper c mk state k = Live (set_bev (c\<lparr>rc_state := state\<rparr>) Relay (hs_bev b n bs k))"
  using assms by (cases mk)
    (simp_all add: redsocks_write_helper_def redsocks_write_helper_ex_def hs_bev_def Let_def set_bev_def bufferevent_write_buffer_def)

lemma read_expected_exact:
  assumes "length (bev_input (rc_bev c Relay)) = n" and "cmp n n"
  shows "redsocks_read_expected c cmp n =
    Some (bev_input (rc_bev c Relay), set_bev c Relay (snd (evbuffer_remove (rc_bev c Relay) n)))"
  using assms by (auto simp: redsocks_read_expected_def evbuffer_remove_def Let_def)

lemma start_relay_cong:
  "ss_fini ss c = c \<Longrightarrow> ss_fini ss' c = c \<Longrightarrow> redsocks_start_relay ss c = redsocks_start_relay ss' c"
  by (simp add: redsocks_start_relay_def)

lemma write_helper_config: "rc_config d = rc_config c \<Longrightarrow> rc_destaddr d = rc_destaddr c \<Longrightarrow> same_config c (redsocks_write_helper d mk state k)"
  by (simp add: redsocks_write_helper_def redsocks_write_helper_ex_def same_config_def Let_def split: option.split)

lemma start_relay_config: "rc_config (ss_fini ss d) = rc_config c \<Longrightarrow> rc_destaddr (ss_fini ss d) = rc_destaddr c \<Longrightarrow> same_config c (redsocks_start_relay ss d)"
  by (simp add: start_relay_eq same_config_def Let_def)

lemma read_expected_config:
  assumes "\<And>ds d. rc_config d = rc_config c \<Longrightarrow> rc_destaddr d = rc_destaddr c \<Longrightarrow> same_config c (k ds d)"
  shows "same_config c (case redsocks_read_expected c cmp n of None \<Rightarrow> Freed | Some (ds, d) \<Rightarrow> k ds d)"
  by (cases "evbuffer_remove (rc_bev c Relay) n")
    (simp add: redsocks_read_expected_def Let_def assms same_config_def [of _ Freed])

lemma same_config_out [simp]: "same_config c (Live d) \<longleftrightarrow> rc_config d = rc_config c \<and> rc_destaddr d = rc_destaddr c"
  "same_config c Freed" "same_config c Fault"
  by (simp_all add: same_config_def)

subsection \<open>The invariant of the handshake\<close>

lemma hs_bev_fields:
  assumes "bev_inv b" and "n = length (bev_input b)" and "0 < k"
  shows "bev_inv (hs_bev b n msg k)" "bev_enabled_rd (hs_bev b n msg k)"
    "bev_input (hs_bev b n msg k) = []" "bev_output (hs_bev b n msg k) = bev_output b @ msg"
    "bev_wm_read_low (hs_bev b n msg k) = k" "bev_wm_read_high (hs_bev b n msg k) = k"
    "bev_wm_write_low (hs_bev b n msg k) = bev_wm_write_low b"
proof -
  define b1 where "b1 = snd (evbuffer_remove b n)"
  have b1: "bev_inv b1" "bev_input b1 = []" "bev_output b1 = bev_output b" "bev_wm_write_low b1 = bev_wm_write_low b"
    using bev_inv_remove [OF assms(1), of n] assms(2) by (auto simp: b1_def evbuffer_remove_def)
  define b2 where "b2 = bufferevent_write_buffer b1 msg"
  have b2: "bev_inv b2" "bev_input b2 = []" "bev_output b2 = bev_output b @ msg" "bev_wm_write_low b2 = bev_wm_write_low b"
    using bev_inv_write_buffer [OF b1(1), of msg] b1 by (auto simp: b2_def bufferevent_write_buffer_def outbuf_cb_eq)
  have "hs_bev b n msg k = bufferevent_enable (bufferevent_setwatermark b2 True False k k) True False"
    by (simp add: hs_bev_def b2_def b1_def)
  note h = this
  show "bev_inv (hs_bev b n msg k)" unfolding h by (intro bev_inv_enable bev_inv_setwatermark b2(1))
  show "bev_enabled_rd (hs_bev b n msg k)"
    "bev_input (hs_bev b n msg k) = []" "bev_output (hs_bev b n msg k) = bev_output b @ msg"
    "bev_wm_read_low (hs_bev b n msg k) = k" "bev_wm_read_high (hs_bev b n msg k) = k"
    "bev_wm_write_low (hs_bev b n msg k) = bev_wm_write_low b"
    using b2(2-4) by (simp_all add: h setwatermark_eq enable_eq Let_def)
qed

text \<open>The client's side while the proxy is being talked to: its data waits in the input buffer.\<close>

definition hs_client :: "'p redsocks_client \<Rightarrow> (side \<Rightarrow> bytes) \<Rightarrow> (side \<Rightarrow> bytes) \<Rightarrow> bool" where
  "hs_client c rx tx \<longleftrightarrow> rc_cbs c Client = CbNone \<and> bev_wm_read_high (rc_bev c Client) = 0 \<and>
     bev_output (rc_bev c Client) = [] \<and> bev_input (rc_bev c Client) = rx Client \<and> tx Client = [] \<and>
     bev_wm_write_low (rc_bev c Relay) = 0"

lemma all_side: "(\<forall>s. P s) \<longleftrightarrow> P Client \<and> P Relay"
  using side_all [of P Client] by simp

lemma same_config_cong:
  "rc_config d = rc_config c \<Longrightarrow> rc_destaddr d = rc_destaddr c \<Longrightarrow> same_config c out = same_config d out"
  by (cases out) (simp_all add: same_config_def)

lemma callback_config:
  "same_config c (redsocks_shutdown c s how)"
  "same_config c (redsocks_relay_readcb c s)"
  "same_config c (redsocks_relay_writecb c s)"
proof -
  show sd: "same_config c (redsocks_shutdown c s how)" for c :: "'p redsocks_client" and s how
    by (auto simp: same_config_def redsocks_shutdown_def Let_def)
  show "same_config c (redsocks_relay_readcb c s)"
    by (simp add: same_config_def redsocks_relay_readcb_def Let_def split: prod.split)
  show "same_config c (redsocks_relay_writecb c s)"
    using sd [of c "other s" SHUT_WR] by (simp add: same_config_def redsocks_relay_writecb_def Let_def split: prod.split)
qed

lemma event_error_config: "same_config c (redsocks_event_error c s what)"
proof (cases "redsocks_shutdown c s SHUT_RD")
  case (Live c1)
  then show ?thesis
    using callback_config(1) [of c s SHUT_RD] callback_config(1) [of c1 "other s" SHUT_WR]
    by (auto simp: redsocks_event_error_def same_config_def split: outcome.splits)
qed (simp_all add: redsocks_event_error_def same_config_def)

lemma event_config:
  assumes "\<And>c. same_config c (ss_readcb ss c) \<and> same_config c (ss_writecb ss c)"
  shows "same_config c (socket_event ss ok c s ev)"
proof -
  obtain b cb where b: "bev_event (rc_bev c s) ev = (b, cb)" by fastforce
  define d where "d = set_bev c s b"
  have ev: "socket_event ss ok c s ev = redsocks_callback ss ok d s cb" by (simp add: socket_event_def b d_def)
  have cc: "same_config c out \<longleftrightarrow> same_config d out" for out by (rule same_config_cong) (simp_all add: d_def)
  have conn: "same_config d (redsocks_relay_connected ss ok d)"
    using assms [of "d\<lparr>rc_cbs := (rc_cbs d)(Relay := CbSubsys)\<rparr>"]
      same_config_cong [of "d\<lparr>rc_cbs := (rc_cbs d)(Relay := CbSubsys)\<rparr>" d]
    by (simp add: redsocks_relay_connected_def same_config_def [of _ Freed])
  have live: "same_config d (Live d)" by (simp add: same_config_def)
  show ?thesis
    unfolding ev cc redsocks_callback_def
    using assms [of d] callback_config(2) [of d s] callback_config(3) [of d "other s"] event_error_config [of d s] conn live
    by (cases cb; cases "rc_cbs d s") simp_all
qed

context relay_handshake
begin

abbreviation "parse c \<equiv> hs_parse need (nxt (rc_config c) (rc_destaddr c)) (first_state (rc_config c))"
abbreviation "greeting c \<equiv> first_msg (rc_config c) (rc_destaddr c)"

definition "connecting c rx tx \<longleftrightarrow> new c \<and> rc_cbs c Relay = CbConnecting \<and> \<not> rc_shut_rd c Relay \<and>
   \<not> bev_enabled_rd (rc_bev c Relay) \<and> bev_input (rc_bev c Relay) = [] \<and> bev_output (rc_bev c Relay) = [] \<and>
   rx Relay = [] \<and> tx Relay = []"

definition "talking c rx tx \<longleftrightarrow> rc_cbs c Relay = CbSubsys \<and>
   (\<exists>st msgs. rep c st \<and> parse c (rx Relay) = (Waiting st (bev_input (rc_bev c Relay)), msgs) \<and>
      tx Relay @ bev_output (rc_bev c Relay) = greeting c @ msgs \<and>
      bev_wm_read_low (rc_bev c Relay) = need st \<and> bev_wm_read_high (rc_bev c Relay) = need st \<and>
      length (bev_input (rc_bev c Relay)) < need st)"

definition "hs_inv c rx tx \<longleftrightarrow> pump_ready c \<and> hs_client c rx tx \<and> (connecting c rx tx \<or> talking c rx tx)"

definition "relaying c rx tx \<longleftrightarrow> (\<exists>R0 T0 msgs pre in0 rx' tx'. pump_inv pre in0 c rx' tx' \<and>
   parse c R0 = (Accepted [], msgs) \<and> rx Relay = R0 @ rx' Relay \<and> rx Client = rx' Client \<and>
   tx Relay = T0 @ tx' Relay \<and> tx Client = tx' Client \<and> T0 @ pre Client = greeting c @ msgs \<and> pre Relay = [])"

definition "run_ok out rx tx \<longleftrightarrow> (case out of Live c \<Rightarrow> hs_inv c rx tx \<or> relaying c rx tx | Freed \<Rightarrow> True | Fault \<Rightarrow> False)"

text \<open>Changes of the buffers that no callback follows.\<close>

lemma hs_frame_simps:
  assumes "hs_frame c c' b"
  shows "rc_bev c' Relay = b" "rc_bev c' Client = rc_bev c Client" "rc_config c' = rc_config c" "rc_destaddr c' = rc_destaddr c"
    "rc_has_relay c' = rc_has_relay c" "rc_shut_rd c' = rc_shut_rd c" "rc_shut_wr c' = rc_shut_wr c" "rc_cbs c' = rc_cbs c"
  using assms by (auto simp: hs_frame_def)

lemma new_set_bev: "new (set_bev c s b) = new c" and rep_set_bev: "rep (set_bev c s b) st = rep c st"
  using new_bev(1) [where c = c and bevs = "(rc_bev c)(s := b)" and sr = "rc_shut_rd c"]
    rep_bev [where c = c and bevs = "(rc_bev c)(s := b)" and sr = "rc_shut_rd c"]
  by (simp_all add: set_bev_def)

lemma pump_ready_set_bev:
  "pump_ready c \<Longrightarrow> bev_inv b \<Longrightarrow> (bev_enabled_rd b \<longrightarrow> \<not> rc_shut_rd c s) \<Longrightarrow> pump_ready (set_bev c s b)"
  by (auto simp: pump_ready_def)

text \<open>An end of stream during the handshake is only remembered.\<close>

definition "hs_eof_bev b = shut_bev (bufferevent_disable b True False) False SHUT_RD"

lemma hs_eof_bev:
  assumes "bev_inv b"
  shows "bev_inv (hs_eof_bev b)" "\<not> bev_enabled_rd (hs_eof_bev b)"
    "bev_wm_read_high (hs_eof_bev b) = bev_wm_read_high b" "bev_wm_read_low (hs_eof_bev b) = bev_wm_read_low b"
    "bev_output (hs_eof_bev b) = bev_output b" "bev_input (hs_eof_bev b) = bev_input b"
    "bev_wm_write_low (hs_eof_bev b) = bev_wm_write_low b"
  using assms by (simp_all add: hs_eof_bev_def shut_bev_def disable_eq bev_inv_def)

lemma hs_not_pump: "hs_inv c rx tx \<Longrightarrow> rc_state c \<noteq> pump_active"
  using idle by (auto simp: hs_inv_def connecting_def talking_def)

lemma hs_eof:
  assumes "hs_inv c rx tx"
  shows "redsocks_event_error (set_bev c s (bufferevent_disable (rc_bev c s) True False)) s EVENT_READING_EOF =
     Live ((set_bev c s (hs_eof_bev (rc_bev c s)))\<lparr>rc_shut_rd := (rc_shut_rd c)(s := True)\<rparr>)"
proof -
  have sw: "rc_shut_wr c = (\<lambda>s. False)" "rc_has_relay c" using assms by (auto simp: hs_inv_def pump_ready_def)
  have "redsocks_shutdown (set_bev c s (bufferevent_disable (rc_bev c s) True False)) s SHUT_RD =
     Live ((set_bev c s (hs_eof_bev (rc_bev c s)))\<lparr>rc_shut_rd := (rc_shut_rd c)(s := True)\<rparr>)"
    using sw by (simp add: shutdown_eq Let_def hs_eof_bev_def shut_both_def set_bev_def fun_upd_idem)
  then show ?thesis using hs_not_pump [OF assms] by (simp add: redsocks_event_error_def)
qed

lemma hs_inv_shut:
  assumes "hs_inv c rx tx" and "\<not> bev_enabled_rd (rc_bev c s)" and "s = Relay \<longrightarrow> \<not> connecting c rx tx"
  shows "hs_inv (c\<lparr>rc_shut_rd := (rc_shut_rd c)(s := True)\<rparr>) rx tx"
proof -
  have "new (c\<lparr>rc_shut_rd := x\<rparr>) = new c" "rep (c\<lparr>rc_shut_rd := x\<rparr>) st = rep c st" for x st
    using new_bev(1) [where c = c and bevs = "rc_bev c" and sr = x] rep_bev [where c = c and bevs = "rc_bev c" and sr = x] by simp_all
  then show ?thesis
    using assms by (cases s) (auto simp: hs_inv_def hs_client_def connecting_def talking_def pump_ready_def)
qed

lemma client_event_ok:
  assumes inv: "hs_inv c rx tx" and ev: "event_possible (rc_bev c Client) ev"
  shows "run_ok (socket_event ss ok c Client ev) (rx(Client := rx Client @ received ev)) (tx(Client := tx Client @ sent (rc_bev c Client) ev))"
proof -
  define b where "b = rc_bev c Client"
  have b: "bev_inv b" "bev_wm_read_high b = 0" "bev_output b = []" "rc_cbs c Client = CbNone"
    using inv by (auto simp: hs_inv_def hs_client_def pump_ready_def b_def)
  have st: "rc_state c \<noteq> pump_active"
    using inv idle by (auto simp: hs_inv_def connecting_def talking_def)
  have enr: "bev_enabled_rd b \<longrightarrow> \<not> rc_shut_rd c Client" using inv by (simp add: hs_inv_def pump_ready_def b_def)
  have upd: "hs_inv (set_bev c Client b') (rx(Client := bev_input b')) tx"
    if "bev_inv b'" "bev_enabled_rd b' \<longrightarrow> \<not> rc_shut_rd c Client" "bev_wm_read_high b' = 0" "bev_output b' = []" for b'
    using inv that pump_ready_set_bev [of c b' Client]
    by (auto simp: hs_inv_def hs_client_def connecting_def talking_def new_set_bev rep_set_bev)
  have rx: "bev_input b = rx Client" "rx(Client := rx Client) = rx" "tx(Client := tx Client) = tx"
    using inv by (auto simp: hs_inv_def hs_client_def b_def)
  show ?thesis
  proof (cases ev)
    case (Readable r)
    have rd: "bev_ev_read b" using ev by (simp add: event_possible_def Readable b_def)
    have en: "bev_enabled_rd b" "\<not> bev_read_suspended b" using rd b(1) by (simp_all add: bev_inv_def)
    have sr: "\<not> rc_shut_rd c Client" using inv en(1) by (auto simp: hs_inv_def pump_ready_def b_def)
    note ev_def = socket_event_def bev_event_def Readable bufferevent_readcb_def redsocks_callback_def received_def sent_def
    show ?thesis
    proof (cases r)
      case (ReadData ds)
      have "hs_inv (set_bev c Client (b\<lparr>bev_input := bev_input b @ ds\<rparr>)) (rx(Client := rx Client @ ds)) tx"
        using upd [of "b\<lparr>bev_input := bev_input b @ ds\<rparr>"] b en sr by (simp add: bev_inv_def rx(1))
      then show ?thesis
        using b en by (auto simp: ev_def ReadData input_changed_eq bufferevent_trigger_read_def run_ok_def Let_def simp flip: b_def)
    next
      case ReadEof
      have "hs_inv (set_bev c Client (hs_eof_bev b)) rx tx"
        using upd [of "hs_eof_bev b"] hs_eof_bev [OF b(1)] b rx by simp
      then have "hs_inv ((set_bev c Client (hs_eof_bev b))\<lparr>rc_shut_rd := (rc_shut_rd c)(Client := True)\<rparr>) rx tx"
        using hs_inv_shut [of "set_bev c Client (hs_eof_bev b)" rx tx Client] hs_eof_bev [OF b(1)] by simp
      then show ?thesis
        using hs_eof [OF inv, of Client] b en rx by (auto simp: ev_def ReadEof run_ok_def simp flip: b_def)
    qed (use inv b en rx in \<open>auto simp: ev_def redsocks_event_error_def run_ok_def b_def\<close>)
  next
    case (Writable w)
    have "hs_inv (set_bev c Client (b\<lparr>bev_ev_write := False\<rparr>)) rx tx"
      using upd [of "b\<lparr>bev_ev_write := False\<rparr>"] b enr rx by (simp add: bev_inv_def)
    moreover have "sent b ev = []" using b(3) by (auto simp: sent_def split: sock_event.splits write_result.splits)
    ultimately show ?thesis
      using b rx by (simp add: Writable socket_event_def bev_event_def bufferevent_writecb_def redsocks_callback_def
          received_def run_ok_def bufferevent_trigger_write_def flip: b_def)
  qed
qed

lemma relay_upd:
  assumes inv: "pump_ready c" "hs_client c rx tx" and c': "hs_frame c c' b"
    and b: "bev_inv b" "bev_enabled_rd b \<longrightarrow> \<not> rc_shut_rd c Relay" "bev_wm_write_low b = 0"
    and tx': "tx' Client = tx Client" and rx': "rx' Client = rx Client"
  shows "pump_ready c'" "hs_client c' rx' tx'"
  using assms hs_frame_simps [OF c']
  by (auto simp: pump_ready_def hs_client_def all_side)

lemma hs_frame_set_bev: "hs_frame c (set_bev c Relay b) b"
  unfolding hs_frame_def by (rule exI [of _ "rc_state c"], rule exI [of _ "rc_payload c"]) simp

lemma connecting_ok:
  assumes inv: "pump_ready c" "hs_client c rx tx" "connecting c rx tx" and ev: "event_possible (rc_bev c Relay) ev"
  shows "run_ok (socket_event ss ok c Relay ev) (rx(Relay := rx Relay @ received ev)) (tx(Relay := tx Relay @ sent (rc_bev c Relay) ev))"
proof -
  define b where "b = rc_bev c Relay"
  have b: "bev_inv b" "\<not> bev_enabled_rd b" "bev_input b = []" "bev_output b = []" "bev_wm_write_low b = 0"
    using inv by (auto simp: pump_ready_def connecting_def hs_client_def b_def)
  have k: "new c" "rc_cbs c Relay = CbConnecting" "rx Relay = []" "tx Relay = []" "\<not> rc_shut_rd c Relay"
    using inv(3) by (auto simp: connecting_def)
  have "\<not> bev_ev_read b" using b by (simp add: bev_inv_def)
  then obtain w where w: "ev = Writable w" using ev by (auto simp: event_possible_def b_def split: sock_event.splits)
  define c1 where "c1 = (set_bev c Relay (b\<lparr>bev_ev_write := False\<rparr>))\<lparr>rc_cbs := (rc_cbs c)(Relay := CbSubsys)\<rparr>"
  have sent: "sent b ev = []" "received ev = []" using b(4) by (auto simp: w sent_def received_def split: write_result.splits)
  have ev_eq: "socket_event ss ok c Relay ev = (if ok then ss_writecb ss c1 else Freed)"
    using b k unfolding w socket_event_def bev_event_def
    by (simp add: bufferevent_writecb_def bufferevent_trigger_write_def redsocks_callback_def redsocks_relay_connected_def
        c1_def flip: b_def)
  have "new c1" using k(1) unfolding c1_def new_bev(2) new_set_bev .
  then obtain c' where c': "ss_writecb ss c1 = Live c'" "rep c' (first_state (rc_config c1))"
      "hs_frame c1 c' (hs_bev (rc_bev c1 Relay) 0 (greeting c1) (need (first_state (rc_config c1))))"
    using writecb_new by blast
  define b1 where "b1 = b\<lparr>bev_ev_write := False\<rparr>"
  have b1: "bev_inv b1" "bev_input b1 = []" "bev_output b1 = []" "bev_wm_write_low b1 = 0"
    using b by (simp_all add: b1_def bev_inv_def)
  note H = hs_bev_fields [OF b1(1), of 0 "need (first_state (rc_config c))" "greeting c"]
  have c1: "rc_bev c1 Relay = b1" "rc_config c1 = rc_config c" "rc_destaddr c1 = rc_destaddr c" "rc_cbs c1 Relay = CbSubsys"
    "rc_shut_rd c1 = rc_shut_rd c"
    by (simp_all add: c1_def b1_def)
  have r1: "pump_ready c1" "hs_client c1 rx tx"
    using inv b1 b(2) by (auto simp: c1_def pump_ready_def hs_client_def b1_def)
  have h: "hs_inv c' rx tx"
  proof -
    note F = hs_frame_simps [OF c'(3)]
    have "pump_ready c'" "hs_client c' rx tx"
      using relay_upd [OF r1 c'(3), of tx rx] H b1 c1 k(5) need_pos by simp_all
    moreover have "talking c' rx tx"
      unfolding talking_def using F H b1 c1 c'(2) k(3,4) need_pos
      by (auto simp: hs_parse_short intro!: exI [of _ "first_state (rc_config c)"])
    ultimately show ?thesis by (simp add: hs_inv_def)
  qed
  show ?thesis using ev_eq c'(1) h sent by (simp add: run_ok_def flip: b_def)
qed

lemma talking_upd:
  assumes inv: "pump_ready c" "hs_client c rx tx" and c: "rc_cbs c Relay = CbSubsys"
    and c': "hs_frame c c' b" and st: "rep c' st"
    and b: "bev_inv b" "bev_enabled_rd b \<longrightarrow> \<not> rc_shut_rd c Relay" "bev_wm_write_low b = 0"
      "bev_wm_read_low b = need st" "bev_wm_read_high b = need st" "length (bev_input b) < need st"
    and p: "parse c rx' = (Waiting st (bev_input b), msgs)" and t: "tx' @ bev_output b = greeting c @ msgs"
  shows "hs_inv c' (rx(Relay := rx')) (tx(Relay := tx'))"
proof -
  note F = hs_frame_simps [OF c']
  have "pump_ready c'" "hs_client c' (rx(Relay := rx')) (tx(Relay := tx'))"
    using relay_upd [OF inv c' b(1-3), of "tx(Relay := tx')" "rx(Relay := rx')"] by simp_all
  moreover have "talking c' (rx(Relay := rx')) (tx(Relay := tx'))"
    unfolding talking_def using F c st b p t by auto
  ultimately show ?thesis by (simp add: hs_inv_def)
qed

lemma talking_read_ok:
  assumes inv: "pump_ready c" "hs_client c rx tx" and c: "rc_cbs c Relay = CbSubsys" "rep c st"
    and b: "bev_inv (rc_bev c Relay)" "bev_enabled_rd (rc_bev c Relay)"
      "length (bev_input (rc_bev c Relay)) = need st"
    and p: "parse c rx' = (let (p, m) = hs_parse need (nxt (rc_config c) (rc_destaddr c)) st (bev_input (rc_bev c Relay)) in (p, msgs @ m))"
    and t: "tx Relay @ bev_output (rc_bev c Relay) = greeting c @ msgs"
  shows "run_ok (ss_readcb ss c) (rx(Relay := rx')) tx"
proof -
  have sr: "\<not> rc_shut_rd c Relay" "bev_wm_write_low (rc_bev c Relay) = 0"
    using inv b(2) by (auto simp: pump_ready_def hs_client_def)
  have tx: "tx(Relay := tx Relay) = tx" by simp
  note one = hs_parse_one [where need = need and nxt = "nxt (rc_config c) (rc_destaddr c)", OF need_pos [of st] b(3)]
  show ?thesis
  proof (cases "nxt (rc_config c) (rc_destaddr c) st (bev_input (rc_bev c Relay))")
    case (Go st' msg)
    obtain c' where c': "ss_readcb ss c = Live c'" "rep c' st'" "hs_frame c c' (hs_bev (rc_bev c Relay) (need st) msg (need st'))"
      using readcb [OF c(2) b(3)] Go by auto
    note H = hs_bev_fields [OF b(1) b(3) [symmetric] need_pos [of st'], of msg]
    have "parse c rx' = (Waiting st' [], msgs @ msg)"
      unfolding p one Go by (simp add: hs_parse_short need_pos)
    from talking_upd [OF inv c(1) c'(3,2) H(1) _ _ H(5,6) _ this [folded H(3)], where tx' = "tx Relay"] H sr t c'(1) need_pos
    show ?thesis unfolding tx by (simp add: run_ok_def)
  next
    case Accept
    define b2 where "b2 = snd (evbuffer_remove (rc_bev c Relay) (need st))"
    have b2: "bev_inv b2" "bev_input b2 = []" "bev_output b2 = bev_output (rc_bev c Relay)"
      using bev_inv_remove [OF b(1), of "need st"] b(3) by (auto simp: b2_def evbuffer_remove_def)
    define c2 where "c2 = set_bev c Relay b2"
    have rd: "pump_ready (ss_fini ss c2)" using inv(1) b2 sr by (auto simp: fini c2_def intro: pump_ready_set_bev)
    have out: "ss_readcb ss c = redsocks_start_relay ss c2" using readcb [OF c(2) b(3)] Accept by (simp add: c2_def b2_def)
    obtain c3 where c3: "redsocks_start_relay ss c2 = Live c3"
      "pump_inv (\<lambda>s. bev_output (rc_bev c2 (other s))) (\<lambda>s. bev_input (rc_bev c2 s)) c3 (\<lambda>s. bev_input (rc_bev c2 s)) (\<lambda>s. [])"
      using pump_start_inv [OF rd refl] by (auto simp: fini)
    have same: "rc_config c3 = rc_config c" "rc_destaddr c3 = rc_destaddr c"
      using c3(1) by (auto simp: start_relay_eq fini Let_def c2_def)
    have "relaying c3 (rx(Relay := rx')) tx"
      unfolding relaying_def
    proof (rule exI [of _ rx'], rule exI [of _ "tx Relay"], rule exI [of _ msgs],
        rule exI [of _ "\<lambda>s. bev_output (rc_bev c2 (other s))"], rule exI [of _ "\<lambda>s. bev_input (rc_bev c2 s)"],
        rule exI [of _ "\<lambda>s. bev_input (rc_bev c2 s)"], rule exI [of _ "\<lambda>s. []"], intro conjI)
      show "parse c3 rx' = (Accepted [], msgs)" unfolding same p one Accept by simp
      show "tx Relay @ bev_output (rc_bev c2 (other Client)) = greeting c3 @ msgs" using t by (simp add: same c2_def b2)
    qed (use c3(2) inv(2) b2 in \<open>simp_all add: c2_def hs_client_def\<close>)
    then show ?thesis by (simp add: out c3(1) run_ok_def)
  next
    case Reject
    then show ?thesis using readcb [OF c(2) b(3)] by (simp add: run_ok_def)
  qed
qed

lemma talking_ok:
  assumes inv: "pump_ready c" "hs_client c rx tx" and talk: "talking c rx tx" and ev: "event_possible (rc_bev c Relay) ev"
  shows "run_ok (socket_event ss ok c Relay ev) (rx(Relay := rx Relay @ received ev)) (tx(Relay := tx Relay @ sent (rc_bev c Relay) ev))"
proof -
  define b where "b = rc_bev c Relay"
  obtain st msgs where k: "rc_cbs c Relay = CbSubsys" "rep c st" "parse c (rx Relay) = (Waiting st (bev_input b), msgs)"
      "tx Relay @ bev_output b = greeting c @ msgs" "bev_wm_read_low b = need st" "bev_wm_read_high b = need st"
      "length (bev_input b) < need st"
    using talk by (auto simp: talking_def b_def)
  have b: "bev_inv b" "bev_enabled_rd b \<longrightarrow> \<not> rc_shut_rd c Relay" "bev_wm_write_low b = 0"
    using inv by (auto simp: pump_ready_def hs_client_def b_def)
  have hs: "hs_inv c rx tx" using inv talk by (simp add: hs_inv_def)
  have upd: "hs_inv (set_bev c Relay b') (rx(Relay := rx')) (tx(Relay := tx'))"
    if "bev_inv b'" "bev_enabled_rd b' \<longrightarrow> \<not> rc_shut_rd c Relay" "bev_wm_write_low b' = 0"
      "bev_wm_read_low b' = need st" "bev_wm_read_high b' = need st" "length (bev_input b') < need st"
      "parse c rx' = (Waiting st (bev_input b'), msgs)" "tx' @ bev_output b' = greeting c @ msgs" for b' rx' tx'
    by (rule talking_upd [OF inv k(1) hs_frame_set_bev _ that]) (simp add: rep_set_bev k(2))
  have id: "rx(Relay := rx Relay) = rx" "tx(Relay := tx Relay) = tx" by simp_all
  show ?thesis
  proof (cases ev)
    case (Readable r)
    have rd: "bev_ev_read b" "read_possible b r" using ev by (simp_all add: event_possible_def Readable b_def)
    have en: "bev_enabled_rd b" "\<not> bev_read_suspended b" using rd b(1) by (simp_all add: bev_inv_def)
    have nr: "\<not> (bev_wm_read_high b \<noteq> 0 \<and> bev_wm_read_high b \<le> length (bev_input b))" using k(6,7) by simp
    note ev_def = socket_event_def bev_event_def Readable bufferevent_readcb_def redsocks_callback_def received_def sent_def
    show ?thesis
    proof (cases r)
      case (ReadData ds)
      define b1 where "b1 = input_changed (b\<lparr>bev_input := bev_input b @ ds\<rparr>)"
      have len: "length (bev_input b @ ds) \<le> need st"
        using rd(2) k(6,7) by (auto simp: read_possible_def ReadData bev_howmuch_def)
      have b1: "bev_inv b1" "bev_enabled_rd b1" "bev_wm_write_low b1 = 0" "bev_wm_read_low b1 = need st"
        "bev_wm_read_high b1 = need st" "bev_input b1 = bev_input b @ ds" "bev_output b1 = bev_output b"
        using bev_inv_input [OF b(1)] b en k by (simp_all add: b1_def)
      have p: "parse c (rx Relay @ ds) = (let (p, m) = hs_parse need (nxt (rc_config c) (rc_destaddr c)) st (bev_input b @ ds) in (p, msgs @ m))"
        using hs_parse_append [OF k(3), of ds] by simp
      have ev_eq: "socket_event ss ok c Relay ev = (if length (bev_input b @ ds) < need st then Live (set_bev c Relay b1) else ss_readcb ss (set_bev c Relay b1))"
        using nr en k(1) b1 by (auto simp: ev_def ReadData Let_def bufferevent_trigger_read_def simp flip: b_def b1_def)
      show ?thesis
      proof (cases "length (bev_input b @ ds) < need st")
        case True
        then have "parse c (rx Relay @ ds) = (Waiting st (bev_input b1), msgs)" by (simp add: p hs_parse_short b1)
        with upd [of b1 "rx Relay @ ds" "tx Relay"] b1 True k(4) b en
        show ?thesis unfolding ev_eq by (simp add: run_ok_def received_def sent_def Readable ReadData)
      next
        case False
        have fr: "pump_ready (set_bev c Relay b1)" "hs_client (set_bev c Relay b1) rx tx"
          using relay_upd [OF inv hs_frame_set_bev b1(1) _ b1(3), of tx rx] b en by simp_all
        have "run_ok (ss_readcb ss (set_bev c Relay b1)) (rx(Relay := rx Relay @ ds)) tx"
          by (rule talking_read_ok [OF fr, where st = st and msgs = msgs])
            (use b1 k len False p in \<open>simp_all add: rep_set_bev\<close>)
        then show ?thesis using False unfolding ev_eq by (simp add: received_def sent_def Readable ReadData)
      qed
    next
      case ReadEof
      have "hs_inv (set_bev c Relay (hs_eof_bev b)) rx tx"
        using upd [of "hs_eof_bev b" "rx Relay" "tx Relay"] hs_eof_bev [OF b(1)] b k unfolding id by simp
      then have "hs_inv ((set_bev c Relay (hs_eof_bev b))\<lparr>rc_shut_rd := (rc_shut_rd c)(Relay := True)\<rparr>) rx tx"
        using hs_inv_shut [of "set_bev c Relay (hs_eof_bev b)" rx tx Relay] hs_eof_bev [OF b(1)] k(1) by (simp add: connecting_def)
      then show ?thesis
        using hs_eof [OF hs, of Relay] nr en id by (auto simp: ev_def ReadEof run_ok_def simp flip: b_def)
    qed (use hs nr en id in \<open>auto simp: ev_def redsocks_event_error_def run_ok_def b_def\<close>)
  next
    case (Writable w)
    have wr: "write_possible b w" using ev by (simp add: event_possible_def Writable b_def)
    note ev_def = socket_event_def bev_event_def Writable bufferevent_writecb_def redsocks_callback_def received_def sent_def
    have wcb: "run_ok (ss_writecb ss (set_bev c Relay x)) rx (tx(Relay := tx'))"
      if x: "bev_inv x" "bev_enabled_rd x = bev_enabled_rd b" "bev_wm_write_low x = 0" "bev_wm_read_low x = need st"
        "bev_wm_read_high x = need st" "bev_input x = bev_input b" "tx' @ bev_output x = greeting c @ msgs" for x tx'
    proof -
      have "hs_inv (set_bev c Relay x) rx (tx(Relay := tx'))"
        using upd [of x "rx Relay" tx'] x b k unfolding id by simp
      moreover have "hs_inv (set_bev c Relay (bufferevent_disable x False True)) rx (tx(Relay := tx'))"
        using upd [OF bev_inv_disable [OF x(1), of False True], of "rx Relay" tx'] x b k unfolding id by (simp add: disable_eq)
      ultimately show ?thesis using writecb [of "set_bev c Relay x" st] k(2) by (auto simp: rep_set_bev run_ok_def)
    qed
    show ?thesis
    proof (cases "bev_output b = []")
      case True
      have "bev_inv (b\<lparr>bev_ev_write := False\<rparr>)" using b True by (simp add: bev_inv_def)
      then have "run_ok (ss_writecb ss (set_bev c Relay (b\<lparr>bev_ev_write := False\<rparr>))) rx tx"
        using wcb [of "b\<lparr>bev_ev_write := False\<rparr>" "tx Relay"] b k True unfolding id by simp
      moreover have "sent b ev = []" using True by (auto simp: sent_def split: sock_event.splits write_result.splits)
      ultimately show ?thesis
        using True k(1) id by (simp add: socket_event_def bev_event_def Writable bufferevent_writecb_def redsocks_callback_def
            received_def bufferevent_trigger_write_def flip: b_def)
    next
      case False
      show ?thesis
      proof (cases w)
        case (Written n)
        define b1 where "b1 = b\<lparr>bev_output := drop n (bev_output b), bev_ev_write := bev_ev_write b \<and> drop n (bev_output b) \<noteq> []\<rparr>"
        have b1: "bev_inv b1" using b False by (auto simp: b1_def bev_inv_def)
        then have "hs_inv (set_bev c Relay b1) rx (tx(Relay := tx Relay @ take n (bev_output b)))"
          using upd [of b1 "rx Relay" "tx Relay @ take n (bev_output b)"] b k unfolding id by (simp add: b1_def)
        moreover have "run_ok (ss_writecb ss (set_bev c Relay b1)) rx (tx(Relay := tx Relay @ take n (bev_output b)))"
          using wcb [OF b1, of "tx Relay @ take n (bev_output b)"] b k by (simp add: b1_def)
        moreover have "socket_event ss ok c Relay ev = (if bev_output b1 = [] then ss_writecb ss (set_bev c Relay b1) else Live (set_bev c Relay b1))"
        proof -
          have "(if bev_output (b\<lparr>bev_output := drop n (bev_output b)\<rparr>) = []
             then be_socket_disable (b\<lparr>bev_output := drop n (bev_output b)\<rparr>) False True
             else b\<lparr>bev_output := drop n (bev_output b)\<rparr>) = b1" by (cases b) (auto simp: b1_def)
          note [simp del] = be_socket_fields and eq = this
          have "bufferevent_writecb b (Written n) = (b1, if bev_output b1 = [] then WriteCb else NoCb)"
            using False b(3) unfolding bufferevent_writecb_def Let_def write_result.case eq
            by (simp add: bufferevent_trigger_write_def b1_def)
          then show ?thesis
            using k(1) by (simp add: Writable Written socket_event_def bev_event_def redsocks_callback_def flip: b_def)
        qed
        ultimately show ?thesis by (simp add: run_ok_def received_def sent_def Writable Written flip: b_def split: if_splits)
      qed (use False hs id in \<open>simp_all add: ev_def redsocks_event_error_def run_ok_def flip: b_def\<close>, simp add: b_def)
    qed
  qed
qed

lemma relaying_ok:
  assumes "relaying c rx tx" and ev: "event_possible (rc_bev c s) ev"
  shows "run_ok (socket_event ss ok c s ev) (rx(s := rx s @ received ev)) (tx(s := tx s @ sent (rc_bev c s) ev))"
proof -
  obtain R0 T0 msgs pre in0 rx' tx' where r: "pump_inv pre in0 c rx' tx'" "parse c R0 = (Accepted [], msgs)"
      "rx Relay = R0 @ rx' Relay" "rx Client = rx' Client" "tx Relay = T0 @ tx' Relay" "tx Client = tx' Client"
      "T0 @ pre Client = greeting c @ msgs" "pre Relay = []"
    using assms(1) by (auto simp: relaying_def)
  note ok = pump_event_ok [OF r(1) ev, of ss ok]
  show ?thesis
  proof (cases "socket_event ss ok c s ev")
    case (Live c')
    have "rc_config c' = rc_config c" "rc_destaddr c' = rc_destaddr c"
      using event_config [OF config, of c ok s ev] by (simp_all add: Live same_config_def)
    moreover have "pump_inv pre in0 c' (rx'(s := rx' s @ received ev)) (tx'(s := tx' s @ sent (rc_bev c s) ev))"
      using ok Live by (simp add: out_ok_def)
    ultimately have "relaying c' (rx(s := rx s @ received ev)) (tx(s := tx s @ sent (rc_bev c s) ev))"
      unfolding relaying_def using r(2-8)
      by (rule_tac exI [of _ R0], rule_tac exI [of _ T0], rule_tac exI [of _ msgs], rule_tac exI [of _ pre], rule_tac exI [of _ in0],
          rule_tac exI [of _ "rx'(s := rx' s @ received ev)"], rule_tac exI [of _ "tx'(s := tx' s @ sent (rc_bev c s) ev)"])
        (cases s; simp)
    then show ?thesis by (simp add: Live run_ok_def)
  qed (use ok in \<open>simp_all add: run_ok_def out_ok_def\<close>)
qed

lemma run_event_ok:
  assumes "hs_inv c rx tx \<or> relaying c rx tx" and ev: "event_possible (rc_bev c s) ev"
  shows "run_ok (socket_event ss ok c s ev) (rx(s := rx s @ received ev)) (tx(s := tx s @ sent (rc_bev c s) ev))"
  using assms client_event_ok [of c rx tx ev ok] connecting_ok [of c rx tx ev ok] talking_ok [of c rx tx ev ok] relaying_ok [of c rx tx s ev ok]
  by (cases s) (auto simp: hs_inv_def)

theorem relay_run_ok:
  assumes "relay_run ss (redsocks_new_client ss cfg ca da payload) out rx tx"
  shows "run_ok out rx tx"
  using assms unfolding relay_run_def
proof (induction rule: event_run.induct)
  case start
  define c0 where "c0 = \<lparr>rc_config = cfg, rc_bev = (\<lambda>s. bufferevent_new), rc_has_relay = False, rc_clientaddr = ca,
               rc_destaddr = da, rc_state = 0, rc_shut_rd = (\<lambda>s. False), rc_shut_wr = (\<lambda>s. False),
               rc_cbs = (\<lambda>s. CbNone), rc_payload = payload\<rparr>"
  obtain state p where i: "ss_init ss c0 = c0\<lparr>rc_state := state, rc_payload := p\<rparr>" "new (ss_init ss c0)"
    using init_new [of c0] by blast
  define c1 where "c1 = set_bev (ss_init ss c0) Client (bufferevent_enable bufferevent_new True False)"
  define c2 where "c2 = (set_bev c1 Relay (bufferevent_enable bufferevent_new False True))\<lparr>rc_has_relay := True\<rparr>"
  have out: "redsocks_connect_relay True (redsocks_new_client ss cfg ca da payload) = Live (c2\<lparr>rc_cbs := (rc_cbs c2)(Relay := CbConnecting)\<rparr>)"
    by (simp add: redsocks_new_client_def redsocks_connect_relay_def c0_def c1_def c2_def Let_def set_bev_def)
  have f: "rc_shut_rd (ss_init ss c0) = (\<lambda>s. False)" "rc_shut_wr (ss_init ss c0) = (\<lambda>s. False)" "rc_cbs (ss_init ss c0) = (\<lambda>s. CbNone)"
    unfolding i(1) by (simp_all add: c0_def)
  have n: "new c2" using i(2) by (simp add: c2_def new_bev(3) c1_def new_set_bev)
  have cb: "bev_inv (bufferevent_enable bufferevent_new rd wr)" for rd wr by (intro bev_inv_enable bev_inv_new)
  have "hs_inv (c2\<lparr>rc_cbs := (rc_cbs c2)(Relay := CbConnecting)\<rparr>) (\<lambda>s. []) (\<lambda>s. [])"
    using n cb unfolding hs_inv_def connecting_def pump_ready_def hs_client_def all_side
    by (simp add: new_bev(2) c2_def c1_def f enable_eq bufferevent_new_def)
  then show ?case by (simp add: out run_ok_def)
next
  case (event c rx tx s ev ok out)
  then have "hs_inv c rx tx \<or> relaying c rx tx" by (simp add: run_ok_def)
  from run_event_ok [OF this event.hyps(2)] event.hyps(3) show ?case by blast
qed

lemma relay_run_config:
  "relay_run ss (redsocks_new_client ss cfg ca da payload) out rx tx \<Longrightarrow> out = Live c \<Longrightarrow> rc_config c = cfg \<and> rc_destaddr c = da"
  unfolding relay_run_def
proof (induction arbitrary: c rule: event_run.induct)
  case start
  define c0 where "c0 = \<lparr>rc_config = cfg, rc_bev = (\<lambda>s. bufferevent_new), rc_has_relay = False, rc_clientaddr = ca,
               rc_destaddr = da, rc_state = 0, rc_shut_rd = (\<lambda>s. False), rc_shut_wr = (\<lambda>s. False),
               rc_cbs = (\<lambda>s. CbNone), rc_payload = payload\<rparr>"
  have "rc_config (ss_init ss c0) = cfg" "rc_destaddr (ss_init ss c0) = da"
    using init_new [of c0] by (auto simp: c0_def)
  with start show ?case by (auto simp: redsocks_connect_relay_def redsocks_new_client_def Let_def c0_def)
next
  case (event c1 rx tx s ev ok out)
  then show ?case using event_config [OF config, of c1 ok s ev] by (simp add: same_config_def)
qed

text \<open>The connection as a whole.\<close>

theorem relay_run_end_to_end:
  assumes "relay_run ss (redsocks_new_client ss cfg ca da payload) (Live c) rx tx" and "rc_state c = pump_active"
  shows "\<exists>msgs rest. hs_parse need (nxt cfg da) (first_state cfg) (rx Relay) = (Accepted rest, msgs) \<and>
     tx Relay @ bev_output (rc_bev c Relay) @ bev_input (rc_bev c Client) = first_msg cfg da @ msgs @ rx Client \<and>
     tx Client @ bev_output (rc_bev c Client) @ bev_input (rc_bev c Relay) = rest"
proof -
  have "hs_inv c rx tx \<or> relaying c rx tx" using relay_run_ok [OF assms(1)] by (simp add: run_ok_def)
  then have "relaying c rx tx" using hs_not_pump assms(2) by blast
  then obtain R0 T0 msgs pre in0 rx' tx' where r: "pump_inv pre in0 c rx' tx'" "parse c R0 = (Accepted [], msgs)"
      "rx Relay = R0 @ rx' Relay" "rx Client = rx' Client" "tx Relay = T0 @ tx' Relay" "tx Client = tx' Client"
      "T0 @ pre Client = greeting c @ msgs" "pre Relay = []"
    by (auto simp: relaying_def)
  have d: "tx' (other s) @ bev_output (rc_bev c (other s)) @ bev_input (rc_bev c s) = pre s @ rx' s" for s
    using pump_invD(6) [OF r(1), of s] by (simp add: dir_ok_def)
  have "parse c (rx Relay) = (Accepted (rx' Relay), msgs)" using hs_parse_append [OF r(2)] r(3) by simp
  moreover have "tx Relay @ bev_output (rc_bev c Relay) @ bev_input (rc_bev c Client) = greeting c @ msgs @ rx Client"
    using d [of Client] r(4,5,7) by (metis append.assoc other.simps(1))
  moreover have "tx Client @ bev_output (rc_bev c Client) @ bev_input (rc_bev c Relay) = rx' Relay"
    using d [of Relay] r(6,8) by simp
  ultimately show ?thesis using relay_run_config [OF assms(1) refl] by auto
qed

theorem relay_run_handshake:
  assumes "relay_run ss (redsocks_new_client ss cfg ca da payload) (Live c) rx tx" and "rc_state c \<noteq> pump_active"
  shows "tx Client = [] \<and> bev_input (rc_bev c Client) = rx Client \<and>
     (rx Relay = [] \<and> tx Relay = [] \<or>
      (\<exists>st msgs. hs_parse need (nxt cfg da) (first_state cfg) (rx Relay) = (Waiting st (bev_input (rc_bev c Relay)), msgs) \<and>
         rep c st \<and> tx Relay @ bev_output (rc_bev c Relay) = first_msg cfg da @ msgs))"
proof -
  have "hs_inv c rx tx \<or> relaying c rx tx" using relay_run_ok [OF assms(1)] by (simp add: run_ok_def)
  moreover have "\<not> relaying c rx tx" unfolding relaying_def using assms(2) pump_invD(1) [where c = c] by blast
  ultimately have "hs_inv c rx tx" by blast
  then show ?thesis using relay_run_config [OF assms(1) refl] by (auto simp: hs_inv_def hs_client_def connecting_def talking_def)
qed

theorem relay_run_safe: "\<not> relay_run ss (redsocks_new_client ss cfg ca da payload) Fault rx tx"
  using relay_run_ok [of cfg ca da payload Fault rx tx] by (auto simp: run_ok_def)

end

lemma relay_exec_run:
  assumes "pump_possible ss (redsocks_connect_relay True c) evs"
  shows "relay_run ss c (Live (the_live (pump_exec ss (redsocks_connect_relay True c) evs))) (pump_received evs)
    (pump_sent ss (redsocks_connect_relay True c) evs)"
proof -
  have r: "event_run ss (redsocks_connect_relay True c) (\<lambda>s. []) (pump_exec ss (redsocks_connect_relay True c) evs) (pump_received evs)
      (pump_sent ss (redsocks_connect_relay True c) evs)"
    and l: "is_live (pump_exec ss (redsocks_connect_relay True c) evs)"
    using event_exec_run [OF event_run.start assms, where rx0 = "\<lambda>s. []"] by simp_all
  show ?thesis using r unfolding relay_run_def is_live_the_live [OF l, symmetric] .
qed

end
