(* ===== verification/Socks4.thy ===== *)
theory Socks4
  imports Handshake
begin

text \<open>
  \<open>redsocks/socks4.c\<close>: the SOCKS4 client, as a relay subsystem with one request and one reply of 8 bytes.
  It interprets the locale \<open>relay_handshake\<close>.
\<close>

subsection \<open>The code\<close>

definition socks4_new :: int where "socks4_new = 0"
definition socks4_request_sent :: int where "socks4_request_sent = 1"
definition socks4_reply_came :: int where "socks4_reply_came = 2"

lemmas socks4_state_defs = socks4_new_def socks4_request_sent_def socks4_reply_came_def

definition socks4_ver :: byte where "socks4_ver = 4"
definition socks4_cmd_connect :: byte where "socks4_cmd_connect = 1"
definition socks4_status_ok :: byte where "socks4_status_ok = 90"
definition sizeof_socks4_reply :: nat where "sizeof_socks4_reply = 8"

lemmas socks4_const_defs = socks4_ver_def socks4_cmd_connect_def socks4_status_ok_def sizeof_socks4_reply_def

type_synonym s4_client = "unit redsocks_client"

definition socks4_client_init :: "s4_client \<Rightarrow> s4_client" where
  "socks4_client_init c = c\<lparr>rc_state := socks4_new\<rparr>"

definition socks4_mkconnect :: "s4_client \<Rightarrow> bytes option option" where
  "socks4_mkconnect c =
     (let username = (case cfg_login (rc_config c) of Some l \<Rightarrow> l | None \<Rightarrow> [])
      in Some (Some ([socks4_ver, socks4_cmd_connect] @ le16_bytes (sin_port (rc_destaddr c)) @ le32_bytes (sin_addr (rc_destaddr c))
               @ username @ [0])))"

definition socks4_subsys0 :: "(s4_client \<Rightarrow> s4_client outcome) \<Rightarrow> (s4_client \<Rightarrow> s4_client outcome) \<Rightarrow> unit relay_subsys" where
  "socks4_subsys0 readcb writecb = \<lparr>ss_readcb = readcb, ss_writecb = writecb, ss_init = socks4_client_init, ss_fini = id\<rparr>"

definition socks4_read_cb :: "s4_client \<Rightarrow> s4_client outcome" where
  "socks4_read_cb c =
     (if \<not> rc_state c \<ge> socks4_request_sent then Fault
      else if rc_state c = socks4_request_sent then
        (case redsocks_read_expected c sizes_greater_equal sizeof_socks4_reply of
           None \<Rightarrow> Freed
         | Some (reply, c) \<Rightarrow>
             let c = c\<lparr>rc_state := socks4_reply_came\<rparr> in
             if reply ! 0 \<noteq> 0 then Freed
             else if reply ! 1 = socks4_status_ok
             then redsocks_start_relay (socks4_subsys0 (\<lambda>c. Fault) (\<lambda>c. Fault)) c
             else Freed)
      else Live c)"

definition socks4_write_cb :: "s4_client \<Rightarrow> s4_client outcome" where
  "socks4_write_cb c =
     (if rc_state c = socks4_new then redsocks_write_helper c (Some socks4_mkconnect) socks4_request_sent sizeof_socks4_reply
      else if rc_state c \<ge> socks4_request_sent then Live (set_bev c Relay (bufferevent_disable (rc_bev c Relay) False True))
      else Live c)"

definition socks4_subsys :: "unit relay_subsys" where
  "socks4_subsys = socks4_subsys0 socks4_read_cb socks4_write_cb"

subsection \<open>The machine over whole replies\<close>

definition s4_request :: "redsocks_config \<Rightarrow> sockaddr_in \<Rightarrow> bytes" where
  "s4_request cfg dest =
     [4, 1] @ le16_bytes (sin_port dest) @ le32_bytes (sin_addr dest) @ (case cfg_login cfg of Some l \<Rightarrow> l | None \<Rightarrow> []) @ [0]"

definition s4_next :: "redsocks_config \<Rightarrow> sockaddr_in \<Rightarrow> unit \<Rightarrow> bytes \<Rightarrow> unit verdict" where
  "s4_next cfg dest st bs = (if bs ! 0 = 0 \<and> bs ! 1 = 90 then Accept else Reject)"

lemma socks4_config: "same_config c (socks4_read_cb c) \<and> same_config c (socks4_write_cb c)"
proof -
  have "same_config c (case redsocks_read_expected c sizes_greater_equal sizeof_socks4_reply of None \<Rightarrow> Freed
         | Some (reply, c) \<Rightarrow>
             let c = c\<lparr>rc_state := socks4_reply_came\<rparr> in
             if reply ! 0 \<noteq> 0 then Freed
             else if reply ! 1 = socks4_status_ok
             then redsocks_start_relay (socks4_subsys0 (\<lambda>c. Fault) (\<lambda>c. Fault)) c
             else Freed)"
    by (rule read_expected_config) (simp add: Let_def start_relay_config socks4_subsys0_def)
  then show ?thesis unfolding socks4_read_cb_def socks4_write_cb_def by (simp add: write_helper_config)
qed

lemma s4_frame: "hs_frame c (set_bev (c\<lparr>rc_state := st\<rparr>) Relay b) b"
  unfolding hs_frame_def by (rule exI [of _ st], rule exI [of _ "rc_payload c"]) (cases c, simp)

interpretation s4: relay_handshake socks4_subsys "\<lambda>c. rc_state c = socks4_new" "\<lambda>c st. rc_state c = socks4_request_sent"
  "\<lambda>st. 8" s4_next "\<lambda>cfg. ()" s4_request
proof
  fix c :: s4_client and st :: unit
  show "\<exists>state payload. ss_init socks4_subsys c = c\<lparr>rc_state := state, rc_payload := payload\<rparr> \<and> rc_state (ss_init socks4_subsys c) = socks4_new"
    by (rule exI [of _ socks4_new], rule exI [of _ "rc_payload c"])
      (simp add: socks4_subsys_def socks4_subsys0_def socks4_client_init_def)
  show "same_config c (ss_readcb socks4_subsys c) \<and> same_config c (ss_writecb socks4_subsys c)"
    using socks4_config [of c] by (simp add: socks4_subsys_def socks4_subsys0_def)
  show "rc_state c = socks4_request_sent \<Longrightarrow> ss_writecb socks4_subsys c = Live c \<or>
      ss_writecb socks4_subsys c = Live (set_bev c Relay (bufferevent_disable (rc_bev c Relay) False True))"
    by (simp add: socks4_subsys_def socks4_subsys0_def socks4_write_cb_def socks4_state_defs)
next
  fix c :: s4_client
  assume n: "rc_state c = socks4_new"
  have b: "rc_bev c Relay = snd (evbuffer_remove (rc_bev c Relay) 0)" by (simp add: evbuffer_remove_def)
  have "ss_writecb socks4_subsys c = Live (set_bev (c\<lparr>rc_state := socks4_request_sent\<rparr>) Relay
      (hs_bev (rc_bev c Relay) 0 (s4_request (rc_config c) (rc_destaddr c)) 8))"
    using n write_helper_hs_bev [where mk = "Some socks4_mkconnect" and c = c, OF _ b]
    by (simp add: socks4_subsys_def socks4_subsys0_def socks4_write_cb_def socks4_mkconnect_def s4_request_def Let_def socks4_const_defs)
  then show "\<exists>c'. ss_writecb socks4_subsys c = Live c' \<and> rc_state c' = socks4_request_sent \<and>
      hs_frame c c' (hs_bev (rc_bev c Relay) 0 (s4_request (rc_config c) (rc_destaddr c)) 8)"
    using s4_frame by auto
next
  fix c :: s4_client and st :: unit
  assume r: "rc_state c = socks4_request_sent" and len: "length (bev_input (rc_bev c Relay)) = 8"
  define c1 where "c1 = set_bev c Relay (snd (evbuffer_remove (rc_bev c Relay) 8))"
  have "redsocks_read_expected c sizes_greater_equal 8 = Some (bev_input (rc_bev c Relay), c1)"
    using read_expected_exact [OF len] by (simp add: sizes_greater_equal_def c1_def)
  moreover have "redsocks_start_relay (socks4_subsys0 (\<lambda>c. Fault) (\<lambda>c. Fault)) (c1\<lparr>rc_state := socks4_reply_came\<rparr>) = redsocks_start_relay socks4_subsys c1"
    by (simp add: redsocks_start_relay_def socks4_subsys_def socks4_subsys0_def)
  ultimately show "case s4_next (rc_config c) (rc_destaddr c) st (bev_input (rc_bev c Relay)) of
         Reject \<Rightarrow> ss_readcb socks4_subsys c = Freed
       | Accept \<Rightarrow> ss_readcb socks4_subsys c = redsocks_start_relay socks4_subsys (set_bev c Relay (snd (evbuffer_remove (rc_bev c Relay) 8)))
       | Go st' msg \<Rightarrow> \<exists>c'. ss_readcb socks4_subsys c = Live c' \<and> rc_state c' = socks4_request_sent \<and> hs_frame c c' (hs_bev (rc_bev c Relay) 8 msg 8)"
    using r by (simp add: s4_next_def socks4_subsys_def [THEN arg_cong, of ss_readcb] socks4_subsys0_def socks4_read_cb_def
        socks4_state_defs socks4_const_defs Let_def flip: c1_def)
qed (simp_all add: socks4_subsys_def socks4_subsys0_def socks4_state_defs pump_active_def)

subsection \<open>A run\<close>

text \<open>The proxy grants the request in two fragments and sends a byte of the server with the second one.\<close>

definition s4_demo_config :: redsocks_config where
  "s4_demo_config = \<lparr>cfg_relayaddr = \<lparr>sin_addr = 0, sin_port = 0\<rparr>, cfg_login = Some [97], cfg_password = None\<rparr>"

definition s4_demo_dest :: sockaddr_in where
  "s4_demo_dest = \<lparr>sin_addr = 0x04030201, sin_port = 0x5000\<rparr>"

definition s4_demo_start :: "s4_client outcome" where
  "s4_demo_start = redsocks_connect_relay True (redsocks_new_client socks4_subsys s4_demo_config s4_demo_dest s4_demo_dest ())"

definition s4_demo_request :: "(side \<times> sock_event) list" where
  "s4_demo_request = [(Relay, Writable WriteRetry), (Relay, Writable (Written 10)), (Client, Readable (ReadData [9])),
     (Relay, Readable (ReadData [0, 90, 0]))]"

definition s4_demo_events :: "(side \<times> sock_event) list" where
  "s4_demo_events = s4_demo_request @ [(Relay, Readable (ReadData [0, 0, 0, 0, 0])), (Relay, Readable (ReadData [72]))]"

definition s4_demo :: "(side \<times> sock_event) list \<Rightarrow> s4_client" where
  "s4_demo evs = the_live (pump_exec socks4_subsys s4_demo_start evs)"

lemma s4_demo_run:
  assumes "pump_possible socks4_subsys s4_demo_start evs"
  shows "relay_run socks4_subsys (redsocks_new_client socks4_subsys s4_demo_config s4_demo_dest s4_demo_dest ())
    (Live (s4_demo evs)) (pump_received evs) (pump_sent socks4_subsys s4_demo_start evs)"
  unfolding s4_demo_def s4_demo_start_def by (rule relay_exec_run) (use assms in \<open>simp add: s4_demo_start_def\<close>)

lemma s4_demo_possible: "pump_possible socks4_subsys s4_demo_start s4_demo_events" by code_simp

subsection \<open>Properties\<close>

text \<open>C12: a relayed SOCKS4 connection is transparent: the proxy has received one connect request for the
  original destination and then exactly the bytes of the client, and the client gets exactly the
  bytes that follow the 8 bytes of a granting reply, however the network splits them.\<close>

theorem socks4_end_to_end:
  assumes "relay_run socks4_subsys (redsocks_new_client socks4_subsys cfg ca dest ()) (Live c) rx tx"
    and "rc_state c = pump_active"
  shows "\<exists>port_addr rest. rx Relay = [0, 90] @ port_addr @ rest \<and> length port_addr = 6 \<and>
    tx Relay @ bev_output (rc_bev c Relay) @ bev_input (rc_bev c Client) = s4_request cfg dest @ rx Client \<and>
    tx Client @ bev_output (rc_bev c Client) @ bev_input (rc_bev c Relay) = rest"
proof -
  obtain msgs rest where p: "hs_parse (\<lambda>st. 8) (s4_next cfg dest) () (rx Relay) = (Accepted rest, msgs)"
      "tx Relay @ bev_output (rc_bev c Relay) @ bev_input (rc_bev c Client) = s4_request cfg dest @ msgs @ rx Client"
      "tx Client @ bev_output (rc_bev c Client) @ bev_input (rc_bev c Relay) = rest"
    using s4.relay_run_end_to_end [OF assms] by blast
  have l: "8 \<le> length (rx Relay)" and m: "msgs = []" "rest = drop 8 (rx Relay)" "take 8 (rx Relay) ! 0 = 0" "take 8 (rx Relay) ! 1 = 90"
    using p(1) by (subst (asm) hs_parse.simps, auto simp: s4_next_def split: if_splits)+
  have "rx Relay = [0, 90] @ take 6 (drop 2 (rx Relay)) @ rest"
  proof -
    obtain a b xs where x: "rx Relay = a # b # xs" using l by (auto simp: numeral_eq_Suc Suc_le_length_iff)
    show ?thesis using m by (simp add: x)
  qed
  then show ?thesis using p(2,3) m(1) l by (intro exI [of _ "take 6 (drop 2 (rx Relay))"] exI [of _ rest]) simp
qed

theorem socks4_end_to_end_witness:
  "pump_received s4_demo_events Relay = [0, 90, 0, 0, 0, 0, 0, 0, 72] \<and>
   pump_sent socks4_subsys s4_demo_start s4_demo_events Relay @ bev_output (rc_bev (s4_demo s4_demo_events) Relay) @
     bev_input (rc_bev (s4_demo s4_demo_events) Client) = [4, 1, 0, 80, 1, 2, 3, 4, 97, 0, 9]"
proof -
  have "rc_state (s4_demo s4_demo_events) = pump_active" by code_simp
  from socks4_end_to_end [OF s4_demo_run [OF s4_demo_possible] this]
  have "pump_sent socks4_subsys s4_demo_start s4_demo_events Relay @ bev_output (rc_bev (s4_demo s4_demo_events) Relay) @
      bev_input (rc_bev (s4_demo s4_demo_events) Client) = s4_request s4_demo_config s4_demo_dest @ pump_received s4_demo_events Client"
    by blast
  moreover have "s4_request s4_demo_config s4_demo_dest @ pump_received s4_demo_events Client = [4, 1, 0, 80, 1, 2, 3, 4, 97, 0, 9]"
    "pump_received s4_demo_events Relay = [0, 90, 0, 0, 0, 0, 0, 0, 72]" by code_simp+
  ultimately show ?thesis by simp
qed

text \<open>A SOCKS4 connection is safe and refuses what the proxy refuses: no callback touches a freed client or
  fails an assertion, whatever the peers send and in whatever order.\<close>

theorem socks4_safe: "\<not> relay_run socks4_subsys (redsocks_new_client socks4_subsys cfg ca dest ()) Fault rx tx"
  by (rule s4.relay_run_safe)

end
