(* ===== verification/Socks5.thy ===== *)
theory Socks5
  imports Handshake
begin

text \<open>
  \<open>redsocks/socks5.c\<close>: the SOCKS5 client (RFC 1928, RFC 1929), as a relay subsystem.  Credentials are C strings
  without their terminator.  Allocation does not fail.  The subsystem interprets the locale
  \<open>relay_handshake\<close>; \<open>s5_next\<close> is its behaviour on whole replies.
\<close>

subsection \<open>The code\<close>

definition socks5_new :: int where "socks5_new = 0"
definition socks5_method_sent :: int where "socks5_method_sent = 1"
definition socks5_auth_sent :: int where "socks5_auth_sent = 2"
definition socks5_request_sent :: int where "socks5_request_sent = 3"
definition socks5_skip_domain :: int where "socks5_skip_domain = 4"
definition socks5_skip_address :: int where "socks5_skip_address = 5"

lemmas socks5_state_defs = socks5_new_def socks5_method_sent_def socks5_auth_sent_def socks5_request_sent_def
  socks5_skip_domain_def socks5_skip_address_def

record socks5_client =
  s5_do_password :: bool
  s5_to_skip :: nat

type_synonym s5_client = "socks5_client redsocks_client"

definition socks5_ver :: byte where "socks5_ver = 5"
definition socks5_auth_none :: byte where "socks5_auth_none = 0"
definition socks5_auth_password :: byte where "socks5_auth_password = 2"
definition socks5_auth_invalid :: byte where "socks5_auth_invalid = 0xFF"
definition socks5_password_ver :: byte where "socks5_password_ver = 1"
definition socks5_password_passed :: byte where "socks5_password_passed = 0"
definition socks5_addrtype_ipv4 :: byte where "socks5_addrtype_ipv4 = 1"
definition socks5_addrtype_domain :: byte where "socks5_addrtype_domain = 3"
definition socks5_addrtype_ipv6 :: byte where "socks5_addrtype_ipv6 = 4"
definition socks5_status_succeeded :: byte where "socks5_status_succeeded = 0"
definition socks5_cmd_connect :: byte where "socks5_cmd_connect = 1"

lemmas socks5_const_defs = socks5_ver_def socks5_auth_none_def socks5_auth_password_def socks5_auth_invalid_def
  socks5_password_ver_def socks5_password_passed_def socks5_addrtype_ipv4_def socks5_addrtype_domain_def
  socks5_addrtype_ipv6_def socks5_status_succeeded_def socks5_cmd_connect_def

text \<open>Sizes of the packed structures.\<close>

definition sizeof_socks5_method_reply :: nat where "sizeof_socks5_method_reply = 2"
definition sizeof_socks5_auth_reply :: nat where "sizeof_socks5_auth_reply = 2"
definition sizeof_socks5_reply :: nat where "sizeof_socks5_reply = 4"
definition sizeof_socks5_addr_ipv4 :: nat where "sizeof_socks5_addr_ipv4 = 6"
definition sizeof_socks5_addr_ipv6 :: nat where "sizeof_socks5_addr_ipv6 = 18"

lemmas socks5_size_defs = sizeof_socks5_method_reply_def sizeof_socks5_auth_reply_def sizeof_socks5_reply_def
  sizeof_socks5_addr_ipv4_def sizeof_socks5_addr_ipv6_def

definition socks5_is_valid_cred :: "bytes option \<Rightarrow> bytes option \<Rightarrow> bool" where
  "socks5_is_valid_cred login password =
     (case (login, password) of
        (Some l, Some p) \<Rightarrow> \<not> length l > 255 \<and> \<not> length p > 255
      | _ \<Rightarrow> False)"

definition socks5_instance_init :: "redsocks_config \<Rightarrow> redsocks_config" where
  "socks5_instance_init config =
     (if cfg_login config \<noteq> None \<or> cfg_password config \<noteq> None then
        let deauth = (if cfg_login config \<noteq> None \<and> cfg_password config \<noteq> None
                      then \<not> socks5_is_valid_cred (cfg_login config) (cfg_password config) else True)
        in if deauth then config\<lparr>cfg_login := None, cfg_password := None\<rparr> else config
      else config)"

definition socks5_client_init :: "s5_client \<Rightarrow> s5_client" where
  "socks5_client_init c =
     c\<lparr>rc_state := socks5_new,
       rc_payload := (rc_payload c)\<lparr>s5_do_password := (cfg_login (rc_config c) \<noteq> None \<and> cfg_password (rc_config c) \<noteq> None)\<rparr>\<rparr>"

definition socks5_mkmethods_plain :: "bool \<Rightarrow> bytes" where
  "socks5_mkmethods_plain do_password =
     [socks5_ver, 1 + (if do_password then 1 else 0), socks5_auth_none] @ (if do_password then [socks5_auth_password] else [])"

definition socks5_mkmethods :: "s5_client \<Rightarrow> bytes option option" where
  "socks5_mkmethods c = Some (Some (socks5_mkmethods_plain (s5_do_password (rc_payload c))))"

definition socks5_mkpassword_plain :: "bytes \<Rightarrow> bytes \<Rightarrow> bytes" where
  "socks5_mkpassword_plain login password =
     [socks5_password_ver, word_of_nat (length login)] @ login @ [word_of_nat (length password)] @ password"

text \<open>Without a login or a password \<open>socks5_mkpassword\<close> fails: \<open>strlen\<close> reads a null pointer.\<close>

definition socks5_mkpassword :: "s5_client \<Rightarrow> bytes option option" where
  "socks5_mkpassword c =
     (case (cfg_login (rc_config c), cfg_password (rc_config c)) of
        (Some l, Some p) \<Rightarrow> Some (Some (socks5_mkpassword_plain l p))
      | _ \<Rightarrow> None)"

definition socks5_mkcommand_plain :: "byte \<Rightarrow> sockaddr_in \<Rightarrow> bytes" where
  "socks5_mkcommand_plain socks5_cmd destaddr =
     [socks5_ver, socks5_cmd, 0, socks5_addrtype_ipv4] @ le32_bytes (sin_addr destaddr) @ le16_bytes (sin_port destaddr)"

definition socks5_mkconnect :: "s5_client \<Rightarrow> bytes option option" where
  "socks5_mkconnect c = Some (Some (socks5_mkcommand_plain socks5_cmd_connect (rc_destaddr c)))"

definition socks5_write_cb :: "s5_client \<Rightarrow> s5_client outcome" where
  "socks5_write_cb c =
     (if rc_state c = socks5_new
      then redsocks_write_helper c (Some socks5_mkmethods) socks5_method_sent sizeof_socks5_method_reply
      else Live c)"

text \<open>\<open>socks5_is_known_auth_method\<close> returns no error message.\<close>

definition socks5_is_known_auth_method :: "byte \<Rightarrow> byte \<Rightarrow> bool \<Rightarrow> bool" where
  "socks5_is_known_auth_method ver method do_password =
     (if ver \<noteq> socks5_ver then False
      else if method = socks5_auth_invalid then False
      else if method \<noteq> socks5_auth_none \<and> \<not> (method = socks5_auth_password \<and> do_password) then False
      else True)"

definition socks5_read_auth_methods :: "s5_client \<Rightarrow> s5_client outcome" where
  "socks5_read_auth_methods c =
     (case redsocks_read_expected c sizes_equal sizeof_socks5_method_reply of
        None \<Rightarrow> Freed
      | Some (reply, c) \<Rightarrow>
          let ver = reply ! 0; method = reply ! 1 in
          if \<not> socks5_is_known_auth_method ver method (s5_do_password (rc_payload c)) then Freed
          else if method = socks5_auth_none
          then redsocks_write_helper c (Some socks5_mkconnect) socks5_request_sent sizeof_socks5_reply
          else if method = socks5_auth_password
          then redsocks_write_helper c (Some socks5_mkpassword) socks5_auth_sent sizeof_socks5_auth_reply
          else Live c)"

definition socks5_read_auth_reply :: "s5_client \<Rightarrow> s5_client outcome" where
  "socks5_read_auth_reply c =
     (case redsocks_read_expected c sizes_equal sizeof_socks5_auth_reply of
        None \<Rightarrow> Freed
      | Some (reply, c) \<Rightarrow>
          let ver = reply ! 0; status = reply ! 1 in
          if ver \<noteq> socks5_password_ver then Freed
          else if status = socks5_password_passed
          then redsocks_write_helper c (Some socks5_mkconnect) socks5_request_sent sizeof_socks5_reply
          else Freed)"

definition set_to_skip :: "s5_client \<Rightarrow> nat \<Rightarrow> s5_client" where
  "set_to_skip c n = c\<lparr>rc_payload := (rc_payload c)\<lparr>s5_to_skip := n\<rparr>\<rparr>"

definition socks5_read_reply :: "s5_client \<Rightarrow> s5_client outcome" where
  "socks5_read_reply c =
     (case redsocks_read_expected c sizes_greater_equal sizeof_socks5_reply of
        None \<Rightarrow> Freed
      | Some (reply, c) \<Rightarrow>
          let ver = reply ! 0; status = reply ! 1; addrtype = reply ! 3 in
          if ver \<noteq> socks5_ver then Freed
          else if status = socks5_status_succeeded then
            if addrtype = socks5_addrtype_ipv4
            then redsocks_write_helper (set_to_skip c sizeof_socks5_addr_ipv4) None socks5_skip_address sizeof_socks5_addr_ipv4
            else if addrtype = socks5_addrtype_ipv6
            then redsocks_write_helper (set_to_skip c sizeof_socks5_addr_ipv6) None socks5_skip_address sizeof_socks5_addr_ipv6
            else if addrtype = socks5_addrtype_domain
            then redsocks_write_helper c None socks5_skip_domain 1
            else Freed
          else Freed)"

definition socks5_subsys0 :: "(s5_client \<Rightarrow> s5_client outcome) \<Rightarrow> socks5_client relay_subsys" where
  "socks5_subsys0 readcb = \<lparr>ss_readcb = readcb, ss_writecb = socks5_write_cb, ss_init = socks5_client_init, ss_fini = id\<rparr>"

text \<open>\<open>redsocks_start_relay\<close> only calls \<open>fini\<close>, which SOCKS5 does not have.\<close>

definition socks5_read_cb :: "s5_client \<Rightarrow> s5_client outcome" where
  "socks5_read_cb c =
     (if rc_state c = socks5_method_sent then socks5_read_auth_methods c
      else if rc_state c = socks5_auth_sent then socks5_read_auth_reply c
      else if rc_state c = socks5_request_sent then socks5_read_reply c
      else if rc_state c = socks5_skip_domain then
        (case redsocks_read_expected c sizes_greater_equal 1 of
           None \<Rightarrow> Freed
         | Some (sz, c) \<Rightarrow>
             let c = set_to_skip c (unat (sz ! 0) + 2)
             in redsocks_write_helper c None socks5_skip_address (s5_to_skip (rc_payload c)))
      else if rc_state c = socks5_skip_address then
        (case redsocks_read_expected c sizes_greater_equal (s5_to_skip (rc_payload c)) of
           None \<Rightarrow> Freed
         | Some (data, c) \<Rightarrow> redsocks_start_relay (socks5_subsys0 (\<lambda>c. Fault)) c)
      else Freed)"

definition socks5_subsys :: "socks5_client relay_subsys" where
  "socks5_subsys = socks5_subsys0 socks5_read_cb"

subsection \<open>The machine over whole replies\<close>

datatype s5_spec = SMethod | SAuth | SRequest | SDomain | SAddr nat

fun s5_need :: "s5_spec \<Rightarrow> nat" where
  "s5_need SMethod = 2"
| "s5_need SAuth = 2"
| "s5_need SRequest = 4"
| "s5_need SDomain = 1"
| "s5_need (SAddr n) = n + 2"

definition s5_pw :: "redsocks_config \<Rightarrow> bool" where
  "s5_pw cfg \<longleftrightarrow> cfg_login cfg \<noteq> None \<and> cfg_password cfg \<noteq> None"

fun s5_next :: "redsocks_config \<Rightarrow> sockaddr_in \<Rightarrow> s5_spec \<Rightarrow> bytes \<Rightarrow> s5_spec verdict" where
  "s5_next cfg dest SMethod bs =
     (if bs ! 0 \<noteq> 5 then Reject
      else if bs ! 1 = 0 then Go SRequest (socks5_mkcommand_plain socks5_cmd_connect dest)
      else if bs ! 1 = 2 \<and> s5_pw cfg
      then Go SAuth (socks5_mkpassword_plain (the (cfg_login cfg)) (the (cfg_password cfg)))
      else Reject)"
| "s5_next cfg dest SAuth bs =
     (if bs ! 0 = 1 \<and> bs ! 1 = 0 then Go SRequest (socks5_mkcommand_plain socks5_cmd_connect dest) else Reject)"
| "s5_next cfg dest SRequest bs =
     (if bs ! 0 \<noteq> 5 \<or> bs ! 1 \<noteq> 0 then Reject
      else if bs ! 3 = 1 then Go (SAddr 4) []
      else if bs ! 3 = 4 then Go (SAddr 16) []
      else if bs ! 3 = 3 then Go SDomain []
      else Reject)"
| "s5_next cfg dest SDomain bs = Go (SAddr (unat (bs ! 0))) []"
| "s5_next cfg dest (SAddr n) bs = Accept"

definition s5_new :: "s5_client \<Rightarrow> bool" where
  "s5_new c \<longleftrightarrow> rc_state c = socks5_new \<and> s5_do_password (rc_payload c) = s5_pw (rc_config c)"

definition s5_rep :: "s5_client \<Rightarrow> s5_spec \<Rightarrow> bool" where
  "s5_rep c st \<longleftrightarrow> s5_do_password (rc_payload c) = s5_pw (rc_config c) \<and>
     (case st of SMethod \<Rightarrow> rc_state c = socks5_method_sent | SAuth \<Rightarrow> rc_state c = socks5_auth_sent
      | SRequest \<Rightarrow> rc_state c = socks5_request_sent | SDomain \<Rightarrow> rc_state c = socks5_skip_domain
      | SAddr n \<Rightarrow> rc_state c = socks5_skip_address \<and> s5_to_skip (rc_payload c) = n + 2)"

lemma socks5_config: "same_config c (socks5_read_cb c) \<and> same_config c (socks5_write_cb c)"
proof -
  have a: "same_config c (socks5_read_auth_methods c)"
    unfolding socks5_read_auth_methods_def by (rule read_expected_config) (simp add: Let_def write_helper_config)
  have b: "same_config c (socks5_read_auth_reply c)"
    unfolding socks5_read_auth_reply_def by (rule read_expected_config) (simp add: Let_def write_helper_config)
  have d: "same_config c (socks5_read_reply c)"
    unfolding socks5_read_reply_def by (rule read_expected_config) (simp add: Let_def write_helper_config set_to_skip_def)
  have e: "same_config c (case redsocks_read_expected c sizes_greater_equal 1 of None \<Rightarrow> Freed
      | Some (sz, c) \<Rightarrow> let c = set_to_skip c (unat (sz ! 0) + 2)
          in redsocks_write_helper c None socks5_skip_address (s5_to_skip (rc_payload c)))"
    by (rule read_expected_config) (simp add: Let_def write_helper_config set_to_skip_def)
  have f: "same_config c (case redsocks_read_expected c sizes_greater_equal (s5_to_skip (rc_payload c)) of None \<Rightarrow> Freed
      | Some (data, c) \<Rightarrow> redsocks_start_relay (socks5_subsys0 (\<lambda>c. Fault)) c)"
    by (rule read_expected_config) (simp add: start_relay_config socks5_subsys0_def)
  show ?thesis unfolding socks5_read_cb_def socks5_write_cb_def using a b d e f by (simp add: write_helper_config)
qed

interpretation s5: relay_handshake socks5_subsys s5_new s5_rep s5_need s5_next "\<lambda>cfg. SMethod"
  "\<lambda>cfg dest. socks5_mkmethods_plain (s5_pw cfg)"
proof
  fix c :: s5_client and st bevs sr cbs
  show "0 < s5_need st" by (cases st) simp_all
  show "s5_rep (c\<lparr>rc_bev := bevs, rc_shut_rd := sr\<rparr>) st = s5_rep c st" by (cases st) (simp_all add: s5_rep_def)
  show "s5_new (c\<lparr>rc_bev := bevs, rc_shut_rd := sr\<rparr>) = s5_new c" "s5_new (c\<lparr>rc_cbs := cbs\<rparr>) = s5_new c"
    "s5_new (c\<lparr>rc_has_relay := True\<rparr>) = s5_new c"
    by (simp_all add: s5_new_def)
  show "\<exists>state payload. ss_init socks5_subsys c = c\<lparr>rc_state := state, rc_payload := payload\<rparr> \<and> s5_new (ss_init socks5_subsys c)"
    by (auto simp: socks5_subsys_def socks5_subsys0_def socks5_client_init_def s5_new_def s5_pw_def)
  show "ss_fini socks5_subsys c = c" by (simp add: socks5_subsys_def socks5_subsys0_def)
  show "s5_new c \<Longrightarrow> rc_state c \<noteq> pump_active" "s5_rep c st \<Longrightarrow> rc_state c \<noteq> pump_active"
    by (auto simp: s5_new_def s5_rep_def pump_active_def socks5_state_defs split: s5_spec.splits)
  show "s5_rep c st \<Longrightarrow> ss_writecb socks5_subsys c = Live c \<or>
      ss_writecb socks5_subsys c = Live (set_bev c Relay (bufferevent_disable (rc_bev c Relay) False True))"
    by (auto simp: s5_rep_def socks5_subsys_def socks5_subsys0_def socks5_write_cb_def socks5_state_defs split: s5_spec.splits)
  show "same_config c (ss_readcb socks5_subsys c) \<and> same_config c (ss_writecb socks5_subsys c)"
    using socks5_config [of c] by (simp add: socks5_subsys_def socks5_subsys0_def)
next
  fix c :: s5_client
  assume n: "s5_new c"
  have b: "rc_bev c Relay = snd (evbuffer_remove (rc_bev c Relay) 0)" by (simp add: evbuffer_remove_def)
  have "ss_writecb socks5_subsys c = Live (set_bev (c\<lparr>rc_state := socks5_method_sent\<rparr>) Relay
      (hs_bev (rc_bev c Relay) 0 (socks5_mkmethods_plain (s5_pw (rc_config c))) 2))"
    using n write_helper_hs_bev [where mk = "Some socks5_mkmethods" and c = c, OF _ b]
    by (simp add: socks5_subsys_def socks5_subsys0_def socks5_write_cb_def s5_new_def socks5_mkmethods_def socks5_size_defs)
  then show "\<exists>c'. ss_writecb socks5_subsys c = Live c' \<and> s5_rep c' SMethod \<and>
      hs_frame c c' (hs_bev (rc_bev c Relay) 0 (socks5_mkmethods_plain (s5_pw (rc_config c))) (s5_need SMethod))"
    using n by (auto simp: s5_rep_def s5_new_def hs_frame_def intro!: exI [of _ "rc_payload c"])
next
  fix c :: s5_client and st
  assume r: "s5_rep c st" and len: "length (bev_input (rc_bev c Relay)) = s5_need st"
  define b where "b = rc_bev c Relay"
  define c1 where "c1 = set_bev c Relay (snd (evbuffer_remove b (s5_need st)))"
  have c1: "rc_bev c1 Relay = snd (evbuffer_remove b (s5_need st))" "rc_payload c1 = rc_payload c" "rc_config c1 = rc_config c"
    "rc_destaddr c1 = rc_destaddr c" by (simp_all add: c1_def)
  have eq: "redsocks_read_expected c sizes_equal (s5_need st) = Some (bev_input b, c1)"
    "redsocks_read_expected c sizes_greater_equal (s5_need st) = Some (bev_input b, c1)"
    using read_expected_exact [OF len] by (simp_all add: sizes_equal_def sizes_greater_equal_def b_def c1_def)
  have wh: "redsocks_write_helper (c1\<lparr>rc_payload := p\<rparr>) mk state k = Live (set_bev (c\<lparr>rc_state := state, rc_payload := p\<rparr>) Relay (hs_bev b (s5_need st) bs k))"
    if "(case mk of None \<Rightarrow> Some (Some []) | Some f \<Rightarrow> f (c1\<lparr>rc_payload := p\<rparr>)) = Some (Some bs)" for mk state k p bs
    using write_helper_hs_bev [OF that, of b "s5_need st" state k] by (simp add: c1 c1_def set_bev_def)
  have c1p: "c1\<lparr>rc_payload := rc_payload c\<rparr> = c1" by (simp add: c1_def set_bev_def)
  have wh_connect: "redsocks_write_helper c1 (Some socks5_mkconnect) state k =
      Live (set_bev (c\<lparr>rc_state := state\<rparr>) Relay (hs_bev b (s5_need st) (socks5_mkcommand_plain socks5_cmd_connect (rc_destaddr c)) k))" for state k
    using wh [where mk = "Some socks5_mkconnect" and p = "rc_payload c" and state = state and k = k] by (simp add: c1p socks5_mkconnect_def c1)
  have wh_pw: "redsocks_write_helper c1 (Some socks5_mkpassword) state k =
      Live (set_bev (c\<lparr>rc_state := state\<rparr>) Relay (hs_bev b (s5_need st) (socks5_mkpassword_plain (the (cfg_login (rc_config c))) (the (cfg_password (rc_config c)))) k))"
    if "s5_pw (rc_config c)" for state k
    using wh [where mk = "Some socks5_mkpassword" and p = "rc_payload c" and state = state and k = k] that
    by (auto simp: c1p socks5_mkpassword_def c1 s5_pw_def)
  have wh_none: "redsocks_write_helper c1 None state k = Live (set_bev (c\<lparr>rc_state := state\<rparr>) Relay (hs_bev b (s5_need st) [] k))" for state k
    using wh [where mk = None and p = "rc_payload c" and state = state and k = k] by (simp add: c1p)
  have wh_skip: "redsocks_write_helper (set_to_skip c1 n) None state k =
      Live (set_bev (c\<lparr>rc_state := state, rc_payload := (rc_payload c)\<lparr>s5_to_skip := n\<rparr>\<rparr>) Relay (hs_bev b (s5_need st) [] k))" for state k n
    using wh [where mk = None and p = "(rc_payload c)\<lparr>s5_to_skip := n\<rparr>" and state = state and k = k] by (simp add: set_to_skip_def c1)
  have frame: "hs_frame c (set_bev (c\<lparr>rc_state := state\<rparr>) Relay x) x" "hs_frame c (set_bev (c\<lparr>rc_state := state, rc_payload := p\<rparr>) Relay x) x" for state p x
    unfolding hs_frame_def by (rule exI [of _ state], rule exI [of _ "rc_payload c"], simp) blast
  note code = socks5_subsys_def socks5_subsys0_def socks5_read_cb_def socks5_state_defs socks5_const_defs socks5_size_defs Let_def
  note rd = eq wh_connect wh_pw wh_none wh_skip frame c1
  show "case s5_next (rc_config c) (rc_destaddr c) st (bev_input (rc_bev c Relay)) of
         Reject \<Rightarrow> ss_readcb socks5_subsys c = Freed
       | Accept \<Rightarrow> ss_readcb socks5_subsys c = redsocks_start_relay socks5_subsys (set_bev c Relay (snd (evbuffer_remove (rc_bev c Relay) (s5_need st))))
       | Go st' msg \<Rightarrow> \<exists>c'. ss_readcb socks5_subsys c = Live c' \<and> s5_rep c' st' \<and> hs_frame c c' (hs_bev (rc_bev c Relay) (s5_need st) msg (s5_need st'))"
  proof (cases st)
    case SMethod
    then have st: "rc_state c = socks5_method_sent" "s5_do_password (rc_payload c) = s5_pw (rc_config c)" using r by (simp_all add: s5_rep_def)
    have "ss_readcb socks5_subsys c = socks5_read_auth_methods c" using st by (simp add: code)
    moreover have "redsocks_read_expected c sizes_equal sizeof_socks5_method_reply = Some (bev_input b, c1)" using eq SMethod by (simp add: socks5_size_defs)
    ultimately show ?thesis
      using st rd(3,4,7) SMethod unfolding socks5_read_auth_methods_def socks5_is_known_auth_method_def b_def [symmetric]
      by (auto simp: s5_rep_def socks5_state_defs socks5_const_defs socks5_size_defs c1 Let_def)
  next
    case SAuth
    then have st: "rc_state c = socks5_auth_sent" "s5_do_password (rc_payload c) = s5_pw (rc_config c)" using r by (simp_all add: s5_rep_def)
    have "ss_readcb socks5_subsys c = socks5_read_auth_reply c" using st by (simp add: code)
    moreover have "redsocks_read_expected c sizes_equal sizeof_socks5_auth_reply = Some (bev_input b, c1)" using eq SAuth by (simp add: socks5_size_defs)
    ultimately show ?thesis
      using st rd(3,7) SAuth unfolding socks5_read_auth_reply_def b_def [symmetric]
      by (auto simp: s5_rep_def socks5_state_defs socks5_const_defs socks5_size_defs c1 Let_def)
  next
    case SRequest
    then have st: "rc_state c = socks5_request_sent" "s5_do_password (rc_payload c) = s5_pw (rc_config c)" using r by (simp_all add: s5_rep_def)
    have "ss_readcb socks5_subsys c = socks5_read_reply c" using st by (simp add: code)
    moreover have "redsocks_read_expected c sizes_greater_equal sizeof_socks5_reply = Some (bev_input b, c1)" using eq SRequest by (simp add: socks5_size_defs)
    ultimately show ?thesis
      using st rd(5-8) SRequest unfolding socks5_read_reply_def b_def [symmetric]
      by (auto simp: s5_rep_def socks5_state_defs socks5_const_defs socks5_size_defs c1 Let_def)
  next
    case SDomain
    then have st: "rc_state c = socks5_skip_domain" "s5_do_password (rc_payload c) = s5_pw (rc_config c)" using r by (simp_all add: s5_rep_def)
    then have "ss_readcb socks5_subsys c = redsocks_write_helper (set_to_skip c1 (unat (bev_input b ! 0) + 2)) None socks5_skip_address (unat (bev_input b ! 0) + 2)"
      using eq(2) SDomain by (simp add: code set_to_skip_def)
    then show ?thesis
      using st rd(6,8) SDomain unfolding b_def [symmetric] by (auto simp: s5_rep_def)
  next
    case (SAddr n)
    then have st: "rc_state c = socks5_skip_address" "s5_to_skip (rc_payload c) = s5_need st" using r by (simp_all add: s5_rep_def)
    then have "ss_readcb socks5_subsys c = redsocks_start_relay (socks5_subsys0 (\<lambda>c. Fault)) c1"
      using eq(2) by (simp add: code)
    moreover have "redsocks_start_relay (socks5_subsys0 (\<lambda>c. Fault)) c1 = redsocks_start_relay socks5_subsys c1"
      by (rule start_relay_cong) (simp_all add: socks5_subsys_def socks5_subsys0_def)
    ultimately show ?thesis using SAddr by (simp add: c1_def b_def)
  qed
qed

subsection \<open>A run\<close>

text \<open>A server without authentication answers in fragments and then sends two bytes.\<close>

definition s5_demo_config :: redsocks_config where
  "s5_demo_config = \<lparr>cfg_relayaddr = \<lparr>sin_addr = 0, sin_port = 0\<rparr>, cfg_login = None, cfg_password = None\<rparr>"

definition s5_demo_dest :: sockaddr_in where
  "s5_demo_dest = \<lparr>sin_addr = 0x04030201, sin_port = 0x5000\<rparr>"

definition s5_demo_start :: "socks5_client redsocks_client outcome" where
  "s5_demo_start = redsocks_connect_relay True (redsocks_new_client socks5_subsys s5_demo_config s5_demo_dest s5_demo_dest
     \<lparr>s5_do_password = False, s5_to_skip = 0\<rparr>)"

definition s5_demo_greeting :: "(side \<times> sock_event) list" where
  "s5_demo_greeting = [(Relay, Writable WriteRetry), (Relay, Writable (Written 3)), (Relay, Readable (ReadData [5]))]"

definition s5_demo_events :: "(side \<times> sock_event) list" where
  "s5_demo_events = s5_demo_greeting @ [(Relay, Readable (ReadData [0])), (Client, Readable (ReadData [9])),
     (Relay, Writable (Written 10)), (Relay, Readable (ReadData [5, 0, 0, 1])),
     (Relay, Readable (ReadData [127, 0, 0, 1])), (Relay, Readable (ReadData [0, 80])), (Relay, Writable WriteRetry), (Relay, Readable (ReadData [72, 73]))]"

definition s5_demo :: "(side \<times> sock_event) list \<Rightarrow> socks5_client redsocks_client" where
  "s5_demo evs = the_live (pump_exec socks5_subsys s5_demo_start evs)"

lemma s5_demo_run:
  assumes "pump_possible socks5_subsys s5_demo_start evs"
  shows "relay_run socks5_subsys (redsocks_new_client socks5_subsys s5_demo_config s5_demo_dest s5_demo_dest
     \<lparr>s5_do_password = False, s5_to_skip = 0\<rparr>) (Live (s5_demo evs)) (pump_received evs) (pump_sent socks5_subsys s5_demo_start evs)"
  unfolding s5_demo_def s5_demo_start_def by (rule relay_exec_run) (use assms in \<open>simp add: s5_demo_start_def\<close>)

lemma s5_demo_possible: "pump_possible socks5_subsys s5_demo_start s5_demo_events" by code_simp

lemma s5_demo_greeting_possible: "pump_possible socks5_subsys s5_demo_start s5_demo_greeting" by code_simp

subsection \<open>Properties\<close>

text \<open>The replies of a conforming server (RFC 1928, section 6; RFC 1929): the chosen method, if it is
  username/password the status of the subnegotiation, and the bound address of the connect reply.\<close>

definition s5_auth_dialog :: "redsocks_config \<Rightarrow> bytes \<Rightarrow> bytes \<Rightarrow> bool" where
  "s5_auth_dialog cfg replies requests \<longleftrightarrow>
     replies = [5, 0] \<and> requests = [] \<or>
     (\<exists>l p. cfg_login cfg = Some l \<and> cfg_password cfg = Some p \<and>
        replies = [5, 2, 1, 0] \<and> requests = [1, word_of_nat (length l)] @ l @ [word_of_nat (length p)] @ p)"

definition s5_bound_addr :: "bytes \<Rightarrow> bool" where
  "s5_bound_addr bs \<longleftrightarrow>
     (\<exists>a. bs = 1 # a \<and> length a = 4 + 2) \<or> (\<exists>a. bs = 4 # a \<and> length a = 16 + 2) \<or>
     (\<exists>n a. bs = 3 # n # a \<and> length a = unat n + 2)"

lemma s5_parse_addr:
  "hs_parse s5_need (s5_next cfg dest) (SAddr n) bs = (Accepted rest, msgs) \<Longrightarrow> msgs = [] \<and> (\<exists>a. bs = a @ rest \<and> length a = n + 2)"
  by (subst (asm) hs_parse.simps) (auto split: if_splits intro!: exI [of _ "take (n + 2) bs"])

lemma s5_parse_domain:
  assumes "hs_parse s5_need (s5_next cfg dest) SDomain bs = (Accepted rest, msgs)"
  shows "msgs = [] \<and> (\<exists>n a. bs = n # a @ rest \<and> length a = unat n + 2)"
proof -
  obtain n bs' where bs: "bs = n # bs'" using assms by (subst (asm) hs_parse.simps) (cases bs; auto split: if_splits)
  have "hs_parse s5_need (s5_next cfg dest) (SAddr (unat n)) bs' = (Accepted rest, msgs)"
    using assms unfolding bs by (subst (asm) hs_parse.simps) (auto split: if_splits prod.splits)
  from s5_parse_addr [OF this] show ?thesis by (auto simp: bs)
qed

lemma s5_parse_request:
  assumes "hs_parse s5_need (s5_next cfg dest) SRequest bs = (Accepted rest, msgs)"
  shows "msgs = [] \<and> (\<exists>rsv addr. bs = [5, 0, rsv] @ addr @ rest \<and> s5_bound_addr addr)"
proof -
  have "4 \<le> length bs" using assms by (subst (asm) hs_parse.simps) (auto split: if_splits)
  then obtain v st r t bs' where bs: "bs = v # st # r # t # bs'"
    by (auto simp: numeral_eq_Suc Suc_le_length_iff)
  have "v = 5 \<and> st = 0 \<and> (t = 1 \<and> hs_parse s5_need (s5_next cfg dest) (SAddr 4) bs' = (Accepted rest, msgs) \<or>
      t = 4 \<and> hs_parse s5_need (s5_next cfg dest) (SAddr 16) bs' = (Accepted rest, msgs) \<or>
      t = 3 \<and> hs_parse s5_need (s5_next cfg dest) SDomain bs' = (Accepted rest, msgs))"
    using assms unfolding bs by (subst (asm) hs_parse.simps) (auto split: if_splits prod.splits)
  then show ?thesis
    unfolding s5_bound_addr_def bs by (auto dest!: s5_parse_addr s5_parse_domain)
qed

lemma s5_parse_method:
  assumes "hs_parse s5_need (s5_next cfg dest) SMethod bs = (Accepted rest, msgs)"
  shows "\<exists>auth pw rsv addr. bs = auth @ [5, 0, rsv] @ addr @ rest \<and> s5_auth_dialog cfg auth pw \<and> s5_bound_addr addr \<and>
    msgs = pw @ socks5_mkcommand_plain socks5_cmd_connect dest"
proof -
  have "2 \<le> length bs" using assms by (subst (asm) hs_parse.simps) (auto split: if_splits)
  then obtain v m bs' where bs: "bs = v # m # bs'" by (auto simp: numeral_eq_Suc Suc_le_length_iff)
  let ?conn = "socks5_mkcommand_plain socks5_cmd_connect dest"
  consider (none) ms where "v = 5" "m = 0" "hs_parse s5_need (s5_next cfg dest) SRequest bs' = (Accepted rest, ms)" "msgs = ?conn @ ms"
    | (pw) ms where "v = 5" "m = 2" "s5_pw cfg" "hs_parse s5_need (s5_next cfg dest) SAuth bs' = (Accepted rest, ms)"
        "msgs = socks5_mkpassword_plain (the (cfg_login cfg)) (the (cfg_password cfg)) @ ms"
    using assms unfolding bs by (subst (asm) hs_parse.simps) (auto split: if_splits prod.splits)
  then show ?thesis
  proof cases
    case none
    from s5_parse_request [OF none(3)] show ?thesis
      using none by (auto simp: bs s5_auth_dialog_def intro!: exI [of _ "[5, 0]"] exI [of _ "[]"])
  next
    case pw
    have "2 \<le> length bs'" using pw(4) by (subst (asm) hs_parse.simps) (auto split: if_splits)
    then obtain v' m' bs'' where bs': "bs' = v' # m' # bs''" by (auto simp: numeral_eq_Suc Suc_le_length_iff)
    obtain ms' where v: "v' = 1" "m' = 0" "hs_parse s5_need (s5_next cfg dest) SRequest bs'' = (Accepted rest, ms')" "ms = ?conn @ ms'"
      using pw(4) unfolding bs' by (subst (asm) hs_parse.simps) (auto split: if_splits prod.splits)
    obtain rsv addr where r: "ms' = []" "bs'' = [5, 0, rsv] @ addr @ rest" "s5_bound_addr addr"
      using s5_parse_request [OF v(3)] by blast
    obtain l p where lp: "cfg_login cfg = Some l" "cfg_password cfg = Some p" using pw(3) by (auto simp: s5_pw_def)
    have "s5_auth_dialog cfg [5, 2, 1, 0] (socks5_mkpassword_plain l p)"
      using lp by (simp add: s5_auth_dialog_def socks5_mkpassword_plain_def socks5_password_ver_def)
    moreover have "bs = [5, 2, 1, 0] @ [5, 0, rsv] @ addr @ rest" using pw v r by (simp add: bs bs')
    moreover have "msgs = socks5_mkpassword_plain l p @ ?conn" using pw(5) lp v r by simp
    ultimately show ?thesis using r(3) by blast
  qed
qed

text \<open>C5: a relayed SOCKS5 connection is transparent: the proxy has received the greeting, the credentials if it
  asked for them, the connect request for the original destination and then exactly the bytes of the
  client; and the client gets exactly the bytes that follow the server's replies, whichever
  address type the server reports and however its bytes are split into packets.\<close>

theorem socks5_end_to_end:
  assumes "relay_run socks5_subsys (redsocks_new_client socks5_subsys cfg ca dest payload) (Live c) rx tx"
    and "rc_state c = pump_active"
  shows "\<exists>auth pw rsv addr rest. rx Relay = auth @ [5, 0, rsv] @ addr @ rest \<and>
    s5_auth_dialog cfg auth pw \<and> s5_bound_addr addr \<and>
    tx Relay @ bev_output (rc_bev c Relay) @ bev_input (rc_bev c Client) =
      socks5_mkmethods_plain (s5_pw cfg) @ pw @ socks5_mkcommand_plain socks5_cmd_connect dest @ rx Client \<and>
    tx Client @ bev_output (rc_bev c Client) @ bev_input (rc_bev c Relay) = rest"
  using s5.relay_run_end_to_end [OF assms] s5_parse_method by fastforce

theorem socks5_end_to_end_witness:
  "pump_received s5_demo_events Relay = [5, 0, 5, 0, 0, 1, 127, 0, 0, 1, 0, 80, 72, 73] \<and>
   bev_output (rc_bev (s5_demo s5_demo_events) Client) = [72, 73] \<and>
   bev_output (rc_bev (s5_demo s5_demo_events) Relay) = [9] \<and>
   (\<exists>auth pw. s5_auth_dialog s5_demo_config auth pw)"
proof -
  have "rc_state (s5_demo s5_demo_events) = pump_active" by code_simp
  from socks5_end_to_end [OF s5_demo_run [OF s5_demo_possible] this] have "\<exists>auth pw. s5_auth_dialog s5_demo_config auth pw" by blast
  moreover have "pump_received s5_demo_events Relay = [5, 0, 5, 0, 0, 1, 127, 0, 0, 1, 0, 80, 72, 73]"
    "bev_output (rc_bev (s5_demo s5_demo_events) Client) = [72, 73]"
    "bev_output (rc_bev (s5_demo s5_demo_events) Relay) = [9]" by code_simp+
  ultimately show ?thesis by blast
qed

text \<open>During the SOCKS5 handshake nothing is sent to the client and none of its bytes is lost or sent to the
  proxy; the proxy has received a prefix of the dialogue determined by its replies.\<close>

theorem socks5_handshake:
  assumes "relay_run socks5_subsys (redsocks_new_client socks5_subsys cfg ca dest payload) (Live c) rx tx"
    and "rc_state c \<noteq> pump_active"
  shows "tx Client = [] \<and> bev_input (rc_bev c Client) = rx Client \<and>
    (rx Relay = [] \<and> tx Relay = [] \<or>
     (\<exists>st msgs. hs_parse s5_need (s5_next cfg dest) SMethod (rx Relay) = (Waiting st (bev_input (rc_bev c Relay)), msgs) \<and>
        s5_rep c st \<and> tx Relay @ bev_output (rc_bev c Relay) = socks5_mkmethods_plain (s5_pw cfg) @ msgs))"
  using s5.relay_run_handshake [OF assms] .

theorem socks5_handshake_witness:
  "bev_input (rc_bev (s5_demo s5_demo_greeting) Relay) = [5] \<and>
   bev_input (rc_bev (s5_demo s5_demo_greeting) Client) = pump_received s5_demo_greeting Client"
proof -
  have "rc_state (s5_demo s5_demo_greeting) \<noteq> pump_active" by code_simp
  moreover have "bev_input (rc_bev (s5_demo s5_demo_greeting) Relay) = [5]" by code_simp
  ultimately show ?thesis using socks5_handshake [OF s5_demo_run [OF s5_demo_greeting_possible]] by simp
qed

text \<open>C16: whatever the proxy and the client send and in whatever order, no callback of a SOCKS5 connection
  touches a freed client, reads a null pointer or fails an assertion, from the connection to the proxy to the end; in particular the
  missing credentials of a client without a login or password are never read, even if the proxy asks for them.\<close>

theorem socks5_safe: "\<not> relay_run socks5_subsys (redsocks_new_client socks5_subsys cfg ca dest payload) Fault rx tx"
  by (rule s5.relay_run_safe)

text \<open>The username/password request of RFC 1929, read by a server.\<close>

definition s5_decode_password :: "bytes \<Rightarrow> (bytes \<times> bytes) option" where
  "s5_decode_password bs =
     (case bs of
        v # n # r \<Rightarrow>
          (case drop (unat n) r of
             m # q \<Rightarrow> if v = 1 \<and> unat n < length r \<and> length q = unat m then Some (take (unat n) r, q) else None
           | [] \<Rightarrow> None)
      | _ \<Rightarrow> None)"

text \<open>C35: credentials that survive the check at start-up are transmitted faithfully: a server decodes the
  request to exactly the configured login and password, whose lengths fit their single octets.\<close>

theorem socks5_password_roundtrip:
  assumes "cfg_login (socks5_instance_init cfg) = Some l" and "cfg_password (socks5_instance_init cfg) = Some p"
  shows "s5_decode_password (socks5_mkpassword_plain l p) = Some (l, p)"
proof -
  have "length l < 256" "length p < 256"
    using assms by (auto simp: socks5_instance_init_def socks5_is_valid_cred_def Let_def split: if_splits option.splits)
  then have "unat (word_of_nat (length l) :: byte) = length l" "unat (word_of_nat (length p) :: byte) = length p"
    by (simp_all add: unat_word_of_nat_mod)
  then show ?thesis by (simp add: s5_decode_password_def socks5_mkpassword_plain_def socks5_password_ver_def)
qed

theorem socks5_password_roundtrip_witness:
  "s5_decode_password (socks5_mkpassword_plain [97, 98] [99]) = Some ([97, 98], [99])"
proof -
  define cfg where "cfg = s5_demo_config\<lparr>cfg_login := Some [97, 98], cfg_password := Some [99]\<rparr>"
  have "socks5_instance_init cfg = cfg" by (simp add: cfg_def socks5_instance_init_def socks5_is_valid_cred_def)
  then show ?thesis using socks5_password_roundtrip [of cfg] by (simp add: cfg_def)
qed

end
