(* ===== verification/ConnPressure.thy ===== *)
theory ConnPressure
  imports Redsocks
begin

text \<open>
  \<open>redsocks/redsocks.c\<close>: the set of connections, their limit and the back-off of \<open>accept\<close>.  The state
  is that of the process: the instances with their listeners and lists of clients, the allocated
  clients, the counter \<open>redsocks_conn\<close> and the timer \<open>accept_backoff_ev\<close>.  A client is a number (its
  address); of its fields only the ones that matter here are kept.  A \<open>timeval\<close> is its number of
  microseconds: all of them are normalised, so \<open>timercmp\<close> and \<open>timersub\<close> are comparison and
  subtraction.  What system calls return during a handler is the argument \<open>sys\<close>.  A handler that would
  use a freed client or fail an assertion returns \<open>None\<close>.  Splicing is off.
\<close>

subsection \<open>The code\<close>

record rs_client =
  cl_last_event :: int
  cl_client_fd :: bool
  cl_relay_fd :: bool

record rs_instance =
  in_clients :: "nat list"
  in_listening :: bool

record redsocks_global =
  rg_instances :: "rs_instance list"
  rg_clients :: "nat \<Rightarrow> rs_client option"
  rg_conn :: u32
  rg_backoff_ms :: u32
  rg_backoff_ev :: "int option"

record base_config =
  redsocks_conn_max :: u32
  connpres_idle_timeout :: u32
  max_accept_backoff_ms :: u32

record sys_results =
  sys_touch :: int
  sys_now :: int
  sys_rand :: u32
  sys_socket :: bool
  sys_close :: "nat \<Rightarrow> side \<Rightarrow> bool"

definition listed :: "redsocks_global \<Rightarrow> nat list" where
  "listed st = concat (map in_clients (rg_instances st))"

definition listening :: "bool \<Rightarrow> redsocks_global \<Rightarrow> redsocks_global" where
  "listening on st = st\<lparr>rg_instances := map (\<lambda>i. i\<lparr>in_listening := on\<rparr>) (rg_instances st)\<rparr>"

definition accept_enable :: "redsocks_global \<Rightarrow> redsocks_global" where
  "accept_enable st = listening True st"

definition conn_pressure_lowered :: "base_config \<Rightarrow> redsocks_global \<Rightarrow> redsocks_global" where
  "conn_pressure_lowered cfg st =
     (if rg_conn st \<ge> redsocks_conn_max cfg then st
      else if rg_backoff_ev st \<noteq> None then accept_enable (st\<lparr>rg_backoff_ev := None\<rparr>)
      else st)"

definition redsocks_close :: "base_config \<Rightarrow> bool \<Rightarrow> redsocks_global \<Rightarrow> redsocks_global" where
  "redsocks_close cfg ok st = (if ok then conn_pressure_lowered cfg st else st)"

definition redsocks_bufferevent_free :: "base_config \<Rightarrow> bool \<Rightarrow> redsocks_global \<Rightarrow> redsocks_global" where
  "redsocks_bufferevent_free cfg ok st = redsocks_close cfg ok st"

definition redsocks_conn_list_del :: "base_config \<Rightarrow> redsocks_global \<Rightarrow> nat \<Rightarrow> redsocks_global" where
  "redsocks_conn_list_del cfg st c =
     (let st = (if c \<in> set (listed st)
                then st\<lparr>rg_conn := rg_conn st - 1,
                        rg_instances := map (\<lambda>i. i\<lparr>in_clients := remove1 c (in_clients i)\<rparr>) (rg_instances st)\<rparr>
                else st)
      in conn_pressure_lowered cfg st)"

definition redsocks_drop_client ::
  "base_config \<Rightarrow> sys_results \<Rightarrow> redsocks_global \<Rightarrow> nat \<Rightarrow> redsocks_global option" where
  "redsocks_drop_client cfg sys st c =
     (case rg_clients st c of
        None \<Rightarrow> None
      | Some cl \<Rightarrow>
          let st = (if cl_client_fd cl then redsocks_bufferevent_free cfg (sys_close sys c Client) st else st);
              st = (if cl_relay_fd cl then redsocks_bufferevent_free cfg (sys_close sys c Relay) st else st);
              st = redsocks_conn_list_del cfg st c
          in Some (st\<lparr>rg_clients := (rg_clients st)(c := None)\<rparr>))"

text \<open>The two nested loops run over the clients of all instances; the inner one has read the next entry
  before it drops the current one.\<close>

fun drop_idle_loop ::
  "base_config \<Rightarrow> sys_results \<Rightarrow> nat list \<Rightarrow> redsocks_global \<Rightarrow> int \<Rightarrow> (redsocks_global \<times> int) option" where
  "drop_idle_loop cfg sys [] st best_next = Some (st, best_next)"
| "drop_idle_loop cfg sys (c # cs) st best_next =
     (case rg_clients st c of
        None \<Rightarrow> None
      | Some cl \<Rightarrow>
          let max_idle = uint (connpres_idle_timeout cfg) * 1000000;
              idle = sys_now sys - cl_last_event cl
          in if idle \<le> 0 \<or> max_idle \<le> idle then
               (case redsocks_drop_client cfg sys st c of
                  None \<Rightarrow> None
                | Some st \<Rightarrow> drop_idle_loop cfg sys cs st 0)
             else
               let delay = max_idle - idle
               in drop_idle_loop cfg sys cs st (if delay < best_next then delay else best_next))"

definition drop_idle_connections ::
  "base_config \<Rightarrow> sys_results \<Rightarrow> redsocks_global \<Rightarrow> (redsocks_global \<times> int) option" where
  "drop_idle_connections cfg sys st =
     (if \<not> connpres_idle_timeout cfg > 0 then None
      else drop_idle_loop cfg sys (listed st) st (uint (connpres_idle_timeout cfg) * 1000000))"

definition conn_pressure_ongoing :: "base_config \<Rightarrow> sys_results \<Rightarrow> redsocks_global \<Rightarrow> bool" where
  "conn_pressure_ongoing cfg sys st \<longleftrightarrow> rg_conn st \<ge> redsocks_conn_max cfg \<or> \<not> sys_socket sys"

definition clamp_value :: "u32 \<Rightarrow> u32 \<Rightarrow> u32 \<Rightarrow> u32" where
  "clamp_value value min_val max_val =
     (let value = (if value < min_val then min_val else value) in if value > max_val then max_val else value)"

definition conn_pressure_backoff :: "base_config \<Rightarrow> sys_results \<Rightarrow> redsocks_global \<Rightarrow> int \<Rightarrow> redsocks_global" where
  "conn_pressure_backoff cfg sys st next =
     (let backoff = clamp_value (push_bit 1 (rg_backoff_ms st) + 1) 1 (max_accept_backoff_ms cfg);
          delay = sys_rand sys mod backoff + 1;
          tvdelay = uint (delay div 1000) * 1000000 + uint ((delay mod 1000) * 1000);
          tvdelay = (if next \<noteq> 0 \<and> next < tvdelay then next else tvdelay)
      in listening False (st\<lparr>rg_backoff_ms := backoff, rg_backoff_ev := Some tvdelay\<rparr>))"

definition conn_pressure :: "base_config \<Rightarrow> sys_results \<Rightarrow> redsocks_global \<Rightarrow> redsocks_global option" where
  "conn_pressure cfg sys st =
     (if connpres_idle_timeout cfg \<noteq> 0 then
        (case drop_idle_connections cfg sys st of
           None \<Rightarrow> None
         | Some (st, next) \<Rightarrow> if next = 0 then Some st else Some (conn_pressure_backoff cfg sys st next))
      else Some (conn_pressure_backoff cfg sys st 0))"

text \<open>The timer is not pending any more when its callback runs.\<close>

definition redsocks_accept_backoff :: "base_config \<Rightarrow> sys_results \<Rightarrow> redsocks_global \<Rightarrow> redsocks_global option" where
  "redsocks_accept_backoff cfg sys st =
     (let st = st\<lparr>rg_backoff_ev := None\<rparr> in
      if conn_pressure_ongoing cfg sys st then conn_pressure cfg sys st else Some (accept_enable st))"

definition redsocks_conn_list_add ::
  "base_config \<Rightarrow> sys_results \<Rightarrow> redsocks_global \<Rightarrow> nat \<Rightarrow> nat \<Rightarrow> redsocks_global option" where
  "redsocks_conn_list_add cfg sys st i c =
     (if c \<in> set (listed st) \<or> \<not> rg_conn st < redsocks_conn_max cfg then None
      else
        let inst = rg_instances st ! i;
            st = st\<lparr>rg_instances := (rg_instances st)[i := inst\<lparr>in_clients := c # in_clients inst\<rparr>],
                    rg_conn := rg_conn st + 1\<rparr>
        in if rg_conn st \<ge> redsocks_conn_max cfg then conn_pressure cfg sys st else Some st)"

definition redsocks_touch_client :: "redsocks_global \<Rightarrow> nat \<Rightarrow> int \<Rightarrow> redsocks_global option" where
  "redsocks_touch_client st c now =
     (case rg_clients st c of None \<Rightarrow> None
      | Some cl \<Rightarrow> Some (st\<lparr>rg_clients := (rg_clients st)(c \<mapsto> cl\<lparr>cl_last_event := now\<rparr>)\<rparr>))"

text \<open>Connecting to the proxy: it works, it fails before there is a socket, or it fails after that.\<close>

datatype connect_result = Connecting | NoSocket | ConnectFailed

definition connect_relay ::
  "base_config \<Rightarrow> sys_results \<Rightarrow> connect_result \<Rightarrow> redsocks_global \<Rightarrow> nat \<Rightarrow> redsocks_global option" where
  "connect_relay cfg sys res st c =
     (case rg_clients st c of
        None \<Rightarrow> None
      | Some cl \<Rightarrow>
          (case res of
             Connecting \<Rightarrow> Some (st\<lparr>rg_clients := (rg_clients st)(c \<mapsto> cl\<lparr>cl_relay_fd := True\<rparr>)\<rparr>)
           | NoSocket \<Rightarrow> redsocks_drop_client cfg sys st c
           | ConnectFailed \<Rightarrow> redsocks_drop_client cfg sys (redsocks_close cfg (sys_close sys c Relay) st) c))"

text \<open>How far \<open>redsocks_accept_client\<close> gets: \<open>accept\<close> fails (for lack of descriptors, or not), the socket cannot
  be set up or the client not be allocated, the client cannot get its time or its bufferevent,
  reading cannot be enabled, or everything works and the relay is connected at once or later.\<close>

datatype accept_result = AcceptFails bool | SetupFails | InitFails | EnableFails | Accepted "connect_result option"

definition redsocks_accept_client ::
  "base_config \<Rightarrow> sys_results \<Rightarrow> accept_result \<Rightarrow> redsocks_global \<Rightarrow> nat \<Rightarrow> nat \<Rightarrow> redsocks_global option" where
  "redsocks_accept_client cfg sys res st i c =
     (if \<not> rg_conn st < redsocks_conn_max cfg then None
      else case res of
        AcceptFails lack \<Rightarrow> if lack then conn_pressure cfg sys st else Some st
      | SetupFails \<Rightarrow> Some (redsocks_close cfg (sys_close sys c Client) (st\<lparr>rg_backoff_ms := 0\<rparr>))
      | InitFails \<Rightarrow>
          let cl = \<lparr>cl_last_event = sys_touch sys, cl_client_fd = False, cl_relay_fd = False\<rparr>;
              st = st\<lparr>rg_backoff_ms := 0, rg_clients := (rg_clients st)(c \<mapsto> cl)\<rparr>
          in map_option (redsocks_close cfg (sys_close sys c Client)) (redsocks_drop_client cfg sys st c)
      | _ \<Rightarrow>
          let cl = \<lparr>cl_last_event = sys_touch sys, cl_client_fd = True, cl_relay_fd = False\<rparr>;
              st = st\<lparr>rg_backoff_ms := 0, rg_clients := (rg_clients st)(c \<mapsto> cl)\<rparr>
          in case redsocks_conn_list_add cfg sys st i c of
               None \<Rightarrow> None
             | Some st \<Rightarrow>
                 if rg_clients st c = None then None
                 else case res of
                   Accepted None \<Rightarrow> Some st
                 | Accepted (Some cr) \<Rightarrow> connect_relay cfg sys cr st c
                 | _ \<Rightarrow> redsocks_drop_client cfg sys st c)"

definition redsocks_init :: "nat \<Rightarrow> redsocks_global" where
  "redsocks_init n = \<lparr>rg_instances = replicate n \<lparr>in_clients = [], in_listening = True\<rparr>, rg_clients = (\<lambda>c. None),
     rg_conn = 0, rg_backoff_ms = 0, rg_backoff_ev = None\<rparr>"

subsection \<open>Events\<close>

datatype rg_event =
    EvAccept nat nat sys_results accept_result
  | EvBackoff sys_results
  | EvTouch nat int
  | EvDrop nat sys_results
  | EvConnect nat sys_results connect_result

text \<open>A listener only fires while it is armed, the timer while it is pending, and callbacks of a client
  while it is allocated; a new client gets an address that is free.\<close>

fun rg_enabled :: "redsocks_global \<Rightarrow> rg_event \<Rightarrow> bool" where
  "rg_enabled st (EvAccept i c sys res) \<longleftrightarrow>
     i < length (rg_instances st) \<and> in_listening (rg_instances st ! i) \<and> rg_clients st c = None"
| "rg_enabled st (EvBackoff sys) \<longleftrightarrow> rg_backoff_ev st \<noteq> None"
| "rg_enabled st (EvTouch c now) \<longleftrightarrow> rg_clients st c \<noteq> None"
| "rg_enabled st (EvDrop c sys) \<longleftrightarrow> rg_clients st c \<noteq> None"
| "rg_enabled st (EvConnect c sys res) \<longleftrightarrow> (case rg_clients st c of Some cl \<Rightarrow> \<not> cl_relay_fd cl | None \<Rightarrow> False)"

fun rg_step :: "base_config \<Rightarrow> redsocks_global \<Rightarrow> rg_event \<Rightarrow> redsocks_global option" where
  "rg_step cfg st (EvAccept i c sys res) = redsocks_accept_client cfg sys res st i c"
| "rg_step cfg st (EvBackoff sys) = redsocks_accept_backoff cfg sys st"
| "rg_step cfg st (EvTouch c now) = redsocks_touch_client st c now"
| "rg_step cfg st (EvDrop c sys) = redsocks_drop_client cfg sys st c"
| "rg_step cfg st (EvConnect c sys res) = connect_relay cfg sys res st c"

inductive rg_steps :: "base_config \<Rightarrow> redsocks_global \<Rightarrow> redsocks_global \<Rightarrow> bool" for cfg st0 where
  start: "rg_steps cfg st0 st0"
| step: "rg_steps cfg st0 st \<Longrightarrow> rg_enabled st ev \<Longrightarrow> rg_step cfg st ev = Some st' \<Longrightarrow> rg_steps cfg st0 st'"

subsection \<open>Counting\<close>

lemma u32_suc: "x < y \<Longrightarrow> unat (x + 1) = unat x + 1" for x y :: u32
proof -
  assume "x < y"
  then have "unat x < unat y" by (simp add: word_less_nat_alt)
  moreover have "unat y < 2 ^ 32" using unsigned_less [of y] by simp
  ultimately have "unat x + 1 < 2 ^ 32" by linarith
  then show ?thesis by (simp add: unat_word_ariths)
qed

lemma u32_pred: "unat x = Suc n \<Longrightarrow> unat (x - 1) = n" for x :: u32
  by (metis diff_Suc_1 unat_0 nat.distinct(1) unat_minus_one)

lemma clamp_bounds: "0 < m \<Longrightarrow> 1 \<le> clamp_value v 1 m \<and> clamp_value v 1 m \<le> m" for m :: u32
  using word_less_1 [of m] by (auto simp: clamp_value_def Let_def not_less) (auto simp: word_le_nat_alt Suc_le_eq unat_gt_0 word_gt_0)

lemma concat_remove1: "distinct (concat xss) \<Longrightarrow> concat (map (remove1 c) xss) = remove1 c (concat xss)"
proof (induction xss)
  case (Cons xs xss)
  then have "remove1 c (concat xss) = concat (map (remove1 c) xss)" by simp
  moreover have "c \<in> set xs \<Longrightarrow> c \<notin> set (concat xss)" using Cons.prems by auto
  ultimately show ?case by (cases "c \<in> set xs") (auto simp: remove1_append remove1_idem)
qed simp

subsection \<open>What the operations keep\<close>

definition armed :: "redsocks_global \<Rightarrow> bool" where
  "armed st \<longleftrightarrow> (\<exists>i \<in> set (rg_instances st). in_listening i)"

text \<open>\<open>X\<close> holds a client that is allocated and not listed yet.\<close>

definition rg_core :: "base_config \<Rightarrow> nat set \<Rightarrow> redsocks_global \<Rightarrow> bool" where
  "rg_core cfg X st \<longleftrightarrow>
     distinct (listed st) \<and> {c. rg_clients st c \<noteq> None} = set (listed st) \<union> X \<and> X \<inter> set (listed st) = {} \<and>
     unat (rg_conn st) = length (listed st) \<and> length (listed st) \<le> unat (redsocks_conn_max cfg) \<and>
     (armed st \<longrightarrow> (\<forall>i \<in> set (rg_instances st). in_listening i) \<and> rg_backoff_ev st = None) \<and>
     (\<forall>d. rg_backoff_ev st = Some d \<longrightarrow> 0 < d \<and> d \<le> uint (max_accept_backoff_ms cfg) * 1000)"

text \<open>How an operation can change the listeners and the timer: not at all, or by ending a back-off.\<close>

definition resumes :: "base_config \<Rightarrow> redsocks_global \<Rightarrow> redsocks_global \<Rightarrow> bool" where
  "resumes cfg st st' \<longleftrightarrow> length (rg_instances st') = length (rg_instances st) \<and> rg_conn st' \<le> rg_conn st \<and>
     (map in_listening (rg_instances st') = map in_listening (rg_instances st) \<and> rg_backoff_ev st' = rg_backoff_ev st \<or>
      rg_backoff_ev st \<noteq> None \<and> rg_backoff_ev st' = None \<and> (\<forall>i \<in> set (rg_instances st'). in_listening i) \<and>
        rg_conn st' < redsocks_conn_max cfg)"

lemma listed_listening [simp]: "listed (listening on st) = listed st"
  by (simp add: listed_def listening_def comp_def)

lemma listening_fields [simp]:
  "rg_clients (listening on st) = rg_clients st" "rg_conn (listening on st) = rg_conn st"
  "rg_backoff_ms (listening on st) = rg_backoff_ms st" "rg_backoff_ev (listening on st) = rg_backoff_ev st"
  "length (rg_instances (listening on st)) = length (rg_instances st)"
  "(\<forall>i \<in> set (rg_instances (listening on st)). in_listening i) \<longleftrightarrow> on \<or> rg_instances st = []"
  by (auto simp: listening_def)

lemma listed_update [simp]:
  "listed (st\<lparr>rg_clients := m\<rparr>) = listed st" "listed (st\<lparr>rg_backoff_ev := e\<rparr>) = listed st"
  "listed (st\<lparr>rg_backoff_ms := b\<rparr>) = listed st" "listed (st\<lparr>rg_conn := n\<rparr>) = listed st"
  by (simp_all add: listed_def)

lemma armed_update [simp]:
  "armed (st\<lparr>rg_clients := m\<rparr>) = armed st" "armed (st\<lparr>rg_backoff_ev := e\<rparr>) = armed st"
  "armed (st\<lparr>rg_backoff_ms := b\<rparr>) = armed st" "armed (st\<lparr>rg_conn := n\<rparr>) = armed st"
  "armed (listening False st) = False"
  by (auto simp: armed_def listening_def)

lemma armed_map: "armed st \<longleftrightarrow> True \<in> set (map in_listening (rg_instances st))"
  by (auto simp: armed_def)

lemma resumes_refl: "resumes cfg st st" by (simp add: resumes_def)

lemma resumes_trans:
  assumes "resumes cfg a b" and "resumes cfg b c"
  shows "resumes cfg a c"
proof (cases "map in_listening (rg_instances c) = map in_listening (rg_instances b) \<and> rg_backoff_ev c = rg_backoff_ev b")
  case True
  then have "(\<forall>i \<in> set (rg_instances b). in_listening i) = (\<forall>i \<in> set (rg_instances c). in_listening i)"
    by (metis (mono_tags) in_set_conv_nth length_map nth_map)
  then show ?thesis using assms True unfolding resumes_def by auto
next
  case False
  then show ?thesis using assms unfolding resumes_def by auto
qed

lemma resumes_idle: "resumes cfg a b \<Longrightarrow> rg_backoff_ev a = None \<Longrightarrow>
    map in_listening (rg_instances b) = map in_listening (rg_instances a) \<and> rg_backoff_ev b = None"
  by (auto simp: resumes_def)

lemma lowered_fields [simp]:
  "listed (conn_pressure_lowered cfg st) = listed st" "rg_clients (conn_pressure_lowered cfg st) = rg_clients st"
  "rg_conn (conn_pressure_lowered cfg st) = rg_conn st" "rg_backoff_ms (conn_pressure_lowered cfg st) = rg_backoff_ms st"
  by (simp_all add: conn_pressure_lowered_def accept_enable_def)

lemma lowered_resumes: "resumes cfg st (conn_pressure_lowered cfg st)"
  by (auto simp: conn_pressure_lowered_def accept_enable_def resumes_def not_le)

lemma lowered_core: "rg_core cfg X st \<Longrightarrow> rg_core cfg X (conn_pressure_lowered cfg st)"
  by (auto simp: conn_pressure_lowered_def accept_enable_def rg_core_def)

lemma close_fields [simp]:
  "listed (redsocks_close cfg ok st) = listed st" "rg_clients (redsocks_close cfg ok st) = rg_clients st"
  "rg_conn (redsocks_close cfg ok st) = rg_conn st"
  by (simp_all add: redsocks_close_def)

lemma close_resumes: "resumes cfg st (redsocks_close cfg ok st)"
  by (simp add: redsocks_close_def lowered_resumes resumes_refl)

lemma close_core: "rg_core cfg X st \<Longrightarrow> rg_core cfg X (redsocks_close cfg ok st)"
  by (simp add: redsocks_close_def lowered_core)

lemma list_del_listed:
  assumes "distinct (listed st)"
  shows "listed (redsocks_conn_list_del cfg st c) = remove1 c (listed st)"
proof -
  have "listed (st\<lparr>rg_conn := n, rg_instances := map (\<lambda>i. i\<lparr>in_clients := remove1 c (in_clients i)\<rparr>) (rg_instances st)\<rparr>) =
      remove1 c (listed st)" for n
    using concat_remove1 [of "map in_clients (rg_instances st)" c] assms by (simp add: listed_def comp_def)
  then show ?thesis by (simp add: redsocks_conn_list_del_def Let_def remove1_idem)
qed

lemma list_del_fields [simp]: "rg_clients (redsocks_conn_list_del cfg st c) = rg_clients st"
  by (simp add: redsocks_conn_list_del_def Let_def)

lemma list_del_conn:
  assumes "unat (rg_conn st) = length (listed st)" and "distinct (listed st)"
  shows "unat (rg_conn (redsocks_conn_list_del cfg st c)) = length (remove1 c (listed st))"
proof (cases "c \<in> set (listed st)")
  case True
  then obtain n where "length (listed st) = Suc n" by (cases "listed st") auto
  then show ?thesis using True assms u32_pred [of "rg_conn st" n]
    by (simp add: redsocks_conn_list_del_def Let_def length_remove1)
next
  case False
  then show ?thesis using assms by (simp add: redsocks_conn_list_del_def Let_def remove1_idem)
qed

lemma list_del_resumes:
  assumes "unat (rg_conn st) = length (listed st)" and "distinct (listed st)"
  shows "resumes cfg st (redsocks_conn_list_del cfg st c)"
proof -
  define st1 where "st1 = (if c \<in> set (listed st)
      then st\<lparr>rg_conn := rg_conn st - 1,
              rg_instances := map (\<lambda>i. i\<lparr>in_clients := remove1 c (in_clients i)\<rparr>) (rg_instances st)\<rparr> else st)"
  have "unat (rg_conn st1) \<le> unat (rg_conn st)"
    using list_del_conn [OF assms, of cfg c] assms(1) by (auto simp: redsocks_conn_list_del_def st1_def length_remove1 Let_def)
  then have "resumes cfg st st1" by (auto simp: resumes_def st1_def comp_def word_le_nat_alt)
  from resumes_trans [OF this lowered_resumes] show ?thesis by (simp add: redsocks_conn_list_del_def Let_def st1_def)
qed

lemma core_resumes:
  assumes "rg_core cfg X st" and "resumes cfg st st'" and "distinct (listed st')"
    "{c. rg_clients st' c \<noteq> None} = set (listed st') \<union> Y" "Y \<inter> set (listed st') = {}"
    "unat (rg_conn st') = length (listed st')" "length (listed st') \<le> length (listed st)"
  shows "rg_core cfg Y st'"
proof -
  have "armed st' \<longrightarrow> (\<forall>i \<in> set (rg_instances st'). in_listening i) \<and> rg_backoff_ev st' = None"
  proof (cases "map in_listening (rg_instances st') = map in_listening (rg_instances st) \<and> rg_backoff_ev st' = rg_backoff_ev st")
    case True
    then have "set (map in_listening (rg_instances st')) = set (map in_listening (rg_instances st))" by metis
    then have "in_listening ` set (rg_instances st') = in_listening ` set (rg_instances st)" by simp
    then have "armed st' = armed st"
      "(\<forall>i \<in> set (rg_instances st'). in_listening i) = (\<forall>i \<in> set (rg_instances st). in_listening i)"
      unfolding armed_def by (metis (no_types, lifting) image_iff)+
    then show ?thesis using assms(1) True by (simp add: rg_core_def)
  next
    case False
    then show ?thesis using assms(2) by (auto simp: resumes_def)
  qed
  moreover have "rg_backoff_ev st' = rg_backoff_ev st \<or> rg_backoff_ev st' = None" using assms(2) by (auto simp: resumes_def)
  ultimately show ?thesis using assms by (auto simp: rg_core_def)
qed

lemma drop_client_ok:
  assumes inv: "rg_core cfg X st" and c: "rg_clients st c \<noteq> None"
  obtains st' where "redsocks_drop_client cfg sys st c = Some st'" "rg_core cfg (X - {c}) st'" "resumes cfg st st'"
    "listed st' = remove1 c (listed st)" "rg_clients st' = (rg_clients st)(c := None)"
proof -
  obtain cl where cl: "rg_clients st c = Some cl" using c by blast
  define s1 where "s1 = (if cl_client_fd cl then redsocks_bufferevent_free cfg (sys_close sys c Client) st else st)"
  define s2 where "s2 = (if cl_relay_fd cl then redsocks_bufferevent_free cfg (sys_close sys c Relay) s1 else s1)"
  define s3 where "s3 = redsocks_conn_list_del cfg s2 c"
  define s4 where "s4 = s3\<lparr>rg_clients := (rg_clients s3)(c := None)\<rparr>"
  have "resumes cfg st s1" "resumes cfg s1 s2"
    by (simp_all add: s1_def s2_def redsocks_bufferevent_free_def close_resumes resumes_refl)
  then have r2: "resumes cfg st s2" by (rule resumes_trans)
  have e: "listed s2 = listed st" "rg_clients s2 = rg_clients st" "rg_conn s2 = rg_conn st"
    by (simp_all add: s2_def s1_def redsocks_bufferevent_free_def)
  have d: "distinct (listed st)" "unat (rg_conn s2) = length (listed s2)" "distinct (listed s2)"
    "{c. rg_clients st c \<noteq> None} = set (listed st) \<union> X" "X \<inter> set (listed st) = {}"
    using inv e by (auto simp: rg_core_def)
  have "resumes cfg st s3" unfolding s3_def using resumes_trans [OF r2 list_del_resumes [OF d(2,3)]] .
  then have r4: "resumes cfg st s4" by (simp add: s4_def resumes_def)
  have l4: "listed s4 = remove1 c (listed st)" by (simp add: s4_def s3_def list_del_listed [OF d(3)] e)
  have c4: "rg_clients s4 = (rg_clients st)(c := None)" by (simp add: s4_def s3_def e)
  have n4: "unat (rg_conn s4) = length (listed s4)"
    using list_del_conn [OF d(2,3), of cfg c] by (simp add: s4_def s3_def l4 [unfolded s4_def s3_def] list_del_listed [OF d(3)])
  have "{c'. rg_clients s4 c' \<noteq> None} = {c'. rg_clients st c' \<noteq> None} - {c}" by (auto simp: c4)
  then have "rg_core cfg (X - {c}) s4"
    using d by (intro core_resumes [OF inv r4 _ _ _ n4]) (auto simp: l4 length_remove1)
  moreover have "redsocks_drop_client cfg sys st c = Some s4"
    by (simp add: redsocks_drop_client_def cl Let_def s4_def s3_def s2_def s1_def)
  ultimately show thesis using that r4 l4 c4 by blast
qed

lemma drop_idle_loop_ok:
  assumes "rg_core cfg {} st" and "distinct cs" and "\<forall>c \<in> set cs. rg_clients st c \<noteq> None" and "0 \<le> best"
  shows "\<exists>st' best'. drop_idle_loop cfg sys cs st best = Some (st', best') \<and> rg_core cfg {} st' \<and> resumes cfg st st' \<and>
    0 \<le> best' \<and> best' \<le> best \<and> (best' \<noteq> 0 \<longrightarrow> st' = st) \<and>
    length (listed st') \<le> length (listed st) \<and> (best' = 0 \<and> best \<noteq> 0 \<longrightarrow> length (listed st') < length (listed st)) \<and>
    (\<forall>c cl. rg_clients st c = Some cl \<and> 0 < sys_now sys - cl_last_event cl \<and>
       sys_now sys - cl_last_event cl < uint (connpres_idle_timeout cfg) * 1000000 \<longrightarrow> rg_clients st' c = Some cl)"
  using assms
proof (induction cs arbitrary: st best)
  case Nil
  then show ?case by (simp add: resumes_refl)
next
  case (Cons c cs)
  define m where "m = uint (connpres_idle_timeout cfg) * 1000000"
  obtain cl where cl: "rg_clients st c = Some cl" using Cons.prems(3) by auto
  define idle where "idle = sys_now sys - cl_last_event cl"
  show ?case
  proof (cases "idle \<le> 0 \<or> m \<le> idle")
    case True
    obtain s1 where s1: "redsocks_drop_client cfg sys st c = Some s1" "rg_core cfg {} s1" "resumes cfg st s1"
        "listed s1 = remove1 c (listed st)" "rg_clients s1 = (rg_clients st)(c := None)"
      using drop_client_ok [OF Cons.prems(1), of c sys] cl by auto
    have "c \<in> set (listed st)" using Cons.prems(1) cl by (auto simp: rg_core_def)
    then have len: "length (listed s1) < length (listed st)"
      using length_pos_if_in_set [of c "listed st"] by (simp add: s1(4) length_remove1)
    have cs: "distinct cs" "\<forall>c \<in> set cs. rg_clients s1 c \<noteq> None" using Cons.prems by (auto simp: s1(5))
    obtain st' b' where st': "drop_idle_loop cfg sys cs s1 0 = Some (st', b')" "rg_core cfg {} st'" "resumes cfg s1 st'"
        "0 \<le> b'" "b' \<le> 0" "length (listed st') \<le> length (listed s1)"
        "\<forall>c cl. rg_clients s1 c = Some cl \<and> 0 < sys_now sys - cl_last_event cl \<and> sys_now sys - cl_last_event cl < m \<longrightarrow> rg_clients st' c = Some cl"
      using Cons.IH [OF s1(2) cs, of 0] unfolding m_def by auto
    have b': "b' = 0" using st'(4,5) by simp
    have e: "drop_idle_loop cfg sys (c # cs) st best = Some (st', 0)"
      using True s1(1) st'(1) cl b' by (simp add: m_def idle_def)
    have keep: "rg_clients st' c' = Some cl'" if "rg_clients st c' = Some cl'" "0 < sys_now sys - cl_last_event cl'"
        "sys_now sys - cl_last_event cl' < m" for c' cl'
    proof -
      have "c' \<noteq> c" using that True cl by (auto simp: idle_def)
      then show ?thesis using st'(7) that by (simp add: s1(5))
    qed
    show ?thesis
      using e st'(2,6) resumes_trans [OF s1(3) st'(3)] len Cons.prems(4) keep unfolding m_def by (intro exI [of _ st'] exI [of _ 0]) simp
  next
    case False
    define b where "b = (if m - idle < best then m - idle else best)"
    have b: "0 \<le> b" "b \<le> best" "b = 0 \<longleftrightarrow> best = 0" using False Cons.prems(4) by (auto simp: b_def)
    have e: "drop_idle_loop cfg sys (c # cs) st best = drop_idle_loop cfg sys cs st b"
      using False cl by (simp add: m_def idle_def b_def)
    have cs: "distinct cs" "\<forall>c \<in> set cs. rg_clients st c \<noteq> None" using Cons.prems by auto
    from Cons.IH [OF Cons.prems(1) cs b(1)] show ?thesis unfolding e using b(2,3) by (auto intro: order_trans)
  qed
qed

lemma tv_of_ms: "uint (d div 1000) * 1000000 + uint ((d mod 1000) * 1000) = uint d * 1000" for d :: u32
proof -
  have m: "uint (d mod 1000) = uint d mod 1000" "uint (d div 1000) = uint d div 1000" by (simp_all add: uint_mod uint_div)
  have "uint d mod 1000 * 1000 < 2 ^ 32" using pos_mod_bound [of 1000 "uint d"] by simp
  then have "uint ((d mod 1000) * 1000) = uint d mod 1000 * 1000"
    using m(1) by (simp add: uint_word_ariths)
  then show ?thesis unfolding m by presburger
qed

lemma backoff_delay:
  assumes "0 < max_accept_backoff_ms cfg" and "b = clamp_value v 1 (max_accept_backoff_ms cfg)"
  shows "0 < uint (r mod b + 1) \<and> uint (r mod b + 1) \<le> uint (max_accept_backoff_ms cfg)"
proof -
  have b: "1 \<le> b" "b \<le> max_accept_backoff_ms cfg" using clamp_bounds [OF assms(1), of v] assms(2) by simp_all
  then have "0 < unat b" by (simp add: word_le_nat_alt)
  then have lt: "r mod b < b" by (simp add: word_less_nat_alt unat_mod)
  from u32_suc [OF this] have u: "unat (r mod b + 1) = unat (r mod b) + 1" .
  then have "unat (r mod b + 1) \<le> unat (max_accept_backoff_ms cfg)" "0 < unat (r mod b + 1)"
    using lt b(2) by (simp_all add: word_less_nat_alt word_le_nat_alt)
  then show ?thesis unfolding uint_nat by linarith
qed

lemma backoff_core:
  assumes "rg_core cfg {} st" and "0 < max_accept_backoff_ms cfg" and "0 \<le> next"
  shows "rg_core cfg {} (conn_pressure_backoff cfg sys st next)"
    "\<not> armed (conn_pressure_backoff cfg sys st next)" "rg_backoff_ev (conn_pressure_backoff cfg sys st next) \<noteq> None"
    "rg_clients (conn_pressure_backoff cfg sys st next) = rg_clients st"
    "length (rg_instances (conn_pressure_backoff cfg sys st next)) = length (rg_instances st)"
  using assms backoff_delay [OF assms(2) refl, of "sys_rand sys" "push_bit 1 (rg_backoff_ms st) + 1"]
  by (simp_all add: conn_pressure_backoff_def Let_def tv_of_ms rg_core_def)

lemma conn_pressure_ok:
  assumes inv: "rg_core cfg {} st" and pos: "0 < max_accept_backoff_ms cfg"
  obtains st' where "conn_pressure cfg sys st = Some st'" "rg_core cfg {} st'" "armed st' \<longrightarrow> rg_conn st' < redsocks_conn_max cfg"
    "length (rg_instances st') = length (rg_instances st)" "connpres_idle_timeout cfg = 0 \<longrightarrow> rg_backoff_ev st' \<noteq> None"
    "\<forall>c cl. rg_clients st c = Some cl \<and>
       (0 < sys_now sys - cl_last_event cl \<and> sys_now sys - cl_last_event cl < uint (connpres_idle_timeout cfg) * 1000000 \<or>
         connpres_idle_timeout cfg = 0) \<longrightarrow> rg_clients st' c = Some cl"
proof (cases "connpres_idle_timeout cfg = 0")
  case True
  then show thesis using backoff_core [OF inv pos, of 0 sys] that [of "conn_pressure_backoff cfg sys st 0"]
    by (simp add: conn_pressure_def)
next
  case False
  then have gt: "connpres_idle_timeout cfg > 0" by (simp add: word_gt_0)
  have u: "0 < uint (connpres_idle_timeout cfg) * 1000000" using gt by (simp add: word_less_def)
  have l: "distinct (listed st)" "\<forall>c \<in> set (listed st). rg_clients st c \<noteq> None" using inv by (auto simp: rg_core_def)
  obtain s1 best where s1: "drop_idle_connections cfg sys st = Some (s1, best)" "rg_core cfg {} s1" "resumes cfg st s1" "0 \<le> best"
      "best = 0 \<longrightarrow> length (listed s1) < length (listed st)"
      "\<forall>c cl. rg_clients st c = Some cl \<and> 0 < sys_now sys - cl_last_event cl \<and>
       sys_now sys - cl_last_event cl < uint (connpres_idle_timeout cfg) * 1000000 \<longrightarrow> rg_clients s1 c = Some cl"
    using drop_idle_loop_ok [OF inv l less_imp_le [OF u], of sys] u unfolding drop_idle_connections_def by (simp add: gt) blast
  show thesis
  proof (cases "best = 0")
    case True
    then have "unat (rg_conn s1) < unat (redsocks_conn_max cfg)" using s1(2,5) inv by (simp add: rg_core_def)
    then show thesis using that [of s1] s1 True False by (simp add: conn_pressure_def resumes_def word_less_nat_alt)
  next
    case b: False
    then show thesis
      using that [of "conn_pressure_backoff cfg sys s1 best"] backoff_core [OF s1(2) pos s1(4), of sys] s1 False
      by (simp add: conn_pressure_def resumes_def)
  qed
qed

definition rg_inv :: "base_config \<Rightarrow> redsocks_global \<Rightarrow> bool" where
  "rg_inv cfg st \<longleftrightarrow> rg_core cfg {} st \<and> (armed st \<longrightarrow> rg_conn st < redsocks_conn_max cfg)"

text \<open>Some connection can be accepted, now or after the timer.\<close>

definition awake :: "redsocks_global \<Rightarrow> bool" where
  "awake st \<longleftrightarrow> armed st \<or> rg_backoff_ev st \<noteq> None"

text \<open>The result of a handler: an invariant state, or a fault that only an accepted client dropped for its idle
  time can cause.\<close>

definition rg_good :: "base_config \<Rightarrow> redsocks_global \<Rightarrow> redsocks_global \<Rightarrow> bool" where
  "rg_good cfg st st' \<longleftrightarrow> rg_inv cfg st' \<and> length (rg_instances st') = length (rg_instances st) \<and>
     (connpres_idle_timeout cfg = 0 \<and> rg_instances st \<noteq> [] \<and> awake st \<longrightarrow> awake st')"

lemma armed_resumes: "resumes cfg st st' \<Longrightarrow> rg_backoff_ev st' \<noteq> None \<or> rg_backoff_ev st = None \<Longrightarrow> armed st' = armed st"
  by (auto simp: resumes_def armed_map simp del: set_map)

lemma resumes_good:
  assumes "rg_inv cfg st" and "resumes cfg st st'" and "rg_core cfg {} st'"
  shows "rg_good cfg st st'"
proof -
  have l: "length (rg_instances st') = length (rg_instances st)" "rg_conn st' \<le> rg_conn st" using assms(2) by (simp_all add: resumes_def)
  show ?thesis
  proof (cases "map in_listening (rg_instances st') = map in_listening (rg_instances st) \<and> rg_backoff_ev st' = rg_backoff_ev st")
    case True
    then have "armed st' = armed st" unfolding armed_map by metis
    then show ?thesis using True l assms by (auto simp: rg_good_def rg_inv_def awake_def)
  next
    case False
    then have f: "\<forall>i \<in> set (rg_instances st'). in_listening i" "rg_conn st' < redsocks_conn_max cfg"
      using assms(2) by (auto simp: resumes_def)
    then have "rg_instances st \<noteq> [] \<longrightarrow> armed st'" using l(1) by (cases "rg_instances st'") (auto simp: armed_def)
    then show ?thesis using f l assms(3) by (simp add: rg_good_def rg_inv_def awake_def)
  qed
qed

lemma good_trans: "rg_good cfg a b \<Longrightarrow> rg_good cfg b c \<Longrightarrow> rg_good cfg a c"
  unfolding rg_good_def by (metis length_0_conv)

lemma good_refl: "rg_inv cfg st \<Longrightarrow> rg_good cfg st st" by (simp add: rg_good_def)

lemma drop_client_good:
  assumes "rg_inv cfg st" and "rg_clients st c \<noteq> None"
  obtains st' where "redsocks_drop_client cfg sys st c = Some st'" "rg_good cfg st st'"
proof -
  have "rg_core cfg {} st" using assms(1) by (simp add: rg_inv_def)
  from drop_client_ok [OF this assms(2), of sys] obtain st' where
    "redsocks_drop_client cfg sys st c = Some st'" "rg_core cfg {} st'" "resumes cfg st st'" by auto
  then show thesis using that resumes_good [OF assms(1)] by blast
qed

lemma close_good: "rg_inv cfg st \<Longrightarrow> rg_good cfg st (redsocks_close cfg ok st)"
  by (rule resumes_good) (simp_all add: close_resumes close_core rg_inv_def)

lemma client_update_inv:
  "rg_inv cfg st \<Longrightarrow> rg_clients st c \<noteq> None \<Longrightarrow> rg_good cfg st (st\<lparr>rg_clients := (rg_clients st)(c \<mapsto> cl)\<rparr>)"
  by (auto simp: rg_good_def rg_inv_def rg_core_def awake_def split: if_splits)

lemma touch_good:
  assumes "rg_inv cfg st" and "rg_clients st c \<noteq> None"
  obtains st' where "redsocks_touch_client st c now = Some st'" "rg_good cfg st st'"
  using assms(2) client_update_inv [OF assms] by (cases "rg_clients st c") (auto simp: redsocks_touch_client_def intro!: that)

lemma connect_good:
  assumes "rg_inv cfg st" and "rg_clients st c \<noteq> None"
  obtains st' where "connect_relay cfg sys res st c = Some st'" "rg_good cfg st st'"
proof (cases res)
  case Connecting
  then show thesis using assms(2) client_update_inv [OF assms] by (cases "rg_clients st c") (auto simp: connect_relay_def intro!: that)
next
  case NoSocket
  obtain st' where "redsocks_drop_client cfg sys st c = Some st'" "rg_good cfg st st'" by (rule drop_client_good [OF assms])
  then show thesis using NoSocket assms(2) that by (auto simp: connect_relay_def)
next
  case ConnectFailed
  have g: "rg_good cfg st (redsocks_close cfg (sys_close sys c Relay) st)" by (rule close_good [OF assms(1)])
  then have "rg_inv cfg (redsocks_close cfg (sys_close sys c Relay) st)" by (simp add: rg_good_def)
  from drop_client_good [OF this, of c sys] assms(2) obtain st' where
    "redsocks_drop_client cfg sys (redsocks_close cfg (sys_close sys c Relay) st) c = Some st'"
    "rg_good cfg (redsocks_close cfg (sys_close sys c Relay) st) st'" by auto
  then show thesis using ConnectFailed assms(2) good_trans [OF g] that by (auto simp: connect_relay_def)
qed

lemma conn_pressure_good:
  assumes "rg_core cfg {} st" and "0 < max_accept_backoff_ms cfg"
  obtains st' where "conn_pressure cfg sys st = Some st'" "rg_good cfg st st'" "connpres_idle_timeout cfg = 0 \<longrightarrow> rg_backoff_ev st' \<noteq> None"
    "\<forall>c cl. rg_clients st c = Some cl \<and>
       (0 < sys_now sys - cl_last_event cl \<and> sys_now sys - cl_last_event cl < uint (connpres_idle_timeout cfg) * 1000000 \<or>
         connpres_idle_timeout cfg = 0) \<longrightarrow> rg_clients st' c = Some cl"
proof -
  obtain st' where st': "conn_pressure cfg sys st = Some st'" "rg_core cfg {} st'" "armed st' \<longrightarrow> rg_conn st' < redsocks_conn_max cfg"
      "length (rg_instances st') = length (rg_instances st)" "connpres_idle_timeout cfg = 0 \<longrightarrow> rg_backoff_ev st' \<noteq> None"
      "\<forall>c cl. rg_clients st c = Some cl \<and>
       (0 < sys_now sys - cl_last_event cl \<and> sys_now sys - cl_last_event cl < uint (connpres_idle_timeout cfg) * 1000000 \<or>
         connpres_idle_timeout cfg = 0) \<longrightarrow> rg_clients st' c = Some cl"
    by (rule conn_pressure_ok [OF assms, of sys])
  have "rg_good cfg st st'" using st'(2-5) by (simp add: rg_good_def rg_inv_def awake_def)
  then show thesis by (rule that [OF st'(1) _ st'(5) st'(6)])
qed

lemma backoff_good:
  assumes "rg_inv cfg st" and "0 < max_accept_backoff_ms cfg" and "rg_backoff_ev st \<noteq> None"
  obtains st' where "redsocks_accept_backoff cfg sys st = Some st'" "rg_good cfg st st'"
proof -
  define s1 where "s1 = st\<lparr>rg_backoff_ev := None\<rparr>"
  have core: "rg_core cfg {} s1" using assms(1) by (simp add: s1_def rg_inv_def rg_core_def armed_def)
  have i: "rg_instances s1 = rg_instances st" by (simp add: s1_def)
  show thesis
  proof (cases "conn_pressure_ongoing cfg sys s1")
    case True
    obtain st' where st': "conn_pressure cfg sys s1 = Some st'" "rg_good cfg s1 st'" "connpres_idle_timeout cfg = 0 \<longrightarrow> rg_backoff_ev st' \<noteq> None"
      by (rule conn_pressure_good [OF core assms(2), of sys])
    then have "rg_good cfg st st'" using i by (auto simp: rg_good_def awake_def)
    then show thesis using True st'(1) that by (simp add: redsocks_accept_backoff_def s1_def)
  next
    case False
    then have "rg_conn s1 < redsocks_conn_max cfg" by (simp add: conn_pressure_ongoing_def not_le)
    moreover have "rg_instances st \<noteq> [] \<longrightarrow> armed (accept_enable s1)"
      by (auto simp: armed_def accept_enable_def listening_def s1_def neq_Nil_conv)
    ultimately have "rg_good cfg st (accept_enable s1)"
      using core i by (simp add: rg_good_def rg_inv_def rg_core_def accept_enable_def awake_def s1_def)
    then show thesis using False that by (simp add: redsocks_accept_backoff_def s1_def)
  qed
qed

lemma concat_list_update:
  assumes "i < length xss"
  shows "length (concat (xss[i := c # xss ! i])) = Suc (length (concat xss))"
    "set (concat (xss[i := c # xss ! i])) = insert c (set (concat xss))"
    "distinct (concat (xss[i := c # xss ! i])) = distinct (c # concat xss)"
proof -
  have e: "concat xss = concat (take i xss) @ xss ! i @ concat (drop (Suc i) xss)"
    by (metis assms concat_append concat.simps(2) id_take_nth_drop)
  have u: "concat (xss[i := c # xss ! i]) = concat (take i xss) @ (c # xss ! i) @ concat (drop (Suc i) xss)"
    by (simp add: upd_conv_take_nth_drop assms)
  show "length (concat (xss[i := c # xss ! i])) = Suc (length (concat xss))" unfolding u by (subst e) simp
  show "set (concat (xss[i := c # xss ! i])) = insert c (set (concat xss))" unfolding u by (subst e) auto
  show "distinct (concat (xss[i := c # xss ! i])) = distinct (c # concat xss)" unfolding u by (subst e) auto
qed

lemma core_fresh: "rg_core cfg X st \<Longrightarrow> rg_clients st c = None \<Longrightarrow> c \<notin> set (listed st)"
proof
  assume "rg_core cfg X st" "rg_clients st c = None" "c \<in> set (listed st)"
  then have "c \<in> {c. rg_clients st c \<noteq> None}" by (auto simp: rg_core_def)
  with \<open>rg_clients st c = None\<close> show False by simp
qed

definition with_client :: "redsocks_global \<Rightarrow> nat \<Rightarrow> nat \<Rightarrow> redsocks_global" where
  "with_client st i c = st\<lparr>rg_instances := (rg_instances st)[i := (rg_instances st ! i)\<lparr>in_clients := c # in_clients (rg_instances st ! i)\<rparr>],
     rg_conn := rg_conn st + 1\<rparr>"

lemma with_client_listed:
  assumes "i < length (rg_instances st)"
  shows "length (listed (with_client st i c)) = Suc (length (listed st))"
    "set (listed (with_client st i c)) = insert c (set (listed st))"
    "distinct (listed (with_client st i c)) = distinct (c # listed st)"
proof -
  have "map in_clients (rg_instances (with_client st i c)) =
      (map in_clients (rg_instances st))[i := c # map in_clients (rg_instances st) ! i]"
    using assms by (simp add: with_client_def map_update)
  then show "length (listed (with_client st i c)) = Suc (length (listed st))"
    "set (listed (with_client st i c)) = insert c (set (listed st))"
    "distinct (listed (with_client st i c)) = distinct (c # listed st)"
    unfolding listed_def using concat_list_update [of i "map in_clients (rg_instances st)" c] assms by simp_all
qed

lemma with_client_listening:
  "i < length (rg_instances st) \<Longrightarrow> map in_listening (rg_instances (with_client st i c)) = map in_listening (rg_instances st)"
  by (simp add: with_client_def map_update list_update_same_conv)

lemma with_client_core:
  assumes inv: "rg_core cfg {c} st" and i: "i < length (rg_instances st)" and lt: "rg_conn st < redsocks_conn_max cfg"
  shows "rg_core cfg {} (with_client st i c)"
proof -
  let ?s = "with_client st i c"
  have "c \<notin> set (listed st)" "distinct (listed st)" using inv by (auto simp: rg_core_def)
  then have d: "distinct (listed ?s)" and s: "set (listed ?s) = insert c (set (listed st))"
    and l: "length (listed ?s) = length (listed st) + 1"
    by (simp_all add: with_client_listed [OF i])
  have n: "unat (rg_conn ?s) = unat (rg_conn st) + 1" using u32_suc [OF lt] by (simp add: with_client_def)
  have a: "armed ?s = armed st" "(\<forall>i \<in> set (rg_instances ?s). in_listening i) = (\<forall>i \<in> set (rg_instances st). in_listening i)"
    using with_client_listening [OF i, of c] unfolding armed_def by (metis (mono_tags, lifting) in_set_conv_nth length_map nth_map)+
  have e: "rg_clients ?s = rg_clients st" "rg_backoff_ev ?s = rg_backoff_ev st" by (simp_all add: with_client_def)
  have "unat (rg_conn st) < unat (redsocks_conn_max cfg)" using lt by (simp add: word_less_nat_alt)
  then show ?thesis using inv d s l n a e by (simp add: rg_core_def)
qed

definition timely :: "base_config \<Rightarrow> sys_results \<Rightarrow> bool" where
  "timely cfg sys \<longleftrightarrow> connpres_idle_timeout cfg = 0 \<or>
     0 < sys_now sys - sys_touch sys \<and> sys_now sys - sys_touch sys < uint (connpres_idle_timeout cfg) * 1000000"

lemma list_add_good:
  assumes inv: "rg_inv cfg st" and pos: "0 < max_accept_backoff_ms cfg" and i: "i < length (rg_instances st)"
    and lt: "rg_conn st < redsocks_conn_max cfg" and fresh: "rg_clients st c = None"
    and s1: "s1 = st\<lparr>rg_backoff_ms := 0, rg_clients := (rg_clients st)(c \<mapsto> cl)\<rparr>" and cl: "cl_last_event cl = sys_touch sys"
  obtains s2 where "redsocks_conn_list_add cfg sys s1 i c = Some s2" "rg_good cfg st s2" "timely cfg sys \<longrightarrow> rg_clients s2 c = Some cl"
proof -
  have f: "c \<notin> set (listed st)" using core_fresh [of cfg "{}"] inv fresh by (simp add: rg_inv_def)
  then have core1: "rg_core cfg {c} s1" using inv by (auto simp: s1 rg_inv_def rg_core_def split: if_splits)
  have i1: "i < length (rg_instances s1)" and lt1: "rg_conn s1 < redsocks_conn_max cfg" using i lt by (simp_all add: s1)
  have core: "rg_core cfg {} (with_client s1 i c)" by (rule with_client_core [OF core1 i1 lt1])
  have a: "armed (with_client s1 i c) = armed st" "rg_backoff_ev (with_client s1 i c) = rg_backoff_ev st"
    "length (rg_instances (with_client s1 i c)) = length (rg_instances st)" "rg_clients (with_client s1 i c) c = Some cl"
    using with_client_listening [OF i1, of c] by (simp_all add: armed_map with_client_def s1 del: set_map map_update)
  have e: "redsocks_conn_list_add cfg sys s1 i c = (if rg_conn (with_client s1 i c) \<ge> redsocks_conn_max cfg
      then conn_pressure cfg sys (with_client s1 i c) else Some (with_client s1 i c))"
    using f lt1 by (simp add: redsocks_conn_list_add_def with_client_def Let_def s1)
  show thesis
  proof (cases "rg_conn (with_client s1 i c) \<ge> redsocks_conn_max cfg")
    case True
    obtain s2 where s2: "conn_pressure cfg sys (with_client s1 i c) = Some s2" "rg_good cfg (with_client s1 i c) s2"
        "connpres_idle_timeout cfg = 0 \<longrightarrow> rg_backoff_ev s2 \<noteq> None"
        "\<forall>c' cl. rg_clients (with_client s1 i c) c' = Some cl \<and>
       (0 < sys_now sys - cl_last_event cl \<and> sys_now sys - cl_last_event cl < uint (connpres_idle_timeout cfg) * 1000000 \<or>
         connpres_idle_timeout cfg = 0) \<longrightarrow> rg_clients s2 c' = Some cl"
      by (rule conn_pressure_good [OF core pos])
    have "rg_good cfg st s2" using s2(2,3) a by (simp add: rg_good_def awake_def)
    then show thesis using that [of s2] True e s2(1,4) a(4) cl by (auto simp: timely_def)
  next
    case False
    then have "rg_good cfg st (with_client s1 i c)" using core a by (auto simp: rg_good_def rg_inv_def awake_def)
    then show thesis using that e False a(4) by auto
  qed
qed

lemma accept_good:
  assumes inv: "rg_inv cfg st" and pos: "0 < max_accept_backoff_ms cfg" and en: "rg_enabled st (EvAccept i c sys res)"
  shows "case redsocks_accept_client cfg sys res st i c of None \<Rightarrow> \<not> timely cfg sys | Some st' \<Rightarrow> rg_good cfg st st'"
proof -
  have i: "i < length (rg_instances st)" and fresh: "rg_clients st c = None" using en by simp_all
  have arm: "armed st" using en by (auto simp: armed_def)
  have lt: "rg_conn st < redsocks_conn_max cfg" using inv arm by (simp add: rg_inv_def)
  have reset: "rg_inv cfg (st\<lparr>rg_backoff_ms := 0\<rparr>)" "rg_good cfg st (st\<lparr>rg_backoff_ms := 0\<rparr>)"
    using inv by (auto simp: rg_inv_def rg_core_def rg_good_def awake_def)
  have listing: "case (case redsocks_conn_list_add cfg sys s1 i c of None \<Rightarrow> None
      | Some st \<Rightarrow> if rg_clients st c = None then None else k st) of None \<Rightarrow> \<not> timely cfg sys | Some st' \<Rightarrow> rg_good cfg st st'"
    if k: "\<And>s2. rg_inv cfg s2 \<Longrightarrow> rg_clients s2 c \<noteq> None \<Longrightarrow> \<exists>s3. k s2 = Some s3 \<and> rg_good cfg s2 s3"
      and s1: "s1 = st\<lparr>rg_backoff_ms := 0, rg_clients := (rg_clients st)(c \<mapsto> \<lparr>cl_last_event = sys_touch sys, cl_client_fd = True, cl_relay_fd = False\<rparr>)\<rparr>"
    for s1 k
  proof -
    obtain s2 where s2: "redsocks_conn_list_add cfg sys s1 i c = Some s2" "rg_good cfg st s2"
        "timely cfg sys \<longrightarrow> rg_clients s2 c = Some \<lparr>cl_last_event = sys_touch sys, cl_client_fd = True, cl_relay_fd = False\<rparr>"
      by (rule list_add_good [OF inv pos i lt fresh s1, of sys]) simp_all
    show ?thesis
    proof (cases "rg_clients s2 c = None")
      case True
      then show ?thesis using s2 by auto
    next
      case False
      then obtain s3 where "k s2 = Some s3" "rg_good cfg s2 s3" using k [of s2] s2(2) by (auto simp: rg_good_def)
      then show ?thesis using s2(1,2) False good_trans by auto
    qed
  qed
  show ?thesis
  proof (cases res)
    case (AcceptFails lack)
    obtain st' where "conn_pressure cfg sys st = Some st'" "rg_good cfg st st'"
      by (rule conn_pressure_good [OF _ pos, of st sys]) (use inv in \<open>simp_all add: rg_inv_def\<close>)
    then show ?thesis using AcceptFails lt good_refl [OF inv] by (simp add: redsocks_accept_client_def)
  next
    case SetupFails
    then show ?thesis using lt good_trans [OF reset(2) close_good [OF reset(1)]] by (simp add: redsocks_accept_client_def)
  next
    case InitFails
    define s1 where "s1 = st\<lparr>rg_backoff_ms := 0, rg_clients := (rg_clients st)(c \<mapsto> \<lparr>cl_last_event = sys_touch sys, cl_client_fd = False, cl_relay_fd = False\<rparr>)\<rparr>"
    have "c \<notin> set (listed st)" using core_fresh [of cfg "{}"] inv fresh by (simp add: rg_inv_def)
    then have "rg_core cfg {c} s1" using inv by (auto simp: s1_def rg_inv_def rg_core_def split: if_splits)
    from drop_client_ok [OF this, of c sys] obtain s2 where s2: "redsocks_drop_client cfg sys s1 c = Some s2" "rg_core cfg {} s2" "resumes cfg s1 s2"
      by (auto simp: s1_def)
    then have "resumes cfg st s2" by (simp add: resumes_def s1_def)
    from resumes_good [OF inv this s2(2)] have g: "rg_good cfg st s2" .
    then have "rg_good cfg st (redsocks_close cfg (sys_close sys c Client) s2)"
      by (rule good_trans) (use g in \<open>auto intro: close_good simp: rg_good_def [of cfg st]\<close>)
    then show ?thesis using InitFails lt s2(1) by (simp add: redsocks_accept_client_def Let_def s1_def)
  next
    case EnableFails
    have "\<exists>s3. redsocks_drop_client cfg sys s2 c = Some s3 \<and> rg_good cfg s2 s3" if "rg_inv cfg s2" "rg_clients s2 c \<noteq> None" for s2
      by (rule drop_client_good [OF that]) blast
    from listing [OF this refl] show ?thesis using EnableFails lt by (simp add: redsocks_accept_client_def Let_def cong: option.case_cong if_cong)
  next
    case (Accepted r)
    show ?thesis
    proof (cases r)
      case None
      show ?thesis using listing [OF _ refl, of Some] good_refl Accepted None lt by (simp add: redsocks_accept_client_def Let_def cong: option.case_cong if_cong)
    next
      case (Some cr)
      have "\<exists>s3. connect_relay cfg sys cr s2 c = Some s3 \<and> rg_good cfg s2 s3" if "rg_inv cfg s2" "rg_clients s2 c \<noteq> None" for s2
        by (rule connect_good [OF that]) blast
      from listing [OF this refl] show ?thesis using Accepted Some lt by (simp add: redsocks_accept_client_def Let_def cong: option.case_cong if_cong)
    qed
  qed
qed


lemma step_good:
  assumes inv: "rg_inv cfg st" and pos: "0 < max_accept_backoff_ms cfg" and en: "rg_enabled st ev"
  shows "case rg_step cfg st ev of
      None \<Rightarrow> (\<exists>i c sys res. ev = EvAccept i c sys res \<and> \<not> timely cfg sys) | Some st' \<Rightarrow> rg_good cfg st st'"
proof (cases ev)
  case (EvAccept i c sys res)
  then show ?thesis using accept_good [OF inv pos, of i c sys res] en by (auto split: option.splits)
next
  case (EvBackoff sys)
  obtain st' where "redsocks_accept_backoff cfg sys st = Some st'" "rg_good cfg st st'" by (rule backoff_good [OF inv pos]) (use en EvBackoff in auto)
  then show ?thesis using EvBackoff by simp
next
  case (EvTouch c now)
  obtain st' where "redsocks_touch_client st c now = Some st'" "rg_good cfg st st'" by (rule touch_good [OF inv]) (use en EvTouch in auto)
  then show ?thesis using EvTouch by simp
next
  case (EvDrop c sys)
  obtain st' where "redsocks_drop_client cfg sys st c = Some st'" "rg_good cfg st st'" by (rule drop_client_good [OF inv]) (use en EvDrop in auto)
  then show ?thesis using EvDrop by simp
next
  case (EvConnect c sys res)
  obtain st' where "connect_relay cfg sys res st c = Some st'" "rg_good cfg st st'" by (rule connect_good [OF inv]) (use en EvConnect in \<open>auto split: option.splits\<close>)
  then show ?thesis using EvConnect by simp
qed

lemma init_inv: "0 < redsocks_conn_max cfg \<Longrightarrow> rg_inv cfg (redsocks_init n)"
  by (simp add: rg_inv_def rg_core_def redsocks_init_def listed_def armed_def concat_replicate_trivial map_replicate_const)

lemma init_awake: "0 < n \<Longrightarrow> awake (redsocks_init n)"
  by (simp add: awake_def armed_def redsocks_init_def)

lemma steps_good:
  assumes "rg_steps cfg st0 st" and "rg_inv cfg st0" and "0 < max_accept_backoff_ms cfg"
  shows "rg_good cfg st0 st"
  using assms
proof (induction rule: rg_steps.induct)
  case start
  then show ?case by (simp add: good_refl)
next
  case (step st ev st')
  have g: "rg_good cfg st0 st" using step by blast
  then have "rg_inv cfg st" by (simp add: rg_good_def)
  from step_good [OF this step.prems(2) step.hyps(2)] step.hyps(3) have "rg_good cfg st st'" by simp
  with g show ?case by (rule good_trans)
qed

lemma asleep_step:
  assumes "rg_inv cfg st" and "\<not> awake st" and "rg_enabled st ev" and "rg_step cfg st ev = Some st'"
  shows "\<not> awake st'"
proof -
  have core: "rg_core cfg {} st" using assms(1) by (simp add: rg_inv_def)
  have calm: "\<not> awake s" if "resumes cfg st s" for s
    using that assms(2) armed_resumes [OF that] resumes_idle [OF that] by (auto simp: awake_def)
  have drop: "\<not> awake s" if "redsocks_drop_client cfg sys st' c = Some s" "resumes cfg st st'" "rg_core cfg {} st'" for sys c s st'
  proof -
    have "rg_clients st' c \<noteq> None" using that(1) by (auto simp: redsocks_drop_client_def split: option.splits)
    from drop_client_ok [OF that(3) this, of sys] that(1) have "resumes cfg st' s" by auto
    then show ?thesis using calm resumes_trans [OF that(2)] by blast
  qed
  show ?thesis
  proof (cases ev)
    case (EvAccept i c sys res)
    then show ?thesis using assms(2,3) by (auto simp: awake_def armed_def)
  next
    case (EvBackoff sys)
    then show ?thesis using assms(2,3) by (auto simp: awake_def)
  next
    case (EvTouch c now)
    then show ?thesis using assms(2,4) by (auto simp: redsocks_touch_client_def awake_def split: option.splits)
  next
    case (EvDrop c sys)
    then show ?thesis using drop [OF _ resumes_refl core] assms(4) by auto
  next
    case (EvConnect c sys res)
    then show ?thesis
      using assms(2,4) drop [OF _ resumes_refl core] drop [OF _ close_resumes close_core [OF core]]
      by (auto simp: connect_relay_def awake_def split: option.splits connect_result.splits)
  qed
qed

lemma asleep_steps:
  assumes "rg_steps cfg st0 st" and "rg_inv cfg st0" and "0 < max_accept_backoff_ms cfg" and "\<not> awake st0"
  shows "\<not> awake st"
  using assms
proof (induction rule: rg_steps.induct)
  case (step st ev st')
  then have "rg_inv cfg st" using steps_good [OF step.hyps(1) step.prems(1,2)] by (simp add: rg_good_def)
  then show ?case using asleep_step step by blast
qed simp

subsection \<open>Idle clients\<close>

text \<open>What \<open>drop_idle_connections\<close> takes for an idle client.\<close>

definition seems_idle :: "base_config \<Rightarrow> sys_results \<Rightarrow> rs_client \<Rightarrow> bool" where
  "seems_idle cfg sys cl \<longleftrightarrow> sys_now sys - cl_last_event cl \<le> 0 \<or>
     uint (connpres_idle_timeout cfg) * 1000000 \<le> sys_now sys - cl_last_event cl"

lemma drop_client_frees: "redsocks_drop_client cfg sys st c = Some st' \<Longrightarrow> rg_clients st' = (rg_clients st)(c := None)"
  by (auto simp: redsocks_drop_client_def redsocks_bufferevent_free_def Let_def split: option.splits)

lemma drop_idle_loop_keeps:
  "drop_idle_loop cfg sys cs st b = Some (st', b') \<Longrightarrow> (rg_clients st c = None \<longrightarrow> rg_clients st' c = None) \<and> (b = 0 \<longrightarrow> b' = 0)"
proof (induction cs arbitrary: st b)
  case (Cons d ds)
  then show ?case by (fastforce simp: Let_def split: option.splits if_splits dest: drop_client_frees)
qed simp

lemma drop_idle_loop_frees:
  assumes "drop_idle_loop cfg sys cs st b = Some (st', b')" "c \<in> set cs" "rg_clients st c = Some cl" "seems_idle cfg sys cl"
  shows "rg_clients st' c = None \<and> b' = 0"
  using assms
proof (induction cs arbitrary: st b)
  case (Cons d ds)
  show ?case
  proof (cases "d = c")
    case True
    then obtain s where "redsocks_drop_client cfg sys st c = Some s" "drop_idle_loop cfg sys ds s 0 = Some (st', b')"
      using Cons.prems by (auto simp: seems_idle_def split: option.splits)
    then show ?thesis using drop_idle_loop_keeps drop_client_frees by fastforce
  next
    case False
    then have ds: "c \<in> set ds" using Cons.prems(2) by simp
    from Cons.prems(1) obtain s b1 where "drop_idle_loop cfg sys ds s b1 = Some (st', b')" "s = st \<or> redsocks_drop_client cfg sys st d = Some s"
      by (auto simp: Let_def split: option.splits if_splits)
    moreover from this(2) have "rg_clients s c = Some cl" using False Cons.prems(3) drop_client_frees by fastforce
    ultimately show ?thesis using Cons.IH ds Cons.prems(4) by blast
  qed
qed simp

lemma conn_pressure_drops:
  assumes inv: "rg_core cfg {} st" and gt: "0 < connpres_idle_timeout cfg" and cl: "rg_clients st c = Some cl" and idle: "seems_idle cfg sys cl"
  obtains st' where "conn_pressure cfg sys st = Some st'" "rg_clients st' c = None" "rg_core cfg {} st'" "resumes cfg st st'"
    "rg_conn st' < redsocks_conn_max cfg"
proof -
  have u: "0 < uint (connpres_idle_timeout cfg) * 1000000" using gt by (simp add: word_less_def)
  have l: "distinct (listed st)" "\<forall>c \<in> set (listed st). rg_clients st c \<noteq> None" using inv by (auto simp: rg_core_def)
  have c: "c \<in> set (listed st)" using cl inv by (auto simp: rg_core_def)
  obtain s1 best where s1: "drop_idle_loop cfg sys (listed st) st (uint (connpres_idle_timeout cfg) * 1000000) = Some (s1, best)"
      "rg_core cfg {} s1" "resumes cfg st s1" "best = 0 \<longrightarrow> length (listed s1) < length (listed st)"
    using drop_idle_loop_ok [OF inv l less_imp_le [OF u], of sys] u by auto
  have f: "rg_clients s1 c = None" "best = 0" using drop_idle_loop_frees [OF s1(1) c cl idle] by simp_all
  then have "unat (rg_conn s1) < unat (redsocks_conn_max cfg)" using s1(2,4) inv by (simp add: rg_core_def)
  then have lt: "rg_conn s1 < redsocks_conn_max cfg" by (simp add: word_less_nat_alt)
  have "conn_pressure cfg sys st = Some s1"
    using gt s1(1) f(2) by (cases "connpres_idle_timeout cfg = 0") (simp_all add: conn_pressure_def drop_idle_connections_def)
  then show thesis using that f(1) s1(2,3) lt by blast
qed

subsection \<open>Runs\<close>

fun rg_exec :: "base_config \<Rightarrow> redsocks_global \<Rightarrow> rg_event list \<Rightarrow> redsocks_global option" where
  "rg_exec cfg st [] = Some st"
| "rg_exec cfg st (ev # evs) =
     (if rg_enabled st ev then case rg_step cfg st ev of Some st' \<Rightarrow> rg_exec cfg st' evs | None \<Rightarrow> None else None)"

lemma rg_steps_exec: "rg_steps cfg st0 st \<Longrightarrow> rg_exec cfg st evs = Some st' \<Longrightarrow> rg_steps cfg st0 st'"
  by (induction evs arbitrary: st) (auto split: if_splits option.splits intro: rg_steps.step)

lemma rg_exec_reach: "rg_exec cfg st0 evs \<noteq> None \<Longrightarrow> rg_steps cfg st0 (the (rg_exec cfg st0 evs))"
  using rg_steps_exec [OF rg_steps.start] by (cases "rg_exec cfg st0 evs") auto

text \<open>For the witnesses: a limit of one connection, and the default times.\<close>

definition demo_cfg :: base_config where
  "demo_cfg = \<lparr>redsocks_conn_max = 1, connpres_idle_timeout = 7440, max_accept_backoff_ms = 60000\<rparr>"

definition demo_sys :: "int \<Rightarrow> int \<Rightarrow> sys_results" where
  "demo_sys t n = \<lparr>sys_touch = t, sys_now = n, sys_rand = 5, sys_socket = True, sys_close = (\<lambda>c s. True)\<rparr>"

definition demo_accept :: "int \<Rightarrow> rg_event" where
  "demo_accept n = EvAccept 0 7 (demo_sys 1000000 n) (Accepted (Some Connecting))"

definition demo_full :: redsocks_global where
  "demo_full = the (rg_exec demo_cfg (redsocks_init 1) [demo_accept 1000001])"

lemma demo_full_reach: "rg_steps demo_cfg (redsocks_init 1) demo_full"
proof -
  have "rg_exec demo_cfg (redsocks_init 1) [demo_accept 1000001] \<noteq> None" by code_simp
  then show ?thesis unfolding demo_full_def by (rule rg_exec_reach)
qed

lemma demo_cfg_pos: "0 < redsocks_conn_max demo_cfg" "0 < max_accept_backoff_ms demo_cfg"
  by (simp_all add: demo_cfg_def)

subsection \<open>Properties\<close>

text \<open>C24: the bookkeeping of connections is exact in every state between two events: the allocated clients
  are exactly the ones in the lists of the instances, each once; the counter is their number, at most the
  limit; a listener is only armed below the limit, so the assertion at the start of
  \<open>redsocks_accept_client\<close> holds; and a pending back-off lasts at most the configured maximum.\<close>

theorem conn_accounting:
  assumes "0 < redsocks_conn_max cfg" and "0 < max_accept_backoff_ms cfg" and "rg_steps cfg (redsocks_init n) st"
  shows "distinct (listed st) \<and> {c. rg_clients st c \<noteq> None} = set (listed st) \<and>
     unat (rg_conn st) = length (listed st) \<and> length (listed st) \<le> unat (redsocks_conn_max cfg) \<and>
     (\<forall>i \<in> set (rg_instances st). in_listening i \<longrightarrow> rg_conn st < redsocks_conn_max cfg) \<and>
     (\<forall>d. rg_backoff_ev st = Some d \<longrightarrow> 0 < d \<and> d \<le> uint (max_accept_backoff_ms cfg) * 1000)"
  using steps_good [OF assms(3) init_inv [OF assms(1)] assms(2)]
  by (auto simp: rg_good_def rg_inv_def rg_core_def armed_def)

theorem conn_accounting_witness:
  "unat (rg_conn demo_full) = length (listed demo_full) \<and> rg_conn demo_full = 1"
proof -
  have "rg_conn demo_full = 1" by code_simp
  then show ?thesis using conn_accounting [OF demo_cfg_pos demo_full_reach] by blast
qed

text \<open>No event makes the bookkeeping use a freed client or fail an assertion, provided that the clock
  advances between the moment a new client is stamped and the check for idle clients, by less than
  the idle time.\<close>

theorem conn_events_safe:
  assumes "0 < redsocks_conn_max cfg" and "0 < max_accept_backoff_ms cfg" and "rg_steps cfg (redsocks_init n) st"
    and "rg_enabled st ev" and "\<And>i c sys res. ev = EvAccept i c sys res \<Longrightarrow> timely cfg sys"
  shows "rg_step cfg st ev \<noteq> None"
proof -
  have "rg_inv cfg st" using steps_good [OF assms(3) init_inv [OF assms(1)] assms(2)] by (simp add: rg_good_def)
  from step_good [OF this assms(2,4)] assms(5) show ?thesis by (auto split: option.splits)
qed

theorem conn_events_safe_witness: "rg_step demo_cfg (redsocks_init 1) (demo_accept 1000001) \<noteq> None"
proof (rule conn_events_safe [OF demo_cfg_pos rg_steps.start])
  show "rg_enabled (redsocks_init 1) (demo_accept 1000001)" by code_simp
  have "timely demo_cfg (demo_sys 1000000 1000001)" by code_simp
  then show "timely demo_cfg sys" if "demo_accept 1000001 = EvAccept i c sys res" for i c sys res
    using that by (simp add: demo_accept_def)
qed

text \<open>C34: when the connection that reaches the limit is accepted and the clock does not show a later microsecond than when the client was
  stamped, \<open>drop_idle_connections\<close> takes the new client for an idle one: \<open>redsocks_conn_list_add\<close> returns with the client freed, and
  \<open>redsocks_accept_client\<close> goes on to use it.  This holds for every configuration with an idle time and in every reachable state one below the limit.\<close>

theorem accept_uses_freed_client:
  assumes "0 < max_accept_backoff_ms cfg" and "0 < connpres_idle_timeout cfg" and "rg_steps cfg (redsocks_init n) st"
    and "rg_enabled st (EvAccept i c sys (Accepted r))" and "rg_conn st + 1 = redsocks_conn_max cfg" and "sys_now sys \<le> sys_touch sys"
    and "0 < redsocks_conn_max cfg"
  shows "\<exists>st'. redsocks_conn_list_add cfg sys (st\<lparr>rg_backoff_ms := 0, rg_clients := (rg_clients st)(c \<mapsto>
        \<lparr>cl_last_event = sys_touch sys, cl_client_fd = True, cl_relay_fd = False\<rparr>)\<rparr>) i c = Some st' \<and>
      rg_clients st' c = None \<and> rg_step cfg st (EvAccept i c sys (Accepted r)) = None"
proof -
  let ?cl = "\<lparr>cl_last_event = sys_touch sys, cl_client_fd = True, cl_relay_fd = False\<rparr>"
  define s1 where "s1 = st\<lparr>rg_backoff_ms := 0, rg_clients := (rg_clients st)(c \<mapsto> ?cl)\<rparr>"
  have inv: "rg_inv cfg st" using steps_good [OF assms(3) init_inv [OF assms(7)] assms(1)] by (simp add: rg_good_def)
  have i: "i < length (rg_instances s1)" and fresh: "rg_clients st c = None" and arm: "armed st"
    using assms(4) by (auto simp: armed_def s1_def)
  have lt: "rg_conn s1 < redsocks_conn_max cfg" using inv arm by (simp add: rg_inv_def s1_def)
  have f: "c \<notin> set (listed st)" using core_fresh [of cfg "{}"] inv fresh by (simp add: rg_inv_def)
  then have core1: "rg_core cfg {c} s1" using inv by (auto simp: s1_def rg_inv_def rg_core_def split: if_splits)
  have core: "rg_core cfg {} (with_client s1 i c)" by (rule with_client_core [OF core1 i lt])
  have "rg_clients (with_client s1 i c) c = Some ?cl" by (simp add: with_client_def s1_def)
  then obtain st' where st': "conn_pressure cfg sys (with_client s1 i c) = Some st'" "rg_clients st' c = None"
    using conn_pressure_drops [OF core assms(2), of c ?cl sys] assms(6) by (auto simp: seems_idle_def)
  have add: "redsocks_conn_list_add cfg sys s1 i c = Some st'"
    using st'(1) f lt assms(5) by (simp add: redsocks_conn_list_add_def with_client_def s1_def)
  then have "rg_step cfg st (EvAccept i c sys (Accepted r)) = None"
    using st'(2) lt by (simp add: redsocks_accept_client_def s1_def)
  then show ?thesis using add st'(2) unfolding s1_def by blast
qed

theorem accept_uses_freed_client_witness:
  "rg_enabled (redsocks_init 1) (demo_accept 1000000) \<and> rg_step demo_cfg (redsocks_init 1) (demo_accept 1000000) = None"
proof -
  have "rg_enabled (redsocks_init 1) (EvAccept 0 7 (demo_sys 1000000 1000000) (Accepted (Some Connecting)))" by code_simp
  moreover from accept_uses_freed_client [OF demo_cfg_pos(2) _ rg_steps.start this _ _ demo_cfg_pos(1)]
  have "rg_step demo_cfg (redsocks_init 1) (demo_accept 1000000) = None"
    by (auto simp: demo_cfg_def demo_sys_def demo_accept_def redsocks_init_def simp del: rg_step.simps)
  ultimately show ?thesis by (simp add: demo_accept_def)
qed

text \<open>C25: for every configuration with an idle time (the default is 7440 seconds) the back-off of \<open>accept\<close> can end for ever: in every reachable
  state, when the timer fires while the limit is reached or no socket is to be had, and some connection has been idle for that time,
  \<open>conn_pressure\<close> drops it and returns without arming the timer or the listeners; so although the number of connections is now
  below the limit, whatever happens afterwards no connection is accepted any more.\<close>

theorem accept_backoff_starves:
  assumes "0 < redsocks_conn_max cfg" and "0 < max_accept_backoff_ms cfg" and "0 < connpres_idle_timeout cfg"
    and "rg_steps cfg (redsocks_init n) st" and "rg_backoff_ev st \<noteq> None"
    and "redsocks_conn_max cfg \<le> rg_conn st \<or> \<not> sys_socket sys" and "rg_clients st c = Some cl"
    and "uint (connpres_idle_timeout cfg) * 1000000 \<le> sys_now sys - cl_last_event cl"
  shows "\<exists>st'. rg_step cfg st (EvBackoff sys) = Some st' \<and> rg_conn st' < redsocks_conn_max cfg \<and>
    (\<forall>st''. rg_steps cfg st' st'' \<longrightarrow> rg_backoff_ev st'' = None \<and> (\<forall>i c sys res. \<not> rg_enabled st'' (EvAccept i c sys res)))"
proof -
  have inv: "rg_inv cfg st" using steps_good [OF assms(4) init_inv [OF assms(1)] assms(2)] by (simp add: rg_good_def)
  define s1 where "s1 = st\<lparr>rg_backoff_ev := None\<rparr>"
  have core: "rg_core cfg {} s1" and off: "\<not> armed s1" "rg_backoff_ev s1 = None"
    using inv assms(5) by (auto simp: s1_def rg_inv_def rg_core_def)
  obtain st' where st': "conn_pressure cfg sys s1 = Some st'" "rg_core cfg {} st'" "resumes cfg s1 st'" "rg_conn st' < redsocks_conn_max cfg"
    by (rule conn_pressure_drops [OF core assms(3), of c cl sys]) (use assms(7,8) in \<open>auto simp: s1_def seems_idle_def\<close>)
  have "\<not> awake st'" using armed_resumes [OF st'(3)] resumes_idle [OF st'(3)] off by (simp add: awake_def)
  moreover have "rg_inv cfg st'" using st'(2,4) by (simp add: rg_inv_def)
  ultimately have "\<not> awake st''" if "rg_steps cfg st' st''" for st'' using asleep_steps [OF that _ assms(2)] by blast
  then have "rg_backoff_ev st'' = None \<and> (\<forall>i c sys res. \<not> rg_enabled st'' (EvAccept i c sys res))" if "rg_steps cfg st' st''" for st''
    using that by (auto simp: awake_def armed_def)
  moreover have "rg_step cfg st (EvBackoff sys) = Some st'"
    using st'(1) assms(6) by (auto simp: redsocks_accept_backoff_def conn_pressure_ongoing_def s1_def)
  ultimately show ?thesis using st'(4) by blast
qed

theorem accept_backoff_starves_witness:
  "\<exists>st'. rg_step demo_cfg demo_full (EvBackoff (demo_sys 0 7441000000)) = Some st' \<and> rg_conn st' < 1 \<and> \<not> rg_enabled st' (demo_accept 9000000000)"
proof -
  have d: "rg_backoff_ev demo_full \<noteq> None" "rg_conn demo_full = 1"
    "rg_clients demo_full 7 = Some \<lparr>cl_last_event = 1000000, cl_client_fd = True, cl_relay_fd = True\<rparr>" by code_simp+
  have c: "redsocks_conn_max demo_cfg = 1" "connpres_idle_timeout demo_cfg = 7440" by (simp_all add: demo_cfg_def)
  from accept_backoff_starves [OF demo_cfg_pos _ demo_full_reach d(1) _ d(3), of "demo_sys 0 7441000000"]
  obtain st' where "rg_step demo_cfg demo_full (EvBackoff (demo_sys 0 7441000000)) = Some st'" "rg_conn st' < 1"
    "\<forall>i c sys res. \<not> rg_enabled st' (EvAccept i c sys res)"
    using d(2) rg_steps.start by (auto simp: c demo_sys_def simp del: rg_step.simps rg_enabled.simps)
  then show ?thesis by (auto simp: demo_accept_def simp del: rg_step.simps rg_enabled.simps)
qed

text \<open>C26: with \<open>connpres_idle_timeout\<close> set to 0 this does not happen: at every moment a listener is armed, or the
  timer is pending that will look again.\<close>

theorem accept_always_resumes:
  assumes "0 < redsocks_conn_max cfg" and "0 < max_accept_backoff_ms cfg" and "rg_steps cfg (redsocks_init n) st"
    and "connpres_idle_timeout cfg = 0" and "0 < n"
  shows "(\<exists>i \<in> set (rg_instances st). in_listening i) \<or> rg_backoff_ev st \<noteq> None"
  using steps_good [OF assms(3) init_inv [OF assms(1)] assms(2)] init_awake [OF assms(5)] assms(4,5)
  by (simp add: rg_good_def awake_def armed_def redsocks_init_def)

definition demo_cfg0 :: base_config where
  "demo_cfg0 = demo_cfg\<lparr>connpres_idle_timeout := 0\<rparr>"

theorem accept_always_resumes_witness:
  "rg_backoff_ev (the (rg_exec demo_cfg0 (redsocks_init 1) [demo_accept 1000000])) \<noteq> None"
proof -
  let ?st = "the (rg_exec demo_cfg0 (redsocks_init 1) [demo_accept 1000000])"
  have "rg_exec demo_cfg0 (redsocks_init 1) [demo_accept 1000000] \<noteq> None" by code_simp
  then have r: "rg_steps demo_cfg0 (redsocks_init 1) ?st" by (rule rg_exec_reach)
  have p: "0 < redsocks_conn_max demo_cfg0" "0 < max_accept_backoff_ms demo_cfg0" "connpres_idle_timeout demo_cfg0 = 0"
    by (simp_all add: demo_cfg0_def demo_cfg_def)
  have "\<not> list_ex in_listening (rg_instances ?st)" by code_simp
  then show ?thesis using accept_always_resumes [OF p(1,2) r p(3) zero_less_one] unfolding list_ex_iff by blast
qed

end
