(* ===== verification/TcpClient.thy ===== *)
theory TcpClient
  imports FlowInterfaces "HOL-Library.Code_Target_Nat"
begin

text \<open>
  \<open>badvpn/tun2socks/tun2socks.c\<close>: a TCP connection of the tunnel, between the TCP/IP stack (\<open>lwIP\<close>) and
  its connection to the SOCKS server (\<open>BSocksClient\<close>).  What the stack returns is an argument
  (\<open>lwip\<close>); its protocol control block is kept as far as the client sees it: the callbacks that are
  installed, the bytes queued by \<open>tcp_write\<close> and not acknowledged, and the bytes delivered and not
  confirmed by \<open>tcp_recved\<close>.  The two stream interfaces of the SOCKS connection are those of
  \<open>FlowInterfaces\<close>, with their jobs.  The fields \<open>tc_to_socks\<close>, \<open>tc_from_socks\<close>, \<open>pcb_in\<close> and \<open>pcb_out\<close> are history:
  the bytes that crossed each of the four boundaries.  A handler returns \<open>None\<close> when it would fail an
  assertion, touch the client after \<open>client_dealloc\<close>, or write through a dangling pointer.  A client is a
  member of the list of clients while \<open>tc_listed\<close> holds, and \<open>num_clients\<close> is the number of such clients.
\<close>

subsection \<open>The code\<close>

definition TCP_MSS :: nat where "TCP_MSS = 1460"
definition TCP_WND :: nat where "TCP_WND = 4 * TCP_MSS"
definition CLIENT_SOCKS_RECV_BUF_SIZE :: int where "CLIENT_SOCKS_RECV_BUF_SIZE = 8192"

datatype err = ERR_OK | ERR_MEM | ERR_ABRT | ERR_OTHER

text \<open>The pointer \<open>dead_aborted\<close>: null, to the variable of a catch that is active (with its value), or to
  a variable that is gone.\<close>

datatype dead_ref = DeadNull | DeadCatch int | DeadDangling

record tcp_pcb =
  pcb_recv :: bool
  pcb_sent :: bool
  pcb_err :: bool
  pcb_in :: bytes
  pcb_out :: bytes
  pcb_unread :: int
  pcb_unacked :: int

record tcp_client =
  tc_alive :: bool
  tc_listed :: bool
  tc_aborted :: bool
  tc_dead :: dead_ref
  tc_socks_username :: "bytes option"
  tc_pcb :: tcp_pcb
  tc_client_closed :: bool
  tc_buf :: bytes
  tc_socks_up :: bool
  tc_socks_closed :: bool
  tc_send_if :: StreamInterface
  tc_recv_if :: StreamInterface
  tc_recv_buf :: bytes
  tc_recv_buf_used :: int
  tc_recv_buf_sent :: int
  tc_recv_waiting :: bool
  tc_tcp_pending :: int
  tc_to_socks :: bytes
  tc_from_socks :: bytes

text \<open>Results of the stack: the free send buffer and the result of \<open>tcp_write\<close> after a number of bytes of the
  receive buffer have been queued, and the results of \<open>tcp_output\<close> and \<open>tcp_close\<close>.\<close>

record lwip =
  lw_sndbuf :: "int \<Rightarrow> nat"
  lw_write :: "int \<Rightarrow> err"
  lw_output :: err
  lw_close :: err

definition dead_kill :: "tcp_client \<Rightarrow> int \<Rightarrow> tcp_client option" where
  "dead_kill c v =
     (case tc_dead c of
        DeadNull \<Rightarrow> Some c
      | DeadCatch _ \<Rightarrow> Some (c\<lparr>tc_dead := DeadCatch v\<rparr>)
      | DeadDangling \<Rightarrow> None)"

definition dead_enter :: "tcp_client \<Rightarrow> tcp_client option" where
  "dead_enter c = (if tc_dead c = DeadNull then Some (c\<lparr>tc_dead := DeadCatch 0\<rparr>) else None)"

text \<open>Leaving restores the pointer only when it was not killed; the result is whether it was killed with a
  positive value.\<close>

definition dead_leave :: "tcp_client \<Rightarrow> (tcp_client \<times> bool) option" where
  "dead_leave c =
     (case tc_dead c of
        DeadCatch v \<Rightarrow>
          if v = 0 then (if tc_alive c then Some (c\<lparr>tc_dead := DeadNull\<rparr>, False) else None)
          else Some (c\<lparr>tc_dead := DeadDangling\<rparr>, v > 0)
      | _ \<Rightarrow> None)"

definition pcb_callbacks :: "bool \<Rightarrow> bool \<Rightarrow> bool \<Rightarrow> tcp_client \<Rightarrow> tcp_client" where
  "pcb_callbacks e r s c = c\<lparr>tc_pcb := (tc_pcb c)\<lparr>pcb_err := e, pcb_recv := r, pcb_sent := s\<rparr>\<rparr>"

definition client_dealloc :: "tcp_client \<Rightarrow> tcp_client option" where
  "client_dealloc c =
     (if \<not> tc_alive c \<or> \<not> tc_client_closed c \<or> \<not> tc_socks_closed c \<or> \<not> tc_listed c then None
      else
        let c = c\<lparr>tc_listed := False\<rparr> in
        map_option (\<lambda>c. c\<lparr>tc_alive := False\<rparr>) (if \<not> tc_aborted c then dead_kill c (-1) else Some c))"

definition client_abort_pcb :: "tcp_client \<Rightarrow> tcp_client option" where
  "client_abort_pcb c =
     (if \<not> tc_alive c \<or> tc_aborted c then None else dead_kill (c\<lparr>tc_aborted := True\<rparr>) 1)"

lemma abort_pcb_fields:
  "client_abort_pcb c = Some c' \<Longrightarrow> tc_client_closed c' = tc_client_closed c \<and> tc_socks_closed c' = tc_socks_closed c"
  by (auto simp: client_abort_pcb_def dead_kill_def split: if_splits dead_ref.splits)

function client_handle_freed_client :: "lwip \<Rightarrow> tcp_client \<Rightarrow> tcp_client option"
  and client_free_client :: "lwip \<Rightarrow> tcp_client \<Rightarrow> tcp_client option"
  and client_free_socks :: "lwip \<Rightarrow> tcp_client \<Rightarrow> tcp_client option"
where
  "client_handle_freed_client lw c =
     (if \<not> tc_alive c \<or> tc_client_closed c then None
      else
        let c' = c\<lparr>tc_client_closed := True\<rparr> in
        if tc_buf c' \<noteq> [] \<and> \<not> tc_socks_closed c' then Some c'
        else if \<not> tc_socks_closed c' then client_free_socks lw c'
        else client_dealloc c')"
| "client_free_client lw c =
     (if \<not> tc_alive c \<or> tc_client_closed c then None
      else
        case (if lw_close lw \<noteq> ERR_OK then client_abort_pcb (pcb_callbacks False False False c)
              else Some (pcb_callbacks False False False c)) of
          None \<Rightarrow> None
        | Some c' \<Rightarrow> client_handle_freed_client lw c')"
| "client_free_socks lw c =
     (if \<not> tc_alive c \<or> tc_socks_closed c then None
      else
        let c' = (if tc_socks_up c \<and> \<not> tc_client_closed c
                  then pcb_callbacks (pcb_err (tc_pcb c)) False (pcb_sent (tc_pcb c)) c else c);
            c'' = c'\<lparr>tc_socks_closed := True\<rparr> in
        if tc_socks_up c'' \<and> (tc_recv_buf_used c'' \<ge> 0 \<or> tc_tcp_pending c'' > 0) \<and> \<not> tc_client_closed c'' then Some c''
        else if \<not> tc_client_closed c'' then client_free_client lw c''
        else client_dealloc c'')"
  by pat_completeness auto
termination
  by (relation "measure (\<lambda>x. case x of
        Inl (lw, c) \<Rightarrow> (if tc_client_closed c then 0 else 2) + (if tc_socks_closed c then 0 else 2)
      | Inr (Inl (lw, c)) \<Rightarrow> (if tc_client_closed c then 0 else 2) + (if tc_socks_closed c then 0 else 2) + 1
      | Inr (Inr (lw, c)) \<Rightarrow> (if tc_client_closed c then 0 else 2) + (if tc_socks_closed c then 0 else (2 :: nat)))")
    (auto simp: pcb_callbacks_def dest!: abort_pcb_fields split: if_splits)

declare client_handle_freed_client.simps [simp del] client_free_client.simps [simp del] client_free_socks.simps [simp del]

definition client_abort_client :: "lwip \<Rightarrow> tcp_client \<Rightarrow> tcp_client option" where
  "client_abort_client lw c =
     (if \<not> tc_alive c \<or> tc_client_closed c then None
      else case client_abort_pcb (pcb_callbacks False False False c) of
        None \<Rightarrow> None
      | Some c \<Rightarrow> client_handle_freed_client lw c)"

definition client_murder :: "tcp_client \<Rightarrow> tcp_client option" where
  "client_murder c =
     (if \<not> tc_alive c then None
      else case (if \<not> tc_client_closed c
                 then map_option (\<lambda>c. c\<lparr>tc_client_closed := True\<rparr>) (client_abort_pcb (pcb_callbacks False False False c))
                 else Some c) of
        None \<Rightarrow> None
      | Some c \<Rightarrow> client_dealloc (if \<not> tc_socks_closed c then c\<lparr>tc_socks_closed := True\<rparr> else c))"

definition client_err_func :: "lwip \<Rightarrow> tcp_client \<Rightarrow> tcp_client option" where
  "client_err_func lw c = (if tc_client_closed c then None else client_handle_freed_client lw c)"

definition client_send_to_socks :: "tcp_client \<Rightarrow> tcp_client option" where
  "client_send_to_socks c =
     (if \<not> tc_alive c \<or> tc_socks_closed c \<or> \<not> tc_socks_up c \<or> tc_buf c = [] then None
      else map_option (\<lambda>i. c\<lparr>tc_send_if := i\<rparr>)
             (StreamPassInterface_Sender_Send (tc_send_if c) (Some 0) (int (length (tc_buf c)))))"

definition client_socks_recv_initiate :: "tcp_client \<Rightarrow> tcp_client option" where
  "client_socks_recv_initiate c =
     (if \<not> tc_alive c \<or> tc_client_closed c \<or> tc_socks_closed c \<or> \<not> tc_socks_up c \<or> tc_recv_buf_used c \<noteq> -1 then None
      else map_option (\<lambda>i. c\<lparr>tc_recv_if := i\<rparr>)
             (StreamRecvInterface_Receiver_Recv (tc_recv_if c) (Some 0) CLIENT_SOCKS_RECV_BUF_SIZE))"

datatype socks_event = BSOCKSCLIENT_EVENT_ERROR | BSOCKSCLIENT_EVENT_UP | BSOCKSCLIENT_EVENT_ERROR_CLOSED

text \<open>The interfaces of the SOCKS connection exist from the moment it is up.\<close>

definition client_socks_handler :: "lwip \<Rightarrow> tcp_client \<Rightarrow> socks_event \<Rightarrow> tcp_client option" where
  "client_socks_handler lw c event =
     (if \<not> tc_alive c \<or> tc_socks_closed c then None
      else case event of
        BSOCKSCLIENT_EVENT_ERROR \<Rightarrow> client_free_socks lw c
      | BSOCKSCLIENT_EVENT_UP \<Rightarrow>
          if tc_socks_up c then None
          else
            (case (StreamPassInterface_Sender_Init StreamPassInterface_Init, StreamRecvInterface_Receiver_Init StreamRecvInterface_Init) of
               (Some si, Some ri) \<Rightarrow>
                 let c = c\<lparr>tc_send_if := si, tc_recv_if := ri, tc_recv_buf_used := -1, tc_tcp_pending := 0\<rparr>;
                     c = (if \<not> tc_client_closed c then pcb_callbacks (pcb_err (tc_pcb c)) (pcb_recv (tc_pcb c)) True c else c);
                     c = c\<lparr>tc_socks_up := True\<rparr>
                 in (case (if tc_buf c \<noteq> [] then client_send_to_socks c else Some c) of
                       None \<Rightarrow> None
                     | Some c \<Rightarrow> if \<not> tc_client_closed c then client_socks_recv_initiate c else Some c)
             | _ \<Rightarrow> None)
      | BSOCKSCLIENT_EVENT_ERROR_CLOSED \<Rightarrow> if \<not> tc_socks_up c then None else client_free_socks lw c)"

definition client_socks_send_handler_done :: "lwip \<Rightarrow> tcp_client \<Rightarrow> int \<Rightarrow> tcp_client option" where
  "client_socks_send_handler_done lw c data_len =
     (if \<not> tc_alive c \<or> tc_socks_closed c \<or> \<not> tc_socks_up c \<or> tc_buf c = [] \<or> \<not> data_len > 0 \<or>
         \<not> data_len \<le> int (length (tc_buf c)) then None
      else
        let c = c\<lparr>tc_buf := drop (nat data_len) (tc_buf c)\<rparr>;
            c = (if \<not> tc_client_closed c
                 then c\<lparr>tc_pcb := (tc_pcb c)\<lparr>pcb_unread := pcb_unread (tc_pcb c) - data_len\<rparr>\<rparr> else c)
        in if tc_buf c \<noteq> [] then
             map_option (\<lambda>i. c\<lparr>tc_send_if := i\<rparr>)
               (StreamPassInterface_Sender_Send (tc_send_if c) (Some 0) (int (length (tc_buf c))))
           else if tc_client_closed c then client_free_socks lw c
           else Some c)"

text \<open>The loop of \<open>client_socks_recv_send_out\<close>: the client, and whether \<open>tcp_write\<close> failed for good.\<close>

function recv_send_loop :: "lwip \<Rightarrow> tcp_client \<Rightarrow> tcp_client \<times> bool" where
  "recv_send_loop lw c =
     (let to_write = min (tc_recv_buf_used c - tc_recv_buf_sent c) (int (lw_sndbuf lw (tc_recv_buf_sent c))) in
      if to_write \<le> 0 then (c, False)
      else case lw_write lw (tc_recv_buf_sent c) of
        ERR_OK \<Rightarrow>
          let c' = c\<lparr>tc_pcb := (tc_pcb c)\<lparr>pcb_out := pcb_out (tc_pcb c) @
                        mem_read (tc_recv_buf c) (nat (tc_recv_buf_sent c)) (nat to_write),
                      pcb_unacked := pcb_unacked (tc_pcb c) + to_write\<rparr>,
                    tc_recv_buf_sent := tc_recv_buf_sent c + to_write,
                    tc_tcp_pending := tc_tcp_pending c + to_write\<rparr>
          in if tc_recv_buf_sent c' < tc_recv_buf_used c' then recv_send_loop lw c' else (c', False)
      | ERR_MEM \<Rightarrow> (c, False)
      | _ \<Rightarrow> (c, True))"
  by pat_completeness auto
termination
  by (relation "measure (\<lambda>(lw, c). nat (tc_recv_buf_used c - tc_recv_buf_sent c))") auto

declare recv_send_loop.simps [simp del]

text \<open>The second component is False when \<open>tcp_abort\<close> was done (the result -1).\<close>

definition client_socks_recv_send_out :: "lwip \<Rightarrow> tcp_client \<Rightarrow> (tcp_client \<times> bool) option" where
  "client_socks_recv_send_out lw c =
     (if \<not> tc_alive c \<or> tc_client_closed c \<or> \<not> tc_socks_up c \<or> \<not> tc_recv_buf_used c > 0 \<or>
         \<not> tc_recv_buf_sent c < tc_recv_buf_used c \<or> tc_recv_waiting c then None
      else
        let (c, failed) = recv_send_loop lw c in
        if failed \<or> lw_output lw \<noteq> ERR_OK then map_option (\<lambda>c. (c, False)) (client_abort_client lw c)
        else if tc_recv_buf_sent c < tc_recv_buf_used c then
          if tc_tcp_pending c = 0 then map_option (\<lambda>c. (c, False)) (client_abort_client lw c)
          else Some (c\<lparr>tc_recv_waiting := True\<rparr>, True)
        else Some (c\<lparr>tc_recv_buf_used := -1\<rparr>, True))"

definition client_socks_recv_handler_done :: "lwip \<Rightarrow> tcp_client \<Rightarrow> int \<Rightarrow> tcp_client option" where
  "client_socks_recv_handler_done lw c data_len =
     (if \<not> tc_alive c \<or> \<not> data_len > 0 \<or> \<not> data_len \<le> CLIENT_SOCKS_RECV_BUF_SIZE \<or> tc_socks_closed c \<or>
         \<not> tc_socks_up c \<or> tc_recv_buf_used c \<noteq> -1 then None
      else if tc_client_closed c then Some c
      else case client_socks_recv_send_out lw
             (c\<lparr>tc_recv_buf_used := data_len, tc_recv_buf_sent := 0, tc_recv_waiting := False\<rparr>) of
        None \<Rightarrow> None
      | Some (c, ok) \<Rightarrow>
          if \<not> ok then Some c
          else if tc_recv_buf_used c = -1 then client_socks_recv_initiate c else Some c)"

subsection \<open>Events of the SOCKS connection\<close>

datatype socks_ev =
    SocksEvent socks_event
  | SendOperation | SendComplete int | SendDone
  | RecvOperation | RecvComplete bytes | RecvDone

text \<open>What the SOCKS connection may do: nothing after it was freed; it comes up once and is closed by its
  peer while it receives; the interfaces follow their protocol.\<close>

fun socks_possible :: "tcp_client \<Rightarrow> socks_ev \<Rightarrow> bool" where
  "socks_possible c ev \<longleftrightarrow> tc_alive c \<and> \<not> tc_socks_closed c \<and>
     (case ev of
        SocksEvent BSOCKSCLIENT_EVENT_ERROR \<Rightarrow> True
      | SocksEvent BSOCKSCLIENT_EVENT_UP \<Rightarrow> \<not> tc_socks_up c
      | SocksEvent BSOCKSCLIENT_EVENT_ERROR_CLOSED \<Rightarrow> tc_socks_up c \<and> si_state (tc_recv_if c) = STATE_BUSY
      | SendOperation \<Rightarrow> tc_socks_up c \<and> si_job_operation (tc_send_if c)
      | SendComplete n \<Rightarrow> tc_socks_up c \<and> si_state (tc_send_if c) = STATE_BUSY \<and> 0 < n \<and> n \<le> si_job_operation_len (tc_send_if c)
      | SendDone \<Rightarrow> tc_socks_up c \<and> si_job_done (tc_send_if c)
      | RecvOperation \<Rightarrow> tc_socks_up c \<and> si_job_operation (tc_recv_if c)
      | RecvComplete ds \<Rightarrow> tc_socks_up c \<and> si_state (tc_recv_if c) = STATE_BUSY \<and> ds \<noteq> [] \<and>
          int (length ds) \<le> si_job_operation_len (tc_recv_if c)
      | RecvDone \<Rightarrow> tc_socks_up c \<and> si_job_done (tc_recv_if c))"

fun socks_step :: "lwip \<Rightarrow> tcp_client \<Rightarrow> socks_ev \<Rightarrow> tcp_client option" where
  "socks_step lw c (SocksEvent e) = client_socks_handler lw c e"
| "socks_step lw c SendOperation =
     map_option (\<lambda>(i, data, len). c\<lparr>tc_send_if := i\<rparr>) (StreamPassInterface_job_operation (tc_send_if c))"
| "socks_step lw c (SendComplete n) =
     map_option (\<lambda>i. c\<lparr>tc_send_if := i, tc_to_socks := tc_to_socks c @ take (nat n) (tc_buf c)\<rparr>)
       (StreamPassInterface_Done (tc_send_if c) n)"
| "socks_step lw c SendDone =
     (case StreamPassInterface_job_done (tc_send_if c) of
        None \<Rightarrow> None
      | Some (i, n) \<Rightarrow> client_socks_send_handler_done lw (c\<lparr>tc_send_if := i\<rparr>) n)"
| "socks_step lw c RecvOperation =
     map_option (\<lambda>(i, data, len). c\<lparr>tc_recv_if := i\<rparr>) (StreamRecvInterface_job_operation (tc_recv_if c))"
| "socks_step lw c (RecvComplete ds) =
     map_option (\<lambda>i. c\<lparr>tc_recv_if := i, tc_recv_buf := ds, tc_from_socks := tc_from_socks c @ ds\<rparr>)
       (StreamRecvInterface_Done (tc_recv_if c) (int (length ds)))"
| "socks_step lw c RecvDone =
     (case StreamRecvInterface_job_done (tc_recv_if c) of
        None \<Rightarrow> None
      | Some (i, n) \<Rightarrow> client_socks_recv_handler_done lw (c\<lparr>tc_recv_if := i\<rparr>) n)"

text \<open>\<open>SYNC_COMMIT\<close> runs jobs of the SOCKS connection inside a callback of the stack: any sequence of possible events.\<close>

fun sync_commit :: "tcp_client \<Rightarrow> (lwip \<times> socks_ev) list \<Rightarrow> tcp_client option" where
  "sync_commit c [] = Some c"
| "sync_commit c ((lw, ev) # evs) =
     (if socks_possible c ev then (case socks_step lw c ev of None \<Rightarrow> None | Some c \<Rightarrow> sync_commit c evs)
      else sync_commit c evs)"

subsection \<open>Callbacks of the stack\<close>

definition accept_client :: "bytes option \<Rightarrow> (lwip \<times> socks_ev) list \<Rightarrow> (tcp_client \<times> err) option" where
  "accept_client username jobs =
     (let c = \<lparr>tc_alive = True, tc_listed = True, tc_aborted = False, tc_dead = DeadNull, tc_socks_username = username,
               tc_pcb = \<lparr>pcb_recv = True, pcb_sent = False, pcb_err = True, pcb_in = [], pcb_out = [], pcb_unread = 0, pcb_unacked = 0\<rparr>,
               tc_client_closed = False, tc_buf = [], tc_socks_up = False, tc_socks_closed = False,
               tc_send_if = StreamPassInterface_Init, tc_recv_if = StreamRecvInterface_Init, tc_recv_buf = [],
               tc_recv_buf_used = 0, tc_recv_buf_sent = 0, tc_recv_waiting = False, tc_tcp_pending = 0,
               tc_to_socks = [], tc_from_socks = []\<rparr>
      in case dead_enter c of None \<Rightarrow> None
         | Some c \<Rightarrow> (case sync_commit c jobs of None \<Rightarrow> None
           | Some c \<Rightarrow> map_option (\<lambda>(c, killed). (c, if killed then ERR_ABRT else ERR_OK)) (dead_leave c)))"

text \<open>What the start of a connection depends on: the options, the printed address of the peer, and what
  may fail (the two allocations and \<open>BSocksClient_Init\<close>).\<close>

record accept_env =
  ac_malloc :: bool
  ac_username :: "bytes option"
  ac_append :: bool
  ac_remote :: bytes
  ac_concat :: bool
  ac_socks_init :: "bytes option \<Rightarrow> bool"

definition listener_accept_func :: "accept_env \<Rightarrow> (lwip \<times> socks_ev) list \<Rightarrow> (tcp_client option \<times> err) option" where
  "listener_accept_func env jobs =
     (if \<not> ac_malloc env then Some (None, ERR_MEM)
      else
        let username = (case ac_username env of
              Some u \<Rightarrow> if ac_append env then Some (u @ [64] @ ac_remote env) else None
            | None \<Rightarrow> None)
        in if username \<noteq> None \<and> \<not> ac_concat env then Some (None, ERR_MEM)
           else if \<not> ac_socks_init env username then Some (None, ERR_MEM)
           else map_option (\<lambda>(c, e). (Some c, e)) (accept_client username jobs))"

definition client_recv_func :: "lwip \<Rightarrow> (lwip \<times> socks_ev) list \<Rightarrow> tcp_client \<Rightarrow> bytes option \<Rightarrow> (tcp_client \<times> err) option" where
  "client_recv_func lw jobs c p =
     (if \<not> tc_alive c \<or> tc_client_closed c then None
      else case dead_enter c of None \<Rightarrow> None
      | Some c \<Rightarrow>
        (case p of
           None \<Rightarrow>
             (case client_free_client lw c of None \<Rightarrow> None
              | Some c \<Rightarrow> map_option (\<lambda>(c, killed). (c, if killed then ERR_ABRT else ERR_OK)) (dead_leave c))
         | Some ds \<Rightarrow>
             if ds = [] then None
             else if length ds > TCP_WND - length (tc_buf c) then map_option (\<lambda>(c, _). (c, ERR_MEM)) (dead_leave c)
             else
               let c = c\<lparr>tc_buf := tc_buf c @ ds,
                         tc_pcb := (tc_pcb c)\<lparr>pcb_in := pcb_in (tc_pcb c) @ ds, pcb_unread := pcb_unread (tc_pcb c) + int (length ds)\<rparr>\<rparr>
               in (case (if length (tc_buf c) = length ds \<and> tc_socks_up c
                         then if tc_socks_closed c then None
                              else case client_send_to_socks c of None \<Rightarrow> None | Some c \<Rightarrow> sync_commit c jobs
                         else Some c) of
                     None \<Rightarrow> None
                   | Some c \<Rightarrow> map_option (\<lambda>(c, killed). (c, if killed then ERR_ABRT else ERR_OK)) (dead_leave c))))"

definition client_sent_func :: "lwip \<Rightarrow> (lwip \<times> socks_ev) list \<Rightarrow> tcp_client \<Rightarrow> int \<Rightarrow> (tcp_client \<times> err) option" where
  "client_sent_func lw jobs c len =
     (if \<not> tc_alive c \<or> tc_client_closed c \<or> \<not> tc_socks_up c \<or> \<not> len > 0 \<or> \<not> len \<le> tc_tcp_pending c then None
      else case dead_enter c of None \<Rightarrow> None
      | Some c \<Rightarrow>
        let c = c\<lparr>tc_tcp_pending := tc_tcp_pending c - len\<rparr> in
        (case (if tc_recv_buf_used c > 0 then
                 if \<not> tc_recv_waiting c \<or> \<not> tc_recv_buf_sent c < tc_recv_buf_used c then None
                 else
                   (case client_socks_recv_send_out lw (c\<lparr>tc_recv_waiting := False\<rparr>) of
                      None \<Rightarrow> None
                    | Some (c, ok) \<Rightarrow>
                        if \<not> ok then Some c
                        else if \<not> tc_tcp_pending c > 0 then None
                        else if tc_recv_buf_used c = -1 \<and> \<not> tc_socks_closed c
                        then (case client_socks_recv_initiate c of None \<Rightarrow> None | Some c \<Rightarrow> sync_commit c jobs)
                        else Some c)
               else if tc_socks_closed c \<and> tc_tcp_pending c = 0 then client_free_client lw c
               else Some c) of
           None \<Rightarrow> None
         | Some c \<Rightarrow> map_option (\<lambda>(c, killed). (c, if killed then ERR_ABRT else ERR_OK)) (dead_leave c)))"

subsection \<open>Runs\<close>

datatype tc_event =
    PcbRecv lwip "(lwip \<times> socks_ev) list" "bytes option"
  | PcbSent lwip "(lwip \<times> socks_ev) list" int
  | PcbErr lwip
  | Socks lwip socks_ev

text \<open>The stack calls a callback only while it is installed; it delivers no more than its window, and
  acknowledges no more than was queued.\<close>

fun tc_possible :: "tcp_client \<Rightarrow> tc_event \<Rightarrow> bool" where
  "tc_possible c (PcbRecv lw jobs p) \<longleftrightarrow> tc_alive c \<and> pcb_recv (tc_pcb c) \<and>
     (case p of None \<Rightarrow> True | Some ds \<Rightarrow> ds \<noteq> [] \<and> int (length ds) + pcb_unread (tc_pcb c) \<le> int TCP_WND)"
| "tc_possible c (PcbSent lw jobs len) \<longleftrightarrow> tc_alive c \<and> pcb_sent (tc_pcb c) \<and> 0 < len \<and> len \<le> pcb_unacked (tc_pcb c)"
| "tc_possible c (PcbErr lw) \<longleftrightarrow> tc_alive c \<and> pcb_err (tc_pcb c)"
| "tc_possible c (Socks lw ev) \<longleftrightarrow> socks_possible c ev"

text \<open>The client afterwards, and what the callback returned.\<close>

fun tc_step :: "tcp_client \<Rightarrow> tc_event \<Rightarrow> (tcp_client \<times> err) option" where
  "tc_step c (PcbRecv lw jobs p) = client_recv_func lw jobs c p"
| "tc_step c (PcbSent lw jobs len) =
     client_sent_func lw jobs (c\<lparr>tc_pcb := (tc_pcb c)\<lparr>pcb_unacked := pcb_unacked (tc_pcb c) - len\<rparr>\<rparr>) len"
| "tc_step c (PcbErr lw) =
     map_option (\<lambda>c. (c, ERR_OK)) (client_err_func lw (pcb_callbacks False False False c))"
| "tc_step c (Socks lw ev) = map_option (\<lambda>c. (c, ERR_OK)) (socks_step lw c ev)"

inductive tc_reach :: "tcp_client \<Rightarrow> bool" where
  accept: "listener_accept_func env jobs = Some (Some c, e) \<Longrightarrow> tc_reach c"
| step: "tc_reach c \<Longrightarrow> tc_possible c ev \<Longrightarrow> tc_step c ev = Some (c', e) \<Longrightarrow> tc_reach c'"

subsection \<open>What holds between and inside handlers\<close>

definition in_catch :: "tcp_client \<Rightarrow> bool" where
  "in_catch c \<longleftrightarrow> (case tc_dead c of DeadCatch v \<Rightarrow> True | _ \<Rightarrow> False)"

text \<open>A catch sees 1 exactly when \<open>tcp_abort\<close> was done and -1 when the client was freed without; the pointer
  dangles only when it is not used any more.\<close>

definition dead_ok :: "tcp_client \<Rightarrow> bool" where
  "dead_ok c \<longleftrightarrow>
     (case tc_dead c of
        DeadNull \<Rightarrow> True
      | DeadCatch v \<Rightarrow> v = (if tc_aborted c then 1 else if tc_alive c then 0 else -1)
      | DeadDangling \<Rightarrow> tc_aborted c \<or> \<not> tc_alive c)"

text \<open>The bytes a completed send has taken out of the buffer, before the client is told.\<close>

definition send_taken :: "tcp_client \<Rightarrow> nat" where
  "send_taken c = (if si_state (tc_send_if c) = STATE_DONE_PENDING then nat (si_job_done_len (tc_send_if c)) else 0)"

definition send_ok :: "tcp_client \<Rightarrow> bool" where
  "send_ok c \<longleftrightarrow>
     (if tc_socks_up c then
        si_inv (tc_send_if c) \<and> si_has_user (tc_send_if c) \<and> (si_state (tc_send_if c) = STATE_NONE \<longleftrightarrow> tc_buf c = []) \<and>
        (tc_buf c \<noteq> [] \<longrightarrow> si_job_operation_len (tc_send_if c) \<le> int (length (tc_buf c))) \<and>
        tc_to_socks c @ drop (send_taken c) (tc_buf c) = pcb_in (tc_pcb c)
      else tc_to_socks c = [] \<and> tc_buf c = pcb_in (tc_pcb c)) \<and>
     (\<not> tc_client_closed c \<longrightarrow> pcb_unread (tc_pcb c) = int (length (tc_buf c)) \<and> length (tc_buf c) \<le> TCP_WND)"

text \<open>The bytes from SOCKS that are still to be queued.\<close>

definition recv_rest :: "tcp_client \<Rightarrow> bytes" where
  "recv_rest c =
     (if tc_recv_buf_used c \<noteq> -1 then drop (nat (tc_recv_buf_sent c)) (tc_recv_buf c)
      else if si_state (tc_recv_if c) = STATE_DONE_PENDING then tc_recv_buf c else [])"

definition recv_if_ok :: "tcp_client \<Rightarrow> bool" where
  "recv_if_ok c \<longleftrightarrow> si_inv (tc_recv_if c) \<and> si_has_user (tc_recv_if c) \<and>
     (si_state (tc_recv_if c) \<noteq> STATE_NONE \<longrightarrow> tc_recv_buf_used c = -1 \<and> si_job_operation_len (tc_recv_if c) = CLIENT_SOCKS_RECV_BUF_SIZE) \<and>
     (si_state (tc_recv_if c) = STATE_DONE_PENDING \<longrightarrow> si_job_done_len (tc_recv_if c) = int (length (tc_recv_buf c)))"

definition recv_buf_ok :: "tcp_client \<Rightarrow> bool" where
  "recv_buf_ok c \<longleftrightarrow> tc_tcp_pending c = pcb_unacked (tc_pcb c) \<and> 0 \<le> tc_tcp_pending c \<and>
     (tc_recv_buf_used c = -1 \<or>
      0 < tc_recv_buf_used c \<and> 0 \<le> tc_recv_buf_sent c \<and> tc_recv_buf_sent c < tc_recv_buf_used c \<and>
      tc_recv_buf_used c = int (length (tc_recv_buf c)) \<and> tc_recv_waiting c \<and> 0 < tc_tcp_pending c)"

definition tc_data :: "tcp_client \<Rightarrow> bool" where
  "tc_data c \<longleftrightarrow>
     (\<exists>r. tc_to_socks c @ r = pcb_in (tc_pcb c)) \<and> (\<exists>r. pcb_out (tc_pcb c) @ r = tc_from_socks c) \<and>
     (\<not> tc_socks_up c \<longrightarrow> tc_from_socks c = [] \<and> pcb_unacked (tc_pcb c) = 0) \<and>
     (\<not> tc_socks_closed c \<longrightarrow> send_ok c) \<and>
     (tc_socks_up c \<and> \<not> tc_socks_closed c \<longrightarrow> recv_if_ok c) \<and>
     (tc_socks_up c \<and> \<not> tc_client_closed c \<longrightarrow> recv_buf_ok c \<and>
        (if tc_socks_closed c then \<exists>r. pcb_out (tc_pcb c) @ (if tc_recv_buf_used c \<noteq> -1 then recv_rest c else []) @ r = tc_from_socks c
         else pcb_out (tc_pcb c) @ recv_rest c = tc_from_socks c)) \<and>
     (tc_socks_up c \<and> \<not> tc_client_closed c \<and> \<not> tc_socks_closed c \<longrightarrow>
        (si_state (tc_recv_if c) = STATE_NONE \<longleftrightarrow> tc_recv_buf_used c \<noteq> -1))"

definition tc_callbacks :: "tcp_client \<Rightarrow> bool" where
  "tc_callbacks c \<longleftrightarrow> pcb_recv (tc_pcb c) = (\<not> tc_client_closed c \<and> \<not> tc_socks_closed c) \<and>
     pcb_sent (tc_pcb c) = (tc_socks_up c \<and> \<not> tc_client_closed c) \<and> pcb_err (tc_pcb c) = (\<not> tc_client_closed c)"

definition tc_pre :: "tcp_client \<Rightarrow> bool" where
  "tc_pre c \<longleftrightarrow> tc_alive c \<and> tc_listed c \<and> tc_data c \<and> (tc_aborted c \<longrightarrow> tc_client_closed c) \<and> tc_callbacks c \<and> dead_ok c"

text \<open>A side that is closed is only waited for while there is something to send to the other one.\<close>

definition tc_waits :: "tcp_client \<Rightarrow> bool" where
  "tc_waits c \<longleftrightarrow> (tc_client_closed c \<longrightarrow> \<not> tc_socks_closed c \<and> tc_buf c \<noteq> []) \<and>
     (tc_socks_closed c \<longrightarrow> tc_socks_up c \<and> 0 < tc_tcp_pending c)"

definition tc_inv :: "tcp_client \<Rightarrow> bool" where
  "tc_inv c \<longleftrightarrow> (if tc_alive c then tc_pre c \<and> tc_waits c
     else tc_client_closed c \<and> tc_socks_closed c \<and> \<not> tc_listed c \<and> dead_ok c)"

definition good :: "bool \<Rightarrow> tcp_client option \<Rightarrow> bool" where
  "good k r \<longleftrightarrow> (\<exists>c'. r = Some c' \<and> tc_inv c' \<and> in_catch c' = k)"

lemma good_simps [simp]: "good k (Some c) \<longleftrightarrow> tc_inv c \<and> in_catch c = k" "\<not> good k None"
  by (auto simp: good_def)

text \<open>The data once the client has been closed.\<close>

definition closed_data :: "tcp_client \<Rightarrow> bool" where
  "closed_data c \<longleftrightarrow> tc_data (c\<lparr>tc_client_closed := True\<rparr>)"

subsection \<open>Closing\<close>

lemma dead_frame [simp]:
  "dead_ok (c\<lparr>tc_client_closed := v_client_closed\<rparr>) = dead_ok c" "in_catch (c\<lparr>tc_client_closed := v_client_closed\<rparr>) = in_catch c"
  "dead_ok (c\<lparr>tc_socks_closed := v_socks_closed\<rparr>) = dead_ok c" "in_catch (c\<lparr>tc_socks_closed := v_socks_closed\<rparr>) = in_catch c"
  "dead_ok (c\<lparr>tc_pcb := v_pcb\<rparr>) = dead_ok c" "in_catch (c\<lparr>tc_pcb := v_pcb\<rparr>) = in_catch c"
  "dead_ok (c\<lparr>tc_buf := v_buf\<rparr>) = dead_ok c" "in_catch (c\<lparr>tc_buf := v_buf\<rparr>) = in_catch c"
  "dead_ok (c\<lparr>tc_socks_up := v_socks_up\<rparr>) = dead_ok c" "in_catch (c\<lparr>tc_socks_up := v_socks_up\<rparr>) = in_catch c"
  "dead_ok (c\<lparr>tc_send_if := v_send_if\<rparr>) = dead_ok c" "in_catch (c\<lparr>tc_send_if := v_send_if\<rparr>) = in_catch c"
  "dead_ok (c\<lparr>tc_recv_if := v_recv_if\<rparr>) = dead_ok c" "in_catch (c\<lparr>tc_recv_if := v_recv_if\<rparr>) = in_catch c"
  "dead_ok (c\<lparr>tc_recv_buf := v_recv_buf\<rparr>) = dead_ok c" "in_catch (c\<lparr>tc_recv_buf := v_recv_buf\<rparr>) = in_catch c"
  "dead_ok (c\<lparr>tc_recv_buf_used := v_recv_buf_used\<rparr>) = dead_ok c" "in_catch (c\<lparr>tc_recv_buf_used := v_recv_buf_used\<rparr>) = in_catch c"
  "dead_ok (c\<lparr>tc_recv_buf_sent := v_recv_buf_sent\<rparr>) = dead_ok c" "in_catch (c\<lparr>tc_recv_buf_sent := v_recv_buf_sent\<rparr>) = in_catch c"
  "dead_ok (c\<lparr>tc_recv_waiting := v_recv_waiting\<rparr>) = dead_ok c" "in_catch (c\<lparr>tc_recv_waiting := v_recv_waiting\<rparr>) = in_catch c"
  "dead_ok (c\<lparr>tc_tcp_pending := v_tcp_pending\<rparr>) = dead_ok c" "in_catch (c\<lparr>tc_tcp_pending := v_tcp_pending\<rparr>) = in_catch c"
  "dead_ok (c\<lparr>tc_to_socks := v_to_socks\<rparr>) = dead_ok c" "in_catch (c\<lparr>tc_to_socks := v_to_socks\<rparr>) = in_catch c"
  "dead_ok (c\<lparr>tc_from_socks := v_from_socks\<rparr>) = dead_ok c" "in_catch (c\<lparr>tc_from_socks := v_from_socks\<rparr>) = in_catch c"
  "dead_ok (pcb_callbacks e r s c) = dead_ok c" "in_catch (pcb_callbacks e r s c) = in_catch c"
  "in_catch (c\<lparr>tc_aborted := a\<rparr>) = in_catch c"
  by (simp_all add: dead_ok_def in_catch_def pcb_callbacks_def cong: dead_ref.case_cong)

lemma dealloc_good:
  assumes "tc_alive c" "tc_listed c" "tc_client_closed c" "tc_socks_closed c" "dead_ok c"
  shows "good (in_catch c) (client_dealloc c)"
  using assms
  by (cases "tc_dead c") (auto simp: Let_def client_dealloc_def dead_kill_def tc_inv_def in_catch_def dead_ok_def)

lemma tc_frame [simp]:
  "send_taken (c\<lparr>tc_client_closed := b\<rparr>) = send_taken c" "recv_rest (c\<lparr>tc_client_closed := b\<rparr>) = recv_rest c"
  "send_taken (c\<lparr>tc_socks_closed := b\<rparr>) = send_taken c" "recv_rest (c\<lparr>tc_socks_closed := b\<rparr>) = recv_rest c"
  "recv_buf_ok (c\<lparr>tc_socks_closed := b\<rparr>) = recv_buf_ok c"
  by (simp_all add: send_taken_def recv_rest_def recv_buf_ok_def)

lemma data_close: "tc_data c \<Longrightarrow> closed_data c"
  by (auto simp: closed_data_def tc_data_def send_ok_def recv_if_ok_def)

lemma data_frame [simp]:
  "tc_data (c\<lparr>tc_aborted := a\<rparr>) = tc_data c" "tc_data (c\<lparr>tc_dead := d\<rparr>) = tc_data c"
  "tc_data (pcb_callbacks e r s c) = tc_data c"
  "closed_data (c\<lparr>tc_aborted := a\<rparr>) = closed_data c" "closed_data (c\<lparr>tc_dead := d\<rparr>) = closed_data c"
  "closed_data (pcb_callbacks e r s c) = closed_data c"
  by (simp_all add: closed_data_def tc_data_def send_ok_def recv_if_ok_def recv_buf_ok_def recv_rest_def send_taken_def pcb_callbacks_def)

lemma handle_freed_good:
  assumes "tc_alive c" "tc_listed c" "\<not> tc_client_closed c" "closed_data c" "dead_ok c"
    "\<not> pcb_recv (tc_pcb c)" "\<not> pcb_sent (tc_pcb c)" "\<not> pcb_err (tc_pcb c)"
  shows "good (in_catch c) (client_handle_freed_client lw c)"
proof (cases "tc_socks_closed c")
  case True
  have "good (in_catch (c\<lparr>tc_client_closed := True\<rparr>)) (client_dealloc (c\<lparr>tc_client_closed := True\<rparr>))"
    by (rule dealloc_good) (use assms True in simp_all)
  then show ?thesis using assms True by (simp add: client_handle_freed_client.simps Let_def)
next
  case False
  show ?thesis
  proof (cases "tc_buf c = []")
    case True
    have "good (in_catch (c\<lparr>tc_client_closed := True, tc_socks_closed := True\<rparr>)) (client_dealloc (c\<lparr>tc_client_closed := True, tc_socks_closed := True\<rparr>))"
      by (rule dealloc_good) (use assms in simp_all)
    then show ?thesis using assms True False
      by (simp add: client_handle_freed_client.simps client_free_socks.simps Let_def)
  next
    case b: False
    then have "client_handle_freed_client lw c = Some (c\<lparr>tc_client_closed := True\<rparr>)"
      using assms False by (simp add: client_handle_freed_client.simps Let_def)
    then show ?thesis using assms False b
      by (simp add: closed_data_def tc_inv_def tc_pre_def tc_waits_def tc_callbacks_def)
  qed
qed

lemma abort_pcb_some:
  assumes "tc_alive c" "\<not> tc_aborted c" "dead_ok c"
  obtains d where "client_abort_pcb c = Some (c\<lparr>tc_aborted := True, tc_dead := d\<rparr>)" "dead_ok (c\<lparr>tc_aborted := True, tc_dead := d\<rparr>)"
    "in_catch (c\<lparr>tc_dead := d\<rparr>) = in_catch c"
proof (cases "tc_dead c")
  case DeadNull
  then have "c\<lparr>tc_aborted := True\<rparr> = c\<lparr>tc_aborted := True, tc_dead := DeadNull\<rparr>" by (cases c) simp
  then show thesis using assms DeadNull that [of DeadNull] by (simp add: client_abort_pcb_def dead_kill_def dead_ok_def in_catch_def)
next
  case (DeadCatch v)
  then show thesis using assms that [of "DeadCatch 1"] by (simp add: client_abort_pcb_def dead_kill_def dead_ok_def in_catch_def)
next
  case DeadDangling
  then show thesis using assms by (simp add: dead_ok_def)
qed

lemma free_client_good:
  assumes "tc_alive c" "tc_listed c" "\<not> tc_client_closed c" "closed_data c" "dead_ok c" "\<not> tc_aborted c"
  shows "good (in_catch c) (client_free_client lw c)"
proof -
  let ?c = "pcb_callbacks False False False c"
  have f: "tc_alive ?c" "tc_listed ?c" "\<not> tc_client_closed ?c" "closed_data ?c" "dead_ok ?c" "\<not> tc_aborted ?c"
      "\<not> pcb_recv (tc_pcb ?c)" "\<not> pcb_sent (tc_pcb ?c)" "\<not> pcb_err (tc_pcb ?c)" "in_catch ?c = in_catch c"
    using assms by (simp_all (no_asm_simp)) (simp_all add: pcb_callbacks_def)
  show ?thesis
  proof (cases "lw_close lw = ERR_OK")
    case True
    then show ?thesis using assms handle_freed_good [OF f(1-5,7-9), of lw] f(10) by (simp add: client_free_client.simps)
  next
    case False
    obtain d where d: "client_abort_pcb ?c = Some (?c\<lparr>tc_aborted := True, tc_dead := d\<rparr>)" "dead_ok (?c\<lparr>tc_aborted := True, tc_dead := d\<rparr>)"
      "in_catch (?c\<lparr>tc_dead := d\<rparr>) = in_catch ?c" by (rule abort_pcb_some [OF f(1,6,5)])
    have "good (in_catch (?c\<lparr>tc_aborted := True, tc_dead := d\<rparr>)) (client_handle_freed_client lw (?c\<lparr>tc_aborted := True, tc_dead := d\<rparr>))"
      by (rule handle_freed_good) (use f d in simp_all)
    then show ?thesis using assms False d f(10) by (simp add: client_free_client.simps in_catch_def)
  qed
qed

lemma abort_client_good:
  assumes "tc_alive c" "tc_listed c" "\<not> tc_client_closed c" "closed_data c" "dead_ok c" "\<not> tc_aborted c"
  shows "good (in_catch c) (client_abort_client lw c)"
proof -
  let ?c = "pcb_callbacks False False False c"
  have f: "tc_alive ?c" "tc_listed ?c" "\<not> tc_client_closed ?c" "closed_data ?c" "dead_ok ?c" "\<not> tc_aborted ?c"
      "\<not> pcb_recv (tc_pcb ?c)" "\<not> pcb_sent (tc_pcb ?c)" "\<not> pcb_err (tc_pcb ?c)" "in_catch ?c = in_catch c"
    using assms by (simp_all (no_asm_simp)) (simp_all add: pcb_callbacks_def)
  obtain d where d: "client_abort_pcb ?c = Some (?c\<lparr>tc_aborted := True, tc_dead := d\<rparr>)" "dead_ok (?c\<lparr>tc_aborted := True, tc_dead := d\<rparr>)"
    "in_catch (?c\<lparr>tc_dead := d\<rparr>) = in_catch ?c" by (rule abort_pcb_some [OF f(1,6,5)])
  have "good (in_catch (?c\<lparr>tc_aborted := True, tc_dead := d\<rparr>)) (client_handle_freed_client lw (?c\<lparr>tc_aborted := True, tc_dead := d\<rparr>))"
    by (rule handle_freed_good) (use f d in simp_all)
  then show ?thesis using assms d f(10) by (simp add: client_abort_client_def in_catch_def)
qed


lemma data_socks_close:
  assumes "tc_data c" "\<not> tc_socks_closed c"
  shows "tc_data (c\<lparr>tc_socks_closed := True\<rparr>)"
proof -
  have "tc_socks_up c \<and> \<not> tc_client_closed c \<longrightarrow>
      (\<exists>r. pcb_out (tc_pcb c) @ (if tc_recv_buf_used c \<noteq> -1 then recv_rest c else []) @ r = tc_from_socks c)"
  proof (cases "tc_recv_buf_used c = -1")
    case True
    then show ?thesis using assms by (auto simp: tc_data_def)
  next
    case False
    then show ?thesis using assms by (auto simp: tc_data_def intro!: exI [of _ "[]"])
  qed
  then show ?thesis using assms by (auto simp: tc_data_def)
qed

lemma free_socks_good:
  assumes pre: "tc_pre c" and n: "\<not> tc_socks_closed c"
  shows "good (in_catch c) (client_free_socks lw c)"
proof -
  let ?k = "if tc_socks_up c \<and> \<not> tc_client_closed c then pcb_callbacks (pcb_err (tc_pcb c)) False (pcb_sent (tc_pcb c)) c else c"
  let ?c = "?k\<lparr>tc_socks_closed := True\<rparr>"
  have d: "tc_data ?k" using pre by (simp add: tc_pre_def)
  have f: "tc_alive ?c" "tc_listed ?c" "tc_data ?c" "dead_ok ?c" "in_catch ?c = in_catch c" "tc_aborted ?c \<longrightarrow> tc_client_closed ?c"
      "tc_client_closed ?c = tc_client_closed c" "tc_socks_up ?c = tc_socks_up c" "tc_recv_buf_used ?c = tc_recv_buf_used c"
      "tc_tcp_pending ?c = tc_tcp_pending c"
    using pre n data_socks_close [OF d] by (auto simp: tc_pre_def pcb_callbacks_def)
  have e: "client_free_socks lw c =
      (if tc_socks_up ?c \<and> (tc_recv_buf_used ?c \<ge> 0 \<or> tc_tcp_pending ?c > 0) \<and> \<not> tc_client_closed ?c then Some ?c
       else if \<not> tc_client_closed ?c then client_free_client lw ?c else client_dealloc ?c)"
    using pre n by (simp add: client_free_socks.simps tc_pre_def Let_def del: if_split)
  consider (wait) "tc_socks_up c \<and> (tc_recv_buf_used c \<ge> 0 \<or> tc_tcp_pending c > 0) \<and> \<not> tc_client_closed c"
    | (free) "\<not> (tc_socks_up c \<and> (tc_recv_buf_used c \<ge> 0 \<or> tc_tcp_pending c > 0))" "\<not> tc_client_closed c"
    | (dealloc) "tc_client_closed c" by blast
  then show ?thesis
  proof cases
    case wait
    then have "recv_buf_ok c" using pre by (simp add: tc_pre_def tc_data_def)
    then have "0 < tc_tcp_pending c" using wait by (auto simp: recv_buf_ok_def)
    moreover have "tc_callbacks ?c" using wait pre by (simp add: tc_pre_def tc_callbacks_def pcb_callbacks_def)
    ultimately have "tc_inv ?c" using wait f unfolding tc_inv_def tc_pre_def tc_waits_def by (simp add: pcb_callbacks_def)
    then show ?thesis unfolding e f(7-10) using wait f(5) by simp
  next
    case free
    have g: "good (in_catch ?c) (client_free_client lw ?c)"
      by (rule free_client_good) (use f free(2) data_close [OF f(3)] in \<open>simp_all del: if_split\<close>)
    have "client_free_socks lw c = client_free_client lw ?c"
      unfolding e f(7-10) by (simp only: free(1) free(2) if_False if_True simp_thms)
    with g show ?thesis by (simp only: f(5))
  next
    case dealloc
    have "good (in_catch ?c) (client_dealloc ?c)"
      by (rule dealloc_good) (use f dealloc in \<open>simp_all del: if_split\<close>)
    then show ?thesis unfolding e f(7-10) using dealloc f(5) by (simp del: if_split)
  qed
qed

subsection \<open>Passing data to the stack\<close>

definition queued :: "int \<Rightarrow> tcp_client \<Rightarrow> tcp_client" where
  "queued n c = c\<lparr>tc_pcb := (tc_pcb c)\<lparr>pcb_out := pcb_out (tc_pcb c) @ mem_read (tc_recv_buf c) (nat (tc_recv_buf_sent c)) (nat n),
       pcb_unacked := pcb_unacked (tc_pcb c) + n\<rparr>,
     tc_recv_buf_sent := tc_recv_buf_sent c + n, tc_tcp_pending := tc_tcp_pending c + n\<rparr>"

lemma queued_0: "queued 0 c = c" by (simp add: queued_def mem_read_def)

lemma queued_queued:
  "0 \<le> m \<Longrightarrow> 0 \<le> n \<Longrightarrow> 0 \<le> tc_recv_buf_sent c \<Longrightarrow> queued m (queued n c) = queued (n + m) c"
proof -
  assume "0 \<le> m" "0 \<le> n" "0 \<le> tc_recv_buf_sent c"
  then have "nat (n + m) = nat n + nat m" "nat (tc_recv_buf_sent c + n) = nat n + nat (tc_recv_buf_sent c)" by simp_all
  then show ?thesis by (simp add: queued_def mem_read_def take_add add.assoc)
qed

lemma queued_fields [simp]:
  "tc_alive (queued n c) = tc_alive c" "tc_listed (queued n c) = tc_listed c" "tc_aborted (queued n c) = tc_aborted c"
  "tc_dead (queued n c) = tc_dead c" "tc_client_closed (queued n c) = tc_client_closed c" "tc_buf (queued n c) = tc_buf c"
  "tc_socks_up (queued n c) = tc_socks_up c" "tc_socks_closed (queued n c) = tc_socks_closed c"
  "tc_send_if (queued n c) = tc_send_if c" "tc_recv_if (queued n c) = tc_recv_if c" "tc_recv_buf (queued n c) = tc_recv_buf c"
  "tc_recv_buf_used (queued n c) = tc_recv_buf_used c" "tc_recv_waiting (queued n c) = tc_recv_waiting c"
  "tc_to_socks (queued n c) = tc_to_socks c" "tc_from_socks (queued n c) = tc_from_socks c"
  "tc_recv_buf_sent (queued n c) = tc_recv_buf_sent c + n" "tc_tcp_pending (queued n c) = tc_tcp_pending c + n"
  "pcb_in (tc_pcb (queued n c)) = pcb_in (tc_pcb c)" "pcb_recv (tc_pcb (queued n c)) = pcb_recv (tc_pcb c)"
  "pcb_sent (tc_pcb (queued n c)) = pcb_sent (tc_pcb c)" "pcb_err (tc_pcb (queued n c)) = pcb_err (tc_pcb c)"
  "pcb_unread (tc_pcb (queued n c)) = pcb_unread (tc_pcb c)" "pcb_unacked (tc_pcb (queued n c)) = pcb_unacked (tc_pcb c) + n"
  "dead_ok (queued n c) = dead_ok c" "in_catch (queued n c) = in_catch c" "send_taken (queued n c) = send_taken c"
  "send_ok (queued n c) = send_ok c"
  by (simp_all add: queued_def send_taken_def send_ok_def)

lemma queued_out:
  "0 \<le> n \<Longrightarrow> 0 \<le> tc_recv_buf_sent c \<Longrightarrow>
     pcb_out (tc_pcb (queued n c)) @ drop (nat (tc_recv_buf_sent c + n)) (tc_recv_buf c) =
     pcb_out (tc_pcb c) @ drop (nat (tc_recv_buf_sent c)) (tc_recv_buf c)"
  by (simp add: queued_def mem_read_def nat_add_distrib add.commute [of "nat (tc_recv_buf_sent c)"] flip: drop_drop)

lemma recv_send_loop_queued:
  assumes "0 \<le> tc_recv_buf_sent c" "tc_recv_buf_sent c < tc_recv_buf_used c"
  shows "\<exists>n. 0 \<le> n \<and> tc_recv_buf_sent c + n \<le> tc_recv_buf_used c \<and> fst (recv_send_loop lw c) = queued n c"
  using assms
proof (induction lw c rule: recv_send_loop.induct)
  case (1 lw c)
  define w where "w = min (tc_recv_buf_used c - tc_recv_buf_sent c) (int (lw_sndbuf lw (tc_recv_buf_sent c)))"
  show ?case
  proof (cases "w > 0 \<and> lw_write lw (tc_recv_buf_sent c) = ERR_OK")
    case False
    then have "fst (recv_send_loop lw c) = c"
      by (subst recv_send_loop.simps) (auto simp: w_def Let_def split: err.split)
    then show ?thesis using 1(3) queued_0 [of c] by (intro exI [of _ 0]) simp
  next
    case True
    have e: "recv_send_loop lw c = (if tc_recv_buf_sent c + w < tc_recv_buf_used c then recv_send_loop lw (queued w c) else (queued w c, False))"
      using True by (subst recv_send_loop.simps) (simp add: w_def [symmetric] Let_def queued_def)
    show ?thesis
    proof (cases "tc_recv_buf_sent c + w < tc_recv_buf_used c")
      case more: True
      have "\<exists>n. 0 \<le> n \<and> tc_recv_buf_sent (queued w c) + n \<le> tc_recv_buf_used (queued w c) \<and> fst (recv_send_loop lw (queued w c)) = queued n (queued w c)"
        by (rule 1(1) [OF w_def _ _ queued_def]) (use True more 1(2) in simp_all)
      then obtain n where n: "0 \<le> n" "tc_recv_buf_sent c + w + n \<le> tc_recv_buf_used c" "fst (recv_send_loop lw (queued w c)) = queued n (queued w c)"
        by auto
      have "fst (recv_send_loop lw c) = queued (w + n) c"
        unfolding e if_P [OF more] n(3) by (rule queued_queued) (use n(1) True 1(2) in simp_all)
      then show ?thesis using n(1,2) True by (intro exI [of _ "w + n"]) simp
    next
      case False
      then show ?thesis using e True by (intro exI [of _ w]) (simp add: w_def)
    qed
  qed
qed

text \<open>A client whose receive buffer has bytes to be queued.\<close>

definition sending :: "tcp_client \<Rightarrow> bool" where
  "sending c \<longleftrightarrow> tc_alive c \<and> tc_listed c \<and> \<not> tc_client_closed c \<and> \<not> tc_aborted c \<and> dead_ok c \<and> tc_callbacks c \<and> tc_socks_up c \<and>
     (\<exists>r. tc_to_socks c @ r = pcb_in (tc_pcb c)) \<and>
     0 \<le> tc_recv_buf_sent c \<and> tc_recv_buf_sent c < tc_recv_buf_used c \<and> tc_recv_buf_used c = int (length (tc_recv_buf c)) \<and>
     \<not> tc_recv_waiting c \<and> tc_tcp_pending c = pcb_unacked (tc_pcb c) \<and> 0 \<le> tc_tcp_pending c \<and>
     (\<not> tc_socks_closed c \<longrightarrow> send_ok c \<and> si_inv (tc_recv_if c) \<and> si_has_user (tc_recv_if c) \<and> si_state (tc_recv_if c) = STATE_NONE) \<and>
     (if tc_socks_closed c then \<exists>r. pcb_out (tc_pcb c) @ drop (nat (tc_recv_buf_sent c)) (tc_recv_buf c) @ r = tc_from_socks c
      else pcb_out (tc_pcb c) @ drop (nat (tc_recv_buf_sent c)) (tc_recv_buf c) = tc_from_socks c)"

lemma sending_queued:
  assumes c: "sending c" and n: "0 \<le> n" "tc_recv_buf_sent c + n \<le> tc_recv_buf_used c"
  shows "if tc_socks_closed c then \<exists>r. pcb_out (tc_pcb (queued n c)) @ drop (nat (tc_recv_buf_sent c + n)) (tc_recv_buf c) @ r = tc_from_socks c
      else pcb_out (tc_pcb (queued n c)) @ drop (nat (tc_recv_buf_sent c + n)) (tc_recv_buf c) = tc_from_socks c"
proof -
  have "0 \<le> tc_recv_buf_sent c" using c by (simp add: sending_def)
  note q = queued_out [OF n(1) this]
  show ?thesis
  proof (cases "tc_socks_closed c")
    case True
    then obtain r where "(pcb_out (tc_pcb c) @ drop (nat (tc_recv_buf_sent c)) (tc_recv_buf c)) @ r = tc_from_socks c"
      using c by (auto simp: sending_def)
    then show ?thesis using True q by (metis append_assoc)
  next
    case False
    then show ?thesis using c q by (simp add: sending_def)
  qed
qed

lemma sending_closed_data:
  assumes c: "sending c" and n: "0 \<le> n" "tc_recv_buf_sent c + n \<le> tc_recv_buf_used c"
  shows "closed_data (queued n c)"
proof -
  have "\<exists>r. pcb_out (tc_pcb (queued n c)) @ r = tc_from_socks c"
    using sending_queued [OF assms] by (auto split: if_splits)
  then show ?thesis using c by (auto simp: closed_data_def tc_data_def sending_def send_ok_def recv_if_ok_def)
qed

lemma send_out_cases:
  assumes c: "sending c"
  shows "(\<exists>c'. client_socks_recv_send_out lw c = Some (c', False) \<and> tc_inv c' \<and> in_catch c' = in_catch c) \<or>
    (\<exists>n. 0 \<le> n \<and> tc_recv_buf_sent c + n < tc_recv_buf_used c \<and> tc_tcp_pending c + n > 0 \<and>
       client_socks_recv_send_out lw c = Some ((queued n c)\<lparr>tc_recv_waiting := True\<rparr>, True)) \<or>
    (\<exists>n. 0 < n \<and> tc_recv_buf_sent c + n = tc_recv_buf_used c \<and>
       client_socks_recv_send_out lw c = Some ((queued n c)\<lparr>tc_recv_buf_used := -1\<rparr>, True))"
proof -
  have s: "0 \<le> tc_recv_buf_sent c" "tc_recv_buf_sent c < tc_recv_buf_used c" using c by (simp_all add: sending_def)
  obtain n failed where n: "0 \<le> n" "tc_recv_buf_sent c + n \<le> tc_recv_buf_used c" "recv_send_loop lw c = (queued n c, failed)"
    using recv_send_loop_queued [OF s, of lw] by (cases "recv_send_loop lw c") auto
  have abort: "good (in_catch c) (client_abort_client lw (queued n c))"
    using abort_client_good [of "queued n c" lw] c sending_closed_data [OF c n(1,2)] by (simp add: sending_def)
  then obtain c' where c': "client_abort_client lw (queued n c) = Some c'" "tc_inv c'" "in_catch c' = in_catch c"
    by (auto simp: good_def)
  have e: "client_socks_recv_send_out lw c =
      (if failed \<or> lw_output lw \<noteq> ERR_OK then Some (c', False)
       else if tc_recv_buf_sent c + n < tc_recv_buf_used c then
         if tc_tcp_pending c + n = 0 then Some (c', False) else Some ((queued n c)\<lparr>tc_recv_waiting := True\<rparr>, True)
       else Some ((queued n c)\<lparr>tc_recv_buf_used := -1\<rparr>, True))"
    using c s n(3) c'(1) by (auto simp: client_socks_recv_send_out_def sending_def)
  have p: "0 \<le> tc_tcp_pending c" using c by (simp add: sending_def)
  show ?thesis
  proof (cases "failed \<or> lw_output lw \<noteq> ERR_OK \<or> tc_recv_buf_sent c + n < tc_recv_buf_used c \<and> tc_tcp_pending c + n = 0")
    case True
    then show ?thesis using e c' by auto
  next
    case False
    show ?thesis
    proof (cases "tc_recv_buf_sent c + n < tc_recv_buf_used c")
      case True
      then have "client_socks_recv_send_out lw c = Some ((queued n c)\<lparr>tc_recv_waiting := True\<rparr>, True)" using e False by auto
      then show ?thesis using True False n(1) p by (intro disjI2 disjI1 exI [of _ n]) auto
    next
      case all: False
      then have "client_socks_recv_send_out lw c = Some ((queued n c)\<lparr>tc_recv_buf_used := -1\<rparr>, True)" using e False by auto
      then show ?thesis using all n(2) s(2) by (intro disjI2 exI [of _ n]) auto
    qed
  qed
qed

lemmas tc_defs = tc_inv_def tc_pre_def tc_data_def tc_waits_def tc_callbacks_def

lemma send_ok_prefix: "send_ok c \<Longrightarrow> \<exists>r. tc_to_socks c @ r = pcb_in (tc_pcb c)"
  by (auto simp: send_ok_def split: if_splits)

lemma callbacks_frame [simp]:
  "tc_callbacks (queued n c) = tc_callbacks c" "tc_callbacks (c\<lparr>tc_recv_waiting := w\<rparr>) = tc_callbacks c"
  "tc_callbacks (c\<lparr>tc_recv_buf_used := u\<rparr>) = tc_callbacks c" "tc_callbacks (c\<lparr>tc_recv_buf_sent := u\<rparr>) = tc_callbacks c"
  "tc_callbacks (c\<lparr>tc_recv_if := i\<rparr>) = tc_callbacks c" "tc_callbacks (c\<lparr>tc_send_if := i\<rparr>) = tc_callbacks c"
  "tc_callbacks (c\<lparr>tc_dead := d\<rparr>) = tc_callbacks c" "tc_callbacks (c\<lparr>tc_buf := b\<rparr>) = tc_callbacks c"
  "tc_callbacks (c\<lparr>tc_to_socks := b\<rparr>) = tc_callbacks c" "tc_callbacks (c\<lparr>tc_from_socks := b\<rparr>) = tc_callbacks c"
  "tc_callbacks (c\<lparr>tc_recv_buf := b\<rparr>) = tc_callbacks c" "tc_callbacks (c\<lparr>tc_tcp_pending := p\<rparr>) = tc_callbacks c"
  by (simp_all add: tc_callbacks_def)

lemma send_ok_frame [simp]:
  "send_ok (c\<lparr>tc_recv_waiting := w\<rparr>) = send_ok c" "send_ok (c\<lparr>tc_recv_buf_used := u\<rparr>) = send_ok c"
  "send_ok (c\<lparr>tc_recv_buf_sent := u\<rparr>) = send_ok c" "send_ok (c\<lparr>tc_recv_if := i\<rparr>) = send_ok c"
  "send_ok (c\<lparr>tc_dead := d\<rparr>) = send_ok c" "send_ok (c\<lparr>tc_from_socks := b\<rparr>) = send_ok c"
  "send_ok (c\<lparr>tc_recv_buf := b\<rparr>) = send_ok c" "send_ok (c\<lparr>tc_tcp_pending := p\<rparr>) = send_ok c"
  by (simp_all add: send_ok_def send_taken_def)

lemma recv_frame [simp]:
  "recv_if_ok (c\<lparr>tc_send_if := i\<rparr>) = recv_if_ok c" "recv_if_ok (c\<lparr>tc_buf := b\<rparr>) = recv_if_ok c"
  "recv_if_ok (c\<lparr>tc_to_socks := b\<rparr>) = recv_if_ok c" "recv_if_ok (c\<lparr>tc_pcb := p\<rparr>) = recv_if_ok c"
  "recv_buf_ok (c\<lparr>tc_send_if := i\<rparr>) = recv_buf_ok c" "recv_buf_ok (c\<lparr>tc_buf := b\<rparr>) = recv_buf_ok c"
  "recv_buf_ok (c\<lparr>tc_to_socks := b\<rparr>) = recv_buf_ok c" "recv_buf_ok (c\<lparr>tc_recv_if := j\<rparr>) = recv_buf_ok c"
  "recv_rest (c\<lparr>tc_send_if := i\<rparr>) = recv_rest c" "recv_rest (c\<lparr>tc_buf := b\<rparr>) = recv_rest c"
  "recv_rest (c\<lparr>tc_to_socks := b\<rparr>) = recv_rest c" "recv_rest (c\<lparr>tc_pcb := p\<rparr>) = recv_rest c"
  by (simp_all add: recv_if_ok_def recv_buf_ok_def recv_rest_def)

subsection \<open>After a send to the stack\<close>

lemma waiting_inv:
  assumes c: "sending c" and n: "0 \<le> n" "tc_recv_buf_sent c + n < tc_recv_buf_used c" "tc_tcp_pending c + n > 0"
  shows "tc_inv ((queued n c)\<lparr>tc_recv_waiting := True\<rparr>)"
proof -
  note q = sending_queued [OF c n(1) less_imp_le [OF n(2)]]
  have p: "\<exists>r. pcb_out (tc_pcb (queued n c)) @ r = tc_from_socks c" using q by (auto split: if_splits)
  have b: "tc_recv_buf c \<noteq> []" using c by (auto simp: sending_def)
  show ?thesis using c q p n b
    by (simp add: tc_inv_def tc_pre_def tc_data_def tc_waits_def sending_def recv_if_ok_def recv_buf_ok_def recv_rest_def)
qed

lemma done_inv:
  assumes c: "sending c" and n: "0 < n" "tc_recv_buf_sent c + n = tc_recv_buf_used c" and s: "tc_socks_closed c"
  shows "tc_inv ((queued n c)\<lparr>tc_recv_buf_used := -1\<rparr>)"
proof -
  have "tc_recv_buf_sent c + n \<le> tc_recv_buf_used c" using n(2) by simp
  note q = sending_queued [OF c less_imp_le [OF n(1)] this]
  have p: "\<exists>r. pcb_out (tc_pcb (queued n c)) @ r = tc_from_socks c" using q by (auto split: if_splits)
  show ?thesis using c p n s
    by (simp add: tc_inv_def tc_pre_def tc_data_def tc_waits_def sending_def recv_buf_ok_def recv_rest_def)
qed

definition recv_ready :: "tcp_client \<Rightarrow> bool" where
  "recv_ready c \<longleftrightarrow> tc_alive c \<and> tc_listed c \<and> \<not> tc_client_closed c \<and> \<not> tc_aborted c \<and> dead_ok c \<and> tc_callbacks c \<and> tc_socks_up c \<and>
     \<not> tc_socks_closed c \<and> send_ok c \<and> si_inv (tc_recv_if c) \<and> si_has_user (tc_recv_if c) \<and> si_state (tc_recv_if c) = STATE_NONE \<and>
     tc_recv_buf_used c = -1 \<and> tc_tcp_pending c = pcb_unacked (tc_pcb c) \<and> 0 \<le> tc_tcp_pending c \<and> pcb_out (tc_pcb c) = tc_from_socks c"

lemma done_ready:
  assumes c: "sending c" and n: "0 < n" "tc_recv_buf_sent c + n = tc_recv_buf_used c" and s: "\<not> tc_socks_closed c"
  shows "recv_ready ((queued n c)\<lparr>tc_recv_buf_used := -1\<rparr>)"
proof -
  have "tc_recv_buf_sent c + n \<le> tc_recv_buf_used c" using n(2) by simp
  note q = sending_queued [OF c less_imp_le [OF n(1)] this]
  have "drop (nat (tc_recv_buf_sent c + n)) (tc_recv_buf c) = []" using c n by (simp add: sending_def)
  then show ?thesis using c q n s by (simp add: recv_ready_def sending_def)
qed

lemma initiate_good:
  assumes "recv_ready c"
  shows "good (in_catch c) (client_socks_recv_initiate c)"
  using assms send_ok_prefix [of c]
  by (simp add: recv_ready_def client_socks_recv_initiate_def si_defs CLIENT_SOCKS_RECV_BUF_SIZE_def tc_inv_def tc_pre_def
      tc_data_def tc_waits_def recv_if_ok_def recv_buf_ok_def recv_rest_def si_inv_def)

lemma recv_done_good:
  assumes inv: "tc_inv c" and a: "tc_alive c" "\<not> tc_socks_closed c" "tc_socks_up c" "si_job_done (tc_recv_if c)"
  shows "good (in_catch c) (socks_step lw c RecvDone)"
proof -
  define i where "i = (tc_recv_if c)\<lparr>si_job_done := False, si_state := STATE_NONE\<rparr>"
  have r: "recv_if_ok c" using inv a by (simp add: tc_inv_def tc_pre_def tc_data_def)
  then have d: "si_state (tc_recv_if c) = STATE_DONE_PENDING" "tc_recv_buf_used c = -1" "si_inv i" "si_has_user i"
      "si_job_done_len (tc_recv_if c) = int (length (tc_recv_buf c))" "0 < length (tc_recv_buf c)"
      "int (length (tc_recv_buf c)) \<le> CLIENT_SOCKS_RECV_BUF_SIZE" "si_state i = STATE_NONE"
    using a(4) by (auto simp: recv_if_ok_def si_inv_def i_def)
  have e: "socks_step lw c RecvDone = client_socks_recv_handler_done lw (c\<lparr>tc_recv_if := i\<rparr>) (int (length (tc_recv_buf c)))"
    using a(4) d by (simp add: StreamRecvInterface_job_done_def i_def)
  show ?thesis
  proof (cases "tc_client_closed c")
    case True
    have "recv_if_ok (c\<lparr>tc_recv_if := i\<rparr>)" using d by (simp add: recv_if_ok_def)
    then have "tc_inv (c\<lparr>tc_recv_if := i\<rparr>)"
      using inv a True by (simp add: tc_inv_def tc_pre_def tc_data_def tc_waits_def)
    then show ?thesis unfolding e using True a d by (simp add: client_socks_recv_handler_done_def)
  next
    case False
    define c1 where "c1 = c\<lparr>tc_recv_if := i, tc_recv_buf_used := int (length (tc_recv_buf c)), tc_recv_buf_sent := 0, tc_recv_waiting := False\<rparr>"
    have s: "sending c1"
      using inv a d False unfolding c1_def
      by (auto simp: sending_def tc_inv_def tc_pre_def tc_data_def recv_buf_ok_def recv_rest_def)
    have f: "in_catch c1 = in_catch c" "\<not> tc_socks_closed c1" using a by (simp_all add: c1_def)
    have e2: "socks_step lw c RecvDone =
        (case client_socks_recv_send_out lw c1 of None \<Rightarrow> None
         | Some (c, ok) \<Rightarrow> if \<not> ok then Some c else if tc_recv_buf_used c = -1 then client_socks_recv_initiate c else Some c)"
      unfolding e using False a d by (simp add: client_socks_recv_handler_done_def c1_def)
    from send_out_cases [OF s, of lw] show ?thesis
    proof (elim disjE exE conjE)
      fix c' assume "client_socks_recv_send_out lw c1 = Some (c', False)" "tc_inv c'" "in_catch c' = in_catch c1"
      then show ?thesis unfolding e2 using f by simp
    next
      fix n assume n: "0 \<le> n" "tc_recv_buf_sent c1 + n < tc_recv_buf_used c1" "0 < tc_tcp_pending c1 + n"
        "client_socks_recv_send_out lw c1 = Some ((queued n c1)\<lparr>tc_recv_waiting := True\<rparr>, True)"
      moreover have "tc_recv_buf_used c1 \<noteq> -1" using s by (auto simp: sending_def)
      ultimately show ?thesis unfolding e2 using f waiting_inv [OF s n(1-3)] by simp
    next
      fix n assume n: "0 < n" "tc_recv_buf_sent c1 + n = tc_recv_buf_used c1"
        "client_socks_recv_send_out lw c1 = Some ((queued n c1)\<lparr>tc_recv_buf_used := -1\<rparr>, True)"
      then show ?thesis unfolding e2 using f initiate_good [OF done_ready [OF s n(1,2) f(2)]] by simp
    qed
  qed
qed

subsection \<open>Passing data to SOCKS\<close>

lemma send_pending_ok:
  assumes "tc_socks_up c" "tc_buf c \<noteq> []" "si_inv (tc_send_if c)" "si_has_user (tc_send_if c)" "si_state (tc_send_if c) = STATE_NONE"
    "tc_to_socks c @ tc_buf c = pcb_in (tc_pcb c)"
    "\<not> tc_client_closed c \<longrightarrow> pcb_unread (tc_pcb c) = int (length (tc_buf c)) \<and> length (tc_buf c) \<le> TCP_WND"
  obtains i where "StreamPassInterface_Sender_Send (tc_send_if c) (Some 0) (int (length (tc_buf c))) = Some i" "send_ok (c\<lparr>tc_send_if := i\<rparr>)"
proof -
  let ?i = "(tc_send_if c)\<lparr>si_job_operation_data := Some 0, si_job_operation_len := int (length (tc_buf c)), si_job_operation := True,
    si_state := STATE_OPERATION_PENDING\<rparr>"
  have "StreamPassInterface_Sender_Send (tc_send_if c) (Some 0) (int (length (tc_buf c))) = Some ?i"
    using assms by (simp add: StreamPassInterface_Sender_Send_def)
  moreover have "send_ok (c\<lparr>tc_send_if := ?i\<rparr>)"
    using assms by (simp add: send_ok_def send_taken_def si_inv_def)
  ultimately show thesis by (rule that)
qed

lemma send_frame_inv:
  assumes "tc_inv c" "tc_alive c" "\<not> tc_socks_closed c" "send_ok (c\<lparr>tc_send_if := i\<rparr>)"
  shows "tc_inv (c\<lparr>tc_send_if := i\<rparr>)"
  using assms by (simp add: tc_inv_def tc_pre_def tc_data_def tc_waits_def)

lemma recv_frame_inv:
  assumes "tc_inv c" "tc_alive c" "\<not> tc_socks_closed c" "tc_socks_up c" "recv_if_ok (c\<lparr>tc_recv_if := i\<rparr>)"
    "recv_rest (c\<lparr>tc_recv_if := i\<rparr>) = recv_rest c" "si_state i = STATE_NONE \<longleftrightarrow> si_state (tc_recv_if c) = STATE_NONE"
  shows "tc_inv (c\<lparr>tc_recv_if := i\<rparr>)"
  using assms by (simp add: tc_inv_def tc_pre_def tc_data_def tc_waits_def)

lemma send_operation_good:
  assumes inv: "tc_inv c" and a: "tc_alive c" "\<not> tc_socks_closed c" "tc_socks_up c" "si_job_operation (tc_send_if c)"
  shows "good (in_catch c) (socks_step lw c SendOperation)"
proof -
  let ?i = "(tc_send_if c)\<lparr>si_job_operation := False, si_state := STATE_BUSY\<rparr>"
  have s: "send_ok c" using inv a by (simp add: tc_inv_def tc_pre_def tc_data_def)
  then have "si_state (tc_send_if c) = STATE_OPERATION_PENDING" using a by (simp add: send_ok_def si_inv_def)
  moreover from this have "send_ok (c\<lparr>tc_send_if := ?i\<rparr>)" using s a by (simp add: send_ok_def send_taken_def si_inv_def)
  ultimately show ?thesis using send_frame_inv [OF inv a(1,2)] a by (simp add: StreamPassInterface_job_operation_def)
qed

lemma send_complete_good:
  assumes inv: "tc_inv c" and a: "tc_alive c" "\<not> tc_socks_closed c" "tc_socks_up c" "si_state (tc_send_if c) = STATE_BUSY"
    "0 < n" "n \<le> si_job_operation_len (tc_send_if c)"
  shows "good (in_catch c) (socks_step lw c (SendComplete n))"
proof -
  let ?c = "c\<lparr>tc_send_if := (tc_send_if c)\<lparr>si_job_done_len := n, si_job_done := True, si_state := STATE_DONE_PENDING\<rparr>,
    tc_to_socks := tc_to_socks c @ take (nat n) (tc_buf c)\<rparr>"
  have s: "send_ok c" using inv a by (simp add: tc_inv_def tc_pre_def tc_data_def)
  then have "send_ok ?c" using a by (auto simp: send_ok_def send_taken_def si_inv_def)
  moreover from this have "\<exists>r. tc_to_socks ?c @ r = pcb_in (tc_pcb ?c)" by (rule send_ok_prefix)
  ultimately have "tc_inv ?c" using inv a by (simp add: tc_inv_def tc_pre_def tc_data_def tc_waits_def)
  then show ?thesis using a by (simp add: StreamPassInterface_Done_def)
qed

lemma send_done_good:
  assumes inv: "tc_inv c" and a: "tc_alive c" "\<not> tc_socks_closed c" "tc_socks_up c" "si_job_done (tc_send_if c)"
  shows "good (in_catch c) (socks_step lw c SendDone)"
proof -
  define n where "n = si_job_done_len (tc_send_if c)"
  define i where "i = (tc_send_if c)\<lparr>si_job_done := False, si_state := STATE_NONE\<rparr>"
  have s: "send_ok c" using inv a by (simp add: tc_inv_def tc_pre_def tc_data_def)
  then have d: "si_state (tc_send_if c) = STATE_DONE_PENDING" "tc_buf c \<noteq> []" "0 < n" "n \<le> int (length (tc_buf c))"
      "si_inv i" "si_has_user i" "si_state i = STATE_NONE" "tc_to_socks c @ drop (nat n) (tc_buf c) = pcb_in (tc_pcb c)"
    using a by (auto simp: send_ok_def si_inv_def n_def i_def send_taken_def)
  define p where "p = (if \<not> tc_client_closed c then (tc_pcb c)\<lparr>pcb_unread := pcb_unread (tc_pcb c) - n\<rparr> else tc_pcb c)"
  define c1 where "c1 = c\<lparr>tc_send_if := i, tc_buf := drop (nat n) (tc_buf c), tc_pcb := p\<rparr>"
  have e: "socks_step lw c SendDone =
      (if tc_buf c1 \<noteq> [] then map_option (\<lambda>i. c1\<lparr>tc_send_if := i\<rparr>)
               (StreamPassInterface_Sender_Send (tc_send_if c1) (Some 0) (int (length (tc_buf c1))))
       else if tc_client_closed c1 then client_free_socks lw c1 else Some c1)"
    using a d by (simp add: StreamPassInterface_job_done_def client_socks_send_handler_done_def Let_def c1_def p_def
        flip: n_def i_def del: not_le)
  have w: "\<not> tc_client_closed c1 \<longrightarrow> pcb_unread (tc_pcb c1) = int (length (tc_buf c1)) \<and> length (tc_buf c1) \<le> TCP_WND"
    using s d by (auto simp: c1_def p_def send_ok_def)
  have pcb: "pcb_in p = pcb_in (tc_pcb c)" "pcb_out p = pcb_out (tc_pcb c)" "pcb_unacked p = pcb_unacked (tc_pcb c)"
      "pcb_recv p = pcb_recv (tc_pcb c)" "pcb_sent p = pcb_sent (tc_pcb c)" "pcb_err p = pcb_err (tc_pcb c)"
    by (simp_all add: p_def)
  have f: "tc_alive c1" "\<not> tc_socks_closed c1" "tc_socks_up c1" "in_catch c1 = in_catch c" "si_inv (tc_send_if c1)" "si_has_user (tc_send_if c1)"
      "si_state (tc_send_if c1) = STATE_NONE" "tc_to_socks c1 @ tc_buf c1 = pcb_in (tc_pcb c1)"
    using a d pcb by (simp_all add: c1_def)
  have pre: "tc_pre (c1\<lparr>tc_send_if := j\<rparr>)" if "send_ok (c1\<lparr>tc_send_if := j\<rparr>)" for j
  proof -
    have "recv_buf_ok (c1\<lparr>tc_send_if := j\<rparr>) = recv_buf_ok c" "recv_if_ok (c1\<lparr>tc_send_if := j\<rparr>) = recv_if_ok c"
      "recv_rest (c1\<lparr>tc_send_if := j\<rparr>) = recv_rest c" "tc_callbacks (c1\<lparr>tc_send_if := j\<rparr>) = tc_callbacks c"
      "dead_ok (c1\<lparr>tc_send_if := j\<rparr>) = dead_ok c"
      using pcb by (simp_all add: c1_def recv_buf_ok_def recv_if_ok_def recv_rest_def tc_callbacks_def)
    then show ?thesis using that inv a pcb send_ok_prefix [OF that]
      by (simp add: tc_inv_def tc_pre_def tc_data_def) (simp add: c1_def)
  qed
  show ?thesis
  proof (cases "tc_buf c1 = []")
    case False
    obtain j where j: "StreamPassInterface_Sender_Send (tc_send_if c1) (Some 0) (int (length (tc_buf c1))) = Some j" "send_ok (c1\<lparr>tc_send_if := j\<rparr>)"
      by (rule send_pending_ok [OF f(3) False f(5-8) w])
    have "tc_inv (c1\<lparr>tc_send_if := j\<rparr>)" using pre [OF j(2)] f(1,2) False by (simp add: tc_inv_def tc_waits_def)
    then show ?thesis unfolding e using False j(1) f(4) by simp
  next
    case True
    have "c1\<lparr>tc_send_if := tc_send_if c1\<rparr> = c1" by simp
    moreover have "send_ok (c1\<lparr>tc_send_if := tc_send_if c1\<rparr>)" using f w True by (simp add: send_ok_def send_taken_def)
    ultimately have p1: "tc_pre c1" using pre by metis
    show ?thesis
    proof (cases "tc_client_closed c1")
      case closed: True
      then show ?thesis unfolding e using True free_socks_good [OF p1 f(2), of lw] f(4) by simp
    next
      case False
      then have "tc_inv c1" using p1 f(1,2) by (simp add: tc_inv_def tc_waits_def)
      then show ?thesis unfolding e using True False f(4) by simp
    qed
  qed
qed

subsection \<open>Events of the SOCKS connection\<close>

lemma recv_operation_good:
  assumes inv: "tc_inv c" and a: "tc_alive c" "\<not> tc_socks_closed c" "tc_socks_up c" "si_job_operation (tc_recv_if c)"
  shows "good (in_catch c) (socks_step lw c RecvOperation)"
proof -
  let ?i = "(tc_recv_if c)\<lparr>si_job_operation := False, si_state := STATE_BUSY\<rparr>"
  have r: "recv_if_ok c" using inv a by (simp add: tc_inv_def tc_pre_def tc_data_def)
  then have s: "si_state (tc_recv_if c) = STATE_OPERATION_PENDING" using a by (simp add: recv_if_ok_def si_inv_def)
  have "recv_if_ok (c\<lparr>tc_recv_if := ?i\<rparr>)" "recv_rest (c\<lparr>tc_recv_if := ?i\<rparr>) = recv_rest c"
    using r s by (simp_all add: recv_if_ok_def si_inv_def recv_rest_def)
  then show ?thesis using recv_frame_inv [OF inv a(1-3), of ?i] s a by (simp add: StreamRecvInterface_job_operation_def)
qed

lemma recv_complete_good:
  assumes inv: "tc_inv c" and a: "tc_alive c" "\<not> tc_socks_closed c" "tc_socks_up c" "si_state (tc_recv_if c) = STATE_BUSY"
    "ds \<noteq> []" "int (length ds) \<le> si_job_operation_len (tc_recv_if c)"
  shows "good (in_catch c) (socks_step lw c (RecvComplete ds))"
proof -
  let ?c = "c\<lparr>tc_recv_if := (tc_recv_if c)\<lparr>si_job_done_len := int (length ds), si_job_done := True, si_state := STATE_DONE_PENDING\<rparr>,
    tc_recv_buf := ds, tc_from_socks := tc_from_socks c @ ds\<rparr>"
  have r: "recv_if_ok c" using inv a by (simp add: tc_inv_def tc_pre_def tc_data_def)
  then have u: "tc_recv_buf_used c = -1" using a by (simp add: recv_if_ok_def)
  have "recv_if_ok ?c" using r u a by (simp add: recv_if_ok_def si_inv_def)
  moreover have "\<not> tc_client_closed c \<longrightarrow> recv_buf_ok ?c \<and> pcb_out (tc_pcb ?c) @ recv_rest ?c = tc_from_socks ?c"
    using inv a u by (auto simp: tc_inv_def tc_pre_def tc_data_def recv_buf_ok_def recv_rest_def)
  moreover have "\<exists>r. pcb_out (tc_pcb ?c) @ r = tc_from_socks ?c"
  proof -
    obtain r where "pcb_out (tc_pcb c) @ r = tc_from_socks c" using inv a by (auto simp: tc_inv_def tc_pre_def tc_data_def)
    then have "pcb_out (tc_pcb ?c) @ r @ ds = tc_from_socks ?c" by simp
    then show ?thesis by blast
  qed
  ultimately have "tc_inv ?c" using inv a u by (simp add: tc_inv_def tc_pre_def tc_data_def tc_waits_def)
  then show ?thesis using a by (simp add: StreamRecvInterface_Done_def)
qed

lemma tc_inv_pre: "tc_inv c \<Longrightarrow> tc_alive c \<Longrightarrow> tc_pre c"
  by (simp add: tc_inv_def)

lemma socks_up_good:
  assumes inv: "tc_inv c" and a: "tc_alive c" "\<not> tc_socks_closed c" "\<not> tc_socks_up c"
  shows "good (in_catch c) (socks_step lw c (SocksEvent BSOCKSCLIENT_EVENT_UP))"
proof -
  define i where "i = StreamInterface_Init\<lparr>si_has_user := True\<rparr>"
  define k where "k = (if \<not> tc_client_closed c then (tc_pcb c)\<lparr>pcb_sent := True\<rparr> else tc_pcb c)"
  define c1 where "c1 = c\<lparr>tc_send_if := i, tc_recv_if := i, tc_recv_buf_used := -1, tc_tcp_pending := 0, tc_pcb := k, tc_socks_up := True\<rparr>"
  have i: "si_inv i" "si_has_user i" "si_state i = STATE_NONE" by (simp_all add: i_def si_inv_def StreamInterface_Init_def)
  have init: "StreamPassInterface_Sender_Init StreamPassInterface_Init = Some i" "StreamRecvInterface_Receiver_Init StreamRecvInterface_Init = Some i"
    by (simp_all add: si_defs i_def)
  have k: "pcb_in k = pcb_in (tc_pcb c)" "pcb_out k = pcb_out (tc_pcb c)" "pcb_unacked k = pcb_unacked (tc_pcb c)" "pcb_unread k = pcb_unread (tc_pcb c)"
      "pcb_recv k = pcb_recv (tc_pcb c)" "pcb_err k = pcb_err (tc_pcb c)" "pcb_sent k = (if tc_client_closed c then pcb_sent (tc_pcb c) else True)"
    by (simp_all add: k_def)
  have pre: "tc_pre c" by (rule tc_inv_pre [OF inv a(1)])
  have d: "tc_to_socks c = []" "tc_buf c = pcb_in (tc_pcb c)" "tc_from_socks c = []" "pcb_out (tc_pcb c) = []" "pcb_unacked (tc_pcb c) = 0"
    and w: "\<not> tc_client_closed c \<longrightarrow> pcb_unread (tc_pcb c) = int (length (tc_buf c)) \<and> length (tc_buf c) \<le> TCP_WND"
    using pre a by (auto simp: tc_pre_def tc_data_def send_ok_def)
  have e: "socks_step lw c (SocksEvent BSOCKSCLIENT_EVENT_UP) =
      (case (if tc_buf c1 \<noteq> [] then client_send_to_socks c1 else Some c1) of None \<Rightarrow> None
       | Some c \<Rightarrow> if \<not> tc_client_closed c then client_socks_recv_initiate c else Some c)"
    using a init by (cases "tc_client_closed c") (simp_all add: client_socks_handler_def Let_def c1_def k_def pcb_callbacks_def)
  have f: "tc_alive c1" "tc_listed c1" "\<not> tc_socks_closed c1" "tc_socks_up c1" "in_catch c1 = in_catch c" "dead_ok c1" "tc_client_closed c1 = tc_client_closed c"
      "tc_aborted c1 = tc_aborted c" "tc_callbacks c1" "tc_to_socks c1 @ tc_buf c1 = pcb_in (tc_pcb c1)" "tc_recv_if c1 = i" "tc_send_if c1 = i"
      "tc_recv_buf_used c1 = -1" "tc_tcp_pending c1 = pcb_unacked (tc_pcb c1)" "pcb_out (tc_pcb c1) = []" "tc_from_socks c1 = []" "tc_tcp_pending c1 = 0"
    using pre a d k by (auto simp: c1_def tc_pre_def tc_callbacks_def)
  have w1: "\<not> tc_client_closed c1 \<longrightarrow> pcb_unread (tc_pcb c1) = int (length (tc_buf c1)) \<and> length (tc_buf c1) \<le> TCP_WND"
    using w k by (simp add: c1_def)
  obtain j where j: "(if tc_buf c1 \<noteq> [] then client_send_to_socks c1 else Some c1) = Some (c1\<lparr>tc_send_if := j\<rparr>)" "send_ok (c1\<lparr>tc_send_if := j\<rparr>)"
  proof (cases "tc_buf c1 = []")
    case True
    then have "send_ok (c1\<lparr>tc_send_if := i\<rparr>)" using f i w1 by (simp add: send_ok_def send_taken_def)
    moreover have "c1\<lparr>tc_send_if := i\<rparr> = c1" using f(12) by simp
    ultimately show thesis using that [of i] True by simp
  next
    case False
    obtain j where "StreamPassInterface_Sender_Send (tc_send_if c1) (Some 0) (int (length (tc_buf c1))) = Some j" "send_ok (c1\<lparr>tc_send_if := j\<rparr>)"
      using send_pending_ok [OF f(4) False _ _ _ f(10) w1] i f(12) by auto
    then show thesis using that [of j] False f by (simp add: client_send_to_socks_def)
  qed
  show ?thesis
  proof (cases "tc_client_closed c")
    case True
    have "recv_if_ok (c1\<lparr>tc_send_if := j\<rparr>)" using f i by (simp add: recv_if_ok_def)
    moreover have "tc_buf c1 \<noteq> []" using inv a True by (simp add: tc_inv_def tc_waits_def c1_def)
    moreover have "\<exists>r. tc_to_socks c1 @ r = pcb_in (tc_pcb c1)" using f(10) by blast
    ultimately have "tc_inv (c1\<lparr>tc_send_if := j\<rparr>)"
      using f j(2) True by (simp add: tc_inv_def tc_pre_def tc_data_def tc_waits_def)
    then show ?thesis unfolding e j(1) using True f(5,7) by simp
  next
    case False
    have "\<not> tc_aborted c" using pre False by (auto simp: tc_pre_def)
    then have "recv_ready (c1\<lparr>tc_send_if := j\<rparr>)" using f i j(2) False by (simp add: recv_ready_def)
    from initiate_good [OF this] show ?thesis unfolding e j(1) using False f(5,7) by simp
  qed
qed

lemma socks_step_good:
  assumes inv: "tc_inv c" and p: "socks_possible c ev"
  shows "good (in_catch c) (socks_step lw c ev)"
proof (cases ev)
  case (SocksEvent e)
  have a: "tc_alive c" "\<not> tc_socks_closed c" using p by simp_all
  note f = free_socks_good [OF tc_inv_pre [OF inv a(1)] a(2), of lw]
  show ?thesis using SocksEvent f a p socks_up_good [OF inv a, of lw] by (cases e) (simp_all add: client_socks_handler_def)
qed (use p send_operation_good [OF inv] send_complete_good [OF inv] send_done_good [OF inv] recv_operation_good [OF inv]
      recv_complete_good [OF inv] recv_done_good [OF inv] in \<open>simp_all del: socks_step.simps\<close>)

lemma sync_commit_good: "tc_inv c \<Longrightarrow> good (in_catch c) (sync_commit c jobs)"
proof (induction jobs arbitrary: c)
  case (Cons job jobs)
  obtain lw ev where job: "job = (lw, ev)" by (cases job)
  show ?case
  proof (cases "socks_possible c ev")
    case True
    then obtain c' where "socks_step lw c ev = Some c'" "tc_inv c'" "in_catch c' = in_catch c"
      using socks_step_good [OF Cons.prems, of ev lw] by (auto simp: good_def simp del: socks_step.simps socks_possible.simps)
    then show ?thesis using Cons.IH [of c'] True job by (simp del: socks_step.simps socks_possible.simps)
  next
    case False
    then show ?thesis using Cons job by (simp del: socks_possible.simps)
  qed
qed simp

subsection \<open>Callbacks of the stack\<close>

lemma enter_inv: "tc_inv c \<Longrightarrow> tc_alive c \<Longrightarrow> \<not> tc_aborted c \<Longrightarrow> \<not> in_catch c \<Longrightarrow>
    dead_enter c = Some (c\<lparr>tc_dead := DeadCatch 0\<rparr>) \<and> tc_inv (c\<lparr>tc_dead := DeadCatch 0\<rparr>) \<and> in_catch (c\<lparr>tc_dead := DeadCatch 0\<rparr>)"
  by (cases "tc_dead c") (auto simp: dead_enter_def tc_inv_def tc_pre_def tc_waits_def dead_ok_def in_catch_def)

lemma leave_inv:
  assumes "tc_inv c" "in_catch c"
  obtains c' where "dead_leave c = Some (c', tc_aborted c)" "tc_inv c'" "\<not> in_catch c'" "tc_aborted c' = tc_aborted c"
proof -
  obtain v where v: "tc_dead c = DeadCatch v" using assms(2) by (auto simp: in_catch_def split: dead_ref.splits)
  have ok: "v = (if tc_aborted c then 1 else if tc_alive c then 0 else -1)"
    using assms(1) v by (auto simp: tc_inv_def tc_pre_def dead_ok_def split: if_splits)
  define d where "d = (if v = 0 then DeadNull else DeadDangling)"
  have "dead_leave c = Some (c\<lparr>tc_dead := d\<rparr>, tc_aborted c)" using v ok by (auto simp: dead_leave_def d_def)
  moreover have "dead_ok (c\<lparr>tc_dead := d\<rparr>)" using ok by (auto simp: dead_ok_def d_def)
  moreover from this have "tc_inv (c\<lparr>tc_dead := d\<rparr>)" using assms(1) by (auto simp: tc_inv_def tc_pre_def tc_waits_def)
  moreover have "\<not> in_catch (c\<lparr>tc_dead := d\<rparr>)" by (simp add: in_catch_def d_def)
  ultimately show thesis using that [of "c\<lparr>tc_dead := d\<rparr>"] by simp
qed

definition callback_good :: "(tcp_client \<times> err) option \<Rightarrow> bool" where
  "callback_good r \<longleftrightarrow> (\<exists>c e. r = Some (c, e) \<and> tc_inv c \<and> \<not> in_catch c \<and> e = (if tc_aborted c then ERR_ABRT else ERR_OK))"

lemma leave_good:
  assumes "good True r"
  shows "callback_good (case r of None \<Rightarrow> None
    | Some c \<Rightarrow> map_option (\<lambda>(c, killed). (c, if killed then ERR_ABRT else ERR_OK)) (dead_leave c))"
proof -
  obtain c where c: "r = Some c" "tc_inv c" "in_catch c" using assms by (auto simp: good_def)
  obtain c' where c': "dead_leave c = Some (c', tc_aborted c)" "tc_inv c'" "\<not> in_catch c'" "tc_aborted c' = tc_aborted c"
    by (rule leave_inv [OF c(2,3)])
  then show ?thesis using c(1) by (simp add: callback_good_def)
qed

lemma tc_accept_good: "callback_good (accept_client u jobs)"
proof -
  let ?p = "\<lparr>pcb_recv = True, pcb_sent = False, pcb_err = True, pcb_in = [], pcb_out = [], pcb_unread = 0, pcb_unacked = 0\<rparr>"
  let ?c = "\<lparr>tc_alive = True, tc_listed = True, tc_aborted = False, tc_dead = DeadNull, tc_socks_username = u, tc_pcb = ?p,
     tc_client_closed = False, tc_buf = [], tc_socks_up = False, tc_socks_closed = False,
     tc_send_if = StreamPassInterface_Init, tc_recv_if = StreamRecvInterface_Init, tc_recv_buf = [],
     tc_recv_buf_used = 0, tc_recv_buf_sent = 0, tc_recv_waiting = False, tc_tcp_pending = 0,
     tc_to_socks = [], tc_from_socks = []\<rparr>"
  have "tc_inv ?c" "\<not> in_catch ?c"
    by (simp_all add: tc_inv_def tc_pre_def tc_data_def tc_waits_def tc_callbacks_def send_ok_def dead_ok_def in_catch_def)
  from enter_inv [OF this(1) _ _ this(2)]
  have e: "dead_enter ?c = Some (?c\<lparr>tc_dead := DeadCatch 0\<rparr>)" "tc_inv (?c\<lparr>tc_dead := DeadCatch 0\<rparr>)" "in_catch (?c\<lparr>tc_dead := DeadCatch 0\<rparr>)"
    by simp_all
  have "good True (sync_commit (?c\<lparr>tc_dead := DeadCatch 0\<rparr>) jobs)" using sync_commit_good [OF e(2), of jobs] e(3) by metis
  from leave_good [OF this] show ?thesis by (simp add: accept_client_def Let_def e(1))
qed

lemma recv_data_inv:
  assumes inv: "tc_inv c" and a: "tc_alive c" "\<not> tc_client_closed c" "\<not> tc_socks_closed c" and w: "length (tc_buf c) + length ds \<le> TCP_WND"
    and c1: "c1 = c\<lparr>tc_buf := tc_buf c @ ds,
        tc_pcb := (tc_pcb c)\<lparr>pcb_in := pcb_in (tc_pcb c) @ ds, pcb_unread := pcb_unread (tc_pcb c) + int (length ds)\<rparr>\<rparr>"
    and s: "send_ok (c1\<lparr>tc_send_if := j\<rparr>)"
  shows "tc_inv (c1\<lparr>tc_send_if := j\<rparr>)"
proof -
  have "recv_buf_ok (c1\<lparr>tc_send_if := j\<rparr>) = recv_buf_ok c" "tc_callbacks (c1\<lparr>tc_send_if := j\<rparr>) = tc_callbacks c"
    by (simp_all add: c1 recv_buf_ok_def tc_callbacks_def)
  then show ?thesis using inv a send_ok_prefix [OF s] s by (simp add: tc_inv_def tc_pre_def tc_data_def tc_waits_def) (simp add: c1)
qed

lemma recv_func_good:
  assumes inv: "tc_inv c" "\<not> in_catch c" and p: "tc_possible c (PcbRecv lw jobs p)"
  shows "callback_good (client_recv_func lw jobs c p)"
proof -
  have a: "tc_alive c" "\<not> tc_client_closed c" "\<not> tc_socks_closed c" "\<not> tc_aborted c"
    using p inv(1) by (auto simp: tc_inv_def tc_pre_def tc_callbacks_def)
  define c0 where "c0 = c\<lparr>tc_dead := DeadCatch 0\<rparr>"
  have e: "dead_enter c = Some c0" "tc_inv c0" "in_catch c0" using enter_inv [OF inv(1) a(1,4) inv(2)] by (simp_all add: c0_def)
  have a0: "tc_alive c0" "\<not> tc_client_closed c0" "\<not> tc_socks_closed c0" "\<not> tc_aborted c0" using a by (simp_all add: c0_def)
  have pre: "tc_pre c0" by (rule tc_inv_pre [OF e(2) a0(1)])
  then have so: "send_ok c0" using a0 by (simp add: tc_pre_def tc_data_def)
  show ?thesis
  proof (cases p)
    case None
    have "good (in_catch c0) (client_free_client lw c0)"
      by (rule free_client_good) (use pre a0 data_close in \<open>auto simp: tc_pre_def\<close>)
    then have "good True (client_free_client lw c0)" using e(3) by simp
    from leave_good [OF this] show ?thesis using None a e(1) by (simp add: client_recv_func_def)
  next
    case (Some ds)
    have u: "pcb_unread (tc_pcb c0) = int (length (tc_buf c0))" using so a0 by (simp add: send_ok_def)
    then have w: "length (tc_buf c0) + length ds \<le> TCP_WND" and ds: "ds \<noteq> []" using p Some by (auto simp: c0_def)
    define c1 where "c1 = c0\<lparr>tc_buf := tc_buf c0 @ ds,
        tc_pcb := (tc_pcb c0)\<lparr>pcb_in := pcb_in (tc_pcb c0) @ ds, pcb_unread := pcb_unread (tc_pcb c0) + int (length ds)\<rparr>\<rparr>"
    have f: "tc_alive c1" "\<not> tc_socks_closed c1" "tc_socks_up c1 = tc_socks_up c0" "tc_buf c1 = tc_buf c0 @ ds" "in_catch c1" "tc_send_if c1 = tc_send_if c0"
        "pcb_in (tc_pcb c1) = pcb_in (tc_pcb c0) @ ds" "pcb_unread (tc_pcb c1) = int (length (tc_buf c1))" "tc_to_socks c1 = tc_to_socks c0"
      using a0 e(3) u by (simp_all add: c1_def)
    note ri = recv_data_inv [OF e(2) a0(1-3) w c1_def]
    have nb: "\<not> TCP_WND - length (tc_buf c0) < length ds" using w by simp
    have r: "client_recv_func lw jobs c p = (case (if tc_buf c0 = [] \<and> tc_socks_up c1
         then case client_send_to_socks c1 of None \<Rightarrow> None | Some c \<Rightarrow> sync_commit c jobs else Some c1) of None \<Rightarrow> None
       | Some c \<Rightarrow> map_option (\<lambda>(c, killed). (c, if killed then ERR_ABRT else ERR_OK)) (dead_leave c))"
      using Some a a0 e(1) ds nb unfolding client_recv_func_def by (simp add: c1_def Let_def)
    have "good True (if tc_buf c0 = [] \<and> tc_socks_up c1 then case client_send_to_socks c1 of None \<Rightarrow> None | Some c \<Rightarrow> sync_commit c jobs else Some c1)"
    proof (cases "tc_buf c0 = [] \<and> tc_socks_up c1")
      case True
      have n: "tc_buf c1 \<noteq> []" "si_inv (tc_send_if c1)" "si_has_user (tc_send_if c1)" "si_state (tc_send_if c1) = STATE_NONE"
          "tc_to_socks c1 @ tc_buf c1 = pcb_in (tc_pcb c1)"
        using so True ds f by (auto simp: send_ok_def send_taken_def)
      have "\<not> tc_client_closed c1 \<longrightarrow> pcb_unread (tc_pcb c1) = int (length (tc_buf c1)) \<and> length (tc_buf c1) \<le> TCP_WND" using f w by simp
      then obtain j where j: "StreamPassInterface_Sender_Send (tc_send_if c1) (Some 0) (int (length (tc_buf c1))) = Some j" "send_ok (c1\<lparr>tc_send_if := j\<rparr>)"
        using send_pending_ok [OF conjunct2 [OF True] n] by blast
      have "good (in_catch (c1\<lparr>tc_send_if := j\<rparr>)) (sync_commit (c1\<lparr>tc_send_if := j\<rparr>) jobs)"
        by (rule sync_commit_good [OF ri [OF j(2)]])
      then show ?thesis using True f n(1) j(1) by (simp add: client_send_to_socks_def)
    next
      case False
      have "send_ok c1"
      proof (cases "tc_socks_up c0")
        case up: True
        then have "tc_buf c0 \<noteq> []" using False f(3) by simp
        then have l: "si_job_operation_len (tc_send_if c0) \<le> int (length (tc_buf c0))" "send_taken c0 \<le> length (tc_buf c0)"
          using so up by (auto simp: send_ok_def send_taken_def si_inv_def)
        have "send_taken c1 = send_taken c0" by (simp add: send_taken_def f(6))
        then show ?thesis using so up l f w \<open>tc_buf c0 \<noteq> []\<close> by (auto simp: send_ok_def)
      next
        case False
        then show ?thesis using so f w by (simp add: send_ok_def)
      qed
      then have "tc_inv c1" using ri [of "tc_send_if c1"] by simp
      then show ?thesis unfolding if_not_P [OF False] using f(5) by simp
    qed
    from leave_good [OF this] show ?thesis unfolding r .
  qed
qed

lemma sent_func_good:
  assumes inv: "tc_inv c" "\<not> in_catch c" and p: "tc_possible c (PcbSent lw jobs len)"
  shows "callback_good (tc_step c (PcbSent lw jobs len))"
proof -
  have a: "tc_alive c" "\<not> tc_client_closed c" "tc_socks_up c" "\<not> tc_aborted c" "0 < len"
    using p inv(1) by (auto simp: tc_inv_def tc_pre_def tc_callbacks_def)
  have b: "recv_buf_ok c" using inv(1) a by (simp add: tc_inv_def tc_pre_def tc_data_def)
  then have le: "len \<le> tc_tcp_pending c" using p by (simp add: recv_buf_ok_def)
  define c0 where "c0 = c\<lparr>tc_dead := DeadCatch 0\<rparr>"
  have e: "dead_enter c = Some c0" "tc_inv c0" "in_catch c0" using enter_inv [OF inv(1) a(1,4) inv(2)] by (simp_all add: c0_def)
  have pre: "tc_pre c0" using tc_inv_pre [OF e(2)] a by (simp add: c0_def)
  define c1 where "c1 = c0\<lparr>tc_pcb := (tc_pcb c0)\<lparr>pcb_unacked := pcb_unacked (tc_pcb c0) - len\<rparr>, tc_tcp_pending := tc_tcp_pending c0 - len\<rparr>"
  define body where "body = (if tc_recv_buf_used c1 > 0 then
        if \<not> tc_recv_waiting c1 \<or> \<not> tc_recv_buf_sent c1 < tc_recv_buf_used c1 then None
        else (case client_socks_recv_send_out lw (c1\<lparr>tc_recv_waiting := False\<rparr>) of
            None \<Rightarrow> None
          | Some (c, ok) \<Rightarrow>
              if \<not> ok then Some c else if \<not> tc_tcp_pending c > 0 then None
              else if tc_recv_buf_used c = -1 \<and> \<not> tc_socks_closed c
              then (case client_socks_recv_initiate c of None \<Rightarrow> None | Some c \<Rightarrow> sync_commit c jobs)
              else Some c)
      else if tc_socks_closed c1 \<and> tc_tcp_pending c1 = 0 then client_free_client lw c1 else Some c1)"
  have "dead_enter (c\<lparr>tc_pcb := (tc_pcb c)\<lparr>pcb_unacked := pcb_unacked (tc_pcb c) - len\<rparr>\<rparr>) =
      Some (c0\<lparr>tc_pcb := (tc_pcb c0)\<lparr>pcb_unacked := pcb_unacked (tc_pcb c0) - len\<rparr>\<rparr>)"
    using e(1) by (auto simp: dead_enter_def c0_def split: if_splits)
  then have r: "tc_step c (PcbSent lw jobs len) = (case body of None \<Rightarrow> None
      | Some c \<Rightarrow> map_option (\<lambda>(c, killed). (c, if killed then ERR_ABRT else ERR_OK)) (dead_leave c))"
    using a le by (simp add: client_sent_func_def body_def Let_def c1_def c0_def)
  have f: "tc_alive c1" "tc_listed c1" "\<not> tc_client_closed c1" "tc_socks_up c1" "\<not> tc_aborted c1" "in_catch c1" "dead_ok c1" "tc_callbacks c1"
      "tc_tcp_pending c1 = pcb_unacked (tc_pcb c1)" "0 \<le> tc_tcp_pending c1" "tc_tcp_pending c1 = tc_tcp_pending c - len" "pcb_out (tc_pcb c1) = pcb_out (tc_pcb c)"
    using pre a e(3) b le by (auto simp: c1_def c0_def tc_pre_def tc_callbacks_def recv_buf_ok_def dead_ok_def in_catch_def)
  have g: "send_ok c1 = send_ok c" "recv_if_ok c1 = recv_if_ok c" "recv_rest c1 = recv_rest c" "tc_socks_closed c1 = tc_socks_closed c" "tc_from_socks c1 = tc_from_socks c"
      "tc_to_socks c1 = tc_to_socks c" "pcb_in (tc_pcb c1) = pcb_in (tc_pcb c)" "tc_recv_buf_used c1 = tc_recv_buf_used c" "tc_recv_buf_sent c1 = tc_recv_buf_sent c"
      "tc_recv_buf c1 = tc_recv_buf c" "tc_recv_if c1 = tc_recv_if c" "tc_recv_waiting c1 = tc_recv_waiting c" "tc_buf c1 = tc_buf c"
    by (simp_all add: c1_def c0_def send_ok_def send_taken_def recv_if_ok_def recv_rest_def)
  have d: "tc_data c" using inv(1) a by (simp add: tc_inv_def tc_pre_def)
  have "good True body"
  proof (cases "tc_recv_buf_used c1 > 0")
    case True
    define c2 where "c2 = c1\<lparr>tc_recv_waiting := False\<rparr>"
    have "recv_buf_ok c \<and> tc_recv_buf_used c \<noteq> -1" using b True g by auto
    then have s: "sending c2"
      using d a f g True unfolding c2_def
      by (auto simp: sending_def tc_data_def recv_buf_ok_def recv_rest_def recv_if_ok_def)
    have w: "tc_recv_waiting c1" "tc_recv_buf_sent c1 < tc_recv_buf_used c1" using b True g by (auto simp: recv_buf_ok_def)
    have k: "in_catch c2" "tc_socks_closed c2 = tc_socks_closed c1" "0 \<le> tc_tcp_pending c2" using f by (simp_all add: c2_def)
    have bd: "body = (case client_socks_recv_send_out lw c2 of None \<Rightarrow> None
          | Some (c, ok) \<Rightarrow>
              if \<not> ok then Some c else if \<not> tc_tcp_pending c > 0 then None
              else if tc_recv_buf_used c = -1 \<and> \<not> tc_socks_closed c
              then (case client_socks_recv_initiate c of None \<Rightarrow> None | Some c \<Rightarrow> sync_commit c jobs)
              else Some c)"
      unfolding body_def c2_def using True w by simp
    from send_out_cases [OF s, of lw] show ?thesis
    proof (elim disjE exE conjE)
      fix c' assume "client_socks_recv_send_out lw c2 = Some (c', False)" "tc_inv c'" "in_catch c' = in_catch c2"
      then show ?thesis unfolding bd using k by simp
    next
      fix n assume n: "0 \<le> n" "tc_recv_buf_sent c2 + n < tc_recv_buf_used c2" "0 < tc_tcp_pending c2 + n"
        "client_socks_recv_send_out lw c2 = Some ((queued n c2)\<lparr>tc_recv_waiting := True\<rparr>, True)"
      moreover have "tc_recv_buf_used c2 \<noteq> -1" using s by (auto simp: sending_def)
      ultimately show ?thesis unfolding bd using k waiting_inv [OF s n(1-3)] by simp
    next
      fix n assume n: "0 < n" "tc_recv_buf_sent c2 + n = tc_recv_buf_used c2"
        "client_socks_recv_send_out lw c2 = Some ((queued n c2)\<lparr>tc_recv_buf_used := -1\<rparr>, True)"
      show ?thesis
      proof (cases "tc_socks_closed c2")
        case True
        then show ?thesis unfolding bd using n k done_inv [OF s n(1,2) True] by simp
      next
        case False
        obtain c3 where c3: "client_socks_recv_initiate ((queued n c2)\<lparr>tc_recv_buf_used := -1\<rparr>) = Some c3" "tc_inv c3" "in_catch c3"
          using initiate_good [OF done_ready [OF s n(1,2) False]] k by (auto simp: good_def)
        then show ?thesis unfolding bd using n k False sync_commit_good [OF c3(2), of jobs] by simp
      qed
    qed
  next
    case False
    then have u: "tc_recv_buf_used c = -1" using b g by (auto simp: recv_buf_ok_def)
    have d1: "tc_data c1" using d a f g u by (simp add: tc_data_def recv_buf_ok_def)
    show ?thesis
    proof (cases "tc_socks_closed c1 \<and> tc_tcp_pending c1 = 0")
      case True
      have "good (in_catch c1) (client_free_client lw c1)" by (rule free_client_good [OF f(1-3) data_close [OF d1] f(7,5)])
      then show ?thesis unfolding body_def using True False f(6) by simp
    next
      case stay: False
      have "tc_inv c1" using f d1 stay by (auto simp: tc_inv_def tc_pre_def tc_waits_def)
      then show ?thesis unfolding body_def using stay False f(6) by (simp del: if_split add: if_not_P)
    qed
  qed
  from leave_good [OF this] show ?thesis unfolding r .
qed

lemma err_func_good:
  assumes inv: "tc_inv c" "\<not> in_catch c" and p: "tc_possible c (PcbErr lw)"
  shows "\<exists>c'. tc_step c (PcbErr lw) = Some (c', ERR_OK) \<and> tc_inv c' \<and> \<not> in_catch c'"
proof -
  have a: "tc_alive c" "\<not> tc_client_closed c" using p inv(1) by (auto simp: tc_inv_def tc_pre_def tc_callbacks_def)
  let ?c = "pcb_callbacks False False False c"
  have "good (in_catch ?c) (client_handle_freed_client lw ?c)"
  proof (rule handle_freed_good)
    show "closed_data ?c" using inv(1) a data_close by (auto simp: tc_inv_def tc_pre_def)
    show "dead_ok ?c" using inv(1) a by (auto simp: tc_inv_def tc_pre_def)
    show "tc_listed ?c" using inv(1) a by (auto simp: tc_inv_def tc_pre_def pcb_callbacks_def)
  qed (use a in \<open>simp_all add: pcb_callbacks_def\<close>)
  then show ?thesis using inv(2) a by (auto simp: good_def client_err_func_def pcb_callbacks_def)
qed

lemma tc_step_good:
  assumes inv: "tc_inv c" "\<not> in_catch c" and p: "tc_possible c ev"
  shows "\<exists>c' e. tc_step c ev = Some (c', e) \<and> tc_inv c' \<and> \<not> in_catch c'"
proof (cases ev)
  case (PcbRecv lw jobs ds)
  then show ?thesis using recv_func_good [OF inv, of lw jobs ds] p by (auto simp: callback_good_def)
next
  case (PcbSent lw jobs len)
  then show ?thesis using sent_func_good [OF inv, of lw jobs len] p by (auto simp: callback_good_def simp del: tc_step.simps)
next
  case (PcbErr lw)
  then show ?thesis using err_func_good [OF inv, of lw] p by blast
next
  case (Socks lw e)
  then show ?thesis using socks_step_good [OF inv(1), of e lw] p inv(2) by (auto simp: good_def simp del: socks_step.simps)
qed

lemma accept_cases:
  assumes "listener_accept_func env jobs = Some (Some c, e)" obtains u where "accept_client u jobs = Some (c, e)"
  using assms by (auto simp: listener_accept_func_def Let_def split: if_splits)

lemma tc_reach_inv: "tc_reach c \<Longrightarrow> tc_inv c \<and> \<not> in_catch c"
proof (induction rule: tc_reach.induct)
  case (accept env jobs c e)
  then obtain u where "accept_client u jobs = Some (c, e)" by (rule accept_cases)
  then show ?case using tc_accept_good [of u jobs] by (auto simp: callback_good_def)
next
  case (step c ev c' e)
  then show ?case using tc_step_good [of c ev] by auto
qed

lemma murder_good:
  assumes "tc_inv c" "tc_alive c"
  shows "\<exists>c'. client_murder c = Some c' \<and> \<not> tc_alive c' \<and> \<not> tc_listed c'"
proof -
  have p: "tc_listed c" "tc_aborted c \<longrightarrow> tc_client_closed c" "dead_ok c" using assms by (auto simp: tc_inv_def tc_pre_def)
  show ?thesis
    using assms(2) p
    by (cases "tc_dead c")
       (auto simp: client_murder_def client_abort_pcb_def client_dealloc_def dead_kill_def dead_ok_def pcb_callbacks_def Let_def)
qed

text \<open>A stack that takes at most three bytes at a time, and a run: data arrives before SOCKS is up, is
  sent, five bytes come back, and SOCKS closes while two of them are not queued and three not acknowledged.\<close>

definition demo_lwip :: lwip where
  "demo_lwip = \<lparr>lw_sndbuf = \<lambda>sent. if sent < 3 then 3 else 0, lw_write = \<lambda>_. ERR_OK, lw_output = ERR_OK, lw_close = ERR_OK\<rparr>"

definition demo_env :: accept_env where
  "demo_env = \<lparr>ac_malloc = True, ac_username = None, ac_append = False, ac_remote = [], ac_concat = True, ac_socks_init = \<lambda>_. True\<rparr>"

fun tc_run :: "tcp_client \<Rightarrow> tc_event list \<Rightarrow> tcp_client option" where
  "tc_run c [] = Some c"
| "tc_run c (e # es) = (if tc_possible c e then (case tc_step c e of None \<Rightarrow> None | Some (c, _) \<Rightarrow> tc_run c es) else None)"

definition demo_start :: tcp_client where
  "demo_start = (case listener_accept_func demo_env [] of Some (Some c, _) \<Rightarrow> c | _ \<Rightarrow> undefined)"

definition demo_events :: "tc_event list" where
  "demo_events =
     [PcbRecv demo_lwip [] (Some [1, 2, 3]), Socks demo_lwip (SocksEvent BSOCKSCLIENT_EVENT_UP), Socks demo_lwip SendOperation,
      Socks demo_lwip (SendComplete 2), Socks demo_lwip SendDone, Socks demo_lwip RecvOperation,
      Socks demo_lwip (RecvComplete [11, 12, 13, 14, 15]), Socks demo_lwip RecvDone]"

definition demo_client :: tcp_client where
  "demo_client = (case tc_run demo_start demo_events of Some c \<Rightarrow> c | _ \<Rightarrow> undefined)"

lemma tc_run_reach: "tc_reach c \<Longrightarrow> tc_run c es = Some c' \<Longrightarrow> tc_reach c'"
proof (induction es arbitrary: c)
  case (Cons e es)
  then obtain c1 r where "tc_possible c e" "tc_step c e = Some (c1, r)" "tc_run c1 es = Some c'"
    by (auto split: if_splits option.splits)
  then show ?case using Cons.IH [of c1] tc_reach.step [OF Cons.prems(1)] by blast
qed simp

lemma demo_accept: obtains c e where "listener_accept_func demo_env [] = Some (Some c, e)"
proof -
  have "(case listener_accept_func demo_env [] of Some (Some c, e) \<Rightarrow> True | _ \<Rightarrow> False)" by code_simp
  then show ?thesis using that by (auto split: option.splits prod.splits)
qed

lemma demo_start_reach: "tc_reach demo_start"
proof -
  obtain c e where "listener_accept_func demo_env [] = Some (Some c, e)" by (rule demo_accept)
  then show ?thesis using tc_reach.accept by (auto simp: demo_start_def)
qed

lemma demo_reach: "tc_reach demo_client"
proof -
  have "tc_run demo_start demo_events \<noteq> None" by code_simp
  then obtain c where "tc_run demo_start demo_events = Some c" by blast
  then show ?thesis using tc_run_reach [OF demo_start_reach] by (simp add: demo_client_def)
qed

lemma accept_safe: "listener_accept_func env jobs \<noteq> None"
proof -
  have a: "accept_client u jobs \<noteq> None" for u using tc_accept_good [of u jobs] by (auto simp: callback_good_def)
  show ?thesis unfolding listener_accept_func_def Let_def using a by (simp del: not_None_eq)
qed

lemma abrt_good: "callback_good r \<Longrightarrow> r = Some (c, e) \<Longrightarrow> (e = ERR_ABRT \<longleftrightarrow> tc_aborted c) \<and> (e = ERR_ABRT \<or> e = ERR_OK)"
  by (auto simp: callback_good_def)

lemma dealloc_closed: "client_dealloc c = Some c' \<Longrightarrow> tc_client_closed c' \<and> tc_socks_closed c'"
  by (auto simp: client_dealloc_def dead_kill_def Let_def split: if_splits dead_ref.splits)

lemma free_socks_closed: "client_free_socks lw c = Some c' \<Longrightarrow> tc_client_closed c \<Longrightarrow> tc_client_closed c' \<and> tc_socks_closed c'"
  by (subst (asm) client_free_socks.simps) (auto simp: Let_def dest: dealloc_closed split: if_splits)

lemma handle_freed_closed:
  "client_handle_freed_client lw c = Some c' \<Longrightarrow> tc_client_closed c' \<and> (tc_socks_closed c \<longrightarrow> tc_socks_closed c')"
  by (subst (asm) client_handle_freed_client.simps) (auto simp: Let_def dest: dealloc_closed free_socks_closed split: if_splits)

lemma free_client_closed:
  "client_free_client lw c = Some c' \<Longrightarrow> tc_client_closed c' \<and> (tc_socks_closed c \<longrightarrow> tc_socks_closed c')"
  by (subst (asm) client_free_client.simps)
    (auto simp: pcb_callbacks_def dest!: abort_pcb_fields handle_freed_closed split: if_splits option.splits)

lemma both_closed: "tc_inv c \<Longrightarrow> tc_client_closed c \<Longrightarrow> tc_socks_closed c \<Longrightarrow> \<not> tc_alive c"
  by (auto simp: tc_inv_def tc_waits_def)

lemma leave_closed: "dead_leave c = Some (c', k) \<Longrightarrow> tc_client_closed c' = tc_client_closed c \<and> tc_socks_closed c' = tc_socks_closed c"
  by (auto simp: dead_leave_def split: dead_ref.splits if_splits)

lemma last_ack_frees:
  assumes i: "tc_inv c" "\<not> in_catch c" and a: "tc_alive c" "tc_socks_closed c" "tc_recv_buf_used c = -1"
  shows "\<exists>c' e. tc_step c (PcbSent lw jobs (pcb_unacked (tc_pcb c))) = Some (c', e) \<and> \<not> tc_alive c'"
proof -
  have u: "0 < pcb_unacked (tc_pcb c)" "pcb_sent (tc_pcb c)" "tc_tcp_pending c = pcb_unacked (tc_pcb c)"
    using i a by (auto simp: tc_inv_def tc_waits_def tc_pre_def tc_data_def recv_buf_ok_def tc_callbacks_def)
  let ?ev = "PcbSent lw jobs (pcb_unacked (tc_pcb c))"
  obtain c' e where s: "tc_step c ?ev = Some (c', e)" "tc_inv c'" using tc_step_good [OF i, of ?ev] u a by auto
  have "tc_client_closed c' \<and> tc_socks_closed c'"
    using s(1) a u
    by (auto simp: client_sent_func_def Let_def dead_enter_def dest!: free_client_closed leave_closed split: if_splits option.splits)
  then show ?thesis using s both_closed by blast
qed

lemma last_send_frees:
  assumes i: "tc_inv c" "\<not> in_catch c" and a: "tc_alive c" "tc_client_closed c" "tc_socks_up c" "si_job_done (tc_send_if c)"
    "si_job_done_len (tc_send_if c) = int (length (tc_buf c))"
  shows "\<exists>c' e. tc_step c (Socks lw SendDone) = Some (c', e) \<and> \<not> tc_alive c'"
proof -
  have o: "\<not> tc_socks_closed c" using i a by (auto simp: tc_inv_def tc_waits_def)
  obtain c' e where s: "tc_step c (Socks lw SendDone) = Some (c', e)" "tc_inv c'"
    using tc_step_good [OF i, of "Socks lw SendDone"] o a by auto
  have "tc_client_closed c' \<and> tc_socks_closed c'"
    using s(1) a
    by (auto simp: StreamPassInterface_job_done_def client_socks_send_handler_done_def Let_def
        dest!: free_socks_closed split: if_splits option.splits)
  then show ?thesis using s both_closed by blast
qed

subsection \<open>Properties\<close>

lemma tcp_client_safe_parts:
  assumes "tc_reach c"
  shows "listener_accept_func env jobs \<noteq> None"
    and "tc_possible c ev \<Longrightarrow> tc_step c ev \<noteq> None"
    and "tc_alive c \<Longrightarrow> \<exists>c'. client_murder c = Some c' \<and> \<not> tc_alive c' \<and> \<not> tc_listed c'"
proof -
  note i = tc_reach_inv [OF assms]
  show "listener_accept_func env jobs \<noteq> None"
    by (rule accept_safe)
  show "tc_step c ev \<noteq> None" if "tc_possible c ev" using tc_step_good [of c ev] i that by auto
  show "\<exists>c'. client_murder c = Some c' \<and> \<not> tc_alive c' \<and> \<not> tc_listed c'" if "tc_alive c" using murder_good i that by blast
qed

text \<open>C13: A TCP connection of the tunnel is safe.  Accepting a connection, whatever of it fails, and every callback
  of the stack and every event of the SOCKS connection, whatever the stack answers to \<open>tcp_write\<close>,
  \<open>tcp_output\<close> and \<open>tcp_close\<close> and whatever jobs run inside a callback, fail no assertion, use no freed client
  and no dangling \<open>dead_aborted\<close>; a client that exists can be killed at any time, which frees it and takes
  it off the list.\<close>

theorem tcp_client_safe:
  assumes "tc_reach c"
  shows "listener_accept_func env jobs \<noteq> None \<and>
    (tc_possible c ev \<longrightarrow> tc_step c ev \<noteq> None) \<and>
    (tc_alive c \<longrightarrow>
      (\<exists>c'. client_murder c = Some c' \<and> \<not> tc_alive c' \<and> \<not> tc_listed c'))"
  using tcp_client_safe_parts [OF assms] by blast

theorem tcp_client_safe_witness:
  "listener_accept_func demo_env [] \<noteq> None \<and> tc_step demo_client (PcbSent demo_lwip [] 3) \<noteq> None \<and>
    (\<exists>c'. client_murder demo_client = Some c' \<and> \<not> tc_alive c' \<and> \<not> tc_listed c')"
proof -
  have "tc_possible demo_client (PcbSent demo_lwip [] 3)" "tc_alive demo_client" by code_simp+
  then show ?thesis using tcp_client_safe [OF demo_reach] by blast
qed

lemma tcp_client_conserves_parts:
  assumes "tc_reach c" "tc_alive c"
  shows "take (length (tc_to_socks c)) (pcb_in (tc_pcb c)) = tc_to_socks c"
    and "take (length (pcb_out (tc_pcb c))) (tc_from_socks c) = pcb_out (tc_pcb c)"
    and "\<not> tc_socks_closed c \<Longrightarrow> tc_socks_up c \<Longrightarrow> tc_to_socks c @ drop (send_taken c) (tc_buf c) = pcb_in (tc_pcb c)"
    and "\<not> tc_socks_closed c \<Longrightarrow> tc_socks_up c \<Longrightarrow> \<not> tc_client_closed c \<Longrightarrow> pcb_out (tc_pcb c) @ recv_rest c = tc_from_socks c"
    and "\<not> tc_socks_closed c \<Longrightarrow> \<not> tc_client_closed c \<Longrightarrow> pcb_unread (tc_pcb c) = int (length (tc_buf c)) \<and> length (tc_buf c) \<le> TCP_WND"
    and "tc_socks_up c \<Longrightarrow> \<not> tc_client_closed c \<Longrightarrow> tc_tcp_pending c = pcb_unacked (tc_pcb c)"
proof -
  have d: "tc_data c" using tc_reach_inv [OF assms(1)] assms(2) by (auto simp: tc_inv_def tc_pre_def)
  then obtain r s where "tc_to_socks c @ r = pcb_in (tc_pcb c)" "pcb_out (tc_pcb c) @ s = tc_from_socks c" by (auto simp: tc_data_def)
  then show "take (length (tc_to_socks c)) (pcb_in (tc_pcb c)) = tc_to_socks c"
      "take (length (pcb_out (tc_pcb c))) (tc_from_socks c) = pcb_out (tc_pcb c)"
    by (metis append_eq_conv_conj)+
  show "tc_to_socks c @ drop (send_taken c) (tc_buf c) = pcb_in (tc_pcb c)" if "\<not> tc_socks_closed c" "tc_socks_up c"
    using d that by (simp add: tc_data_def send_ok_def)
  show "pcb_out (tc_pcb c) @ recv_rest c = tc_from_socks c" if "\<not> tc_socks_closed c" "tc_socks_up c" "\<not> tc_client_closed c"
    using d that by (simp add: tc_data_def)
  show "pcb_unread (tc_pcb c) = int (length (tc_buf c)) \<and> length (tc_buf c) \<le> TCP_WND" if "\<not> tc_socks_closed c" "\<not> tc_client_closed c"
    using d that by (simp add: tc_data_def send_ok_def)
  show "tc_tcp_pending c = pcb_unacked (tc_pcb c)" if "tc_socks_up c" "\<not> tc_client_closed c"
    using d that by (simp add: tc_data_def recv_buf_ok_def)
qed

text \<open>C6: No byte of a connection is lost, duplicated or reordered.  What was handed to SOCKS is a prefix of what
  the stack delivered, and as long as SOCKS is open the rest is exactly what the buffer holds (without the part of
  a completed send that the client has not been told of); what was queued with \<open>tcp_write\<close> is a
  prefix of what SOCKS delivered, and while both sides are open the rest is exactly what the receive buffer holds.
  The bytes not confirmed with \<open>tcp_recved\<close> are those in the buffer, at most \<open>TCP_WND\<close>, and \<open>tcp_pending\<close> is
  what the stack has not acknowledged.\<close>

theorem tcp_client_conserves:
  assumes "tc_reach c" "tc_alive c"
  shows "take (length (tc_to_socks c)) (pcb_in (tc_pcb c)) = tc_to_socks c \<and>
    take (length (pcb_out (tc_pcb c))) (tc_from_socks c) = pcb_out (tc_pcb c) \<and>
    (\<not> tc_socks_closed c \<and> tc_socks_up c \<longrightarrow> tc_to_socks c @ drop (send_taken c) (tc_buf c) = pcb_in (tc_pcb c)) \<and>
    (\<not> tc_socks_closed c \<and> tc_socks_up c \<and> \<not> tc_client_closed c \<longrightarrow> pcb_out (tc_pcb c) @ recv_rest c = tc_from_socks c) \<and>
    (\<not> tc_socks_closed c \<and> \<not> tc_client_closed c \<longrightarrow> pcb_unread (tc_pcb c) = int (length (tc_buf c)) \<and> length (tc_buf c) \<le> TCP_WND) \<and>
    (tc_socks_up c \<and> \<not> tc_client_closed c \<longrightarrow> tc_tcp_pending c = pcb_unacked (tc_pcb c))"
  using tcp_client_conserves_parts [OF assms] by blast

theorem tcp_client_conserves_witness:
  "tc_to_socks demo_client @ drop (send_taken demo_client) (tc_buf demo_client) = [1, 2, 3] \<and>
    pcb_out (tc_pcb demo_client) @ recv_rest demo_client = [11, 12, 13, 14, 15] \<and> tc_tcp_pending demo_client = 3"
proof -
  have a: "tc_alive demo_client" "\<not> tc_socks_closed demo_client" "tc_socks_up demo_client" "\<not> tc_client_closed demo_client"
    "pcb_in (tc_pcb demo_client) = [1, 2, 3]" "tc_from_socks demo_client = [11, 12, 13, 14, 15]" "pcb_unacked (tc_pcb demo_client) = 3"
    by code_simp+
  show ?thesis using tcp_client_conserves [OF demo_reach a(1)] a by simp
qed

text \<open>C17: The contract of the stack's callbacks is kept: a callback of a connection, or accepting it, returns
  \<open>ERR_ABRT\<close> exactly when \<open>tcp_abort\<close> was done for it; \<open>client_recv_func\<close> never refuses data that the window
  allows.\<close>

theorem tcp_client_abrt:
  assumes "tc_reach c" "tc_possible c ev" "tc_step c ev = Some (c', e)" "\<not> (\<exists>lw s. ev = Socks lw s)" "\<not> (\<exists>lw. ev = PcbErr lw)"
    "listener_accept_func env jobs = Some (Some d, f)"
  shows "(e = ERR_ABRT \<longleftrightarrow> tc_aborted c') \<and> (e = ERR_ABRT \<or> e = ERR_OK) \<and> (f = ERR_ABRT \<longleftrightarrow> tc_aborted d)"
proof -
  have i: "tc_inv c" "\<not> in_catch c" using tc_reach_inv [OF assms(1)] by simp_all
  have "callback_good (tc_step c ev)"
  proof (cases ev)
    case (PcbRecv lw jobs p)
    then show ?thesis using recv_func_good [OF i] assms(2) by (simp del: tc_possible.simps)
  next
    case (PcbSent lw jobs len)
    then show ?thesis using sent_func_good [OF i] assms(2) by (simp del: tc_possible.simps tc_step.simps)
  qed (use assms in auto)
  then have "(e = ERR_ABRT \<longleftrightarrow> tc_aborted c') \<and> (e = ERR_ABRT \<or> e = ERR_OK)" using assms(3) by (rule abrt_good)
  moreover obtain u where "accept_client u jobs = Some (d, f)" using assms(6) by (rule accept_cases)
  ultimately show ?thesis using abrt_good [OF tc_accept_good] by blast
qed

definition demo_broken :: lwip where
  "demo_broken = demo_lwip\<lparr>lw_output := ERR_OTHER\<rparr>"

theorem tcp_client_abrt_witness:
  "\<exists>c' e. tc_step demo_client (PcbSent demo_broken [] 2) = Some (c', e) \<and> tc_aborted c' \<and> e = ERR_ABRT"
proof -
  have a: "tc_possible demo_client (PcbSent demo_broken [] 2)" by code_simp
  have "case tc_step demo_client (PcbSent demo_broken [] 2) of None \<Rightarrow> False | Some (c', e) \<Rightarrow> tc_aborted c'" by code_simp
  then obtain c' e where s: "tc_step demo_client (PcbSent demo_broken [] 2) = Some (c', e)" "tc_aborted c'" by (auto split: option.splits)
  obtain d f where "listener_accept_func demo_env [] = Some (Some d, f)" by (rule demo_accept)
  then show ?thesis using tcp_client_abrt [OF demo_reach a s(1)] s by blast
qed

lemma tcp_client_finishes_parts:
  assumes "tc_reach c"
  shows "tc_listed c = tc_alive c"
    and "tc_alive c \<Longrightarrow> \<not> (tc_client_closed c \<and> tc_socks_closed c)"
    and "tc_alive c \<Longrightarrow> tc_socks_closed c \<Longrightarrow> 0 < pcb_unacked (tc_pcb c) \<and> pcb_sent (tc_pcb c)"
    and "tc_alive c \<Longrightarrow> tc_socks_closed c \<Longrightarrow> tc_recv_buf_used c = -1 \<Longrightarrow>
      \<exists>c' e. tc_step c (PcbSent lw jobs (pcb_unacked (tc_pcb c))) = Some (c', e) \<and> \<not> tc_alive c'"
    and "tc_alive c \<Longrightarrow> tc_client_closed c \<Longrightarrow> tc_buf c \<noteq> []"
    and "tc_alive c \<Longrightarrow> tc_client_closed c \<Longrightarrow> tc_socks_up c \<Longrightarrow> si_job_done (tc_send_if c) \<Longrightarrow>
      si_job_done_len (tc_send_if c) = int (length (tc_buf c)) \<Longrightarrow>
      \<exists>c' e. tc_step c (Socks lw SendDone) = Some (c', e) \<and> \<not> tc_alive c'"
proof -
  have i: "tc_inv c" "\<not> in_catch c" using tc_reach_inv [OF assms] by simp_all
  show "tc_listed c = tc_alive c" using i by (auto simp: tc_inv_def tc_pre_def split: if_splits)
  show "\<not> (tc_client_closed c \<and> tc_socks_closed c)" if "tc_alive c" using i that by (auto simp: tc_inv_def tc_waits_def)
  show s: "0 < pcb_unacked (tc_pcb c) \<and> pcb_sent (tc_pcb c)" if "tc_alive c" "tc_socks_closed c"
    using i that by (auto simp: tc_inv_def tc_waits_def tc_pre_def tc_data_def recv_buf_ok_def tc_callbacks_def)
  show "tc_buf c \<noteq> []" if "tc_alive c" "tc_client_closed c" using i that by (auto simp: tc_inv_def tc_waits_def)
  show "\<exists>c' e. tc_step c (PcbSent lw jobs (pcb_unacked (tc_pcb c))) = Some (c', e) \<and> \<not> tc_alive c'"
    if a: "tc_alive c" "tc_socks_closed c" "tc_recv_buf_used c = -1"
    using last_ack_frees [OF i a] by blast
  show "\<exists>c' e. tc_step c (Socks lw SendDone) = Some (c', e) \<and> \<not> tc_alive c'"
    if a: "tc_alive c" "tc_client_closed c" "tc_socks_up c" "si_job_done (tc_send_if c)"
      "si_job_done_len (tc_send_if c) = int (length (tc_buf c))"
    using last_send_frees [OF i a] by blast
qed

text \<open>C21: A half closed connection is not leaked.  A client exists in the list exactly until it is freed, both its
  sides are then closed, and while one side is closed it is kept only for data of that side that the other has
  still to take, with the callback that will drain it: when SOCKS has closed, bytes wait for acknowledgement and \<open>client_sent_func\<close>
  is installed, and the acknowledgement of the last of them frees the client; when the stack's side has
  closed, the buffer is not empty, and the completion of a send of all of it frees the client.\<close>

theorem tcp_client_finishes:
  assumes "tc_reach c"
  shows "tc_listed c = tc_alive c \<and>
    (tc_alive c \<longrightarrow> \<not> (tc_client_closed c \<and> tc_socks_closed c)) \<and>
    (tc_alive c \<and> tc_socks_closed c \<longrightarrow> 0 < pcb_unacked (tc_pcb c) \<and> pcb_sent (tc_pcb c)) \<and>
    (tc_alive c \<and> tc_socks_closed c \<and> tc_recv_buf_used c = -1 \<longrightarrow>
      (\<exists>c' e. tc_step c (PcbSent lw jobs (pcb_unacked (tc_pcb c))) = Some (c', e) \<and> \<not> tc_alive c')) \<and>
    (tc_alive c \<and> tc_client_closed c \<longrightarrow> tc_buf c \<noteq> []) \<and>
    (tc_alive c \<and> tc_client_closed c \<and> tc_socks_up c \<and> si_job_done (tc_send_if c) \<and> si_job_done_len (tc_send_if c) = int (length (tc_buf c)) \<longrightarrow>
      (\<exists>c' e. tc_step c (Socks lw SendDone) = Some (c', e) \<and> \<not> tc_alive c'))"
  using tcp_client_finishes_parts [OF assms] by blast

definition demo_closing :: "tc_event list" where
  "demo_closing = [PcbSent (demo_lwip\<lparr>lw_sndbuf := \<lambda>_. 2\<rparr>) [] 1, Socks demo_lwip (SocksEvent BSOCKSCLIENT_EVENT_ERROR)]"

definition demo_closed :: tcp_client where
  "demo_closed = (case tc_run demo_client demo_closing
     of Some c \<Rightarrow> c | _ \<Rightarrow> undefined)"

lemma demo_closed_reach: "tc_reach demo_closed"
proof -
  have "tc_run demo_client demo_closing \<noteq> None" by code_simp
  then show ?thesis using tc_run_reach [OF demo_reach] by (auto simp: demo_closed_def)
qed

theorem tcp_client_finishes_witness:
  "tc_listed demo_closed \<and> \<not> tc_client_closed demo_closed \<and> pcb_unacked (tc_pcb demo_closed) = 4 \<and>
    (\<exists>c' e. tc_step demo_closed (PcbSent demo_lwip [] 4) = Some (c', e) \<and> \<not> tc_alive c')"
proof -
  have a: "tc_alive demo_closed" "tc_socks_closed demo_closed" "tc_recv_buf_used demo_closed = -1" by code_simp+
  have u: "pcb_unacked (tc_pcb demo_closed) = 4" by code_simp
  show ?thesis using tcp_client_finishes [OF demo_closed_reach, of demo_lwip "[]"] a unfolding u by blast
qed

end
