(* ===== verification/IpUdp.thy ===== *)
theory IpUdp
  imports Prelude "HOL-Library.While_Combinator" "HOL-Library.Code_Target_Nat"
begin

text \<open>
  \<open>badvpn/misc/ipv4_proto.h\<close>, \<open>ipv6_proto.h\<close>, \<open>udp_proto.h\<close> and the UDP path of \<open>badvpn/tun2socks/tun2socks.c\<close>:
  packets of the tunnel device are checked and taken apart, and answers are put into packets for the device.
  A packed structure is a record with its memory image; a field keeps the byte order the code stores, and
  \<open>hton16\<close>, \<open>hton32\<close> reverse the bytes (the targets are little-endian).  Sums run in 32 bits, and wrap.
\<close>

subsection \<open>Byte order\<close>

definition badvpn_reverse16 :: "u16 \<Rightarrow> u16" where "badvpn_reverse16 x = le16_of (rev (le16_bytes x))"
definition badvpn_reverse32 :: "u32 \<Rightarrow> u32" where "badvpn_reverse32 x = le32_of (rev (le32_bytes x))"

definition hton16 :: "u16 \<Rightarrow> u16" where "hton16 x = badvpn_reverse16 x"
definition hton32 :: "u32 \<Rightarrow> u32" where "hton32 x = badvpn_reverse32 x"
definition ntoh16 :: "u16 \<Rightarrow> u16" where "ntoh16 x = hton16 x"
definition ntoh32 :: "u32 \<Rightarrow> u32" where "ntoh32 x = hton32 x"

fun badvpn_read_be16 :: "bytes \<Rightarrow> u16" where
  "badvpn_read_be16 (a # b # _) = push_bit 8 (ucast a) OR ucast b"
| "badvpn_read_be16 _ = 0"

subsection \<open>Addresses\<close>

datatype BAddr = BAddrNone | BAddrIPv4 u32 u16 | BAddrIPv6 bytes u16

definition BAddr_MakeIPv4 :: "u32 \<Rightarrow> u16 \<Rightarrow> BAddr" where "BAddr_MakeIPv4 ip port = BAddrIPv4 ip port"
definition BAddr_MakeIPv6 :: "bytes \<Rightarrow> u16 \<Rightarrow> BAddr" where "BAddr_MakeIPv6 ip port = BAddrIPv6 (take 16 ip) port"

subsection \<open>IPv4\<close>

record ipv4_header =
  ih_version4_ihl4 :: byte
  ih_ds :: byte
  ih_total_length :: u16
  ih_identification :: u16
  ih_flags3_fragmentoffset13 :: u16
  ih_ttl :: byte
  ih_protocol :: byte
  ih_checksum :: u16
  ih_source_address :: u32
  ih_destination_address :: u32

definition ipv4_header_image :: "ipv4_header \<Rightarrow> bytes" where
  "ipv4_header_image h =
     [ih_version4_ihl4 h, ih_ds h] @ le16_bytes (ih_total_length h) @
     le16_bytes (ih_identification h) @ le16_bytes (ih_flags3_fragmentoffset13 h) @
     [ih_ttl h, ih_protocol h] @ le16_bytes (ih_checksum h) @
     le32_bytes (ih_source_address h) @ le32_bytes (ih_destination_address h)"

definition ipv4_header_load :: "bytes \<Rightarrow> ipv4_header" where
  "ipv4_header_load m =
     \<lparr>ih_version4_ihl4 = m ! 0, ih_ds = m ! 1, ih_total_length = le16_of (drop 2 m),
      ih_identification = le16_of (drop 4 m), ih_flags3_fragmentoffset13 = le16_of (drop 6 m),
      ih_ttl = m ! 8, ih_protocol = m ! 9, ih_checksum = le16_of (drop 10 m),
      ih_source_address = le32_of (drop 12 m), ih_destination_address = le32_of (drop 16 m)\<rparr>"

definition IPV4_PROTOCOL_UDP :: byte where "IPV4_PROTOCOL_UDP = 17"
definition IPV4_GET_VERSION :: "ipv4_header \<Rightarrow> byte" where "IPV4_GET_VERSION h = drop_bit 4 (ih_version4_ihl4 h AND 0xF0)"
definition IPV4_GET_IHL :: "ipv4_header \<Rightarrow> byte" where "IPV4_GET_IHL h = ih_version4_ihl4 h AND 0x0F"
definition IPV4_MAKE_VERSION_IHL :: "nat \<Rightarrow> byte" where "IPV4_MAKE_VERSION_IHL sz = word_of_nat (sz div 4 + 64)"

text \<open>The loop over the 16-bit words of an object, and the loop that folds the carries back in.\<close>

fun be16_words_sum :: "bytes \<Rightarrow> u32 \<Rightarrow> u32" where
  "be16_words_sum (a # b # m) t = be16_words_sum m (t + ucast (badvpn_read_be16 [a, b]))"
| "be16_words_sum _ t = t"

definition checksum_round :: "u32 \<Rightarrow> u32" where
  "checksum_round t = (t AND 0xFFFF) + drop_bit 16 t"

lemma unat_checksum_round: "unat (checksum_round t) = unat t mod 65536 + unat t div 65536"
proof -
  have l: "unat t < 2 ^ 32" using unsigned_less [of t] by simp
  have m: "t AND 0xFFFF = t AND mask 16" by (simp add: mask_eq_exp_minus_1)
  have a: "unat (t AND 0xFFFF) = unat t mod 65536" unfolding m unat_and_mask_mod by simp
  have b: "unat (drop_bit 16 t) = unat t div 65536" by (simp add: unat_drop_bit_div)
  have "unat t mod 65536 + unat t div 65536 < 2 ^ 32"
  proof -
    have "unat t mod 65536 < 65536" "unat t div 65536 < 65536" using l by simp_all
    then show ?thesis by simp
  qed
  then show ?thesis unfolding checksum_round_def by (simp add: unat_word_ariths a b)
qed

lemma mod_div_less: "1 < k \<Longrightarrow> k \<le> n \<Longrightarrow> n mod k + n div k < n" for n k :: nat
proof -
  assume k: "1 < k" "k \<le> n"
  then have "0 < n div k" by (simp add: div_greater_zero_iff)
  then have "n div k < k * (n div k)" using k by simp
  then show ?thesis using mod_mult_div_eq [of n k] by linarith
qed

lemma drop_bit_16_zero: "(drop_bit 16 (t :: u32) = 0) = (unat t < 65536)"
proof -
  have "unat (drop_bit 16 t) = unat t div 65536" by (simp add: unat_drop_bit_div)
  then show ?thesis by (metis div_eq_0_iff zero_neq_numeral unsigned_0 word_unat_eq_iff)
qed

lemma checksum_round_less: "drop_bit 16 t \<noteq> 0 \<Longrightarrow> unat (checksum_round t) < unat t"
proof -
  assume "drop_bit 16 t \<noteq> 0"
  then have "65536 \<le> unat t" by (simp add: drop_bit_16_zero)
  then show ?thesis unfolding unat_checksum_round by (simp add: mod_div_less)
qed

function checksum_fold :: "u32 \<Rightarrow> u32" where
  "checksum_fold t = (if drop_bit 16 t \<noteq> 0 then checksum_fold (checksum_round t) else t)"
  by pat_completeness auto
termination
  by (relation "measure unat") (auto dest: checksum_round_less)

declare checksum_fold.simps [simp del]

definition ipv4_checksum :: "ipv4_header \<Rightarrow> bytes \<Rightarrow> u16" where
  "ipv4_checksum header extra =
     (let t = be16_words_sum (ipv4_header_image header) 0;
          t = be16_words_sum extra t
      in hton16 (ucast (NOT (checksum_fold t))))"

definition ipv4_check :: "bytes \<Rightarrow> (ipv4_header \<times> bytes) option" where
  "ipv4_check data =
     (if length data < 20 then None
      else
        let out_header = ipv4_header_load (take 20 data) in
        if IPV4_GET_VERSION out_header \<noteq> 4 then None
        else
          let header_len = unat (IPV4_GET_IHL out_header) * 4 in
          if header_len < 20 then None
          else if header_len > length data then None
          else
            let total_length = unat (ntoh16 (ih_total_length out_header)) in
            if total_length < header_len then None
            else if total_length > length data then None
            else
              let checksum_in_packet = ih_checksum out_header;
                  checksum_computed = ipv4_checksum (out_header\<lparr>ih_checksum := hton16 0\<rparr>) (mem_read data 20 (header_len - 20))
              in if checksum_in_packet \<noteq> checksum_computed then None
                 else Some (out_header, mem_read data header_len (total_length - header_len)))"

subsection \<open>IPv6\<close>

record ipv6_header =
  i6_version4_tc4 :: byte
  i6_tc4_fl4 :: byte
  i6_fl :: u16
  i6_payload_length :: u16
  i6_next_header :: byte
  i6_hop_limit :: byte
  i6_source_address :: bytes
  i6_destination_address :: bytes

definition ipv6_header_image :: "ipv6_header \<Rightarrow> bytes" where
  "ipv6_header_image h =
     [i6_version4_tc4 h, i6_tc4_fl4 h] @ le16_bytes (i6_fl h) @ le16_bytes (i6_payload_length h) @
     [i6_next_header h, i6_hop_limit h] @ i6_source_address h @ i6_destination_address h"

definition ipv6_header_load :: "bytes \<Rightarrow> ipv6_header" where
  "ipv6_header_load m =
     \<lparr>i6_version4_tc4 = m ! 0, i6_tc4_fl4 = m ! 1, i6_fl = le16_of (drop 2 m), i6_payload_length = le16_of (drop 4 m),
      i6_next_header = m ! 6, i6_hop_limit = m ! 7,
      i6_source_address = mem_read m 8 16, i6_destination_address = mem_read m 24 16\<rparr>"

definition IPV6_NEXT_UDP :: byte where "IPV6_NEXT_UDP = 17"

definition ipv6_check :: "bytes \<Rightarrow> (ipv6_header \<times> bytes) option" where
  "ipv6_check data =
     (if length data < 40 then None
      else
        let out_header = ipv6_header_load (take 40 data) in
        if drop_bit 4 (i6_version4_tc4 out_header) \<noteq> 6 then None
        else
          let payload_length = unat (ntoh16 (i6_payload_length out_header)) in
          if payload_length > length data - 40 then None
          else Some (out_header, mem_read data 40 payload_length))"

subsection \<open>UDP\<close>

record udp_header =
  uh_source_port :: u16
  uh_dest_port :: u16
  uh_length :: u16
  uh_checksum :: u16

definition udp_header_image :: "udp_header \<Rightarrow> bytes" where
  "udp_header_image h =
     le16_bytes (uh_source_port h) @ le16_bytes (uh_dest_port h) @ le16_bytes (uh_length h) @ le16_bytes (uh_checksum h)"

definition udp_header_load :: "bytes \<Rightarrow> udp_header" where
  "udp_header_load m =
     \<lparr>uh_source_port = le16_of m, uh_dest_port = le16_of (drop 2 m), uh_length = le16_of (drop 4 m), uh_checksum = le16_of (drop 6 m)\<rparr>"

definition udp_checksum_summer :: "bytes \<Rightarrow> u32" where
  "udp_checksum_summer data = be16_words_sum data 0"

text \<open>The part of the two checksums that sums up the payload: an odd byte is padded with a zero.\<close>

definition udp_payload_sum :: "bytes \<Rightarrow> nat \<Rightarrow> u32 \<Rightarrow> u32" where
  "udp_payload_sum payload payload_len t =
     (if payload_len mod 2 = 0 then t + udp_checksum_summer (take payload_len payload)
      else
        let t = t + udp_checksum_summer (take (payload_len - 1) payload);
            x = hton16 (push_bit 8 (ucast (payload ! (payload_len - 1))))
        in t + udp_checksum_summer (le16_bytes x))"

definition udp_checksum_finish :: "u32 \<Rightarrow> u16" where
  "udp_checksum_finish t =
     (let t = NOT (checksum_fold t);
          t = (if t = 0 then 0xFFFF else t)
      in hton16 (ucast t))"

definition udp_checksum :: "udp_header \<Rightarrow> bytes \<Rightarrow> u16 \<Rightarrow> u32 \<Rightarrow> u32 \<Rightarrow> u16" where
  "udp_checksum header payload payload_len source_addr dest_addr =
     (let t = 0;
          t = t + udp_checksum_summer (le32_bytes source_addr);
          t = t + udp_checksum_summer (le32_bytes dest_addr);
          x = hton16 (ucast IPV4_PROTOCOL_UDP);
          t = t + udp_checksum_summer (le16_bytes x);
          x = hton16 (word_of_nat (8 + unat payload_len));
          t = t + udp_checksum_summer (le16_bytes x);
          t = t + udp_checksum_summer (udp_header_image header)
      in udp_checksum_finish (udp_payload_sum payload (unat payload_len) t))"

definition udp_ip6_checksum :: "udp_header \<Rightarrow> bytes \<Rightarrow> u16 \<Rightarrow> bytes \<Rightarrow> bytes \<Rightarrow> u16" where
  "udp_ip6_checksum header payload payload_len source_addr dest_addr =
     (let t = 0;
          t = t + udp_checksum_summer (take 16 source_addr);
          t = t + udp_checksum_summer (take 16 dest_addr);
          x = hton32 (word_of_nat (8 + unat payload_len));
          t = t + udp_checksum_summer (le32_bytes x);
          x = hton32 (ucast IPV6_NEXT_UDP);
          t = t + udp_checksum_summer (le32_bytes x);
          t = t + udp_checksum_summer (udp_header_image header)
      in udp_checksum_finish (udp_payload_sum payload (unat payload_len) t))"

definition udp_check :: "bytes \<Rightarrow> (udp_header \<times> bytes) option" where
  "udp_check data =
     (if length data < 8 then None
      else
        let out_header = udp_header_load (take 8 data);
            data = drop 8 data;
            udp_length = unat (ntoh16 (uh_length out_header))
        in if udp_length < 8 then None
           else if udp_length > 8 + length data then None
           else Some (out_header, take (udp_length - 8) data))"

subsection \<open>Packets of the device\<close>

record udp_options =
  uo_udpgw :: bool
  uo_dnsgw :: bool
  uo_ip6 :: bool
  uo_udp_mtu :: nat

text \<open>The test for a DNS query on the twelve octets of its header: the response bit and code and the counts of answers and
  authorities are zero.\<close>

definition dns_query :: "bytes \<Rightarrow> bool" where
  "dns_query data \<longleftrightarrow>
     (if length data < 12 then False
      else \<not> bit (data ! 2) 7 \<and> data ! 3 AND 0x0F = 0 \<and> le16_of (drop 6 data) = 0 \<and> le16_of (drop 8 data) = 0)"

text \<open>The packet that is submitted to the UDP relay, or none when the packet is left to the TCP/IP stack.\<close>

definition process_device_udp_packet :: "udp_options \<Rightarrow> bytes \<Rightarrow> (BAddr \<times> BAddr \<times> bool \<times> bytes) option" where
  "process_device_udp_packet options data =
     (if \<not> uo_udpgw options then None
      else
        let ip_version = (if length data > 0 then drop_bit 4 (data ! 0) else 0);
            parsed =
              (if ip_version = 4 then
                 if length data < 20 \<or> data ! 9 \<noteq> IPV4_PROTOCOL_UDP then None
                 else case ipv4_check data of None \<Rightarrow> None
                 | Some (iph, data) \<Rightarrow> (case udp_check data of None \<Rightarrow> None
                   | Some (udph, data) \<Rightarrow>
                       let checksum_in_packet = uh_checksum udph;
                           checksum_computed = udp_checksum (udph\<lparr>uh_checksum := 0\<rparr>) data (word_of_nat (length data))
                             (ih_source_address iph) (ih_destination_address iph)
                       in if checksum_in_packet \<noteq> checksum_computed then None
                          else Some (BAddr_MakeIPv4 (ih_source_address iph) (uh_source_port udph),
                                     BAddr_MakeIPv4 (ih_destination_address iph) (uh_dest_port udph),
                                     uo_dnsgw options \<and> uh_dest_port udph = hton16 53 \<and> dns_query data, data))
               else if ip_version = 6 then
                 if \<not> uo_ip6 options then None
                 else if length data < 40 \<or> data ! 6 \<noteq> IPV6_NEXT_UDP then None
                 else case ipv6_check data of None \<Rightarrow> None
                 | Some (iph, data) \<Rightarrow> (case udp_check data of None \<Rightarrow> None
                   | Some (udph, data) \<Rightarrow>
                       let checksum_in_packet = uh_checksum udph;
                           checksum_computed = udp_ip6_checksum (udph\<lparr>uh_checksum := 0\<rparr>) data (word_of_nat (length data))
                             (i6_source_address iph) (i6_destination_address iph)
                       in if checksum_in_packet \<noteq> checksum_computed then None
                          else Some (BAddr_MakeIPv6 (i6_source_address iph) (uh_source_port udph),
                                     BAddr_MakeIPv6 (i6_destination_address iph) (uh_dest_port udph), False, data))
               else None)
        in case parsed of None \<Rightarrow> None
           | Some (local_addr, remote_addr, is_dns, data) \<Rightarrow>
               if length data > uo_udp_mtu options then None else Some (local_addr, remote_addr, is_dns, data))"

text \<open>What happens to an answer: it is dropped, written past the end of \<open>device_write_buf\<close> or against an
  assertion, or sent to the device.\<close>

datatype device_out = DevDrop | DevFault | DevSend bytes

definition device_write :: "bytes \<Rightarrow> bytes \<Rightarrow> bytes \<Rightarrow> bytes \<Rightarrow> device_out" where
  "device_write device_write_buf iph udph data =
     (let packet_length = length iph + length udph + length data in
      if packet_length > length device_write_buf then DevFault
      else
        let buf = mem_write device_write_buf 0 iph;
            buf = mem_write buf (length iph) udph;
            buf = mem_write buf (length iph + length udph) data
        in DevSend (mem_read buf 0 packet_length))"

definition udpgw_client_handler_received :: "udp_options \<Rightarrow> bytes \<Rightarrow> BAddr \<Rightarrow> BAddr \<Rightarrow> bytes \<Rightarrow> device_out" where
  "udpgw_client_handler_received options device_write_buf local_addr remote_addr data =
     (let data_len = length data; mtu = length device_write_buf in
      if \<not> uo_udpgw options then DevFault
      else case (local_addr, remote_addr) of
        (BAddrIPv4 lip lport, BAddrIPv4 rip rport) \<Rightarrow>
          if data_len > 65535 - 28 \<or> int data_len > int mtu - 28 then DevDrop
          else
            let iph = \<lparr>ih_version4_ihl4 = IPV4_MAKE_VERSION_IHL 20, ih_ds = 0, ih_total_length = hton16 (word_of_nat (20 + 8 + data_len)),
                       ih_identification = hton16 0, ih_flags3_fragmentoffset13 = hton16 0, ih_ttl = 64,
                       ih_protocol = IPV4_PROTOCOL_UDP, ih_checksum = hton16 0, ih_source_address = rip, ih_destination_address = lip\<rparr>;
                iph = iph\<lparr>ih_checksum := ipv4_checksum iph []\<rparr>;
                udph = \<lparr>uh_source_port = rport, uh_dest_port = lport, uh_length = hton16 (word_of_nat (8 + data_len)), uh_checksum = hton16 0\<rparr>;
                udph = udph\<lparr>uh_checksum := udp_checksum udph data (word_of_nat data_len) (ih_source_address iph) (ih_destination_address iph)\<rparr>
            in device_write device_write_buf (ipv4_header_image iph) (udp_header_image udph) data
      | (BAddrIPv6 lip lport, BAddrIPv6 rip rport) \<Rightarrow>
          if \<not> uo_ip6 options then DevDrop
          else if data_len > 65535 - 8 \<or> int data_len > int mtu - 48 then DevDrop
          else
            let iph = \<lparr>i6_version4_tc4 = 96, i6_tc4_fl4 = 0, i6_fl = hton16 0, i6_payload_length = hton16 (word_of_nat (8 + data_len)),
                       i6_next_header = IPV6_NEXT_UDP, i6_hop_limit = 64,
                       i6_source_address = take 16 rip, i6_destination_address = take 16 lip\<rparr>;
                udph = \<lparr>uh_source_port = rport, uh_dest_port = lport, uh_length = hton16 (word_of_nat (8 + data_len)), uh_checksum = hton16 0\<rparr>;
                udph = udph\<lparr>uh_checksum := udp_ip6_checksum udph data (word_of_nat data_len) (i6_source_address iph) (i6_destination_address iph)\<rparr>
            in device_write device_write_buf (ipv6_header_image iph) (udp_header_image udph) data
      | _ \<Rightarrow> DevFault)"

subsection \<open>The checksum of RFC 1071\<close>

text \<open>Addition in one's complement arithmetic of 16 bits: a carry is added back at the other end.\<close>

definition ones_add :: "nat \<Rightarrow> nat \<Rightarrow> nat" where
  "ones_add a b = (if a + b > 65535 then a + b - 65535 else a + b)"

fun ones_sum :: "nat \<Rightarrow> bytes \<Rightarrow> nat" where
  "ones_sum s (a # b # m) = ones_sum (ones_add s (256 * unat a + unat b)) m"
| "ones_sum s _ = s"

fun be16_total :: "bytes \<Rightarrow> nat" where
  "be16_total (a # b # m) = 256 * unat a + unat b + be16_total m"
| "be16_total _ = 0"

definition csum16 :: "nat \<Rightarrow> nat" where
  "csum16 n = (if n = 0 then 0 else (n - 1) mod 65535 + 1)"

lemma unat_byte: "unat (b :: byte) < 256" using unsigned_less [of b] by simp

lemma csum16_le: "csum16 n \<le> 65535"
proof -
  have "(n - 1) mod 65535 < 65535" by (rule mod_less_divisor) simp
  then show ?thesis unfolding csum16_def by (auto simp del: mod_less_divisor)
qed

lemma csum16_small: "n \<le> 65535 \<Longrightarrow> csum16 n = n"
  by (auto simp: csum16_def)

lemma csum16_zero [simp]: "csum16 n = 0 \<longleftrightarrow> n = 0"
  by (simp add: csum16_def)

lemma csum16_Suc: "csum16 (Suc m) = m mod 65535 + 1"
  by (simp add: csum16_def)

lemma csum16_plus: "0 < n \<Longrightarrow> csum16 (n + 65535 * k) = csum16 n"
  by (cases n) (simp_all add: csum16_Suc)

lemma csum16_split:
  assumes "0 < n" obtains k where "n = csum16 n + 65535 * k"
proof -
  obtain m where m: "n = Suc m" using assms by (cases n) auto
  have "m = m mod 65535 + 65535 * (m div 65535)" by simp
  then show ?thesis using that [of "m div 65535"] unfolding m csum16_Suc by linarith
qed

lemma ones_add_csum: "w \<le> 65535 \<Longrightarrow> ones_add (csum16 n) w = csum16 (n + w)"
proof (cases "n = 0")
  case False
  assume w: "w \<le> 65535"
  define r where "r = csum16 n"
  have r: "0 < r" "r \<le> 65535" using False csum16_le csum16_zero [of n] unfolding r_def by (blast intro: gr0I)+
  obtain k where k: "n = r + 65535 * k" using csum16_split [of n] False by (auto simp: r_def)
  have e: "n + w = (r + w) + 65535 * k" using k by simp
  have "csum16 (n + w) = csum16 (r + w)" unfolding e by (rule csum16_plus) (use r in simp)
  also have "\<dots> = ones_add r w"
  proof (cases "r + w \<le> 65535")
    case False
    then have "r + w = (r + w - 65535) + 65535 * 1" "0 < r + w - 65535" "r + w - 65535 \<le> 65535" using r w by linarith+
    then show ?thesis using False csum16_plus [of "r + w - 65535" 1] by (simp add: csum16_small ones_add_def)
  qed (simp add: csum16_small ones_add_def)
  finally show ?thesis by (simp add: r_def)
qed (simp add: csum16_small ones_add_def)

lemma ones_sum_csum: "ones_sum (csum16 n) m = csum16 (n + be16_total m)"
proof (induction m arbitrary: n rule: be16_total.induct)
  case (1 a b m)
  have "256 * unat a + unat b \<le> 65535" using unat_byte [of a] unat_byte [of b] by linarith
  then show ?case using 1 by (simp add: ones_add_csum add.assoc)
qed auto

lemma ones_sum_total: "ones_sum 0 m = csum16 (be16_total m)"
  using ones_sum_csum [of 0 m] by (simp add: csum16_small)

lemma be16_total_append: "even (length x) \<Longrightarrow> be16_total (x @ y) = be16_total x + be16_total y"
  by (induction x rule: be16_total.induct) auto

lemma be16_total_bound: "be16_total m \<le> 65535 * (length m div 2)"
proof (induction m rule: be16_total.induct)
  case (1 a b m)
  have "256 * unat a + unat b \<le> 65535" using unat_byte [of a] unat_byte [of b] by linarith
  then show ?case using 1 by simp
qed auto

subsection \<open>The loops of the code\<close>

lemma unat_ucast_byte_u16 [simp]: "unat (ucast (x :: byte) :: u16) = unat x"
  using unat_byte [of x] by (simp add: unsigned_ucast_eq take_bit_nat_eq_self)

lemma unat_read_be16: "unat (badvpn_read_be16 (a # b # m)) = 256 * unat a + unat b"
proof -
  have "badvpn_read_be16 (a # b # m) = push_bit 8 (ucast a) + ucast b"
    unfolding badvpn_read_be16.simps
    by (rule disjunctive_add_eq_or [symmetric]) (auto simp: bit_eq_iff bit_simps dest: bit_imp_le_length)
  also have "\<dots> = 256 * ucast a + ucast b" by (simp add: push_bit_eq_mult)
  finally have "badvpn_read_be16 (a # b # m) = word_of_nat (256 * unat a + unat b)"
    by (simp add: of_nat_unat)
  moreover have "256 * unat a + unat b < 65536" using unat_byte [of a] unat_byte [of b] by linarith
  ultimately show ?thesis by (simp only: unat_word_of_nat_mod) simp
qed

lemma be16_words_sum_total: "be16_words_sum m t = t + word_of_nat (be16_total m)"
proof (induction m t rule: be16_words_sum.induct)
  case (1 a b m t)
  have "ucast (badvpn_read_be16 [a, b]) = (word_of_nat (unat (badvpn_read_be16 [a, b])) :: u32)" by (rule of_nat_unat [symmetric])
  then show ?case using 1 by (simp add: unat_read_be16 add.assoc del: badvpn_read_be16.simps)
qed auto

lemma unat_checksum_fold: "unat (checksum_fold t) = csum16 (unat t)"
proof (induction t rule: checksum_fold.induct)
  case (1 t)
  show ?case
  proof (cases "unat t < 65536")
    case True
    then show ?thesis by (subst checksum_fold.simps) (simp add: drop_bit_16_zero csum16_small)
  next
    case False
    let ?d = "unat t div 65536"
    have "unat t = (unat t mod 65536 + ?d) + 65535 * ?d" using mod_mult_div_eq [of "unat t" 65536] by linarith
    moreover have "0 < unat t mod 65536 + ?d" using False by (simp add: div_greater_zero_iff)
    ultimately have "csum16 (unat t) = csum16 (unat (checksum_round t))"
      unfolding unat_checksum_round by (metis csum16_plus)
    then show ?thesis using 1 False by (subst checksum_fold.simps) (simp add: drop_bit_16_zero)
  qed
qed

lemma checksum_fold_rounds: "checksum_fold t = checksum_round (checksum_round t)"
proof -
  have small: "checksum_round x = x" if "unat x < 65536" for x :: u32
    using that by (simp add: word_unat_eq_iff unat_checksum_round)
  have t: "unat t < 65536 * 65536" using unsigned_less [of t] by simp
  have r1: "unat (checksum_round t) < 131071" 
    using less_mult_imp_div_less [OF t] mod_less_divisor [of 65536 "unat t"] unfolding unat_checksum_round by linarith
  have r2: "unat (checksum_round (checksum_round t)) < 65536"
  proof (cases "unat (checksum_round t) < 65536")
    case False
    define n where "n = unat (checksum_round t)"
    have "n div 65536 = 1" "n mod 65536 = n - 65536" using False r1 by (simp_all add: n_def div_nat_eqI le_mod_geq)
    then show ?thesis using r1 unat_checksum_round [of "checksum_round t"] unfolding n_def [symmetric] by linarith
  qed (simp add: small)
  have f: "checksum_fold x = (if unat x < 65536 then x else checksum_fold (checksum_round x))" for x
    by (subst checksum_fold.simps) (simp add: drop_bit_16_zero)
  show ?thesis using f [of t] f [of "checksum_round t"] f [of "checksum_round (checksum_round t)"] r2 small by auto
qed

lemma hton16_image: "le16_bytes (hton16 x) = rev (le16_bytes x)"
  by (auto simp: hton16_def badvpn_reverse16_def le16_bytes_def bit_eq_iff bit_simps dest: bit_imp_le_length)

lemma hton16_inverse [simp]: "hton16 (hton16 x) = x" "ntoh16 (hton16 x) = x" "hton16 (ntoh16 x) = x"
proof -
  have "hton16 x = le16_of (rev (le16_bytes x) @ [])" for x by (simp add: hton16_def badvpn_reverse16_def)
  then show "hton16 (hton16 x) = x" using hton16_image [of x] le16_of_bytes [of x "[]"] by simp
  then show "ntoh16 (hton16 x) = x" "hton16 (ntoh16 x) = x" by (simp_all add: ntoh16_def)
qed

lemma be16_total_le16: "be16_total (le16_bytes x) = unat (ntoh16 x)"
proof -
  obtain a b where ab: "le16_bytes (hton16 x) = [a, b]" by (simp add: le16_bytes_def)
  then have r: "le16_bytes x = [b, a]" using hton16_image [of x] by simp
  have "hton16 x = badvpn_read_be16 [b, a]" using ab le16_of_bytes [of "hton16 x" "[]"] by (simp add: or.commute)
  then show ?thesis using unat_read_be16 [of b a "[]"] r by (simp add: ntoh16_def)
qed

lemma le16_image: "2 \<le> length m \<Longrightarrow> le16_bytes (le16_of m) = take 2 m"
  by (cases m rule: le16_of.cases) (simp_all, auto simp: le16_bytes_def bit_eq_iff bit_simps dest: bit_imp_le_length)

lemma le32_image: "4 \<le> length m \<Longrightarrow> le32_bytes (le32_of m) = take 4 m"
  by (cases m rule: le32_of.cases) (simp_all, auto simp: le32_bytes_def bit_eq_iff bit_simps dest: bit_imp_le_length)

lemma length_images [simp]:
  "length (ipv4_header_image h) = 20" "length (udp_header_image u) = 8"
  "length (ipv6_header_image g) = 8 + length (i6_source_address g) + length (i6_destination_address g)"
  by (simp_all add: ipv4_header_image_def udp_header_image_def ipv6_header_image_def)

lemma hton16_0 [simp]: "hton16 0 = 0" "ntoh16 0 = 0" by code_simp+

lemma le_of_bytes_self [simp]: "le16_of (le16_bytes x) = x" "le32_of (le32_bytes y) = y"
  using le16_of_bytes [of x "[]"] le32_of_bytes [of y "[]"] by simp_all

lemma load_image [simp]:
  "ipv4_header_load (ipv4_header_image h) = h" "udp_header_load (udp_header_image u) = u"
  by (simp_all add: ipv4_header_load_def ipv4_header_image_def udp_header_load_def udp_header_image_def
      drop_Cons' nth_append nth_Cons')

lemma load_image6 [simp]:
  "length (i6_source_address g) = 16 \<Longrightarrow> length (i6_destination_address g) = 16 \<Longrightarrow> ipv6_header_load (ipv6_header_image g) = g"
  by (simp add: ipv6_header_load_def ipv6_header_image_def drop_Cons' nth_append nth_Cons' mem_read_def)

lemma image_load: "length m = 20 \<Longrightarrow> ipv4_header_image (ipv4_header_load m) = m"
proof -
  assume "length m = 20"
  then obtain a0 a1 a2 a3 a4 a5 a6 a7 a8 a9 b0 b1 b2 b3 b4 b5 b6 b7 b8 b9
    where m: "m = [a0, a1, a2, a3, a4, a5, a6, a7, a8, a9, b0, b1, b2, b3, b4, b5, b6, b7, b8, b9]"
    by (auto simp: numeral_eq_Suc length_Suc_conv)
  show ?thesis unfolding m ipv4_header_image_def ipv4_header_load_def by (simp add: le16_image le32_image del: le16_of.simps le32_of.simps)
qed

lemma unat_not: "unat (NOT x) = 2 ^ LENGTH('a) - 1 - unat x" for x :: "'a :: len word"
proof -
  have "uint (NOT x) = 2 ^ LENGTH('a) - 1 - uint x"
    by (simp add: unsigned_not_eq take_bit_not_eq_mask_diff mask_eq_exp_minus_1 unsigned_take_bit_eq [symmetric])
  then have "int (unat (NOT x) + unat x + 1) = int (2 ^ LENGTH('a))" by simp
  then have "unat (NOT x) + unat x + 1 = 2 ^ LENGTH('a)" by (simp only: of_nat_eq_iff)
  then show ?thesis by linarith
qed

lemma checksum_value: "n < 2 ^ 32 \<Longrightarrow> unat (ucast (NOT (checksum_fold (word_of_nat n))) :: u16) = 65535 - csum16 n"
proof -
  assume "n < 2 ^ 32"
  then have u: "unat (checksum_fold (word_of_nat n)) = csum16 n" by (simp add: unat_checksum_fold unat_word_of_nat_mod)
  let ?x = "checksum_fold (word_of_nat n)"
  have "ucast (NOT ?x) = (NOT (ucast ?x) :: u16)" by (auto simp: bit_eq_iff bit_simps)
  moreover have "unat (ucast ?x :: u16) = csum16 n"
    using u csum16_le [of n] by (simp add: unsigned_ucast_eq take_bit_nat_eq_self)
  ultimately show ?thesis by (simp add: unat_not)
qed

lemma ipv4_checksum_value:
  assumes "length extra \<le> 40"
  shows "unat (ntoh16 (ipv4_checksum h extra)) = 65535 - csum16 (be16_total (ipv4_header_image h @ extra))"
proof -
  have "be16_total (ipv4_header_image h @ extra) \<le> 65535 * ((20 + length extra) div 2)"
    using be16_total_bound [of "ipv4_header_image h @ extra"] by simp
  also have "\<dots> \<le> 65535 * 30" by (rule mult_le_mono2) (use assms in simp)
  finally have "be16_total (ipv4_header_image h @ extra) < 2 ^ 32" by simp
  from checksum_value [OF this] show ?thesis
    by (simp add: ipv4_checksum_def be16_words_sum_total be16_total_append Let_def)
qed

lemma ipv4_image_total:
  "be16_total (ipv4_header_image h) = be16_total (ipv4_header_image (h\<lparr>ih_checksum := 0\<rparr>)) + unat (ntoh16 (ih_checksum h))"
  by (simp add: ipv4_header_image_def be16_total_append be16_total_le16)

text \<open>The code's comparison of checksums is the receiver's test of RFC 1071, except that it refuses the
  second representation of zero.\<close>

lemma checksum_test:
  assumes "0 < n" "c \<le> 65535"
  shows "c = 65535 - csum16 n \<longleftrightarrow> csum16 (n + c) = 65535 \<and> c \<noteq> 65535"
proof -
  have "0 < csum16 n" "csum16 n \<le> 65535" using assms csum16_le csum16_zero [of n] by (blast intro: gr0I)+
  then show ?thesis using assms(2) unfolding ones_add_csum [OF assms(2), symmetric] ones_add_def by auto
qed

definition udp_pad :: "bytes \<Rightarrow> bytes" where
  "udp_pad p = (if even (length p) then p else p @ [0])"

lemma payload_sum: "udp_payload_sum p (length p) t = t + word_of_nat (be16_total (udp_pad p))"
proof (cases "even (length p)")
  case True
  then show ?thesis by (simp add: udp_payload_sum_def udp_checksum_summer_def be16_words_sum_total udp_pad_def even_iff_mod_2_eq_zero)
next
  case False
  then obtain q x where p: "p = q @ [x]" by (metis append_butlast_last_id even_zero list.size(3))
  then have q: "even (length q)" using False by simp
  have "hton16 (push_bit 8 (ucast x)) = le16_of [x, 0]"
    by (auto simp: hton16_def badvpn_reverse16_def le16_bytes_def bit_eq_iff bit_simps dest: bit_imp_le_length)
  then have "le16_bytes (hton16 (push_bit 8 (ucast x))) = [x, 0]" by (simp add: le16_image del: le16_of.simps)
  moreover have "Suc (length q) mod 2 = Suc 0" using q by presburger
  ultimately show ?thesis using q
    by (simp add: udp_payload_sum_def udp_checksum_summer_def be16_words_sum_total udp_pad_def p be16_total_append Let_def add.assoc)
qed

text \<open>The pseudo headers of RFC 768 and RFC 8200.\<close>

definition be16_bytes :: "nat \<Rightarrow> bytes" where
  "be16_bytes n = [word_of_nat (n div 256), word_of_nat n]"

definition udp_pseudo_header :: "u32 \<Rightarrow> u32 \<Rightarrow> nat \<Rightarrow> bytes" where
  "udp_pseudo_header src dst len = le32_bytes src @ le32_bytes dst @ [0, 17] @ be16_bytes len"

definition udp_pseudo_header6 :: "bytes \<Rightarrow> bytes \<Rightarrow> nat \<Rightarrow> bytes" where
  "udp_pseudo_header6 src dst len = src @ dst @ [0, 0] @ be16_bytes len @ [0, 0, 0, 17]"

lemma unat_ucast_mod: "unat (ucast (w :: 'a :: len word) :: byte) = unat w mod 256"
  by (simp add: unsigned_ucast_eq take_bit_eq_mod)

lemma hton32_image: "le32_bytes (hton32 x) = rev (le32_bytes x)"
  unfolding hton32_def badvpn_reverse32_def by (simp add: le32_image del: le32_of.simps)

lemma le_hton_image:
  "n < 65536 \<Longrightarrow> le16_bytes (hton16 (word_of_nat n)) = be16_bytes n"
  "n < 65536 \<Longrightarrow> le32_bytes (hton32 (word_of_nat n)) = [0, 0] @ be16_bytes n"
  unfolding hton16_image hton32_image
  by (simp_all add: le16_bytes_def le32_bytes_def be16_bytes_def word_unat_eq_iff unat_ucast_mod
      unat_drop_bit_div unat_word_of_nat_mod)

lemma finish_value:
  assumes "n < 2 ^ 32" "0 < n"
  shows "unat (ntoh16 (udp_checksum_finish (word_of_nat n))) = 65535 - csum16 n"
proof -
  have u: "unat (checksum_fold (word_of_nat n)) = csum16 n" using assms by (simp add: unat_checksum_fold unat_word_of_nat_mod)
  have "NOT (checksum_fold (word_of_nat n)) \<noteq> 0"
  proof
    assume "NOT (checksum_fold (word_of_nat n)) = 0"
    then have "unat (NOT (checksum_fold (word_of_nat n))) = 0" by simp
    then show False using u csum16_le [of n] by (simp add: unat_not)
  qed
  then show ?thesis using checksum_value [OF assms(1)] by (simp add: udp_checksum_finish_def Let_def)
qed

lemma udp_checksum_value:
  assumes "length p \<le> 65527"
  shows "unat (ntoh16 (udp_checksum h p (word_of_nat (length p)) src dst)) =
    65535 - csum16 (be16_total (udp_pseudo_header src dst (8 + length p) @ udp_header_image h @ udp_pad p))"
    (is "_ = 65535 - csum16 (be16_total ?m)")
proof -
  have half: "length p div 2 \<le> 32763" using div_le_mono [OF assms, of 2] by simp
  have "be16_total ?m \<le> 65535 * (length ?m div 2)" by (rule be16_total_bound)
  also have "\<dots> \<le> 65535 * 32800"
    by (rule mult_le_mono2) (use assms half in \<open>simp add: udp_pseudo_header_def be16_bytes_def udp_pad_def\<close>)
  finally have b: "be16_total ?m < 2 ^ 32" by simp
  have e: "be16_total ?m = be16_total (le32_bytes src) + be16_total (le32_bytes dst) + 17 +
      be16_total (be16_bytes (8 + length p)) + be16_total (udp_header_image h) + be16_total (udp_pad p)"
    by (simp add: udp_pseudo_header_def be16_total_append be16_bytes_def)
  have x: "le16_bytes (hton16 (ucast IPV4_PROTOCOL_UDP)) = [0, 17]" by code_simp
  have l: "unat (word_of_nat (length p) :: u16) = length p" using assms by (simp add: unat_word_of_nat_mod)
  have "udp_checksum h p (word_of_nat (length p)) src dst = udp_checksum_finish (word_of_nat (be16_total ?m))"
    using assms le_hton_image(1) [of "8 + length p"] unfolding e
    by (simp add: udp_checksum_def Let_def l payload_sum x udp_checksum_summer_def be16_words_sum_total add.assoc
        del: le16_of.simps)
  then show ?thesis using finish_value [OF b] e by simp
qed

lemma udp6_checksum_value:
  assumes "length p \<le> 65527" "length src = 16" "length dst = 16"
  shows "unat (ntoh16 (udp_ip6_checksum h p (word_of_nat (length p)) src dst)) =
    65535 - csum16 (be16_total (udp_pseudo_header6 src dst (8 + length p) @ udp_header_image h @ udp_pad p))"
    (is "_ = 65535 - csum16 (be16_total ?m)")
proof -
  have half: "length p div 2 \<le> 32763" using div_le_mono [OF assms(1), of 2] by simp
  have "be16_total ?m \<le> 65535 * (length ?m div 2)" by (rule be16_total_bound)
  also have "\<dots> \<le> 65535 * 32800"
    by (rule mult_le_mono2) (use assms half in \<open>simp add: udp_pseudo_header6_def be16_bytes_def udp_pad_def\<close>)
  finally have b: "be16_total ?m < 2 ^ 32" by simp
  have e: "be16_total ?m = be16_total src + be16_total dst + be16_total ([0, 0] @ be16_bytes (8 + length p)) + 17 +
      be16_total (udp_header_image h) + be16_total (udp_pad p)"
    using assms(2,3) by (simp add: udp_pseudo_header6_def be16_total_append be16_bytes_def)
  have x: "le32_bytes (hton32 (ucast IPV6_NEXT_UDP)) = [0, 0, 0, 17]" by code_simp
  have l: "unat (word_of_nat (length p) :: u16) = length p" using assms by (simp add: unat_word_of_nat_mod)
  have "udp_ip6_checksum h p (word_of_nat (length p)) src dst = udp_checksum_finish (word_of_nat (be16_total ?m))"
    using assms le_hton_image(2) [of "8 + length p"] unfolding e
    by (simp add: udp_ip6_checksum_def Let_def l payload_sum x udp_checksum_summer_def be16_words_sum_total add.assoc
        del: le32_of.simps)
  then show ?thesis using finish_value [OF b] e by simp
qed

subsection \<open>Checking and building packets\<close>

lemma version_ihl:
  "IPV4_GET_VERSION (ipv4_header_load m) = 4 \<longleftrightarrow> unat (m ! 0) div 16 = 4" "unat (IPV4_GET_IHL (ipv4_header_load m)) = unat (m ! 0) mod 16"
proof -
  have a: "drop_bit 4 (x AND 0xF0) = drop_bit 4 x" for x :: byte
  proof -
    have e: "(0xF0 :: byte) = push_bit 4 (mask 4)" by code_simp
    show ?thesis unfolding e by (auto simp: bit_eq_iff bit_simps dest: bit_imp_le_length)
  qed
  have m: "(0x0F :: byte) = mask 4" by code_simp
  show "IPV4_GET_VERSION (ipv4_header_load m) = 4 \<longleftrightarrow> unat (m ! 0) div 16 = 4"
    unfolding IPV4_GET_VERSION_def a by (simp add: ipv4_header_load_def word_unat_eq_iff unat_drop_bit_div)
  show "unat (IPV4_GET_IHL (ipv4_header_load m)) = unat (m ! 0) mod 16"
    unfolding IPV4_GET_IHL_def ipv4_header_load_def m unat_and_mask_mod by simp
qed

lemma ntoh16_le16_of: "2 \<le> length m \<Longrightarrow> unat (ntoh16 (le16_of m)) = 256 * unat (m ! 0) + unat (m ! 1)"
proof -
  assume "2 \<le> length m"
  then have "le16_bytes (le16_of m) = [m ! 0, m ! 1]" by (cases m rule: le16_of.cases) (simp_all add: le16_image del: le16_of.simps)
  then show ?thesis using be16_total_le16 [of "le16_of m"] by simp
qed

lemma unat_ntoh_ones: "unat (ntoh16 c) = 65535 \<longleftrightarrow> c = 0xFFFF"
proof -
  have f: "ntoh16 0xFFFF = 0xFFFF" by code_simp
  have "unat (ntoh16 c) = 65535 \<longleftrightarrow> ntoh16 c = 0xFFFF" by (simp add: word_unat_eq_iff)
  also have "\<dots> \<longleftrightarrow> c = 0xFFFF" using f by (metis hton16_inverse(3))
  finally show ?thesis .
qed

lemma unat_u16: "unat (c :: u16) \<le> 65535"
proof -
  have "unat c < 2 ^ LENGTH(16)" by (rule unsigned_less)
  then show ?thesis by simp
qed

lemma hton_eq_iff: "x = hton16 y \<longleftrightarrow> unat (ntoh16 x) = unat y"
  by (metis hton16_inverse(2,3) word_unat_eq_iff)

lemma checksum_accepted:
  assumes l: "20 \<le> hl" "hl \<le> length data" "hl \<le> 60" and v: "unat (data ! 0) div 16 = 4"
  defines "h \<equiv> ipv4_header_load (take 20 data)"
  shows "ih_checksum h = ipv4_checksum (h\<lparr>ih_checksum := hton16 0\<rparr>) (mem_read data 20 (hl - 20)) \<longleftrightarrow>
    ones_sum 0 (take hl data) = 65535 \<and> ih_checksum h \<noteq> 0xFFFF"
proof -
  let ?h = "h\<lparr>ih_checksum := 0\<rparr>" and ?x = "mem_read data 20 (hl - 20)" and ?c = "unat (ntoh16 (ih_checksum h))"
  let ?n = "be16_total (ipv4_header_image ?h @ ?x)"
  have i: "ipv4_header_image h = take 20 data" using l unfolding h_def by (intro image_load) simp
  have "take hl data = ipv4_header_image h @ ?x" unfolding i mem_read_def using l by (metis add_diff_inverse_nat not_less take_add)
  then have t: "be16_total (take hl data) = ?n + ?c" by (simp add: be16_total_append ipv4_image_total [of h])
  have "0 < ?n"
  proof -
    have "unat (ih_version4_ihl4 h) \<noteq> 0" using v l by (auto simp: h_def ipv4_header_load_def)
    then show ?thesis by (simp add: ipv4_header_image_def)
  qed
  have "ih_checksum h = ipv4_checksum ?h ?x \<longleftrightarrow> ?c = unat (ntoh16 (ipv4_checksum ?h ?x))"
    by (metis hton16_inverse(3) word_unat_eq_iff)
  also have "\<dots> \<longleftrightarrow> ?c = 65535 - csum16 ?n" using l by (subst ipv4_checksum_value) (simp_all add: mem_read_def)
  also have "\<dots> \<longleftrightarrow> csum16 (?n + ?c) = 65535 \<and> ?c \<noteq> 65535" by (rule checksum_test) (use \<open>0 < ?n\<close> unat_u16 in auto)
  finally show ?thesis unfolding ones_sum_total t unat_ntoh_ones by simp
qed

lemma ipv4_check_iff:
  "ipv4_check data = Some (h, p) \<longleftrightarrow>
     (let hl = 4 * (unat (data ! 0) mod 16); tl = 256 * unat (data ! 2) + unat (data ! 3) in
      20 \<le> length data \<and> unat (data ! 0) div 16 = 4 \<and> 20 \<le> hl \<and> hl \<le> tl \<and> tl \<le> length data \<and>
      ones_sum 0 (take hl data) = 65535 \<and> ih_checksum h \<noteq> 0xFFFF \<and>
      h = ipv4_header_load (take 20 data) \<and> p = take (tl - hl) (drop hl data))"
proof (cases "20 \<le> length data")
  case True
  define g where "g = ipv4_header_load (take 20 data)"
  define hl where "hl = 4 * (unat (data ! 0) mod 16)"
  define tl where "tl = 256 * unat (data ! 2) + unat (data ! 3)"
  have b: "hl \<le> 60" unfolding hl_def using mod_less_divisor [of 16 "unat (data ! 0)"] by linarith
  have v: "IPV4_GET_VERSION g = 4 \<longleftrightarrow> unat (data ! 0) div 16 = 4" "unat (IPV4_GET_IHL g) * 4 = hl"
    using True by (simp_all add: g_def version_ihl hl_def)
  have t: "unat (ntoh16 (ih_total_length g)) = tl" using True by (simp add: g_def ipv4_header_load_def ntoh16_le16_of tl_def)
  have "ipv4_check data =
    (if unat (data ! 0) div 16 \<noteq> 4 then None else if hl < 20 then None else if hl > length data then None
     else if tl < hl then None else if tl > length data then None
     else if ih_checksum g \<noteq> ipv4_checksum (g\<lparr>ih_checksum := hton16 0\<rparr>) (mem_read data 20 (hl - 20)) then None
     else Some (g, mem_read data hl (tl - hl)))"
    unfolding ipv4_check_def Let_def g_def [symmetric] v t using True by simp
  then show ?thesis
    using True b checksum_accepted [of hl data] unfolding g_def [symmetric] Let_def hl_def [symmetric] tl_def [symmetric]
    by (auto simp: mem_read_def)
qed (simp add: ipv4_check_def Let_def)

lemma udp_check_built:
  "length p \<le> 65527 \<Longrightarrow> uh_length u = hton16 (word_of_nat (8 + length p)) \<Longrightarrow> udp_check (udp_header_image u @ p) = Some (u, p)"
  by (simp add: udp_check_def unat_word_of_nat_mod Let_def del: of_nat_add)

lemma device_write_value: "length i + length u + length p \<le> length buf \<Longrightarrow> device_write buf i u p = DevSend (i @ u @ p)"
  by (simp add: device_write_def Let_def mem_write_def mem_read_def)

lemma ipv4_check_built:
  assumes c: "ih_checksum h = ipv4_checksum (h\<lparr>ih_checksum := 0\<rparr>) []" and v: "ih_version4_ihl4 h = IPV4_MAKE_VERSION_IHL 20"
    and l: "ih_total_length h = hton16 (word_of_nat (20 + length p))" "20 + length p \<le> 65535"
  shows "ipv4_check (ipv4_header_image h @ p) = Some (h, p)"
proof -
  have m: "IPV4_MAKE_VERSION_IHL 20 = 69" by code_simp
  have "IPV4_GET_VERSION h = 4" "unat (IPV4_GET_IHL h) * 4 = 20" unfolding IPV4_GET_VERSION_def IPV4_GET_IHL_def v m by code_simp+
  then show ?thesis using c l by (simp add: ipv4_check_def Let_def unat_word_of_nat_mod mem_read_def del: of_nat_add)
qed

lemma ipv6_check_built:
  assumes a: "length (i6_source_address h) = 16" "length (i6_destination_address h) = 16" and v: "i6_version4_tc4 h = 96"
    and l: "i6_payload_length h = hton16 (word_of_nat (length p))" "length p \<le> 65535"
  shows "ipv6_check (ipv6_header_image h @ p) = Some (h, p)"
proof -
  have m: "drop_bit 4 (96 :: byte) = 6" by code_simp
  show ?thesis using a l m v by (simp add: ipv6_check_def Let_def unat_word_of_nat_mod mem_read_def del: of_nat_add)
qed

definition same_family :: "udp_options \<Rightarrow> BAddr \<Rightarrow> BAddr \<Rightarrow> bool" where
  "same_family options a b \<longleftrightarrow>
     (case (a, b) of
        (BAddrIPv4 _ _, BAddrIPv4 _ _) \<Rightarrow> True
      | (BAddrIPv6 ip _, BAddrIPv6 ip' _) \<Rightarrow> length ip = 16 \<and> length ip' = 16 \<and> uo_ip6 options
      | _ \<Rightarrow> False)"

definition udp_overhead :: "BAddr \<Rightarrow> nat" where
  "udp_overhead a = (case a of BAddrIPv4 _ _ \<Rightarrow> 28 | _ \<Rightarrow> 48)"

text \<open>Only IPv4 counts its header in the length field.\<close>

definition udp_fits :: "BAddr \<Rightarrow> nat \<Rightarrow> nat \<Rightarrow> bool" where
  "udp_fits a mtu n \<longleftrightarrow> udp_overhead a + n \<le> mtu \<and> (case a of BAddrIPv4 _ _ \<Rightarrow> 28 + n \<le> 65535 | _ \<Rightarrow> 8 + n \<le> 65535)"

lemma roundtrip4:
  assumes u: "uo_udpgw options" and f: "28 + length data \<le> length buf" "28 + length data \<le> 65535" and m: "length data \<le> uo_udp_mtu options"
  shows "\<exists>pkt dns. udpgw_client_handler_received options buf (BAddrIPv4 lip lport) (BAddrIPv4 rip rport) data = DevSend pkt \<and>
    length pkt = 28 + length data \<and>
    process_device_udp_packet options pkt = Some (BAddrIPv4 rip rport, BAddrIPv4 lip lport, dns, data)"
proof -
  define i0 where "i0 = \<lparr>ih_version4_ihl4 = IPV4_MAKE_VERSION_IHL 20, ih_ds = 0, ih_total_length = hton16 (word_of_nat (20 + 8 + length data)),
     ih_identification = hton16 0, ih_flags3_fragmentoffset13 = hton16 0, ih_ttl = 64,
     ih_protocol = IPV4_PROTOCOL_UDP, ih_checksum = hton16 0, ih_source_address = rip, ih_destination_address = lip\<rparr>"
  define i where "i = i0\<lparr>ih_checksum := ipv4_checksum i0 []\<rparr>"
  define u0 where "u0 = \<lparr>uh_source_port = rport, uh_dest_port = lport, uh_length = hton16 (word_of_nat (8 + length data)), uh_checksum = hton16 0\<rparr>"
  define w where "w = u0\<lparr>uh_checksum := udp_checksum u0 data (word_of_nat (length data)) (ih_source_address i) (ih_destination_address i)\<rparr>"
  have i0: "i\<lparr>ih_checksum := 0\<rparr> = i0" "w\<lparr>uh_checksum := 0\<rparr> = u0" by (simp_all add: i_def i0_def w_def u0_def)
  let ?pkt = "ipv4_header_image i @ udp_header_image w @ data"
  have s: "udpgw_client_handler_received options buf (BAddrIPv4 lip lport) (BAddrIPv4 rip rport) data = DevSend ?pkt"
    using u f unfolding udpgw_client_handler_received_def
    by (simp add: Let_def i0_def i_def u0_def w_def device_write_value del: of_nat_add)
  have c4: "ipv4_check ?pkt = Some (i, udp_header_image w @ data)"
    by (rule ipv4_check_built) (use f in \<open>simp_all add: i_def i0_def del: of_nat_add\<close>)
  have cu: "udp_check (udp_header_image w @ data) = Some (w, data)"
    by (rule udp_check_built) (use f in \<open>simp_all add: w_def u0_def del: of_nat_add\<close>)
  have n: "?pkt ! 9 = IPV4_PROTOCOL_UDP" "?pkt ! 0 = IPV4_MAKE_VERSION_IHL 20"
    by (simp_all add: ipv4_header_image_def nth_append nth_Cons' i_def i0_def)
  have v: "drop_bit 4 (IPV4_MAKE_VERSION_IHL 20) = 4" by code_simp
  have "uh_checksum w = udp_checksum u0 data (word_of_nat (length data)) (ih_source_address i) (ih_destination_address i)"
    by (simp add: w_def)
  then have "process_device_udp_packet options ?pkt =
      Some (BAddrIPv4 rip rport, BAddrIPv4 lip lport, uo_dnsgw options \<and> lport = hton16 53 \<and> dns_query data, data)"
    using u m n v c4 cu i0
    by (simp add: process_device_udp_packet_def Let_def BAddr_MakeIPv4_def) (simp add: w_def u0_def i_def i0_def)
  then show ?thesis using s f by (intro exI conjI) simp_all
qed

lemma roundtrip6:
  assumes u: "uo_udpgw options" "uo_ip6 options" and f: "48 + length data \<le> length buf" "8 + length data \<le> 65535"
    and m: "length data \<le> uo_udp_mtu options" and a: "length lip = 16" "length rip = 16"
  shows "\<exists>pkt dns. udpgw_client_handler_received options buf (BAddrIPv6 lip lport) (BAddrIPv6 rip rport) data = DevSend pkt \<and>
    length pkt = 48 + length data \<and>
    process_device_udp_packet options pkt = Some (BAddrIPv6 rip rport, BAddrIPv6 lip lport, dns, data)"
proof -
  define i where "i = \<lparr>i6_version4_tc4 = 96, i6_tc4_fl4 = 0, i6_fl = hton16 0, i6_payload_length = hton16 (word_of_nat (8 + length data)),
     i6_next_header = IPV6_NEXT_UDP, i6_hop_limit = 64, i6_source_address = take 16 rip, i6_destination_address = take 16 lip\<rparr>"
  define u0 where "u0 = \<lparr>uh_source_port = rport, uh_dest_port = lport, uh_length = hton16 (word_of_nat (8 + length data)), uh_checksum = hton16 0\<rparr>"
  define w where "w = u0\<lparr>uh_checksum := udp_ip6_checksum u0 data (word_of_nat (length data)) (i6_source_address i) (i6_destination_address i)\<rparr>"
  have i0: "w\<lparr>uh_checksum := 0\<rparr> = u0" by (simp add: w_def u0_def)
  have l: "length (i6_source_address i) = 16" "length (i6_destination_address i) = 16" using a by (simp_all add: i_def)
  let ?pkt = "ipv6_header_image i @ udp_header_image w @ data"
  have s: "udpgw_client_handler_received options buf (BAddrIPv6 lip lport) (BAddrIPv6 rip rport) data = DevSend ?pkt"
    using u f l unfolding udpgw_client_handler_received_def
    by (simp add: Let_def i_def u0_def w_def device_write_value del: of_nat_add)
  have c6: "ipv6_check ?pkt = Some (i, udp_header_image w @ data)"
    by (rule ipv6_check_built) (use f l in \<open>simp_all add: i_def del: of_nat_add\<close>)
  have cu: "udp_check (udp_header_image w @ data) = Some (w, data)"
    by (rule udp_check_built) (use f in \<open>simp_all add: w_def u0_def del: of_nat_add\<close>)
  have n: "?pkt ! 6 = IPV6_NEXT_UDP" "?pkt ! 0 = 96"
    by (simp_all add: ipv6_header_image_def nth_append nth_Cons' i_def)
  have v: "drop_bit 4 (96 :: byte) = 6" by code_simp
  have "uh_checksum w = udp_ip6_checksum u0 data (word_of_nat (length data)) (i6_source_address i) (i6_destination_address i)"
    by (simp add: w_def)
  then have "process_device_udp_packet options ?pkt = Some (BAddrIPv6 rip rport, BAddrIPv6 lip lport, False, data)"
    using u m n v c6 cu i0 l a
    by (simp add: process_device_udp_packet_def Let_def BAddr_MakeIPv6_def) (simp add: w_def u0_def i_def)
  then show ?thesis using s f l by (intro exI conjI) simp_all
qed

lemma while_fold: "while_option (\<lambda>t. drop_bit 16 t \<noteq> 0) checksum_round t = Some (checksum_fold t)"
proof (induction t rule: checksum_fold.induct)
  case (1 t)
  then show ?case by (subst while_option_unfold, subst checksum_fold.simps) auto
qed

subsection \<open>Properties\<close>

lemma answer_roundtrip:
  assumes "uo_udpgw options" "same_family options local_addr remote_addr" "length data \<le> uo_udp_mtu options"
  shows "if udp_fits local_addr (length buf) (length data)
    then \<exists>pkt dns. udpgw_client_handler_received options buf local_addr remote_addr data = DevSend pkt \<and>
      length pkt = udp_overhead local_addr + length data \<and>
      process_device_udp_packet options pkt = Some (remote_addr, local_addr, dns, data)
    else udpgw_client_handler_received options buf local_addr remote_addr data = DevDrop"
proof (cases local_addr)
  case (BAddrIPv4 lip lport)
  then obtain rip rport where r: "remote_addr = BAddrIPv4 rip rport"
    using assms(2) by (auto simp: same_family_def split: BAddr.splits)
  show ?thesis
    using roundtrip4 [OF assms(1), of data buf lip lport rip rport] assms BAddrIPv4 r
    by (auto simp: udp_fits_def udp_overhead_def udpgw_client_handler_received_def Let_def)
next
  case (BAddrIPv6 lip lport)
  then obtain rip rport where r: "remote_addr = BAddrIPv6 rip rport" "length lip = 16" "length rip = 16" "uo_ip6 options"
    using assms(2) by (auto simp: same_family_def split: BAddr.splits)
  show ?thesis
    using roundtrip6 [OF assms(1) r(4), of data buf lip rip lport rport] assms BAddrIPv6 r
    by (auto simp: udp_fits_def udp_overhead_def udpgw_client_handler_received_def Let_def)
qed (use assms in \<open>simp add: same_family_def\<close>)

text \<open>C27: An answer from the relay survives the device.  For two addresses of one family, the answer is put into a packet
  exactly when it fits the device and the length fields (otherwise it is dropped, and nothing is ever written past
  \<open>device_write_buf\<close>), and the packet, read back by the code that checks packets of the device,
  passes every check and gives the same payload with the two addresses exchanged.\<close>

theorem udp_answer_roundtrip:
  assumes "uo_udpgw options" "same_family options local_addr remote_addr" "length data \<le> uo_udp_mtu options"
  shows "if udp_fits local_addr (length buf) (length data)
    then \<exists>pkt dns. udpgw_client_handler_received options buf local_addr remote_addr data = DevSend pkt \<and>
      length pkt = udp_overhead local_addr + length data \<and>
      process_device_udp_packet options pkt = Some (remote_addr, local_addr, dns, data)
    else udpgw_client_handler_received options buf local_addr remote_addr data = DevDrop"
  by (rule answer_roundtrip [OF assms])

definition demo_udp_options :: udp_options where
  "demo_udp_options = \<lparr>uo_udpgw = True, uo_dnsgw = True, uo_ip6 = True, uo_udp_mtu = 1472\<rparr>"

theorem udp_answer_roundtrip_witness:
  "\<exists>pkt dns. udpgw_client_handler_received demo_udp_options (replicate 64 0) (BAddrIPv4 1 2) (BAddrIPv4 3 4) [5, 6, 7] = DevSend pkt \<and>
     length pkt = 31 \<and> process_device_udp_packet demo_udp_options pkt = Some (BAddrIPv4 3 4, BAddrIPv4 1 2, dns, [5, 6, 7])"
  using udp_answer_roundtrip [of demo_udp_options "BAddrIPv4 1 2" "BAddrIPv4 3 4" "[5, 6, 7]" "replicate 64 0"]
  by (simp add: demo_udp_options_def same_family_def udp_fits_def udp_overhead_def)

text \<open>C28: \<open>ipv4_check\<close> accepts exactly the packets of RFC 791 that pass the receiver's test of RFC 1071: version 4, a header of
  at least 20 octets within a total length within the packet, and a one's complement sum of the header, options
  included, of all ones; it refuses in addition a checksum field of all ones.  The payload is what follows the header, up to the
  total length.\<close>

theorem ipv4_check_rfc1071:
  "ipv4_check data = Some (h, p) \<longleftrightarrow>
     (let hl = 4 * (unat (data ! 0) mod 16); tl = 256 * unat (data ! 2) + unat (data ! 3) in
      20 \<le> length data \<and> unat (data ! 0) div 16 = 4 \<and> 20 \<le> hl \<and> hl \<le> tl \<and> tl \<le> length data \<and>
      ones_sum 0 (take hl data) = 65535 \<and> ih_checksum h \<noteq> 0xFFFF \<and>
      h = ipv4_header_load (take 20 data) \<and> p = take (tl - hl) (drop hl data))"
  by (rule ipv4_check_iff)

text \<open>The UDP checksums are those of RFC 768 and RFC 8200: the complement of the one's complement sum of the pseudo
  header, the header and the payload, padded to an even length; the 32-bit accumulator never overflows.  They are
  never all ones: the code's substitution of all ones for zero does not happen.\<close>

theorem udp_checksum_rfc768:
  assumes "length p \<le> 65527" "length src6 = 16" "length dst6 = 16"
  shows "unat (ntoh16 (udp_checksum h p (word_of_nat (length p)) src dst)) =
      65535 - ones_sum 0 (udp_pseudo_header src dst (8 + length p) @ udp_header_image h @ udp_pad p) \<and>
    unat (ntoh16 (udp_ip6_checksum h p (word_of_nat (length p)) src6 dst6)) =
      65535 - ones_sum 0 (udp_pseudo_header6 src6 dst6 (8 + length p) @ udp_header_image h @ udp_pad p) \<and>
    udp_checksum h p (word_of_nat (length p)) src dst \<noteq> 0xFFFF \<and> udp_ip6_checksum h p (word_of_nat (length p)) src6 dst6 \<noteq> 0xFFFF"
proof -
  note v = udp_checksum_value [OF assms(1), of h src dst] udp6_checksum_value [OF assms, of h]
  have "be16_total (udp_pseudo_header src dst (8 + length p) @ x) \<noteq> 0" for x
    by (simp add: udp_pseudo_header_def be16_total_append)
  moreover have "be16_total (udp_pseudo_header6 src6 dst6 (8 + length p) @ x) \<noteq> 0" for x
    using assms by (simp add: udp_pseudo_header6_def be16_total_append be16_bytes_def)
  ultimately show ?thesis using v
    unfolding ones_sum_total unat_ntoh_ones [symmetric] by (simp add: less_imp_neq neq0_conv [symmetric] del: neq0_conv)
qed

theorem udp_checksum_rfc768_witness:
  "unat (ntoh16 (udp_checksum (udp_header_load (replicate 8 0)) [5, 6, 7] 3 1 2)) =
     65535 - ones_sum 0 (udp_pseudo_header 1 2 11 @ udp_header_image (udp_header_load (replicate 8 0)) @ [5, 6, 7, 0])"
  using udp_checksum_rfc768 [of "[5, 6, 7]" "replicate 16 0" "replicate 16 0" "udp_header_load (replicate 8 0)" 1 2]
  by (simp add: udp_pad_def)

text \<open>C30: A datagram for which RFC 768 prescribes a checksum of all ones (the complement of its sum is zero) is given the
  checksum zero, which says that there is none; and with the prescribed checksum it is not taken from the device.\<close>

theorem udp_zero_checksum:
  assumes "ipv4_check pkt = Some (i, d)" "udp_check d = Some (u, p)"
    "ones_sum 0 (udp_pseudo_header (ih_source_address i) (ih_destination_address i) (8 + length p) @
       udp_header_image (u\<lparr>uh_checksum := 0\<rparr>) @ udp_pad p) = 65535"
  shows "udp_checksum (u\<lparr>uh_checksum := 0\<rparr>) p (word_of_nat (length p)) (ih_source_address i) (ih_destination_address i) = 0 \<and>
    (uh_checksum u = 0xFFFF \<longrightarrow> process_device_udp_packet options pkt = None)"
proof -
  let ?c = "udp_checksum (u\<lparr>uh_checksum := 0\<rparr>) p (word_of_nat (length p)) (ih_source_address i) (ih_destination_address i)"
  have l: "length p \<le> 65527" using assms(2) unat_u16 [of "ntoh16 (uh_length (udp_header_load (take 8 d)))"]
    by (auto simp: udp_check_def Let_def split: if_splits)
  have "unat (ntoh16 ?c) = 0" using udp_checksum_value [OF l] assms(3) by (simp add: ones_sum_total)
  then have z: "?c = 0" by (metis hton16_0(1) hton16_inverse(3) unat_0_iff)
  have "unat (pkt ! 0) div 16 = 4" "20 \<le> length pkt" using assms(1) by (simp_all add: ipv4_check_iff Let_def)
  then have "drop_bit 4 (pkt ! 0) = 4" "0 < length pkt" by (auto simp: word_unat_eq_iff unat_drop_bit_div)
  then show ?thesis using z assms(1,2) by (simp add: process_device_udp_packet_def)
qed

definition demo_zero_ip :: ipv4_header where
  "demo_zero_ip =
     (let h = \<lparr>ih_version4_ihl4 = IPV4_MAKE_VERSION_IHL 20, ih_ds = 0, ih_total_length = hton16 (word_of_nat 30), ih_identification = 0,
               ih_flags3_fragmentoffset13 = 0, ih_ttl = 64, ih_protocol = IPV4_PROTOCOL_UDP, ih_checksum = 0,
               ih_source_address = 0, ih_destination_address = 0\<rparr>
      in h\<lparr>ih_checksum := ipv4_checksum h []\<rparr>)"

definition demo_zero_udp :: udp_header where
  "demo_zero_udp = \<lparr>uh_source_port = 0, uh_dest_port = 0, uh_length = hton16 (word_of_nat 10), uh_checksum = 0xFFFF\<rparr>"

theorem udp_zero_checksum_witness:
  "process_device_udp_packet demo_udp_options (ipv4_header_image demo_zero_ip @ udp_header_image demo_zero_udp @ [0xFF, 0xDA]) = None"
proof -
  have i: "ipv4_check (ipv4_header_image demo_zero_ip @ udp_header_image demo_zero_udp @ [0xFF, 0xDA]) =
      Some (demo_zero_ip, udp_header_image demo_zero_udp @ [0xFF, 0xDA])"
    by (rule ipv4_check_built) (simp_all add: demo_zero_ip_def Let_def)
  have u: "udp_check (udp_header_image demo_zero_udp @ [0xFF, 0xDA]) = Some (demo_zero_udp, [0xFF, 0xDA])"
    by (rule udp_check_built) (simp_all add: demo_zero_udp_def)
  have "ones_sum 0 (udp_pseudo_header (ih_source_address demo_zero_ip) (ih_destination_address demo_zero_ip) (8 + length [0xFF, 0xDA :: byte]) @
       udp_header_image (demo_zero_udp\<lparr>uh_checksum := 0\<rparr>) @ udp_pad [0xFF, 0xDA]) = 65535"
    unfolding demo_zero_ip_def demo_zero_udp_def udp_header_image_def udp_pseudo_header_def using le_hton_image(1) [of 10]
    by (simp add: Let_def le32_bytes_def le16_bytes_def be16_bytes_def udp_pad_def ones_add_def)
  from udp_zero_checksum [OF i u this] show ?thesis by (simp add: demo_zero_udp_def)
qed

text \<open>The loop that folds the carries of a checksum ends for every sum, after at most two rounds.\<close>

theorem checksum_loop_terminates:
  "while_option (\<lambda>t. drop_bit 16 t \<noteq> 0) checksum_round t = Some (checksum_fold t) \<and>
     checksum_fold t = checksum_round (checksum_round t) \<and> drop_bit 16 (checksum_fold t) = 0"
  using while_fold [of t] while_option_stop [OF while_fold [of t]] checksum_fold_rounds [of t] by simp

end
