(* ===== verification/Bavl.thy ===== *)
theory Bavl
  imports Prelude
begin

text \<open>
  \<open>badvpn/structure/BAVL.h\<close>: the AVL tree in which connections are looked up.  A node has its value, its balance factor and
  its two subtrees; the parent pointers are represented by the path from a node to the root, so that a
  pointer to a node of the tree is a pair of the subtree at the node and its path.  \<open>False\<close> is side 0
  (left), \<open>True\<close> is side 1.  The comparator is an argument.  An assertion that fails has the value \<open>None\<close>.
  Counting (\<open>BAVL_COUNT\<close>) is not configured.
\<close>

subsection \<open>The code\<close>

datatype 'a BAVLNode = Null | BNode "'a BAVLNode" (nvalue: 'a) (nbalance: int) "'a BAVLNode"

datatype 'a frame = Frame (fside: bool) (fvalue: 'a) (fbalance: int) (fsibling: "'a BAVLNode")

type_synonym 'a path = "'a frame list"

fun link :: "bool \<Rightarrow> 'a BAVLNode \<Rightarrow> 'a BAVLNode" where
  "link s (BNode l v b r) = (if s then r else l)"
| "link s Null = Null"

fun set_link :: "bool \<Rightarrow> 'a BAVLNode \<Rightarrow> 'a BAVLNode \<Rightarrow> 'a BAVLNode" where
  "set_link s c (BNode l v b r) = (if s then BNode l v b c else BNode c v b r)"
| "set_link s c Null = Null"

fun set_balance :: "int \<Rightarrow> 'a BAVLNode \<Rightarrow> 'a BAVLNode" where
  "set_balance b' (BNode l v b r) = BNode l v b' r"
| "set_balance b' Null = Null"

text \<open>The parent of the subtree at a path.\<close>

fun bavl_parent :: "'a BAVLNode \<Rightarrow> 'a frame \<Rightarrow> 'a BAVLNode" where
  "bavl_parent n (Frame s v b sib) = (if s then BNode sib v b n else BNode n v b sib)"

text \<open>The root of the tree that has the subtree at the end of the path.\<close>

fun bavl_root :: "'a BAVLNode \<Rightarrow> 'a path \<Rightarrow> 'a BAVLNode" where
  "bavl_root n [] = n"
| "bavl_root n (f # p) = bavl_root (bavl_parent n f) p"

definition BAVL_MAX :: "int \<Rightarrow> int \<Rightarrow> int" where "BAVL_MAX a b = (if a > b then a else b)"
definition BAVL_OPTNEG :: "int \<Rightarrow> bool \<Rightarrow> int" where "BAVL_OPTNEG a neg = (if neg then - a else a)"

fun BAVL_assert_recurser :: "('a \<Rightarrow> 'a \<Rightarrow> int) \<Rightarrow> 'a BAVLNode \<Rightarrow> int option" where
  "BAVL_assert_recurser cmp Null = Some 0"
| "BAVL_assert_recurser cmp (BNode l v b r) =
     (if \<not> b \<ge> -1 \<or> \<not> b \<le> 1 then None
      else if l \<noteq> Null \<and> cmp (nvalue l) v \<noteq> -1 then None
      else case BAVL_assert_recurser cmp l of None \<Rightarrow> None
      | Some height_left \<Rightarrow>
          if r \<noteq> Null \<and> cmp (nvalue r) v \<noteq> 1 then None
          else case BAVL_assert_recurser cmp r of None \<Rightarrow> None
          | Some height_right \<Rightarrow> if b \<noteq> height_right - height_left then None else Some (BAVL_MAX height_left height_right + 1))"

definition BAVL_rotate :: "bool \<Rightarrow> 'a BAVLNode \<Rightarrow> 'a BAVLNode" where
  "BAVL_rotate dir r =
     (let nr = link (\<not> dir) r;
          r = set_link (\<not> dir) (link dir nr) r
      in set_link dir r nr)"

text \<open>One call of \<open>_BAVL_rebalance\<close> up to the recursion: the node now at this place and the change of its height.\<close>

definition BAVL_rebalance_node :: "'a BAVLNode \<Rightarrow> bool \<Rightarrow> int \<Rightarrow> ('a BAVLNode \<times> int) option" where
  "BAVL_rebalance_node node side deltac =
     (let delta = BAVL_MAX deltac (BAVL_OPTNEG (nbalance node) side) - BAVL_MAX 0 (BAVL_OPTNEG (nbalance node) side) in
      if \<not> (delta \<ge> -1 \<and> delta \<le> 1) then None
      else
        let node = set_balance (nbalance node - BAVL_OPTNEG deltac side) node in
        if nbalance node = 2 \<or> nbalance node = -2 then
          let bside = (nbalance node = 2);
              bsidef = (if bside then 1 else -1);
              child = link bside node
          in if child = Null then None
             else if nbalance child * bsidef = 1 then
               Some (BAVL_rotate (\<not> bside) (set_link bside (set_balance 0 child) (set_balance 0 node)), delta - 1)
             else if nbalance child * bsidef = 0 then
               Some (BAVL_rotate (\<not> bside) (set_link bside (set_balance (-1 * bsidef) child) (set_balance (1 * bsidef) node)), delta)
             else if nbalance child * bsidef = -1 then
               (let gchild = link (\<not> bside) child in
                if gchild = Null then None
                else
                  let gb = nbalance gchild;
                      child = set_link (\<not> bside) (set_balance 0 gchild) (set_balance (BAVL_MAX 0 (- gb * bsidef) * bsidef) child);
                      node = set_balance (- BAVL_MAX 0 (gb * bsidef) * bsidef) node
                  in Some (BAVL_rotate (\<not> bside) (set_link bside (BAVL_rotate bside child) node), delta - 1))
             else None
        else Some (node, delta))"

fun BAVL_rebalance :: "'a BAVLNode \<Rightarrow> bool \<Rightarrow> int \<Rightarrow> 'a path \<Rightarrow> 'a BAVLNode option" where
  "BAVL_rebalance node side deltac p =
     (if \<not> (deltac \<ge> -1 \<and> deltac \<le> 1) \<or> node = Null \<or> \<not> (nbalance node \<ge> -1 \<and> nbalance node \<le> 1) then None
      else if deltac = 0 then Some (bavl_root node p)
      else case BAVL_rebalance_node node side deltac of None \<Rightarrow> None
      | Some (node, delta) \<Rightarrow>
          if \<not> (delta \<ge> -1 \<and> delta \<le> 1) then None
          else (case p of [] \<Rightarrow> Some node | f # p \<Rightarrow> BAVL_rebalance (bavl_parent node f) (fside f) delta p))"

declare BAVL_rebalance.simps [simp del]

text \<open>The search for the place of a value: the node that compares equal, or the node below which it belongs, with its path
  and the side.\<close>

datatype 'a found = Equal "'a BAVLNode" "'a path" | Below "'a BAVLNode" "'a path" bool

fun BAVL_find :: "('a \<Rightarrow> 'a \<Rightarrow> int) \<Rightarrow> 'a \<Rightarrow> 'a BAVLNode \<Rightarrow> 'a path \<Rightarrow> 'a found option" where
  "BAVL_find cmp x Null p = None"
| "BAVL_find cmp x (BNode l v b r) p =
     (if cmp x v \<notin> {-1, 0, 1} then None
      else if cmp x v = 0 then Some (Equal (BNode l v b r) p)
      else if cmp x v = 1 then
        if r = Null then Some (Below (BNode l v b r) p True) else BAVL_find cmp x r (Frame True v b l # p)
      else
        if l = Null then Some (Below (BNode l v b r) p False) else BAVL_find cmp x l (Frame False v b r # p))"

text \<open>The new tree and whether the value was inserted.\<close>

definition BAVL_Insert :: "('a \<Rightarrow> 'a \<Rightarrow> int) \<Rightarrow> 'a BAVLNode \<Rightarrow> 'a \<Rightarrow> ('a BAVLNode \<times> bool) option" where
  "BAVL_Insert cmp t x =
     (if t = Null then Some (BNode Null x 0 Null, True)
      else case BAVL_find cmp x t [] of None \<Rightarrow> None
      | Some (Equal _ _) \<Rightarrow> Some (t, False)
      | Some (Below c p side) \<Rightarrow>
          map_option (\<lambda>t. (t, True)) (BAVL_rebalance (set_link side (BNode Null x 0 Null) c) side 1 p))"

fun BAVL_subtree_max :: "'a BAVLNode \<Rightarrow> 'a path \<Rightarrow> 'a BAVLNode \<times> 'a path" where
  "BAVL_subtree_max (BNode l v b r) p = (if r \<noteq> Null then BAVL_subtree_max r (Frame True v b l # p) else (BNode l v b r, p))"
| "BAVL_subtree_max Null p = (Null, p)"

text \<open>The node is replaced by its only child (\<open>_BAVL_replace_subtree\<close>), and its parent rebalanced.\<close>

definition BAVL_unlink :: "'a BAVLNode \<Rightarrow> 'a path \<Rightarrow> 'a BAVLNode option" where
  "BAVL_unlink node p =
     (if link False node \<noteq> Null \<and> link True node \<noteq> Null then None
      else
        let child = (if link False node \<noteq> Null then link False node else link True node) in
        case p of [] \<Rightarrow> Some child
        | f # p \<Rightarrow> BAVL_rebalance (bavl_parent child f) (fside f) (-1) p)"

text \<open>Removing a node of the tree, given with its path.  After the swap (\<open>_BAVL_swap_nodes\<close>) the largest node of the left
  subtree stands in the place of the node, with its balance factor, and the node in the place of that
  largest node, with the left subtree it had.\<close>

definition BAVL_Remove :: "'a BAVLNode \<Rightarrow> 'a path \<Rightarrow> 'a BAVLNode option" where
  "BAVL_Remove node p =
     (case node of
        Null \<Rightarrow> None
      | BNode l v b r \<Rightarrow>
          if l \<noteq> Null \<and> r \<noteq> Null then
            let m = fst (BAVL_subtree_max l []);
                (m, p) = BAVL_subtree_max l (Frame False (nvalue m) b r # p)
            in BAVL_unlink (BNode (link False m) v (nbalance m) (link True m)) p
          else BAVL_unlink node p)"

definition BAVL_IsEmpty :: "'a BAVLNode \<Rightarrow> bool" where "BAVL_IsEmpty t \<longleftrightarrow> t = Null"

text \<open>Looking up: an equal node or the last one visited, and only an equal node, each with its path.\<close>

definition BAVL_Lookup :: "('a \<Rightarrow> 'a \<Rightarrow> int) \<Rightarrow> 'a BAVLNode \<Rightarrow> 'a \<Rightarrow> ('a BAVLNode \<times> 'a path) option" where
  "BAVL_Lookup cmp t x =
     (case BAVL_find cmp x t [] of Some (Equal c p) \<Rightarrow> Some (c, p) | Some (Below c p _) \<Rightarrow> Some (c, p) | None \<Rightarrow> None)"

definition BAVL_LookupExact :: "('a \<Rightarrow> 'a \<Rightarrow> int) \<Rightarrow> 'a BAVLNode \<Rightarrow> 'a \<Rightarrow> ('a BAVLNode \<times> 'a path) option" where
  "BAVL_LookupExact cmp t x = (case BAVL_find cmp x t [] of Some (Equal c p) \<Rightarrow> Some (c, p) | _ \<Rightarrow> None)"

fun subtree_end :: "bool \<Rightarrow> 'a BAVLNode \<Rightarrow> 'a path \<Rightarrow> 'a BAVLNode \<times> 'a path" where
  "subtree_end s (BNode l v b r) p =
     (if s then if r \<noteq> Null then subtree_end s r (Frame True v b l # p) else (BNode l v b r, p)
      else if l \<noteq> Null then subtree_end s l (Frame False v b r # p) else (BNode l v b r, p))"
| "subtree_end s Null p = (Null, p)"

definition BAVL_GetFirst :: "'a BAVLNode \<Rightarrow> ('a BAVLNode \<times> 'a path) option" where
  "BAVL_GetFirst t = (if t = Null then None else Some (subtree_end False t []))"

definition BAVL_GetLast :: "'a BAVLNode \<Rightarrow> ('a BAVLNode \<times> 'a path) option" where
  "BAVL_GetLast t = (if t = Null then None else Some (subtree_end True t []))"

text \<open>Up while the node is on the given side of its parent, and once more.\<close>

fun climb :: "bool \<Rightarrow> 'a BAVLNode \<Rightarrow> 'a path \<Rightarrow> ('a BAVLNode \<times> 'a path) option" where
  "climb s n [] = None"
| "climb s n (f # p) = (if fside f = s then climb s (bavl_parent n f) p else Some (bavl_parent n f, p))"

definition BAVL_GetNext :: "'a BAVLNode \<Rightarrow> 'a path \<Rightarrow> ('a BAVLNode \<times> 'a path) option" where
  "BAVL_GetNext n p =
     (case n of Null \<Rightarrow> None
      | BNode l v b r \<Rightarrow> if r \<noteq> Null then Some (subtree_end False r (Frame True v b l # p)) else climb True n p)"

definition BAVL_GetPrev :: "'a BAVLNode \<Rightarrow> 'a path \<Rightarrow> ('a BAVLNode \<times> 'a path) option" where
  "BAVL_GetPrev n p =
     (case n of Null \<Rightarrow> None
      | BNode l v b r \<Rightarrow> if l \<noteq> Null then Some (subtree_end True l (Frame False v b r # p)) else climb False n p)"

definition BAVL_Verify :: "('a \<Rightarrow> 'a \<Rightarrow> int) \<Rightarrow> 'a BAVLNode \<Rightarrow> bool" where
  "BAVL_Verify cmp t \<longleftrightarrow> t = Null \<or> BAVL_assert_recurser cmp t \<noteq> None"

text \<open>The comparison the comparators are made of (\<open>badvpn/misc/compare.h\<close>).\<close>

definition B_COMPARE :: "'a :: linorder \<Rightarrow> 'a \<Rightarrow> int" where
  "B_COMPARE a b = (if a > b then 1 else 0) - (if a < b then 1 else 0)"

subsection \<open>Order and balance\<close>

fun inorder :: "'a BAVLNode \<Rightarrow> 'a list" where
  "inorder Null = []"
| "inorder (BNode l v b r) = inorder l @ v # inorder r"

fun path_pre :: "'a path \<Rightarrow> 'a list" where
  "path_pre [] = []"
| "path_pre (Frame s v b sib # p) = path_pre p @ (if s then inorder sib @ [v] else [])"

fun path_post :: "'a path \<Rightarrow> 'a list" where
  "path_post [] = []"
| "path_post (Frame s v b sib # p) = (if s then [] else v # inorder sib) @ path_post p"

fun bheight :: "'a BAVLNode \<Rightarrow> int" where
  "bheight Null = 0"
| "bheight (BNode l v b r) = max (bheight l) (bheight r) + 1"

fun balanced :: "'a BAVLNode \<Rightarrow> bool" where
  "balanced Null \<longleftrightarrow> True"
| "balanced (BNode l v b r) \<longleftrightarrow> balanced l \<and> balanced r \<and> b = bheight r - bheight l \<and> -1 \<le> b \<and> b \<le> 1"

text \<open>A path below which a subtree of the given height fits.\<close>

fun path_balanced :: "int \<Rightarrow> 'a path \<Rightarrow> bool" where
  "path_balanced h [] \<longleftrightarrow> True"
| "path_balanced h (Frame s v b sib # p) \<longleftrightarrow>
     balanced sib \<and> b = (if s then h - bheight sib else bheight sib - h) \<and> -1 \<le> b \<and> b \<le> 1 \<and>
     path_balanced (max h (bheight sib) + 1) p"

lemma inorder_root: "inorder (bavl_root n p) = path_pre p @ inorder n @ path_post p"
proof (induction p arbitrary: n)
  case (Cons f p)
  then show ?case by (cases f) simp
qed simp

lemma bheight_nonneg [simp]: "0 \<le> bheight t"
  by (induction t) auto

lemma bheight_zero [simp]: "bheight t = 0 \<longleftrightarrow> t = Null" "bheight t \<le> 0 \<longleftrightarrow> t = Null"
proof -
  show "bheight t = 0 \<longleftrightarrow> t = Null"
  proof (cases t)
    case (BNode l v b r)
    have "0 \<le> max (bheight l) (bheight r)" by (simp add: le_max_iff_disj)
    then show ?thesis using BNode by (simp del: le_max_iff_disj)
  qed simp
  then show "bheight t \<le> 0 \<longleftrightarrow> t = Null" using bheight_nonneg [of t] by linarith
qed

lemma balanced_root: "balanced n \<Longrightarrow> path_balanced (bheight n) p \<Longrightarrow> balanced (bavl_root n p)"
proof (induction p arbitrary: n)
  case (Cons f p)
  show ?case
  proof (cases f)
    case (Frame s v b sib)
    show ?thesis using Cons.prems Cons.IH [of "bavl_parent n f"] Frame by (auto simp: max.commute)
  qed
qed simp

text \<open>What the subtrees of a node are when one of them has changed its height.\<close>

definition off_balance :: "'a BAVLNode \<Rightarrow> bool \<Rightarrow> int \<Rightarrow> int \<Rightarrow> bool" where
  "off_balance n side deltac old \<longleftrightarrow>
     (\<exists>l v b r. n = BNode l v b r \<and> balanced l \<and> balanced r \<and> -1 \<le> b \<and> b \<le> 1 \<and> 0 \<le> old \<and>
        bheight (if side then r else l) = old + deltac \<and> b = (if side then old - bheight l else bheight r - old))"

text \<open>What the rotations produce; the change of height is 1 or 0 before them.\<close>

definition grows :: "bool \<Rightarrow> int" where "grows s = (if s then 1 else 0)"

lemma rebalance_right:
  assumes "deltac = (if side then 1 else -1)"
  shows "BAVL_rebalance_node (BNode l v 1 (BNode cl cv 1 cr)) side deltac = Some (BNode (BNode l v 0 cl) cv 0 cr, grows side - 1)"
    "BAVL_rebalance_node (BNode l v 1 (BNode cl cv 0 cr)) side deltac = Some (BNode (BNode l v 1 cl) cv (-1) cr, grows side)"
    "BAVL_rebalance_node (BNode l v 1 (BNode (BNode gl gv gb gr) cv (-1) cr)) side deltac =
       Some (BNode (BNode l v (- BAVL_MAX 0 gb) gl) gv 0 (BNode gr cv (BAVL_MAX 0 (- gb)) cr), grows side - 1)"
  using assms
  by (cases side; simp add: BAVL_rebalance_node_def BAVL_OPTNEG_def BAVL_MAX_def Let_def BAVL_rotate_def grows_def)+

lemma rebalance_left:
  assumes "deltac = (if side then -1 else 1)"
  shows "BAVL_rebalance_node (BNode (BNode cl cv (-1) cr) v (-1) r) side deltac = Some (BNode cl cv 0 (BNode cr v 0 r), grows (\<not> side) - 1)"
    "BAVL_rebalance_node (BNode (BNode cl cv 0 cr) v (-1) r) side deltac = Some (BNode cl cv 1 (BNode cr v (-1) r), grows (\<not> side))"
    "BAVL_rebalance_node (BNode (BNode cl cv 1 (BNode gl gv gb gr)) v (-1) r) side deltac =
       Some (BNode (BNode cl cv (- BAVL_MAX 0 gb) gl) gv 0 (BNode gr v (BAVL_MAX 0 (- gb)) r), grows (\<not> side) - 1)"
  using assms
  by (cases side; simp add: BAVL_rebalance_node_def BAVL_OPTNEG_def BAVL_MAX_def Let_def BAVL_rotate_def grows_def)+

lemma rebalance_even:
  assumes "-1 \<le> b" "b \<le> 1" "deltac = 1 \<or> deltac = -1" "nb = b - BAVL_OPTNEG deltac side" "-1 \<le> nb" "nb \<le> 1"
  shows "BAVL_rebalance_node (BNode l v b r) side deltac =
    Some (BNode l v nb r, BAVL_MAX deltac (BAVL_OPTNEG b side) - BAVL_MAX 0 (BAVL_OPTNEG b side))"
  using assms by (cases side) (auto simp: BAVL_rebalance_node_def BAVL_OPTNEG_def BAVL_MAX_def Let_def)

lemma balanced_node: "balanced t \<Longrightarrow> 0 < bheight t \<Longrightarrow> \<exists>l v b r. t = BNode l v b r \<and> (b = -1 \<or> b = 0 \<or> b = 1)"
  by (cases t) auto

definition rebalanced :: "'a BAVLNode \<Rightarrow> int \<Rightarrow> ('a BAVLNode \<times> int) option \<Rightarrow> bool" where
  "rebalanced n h r \<longleftrightarrow> (\<exists>n' delta. r = Some (n', delta) \<and> balanced n' \<and> inorder n' = inorder n \<and> bheight n' = h + delta \<and>
     (delta = -1 \<or> delta = 0 \<or> delta = 1))"

lemma rebalanced_Some [simp]:
  "rebalanced n h (Some (n', delta)) \<longleftrightarrow> balanced n' \<and> inorder n' = inorder n \<and> bheight n' = h + delta \<and> (delta = -1 \<or> delta = 0 \<or> delta = 1)"
  by (auto simp: rebalanced_def)

lemma rotate_right_ok:
  assumes "balanced l" "balanced r" "bheight r = bheight l + 2" "deltac = (if side then 1 else -1)"
  shows "rebalanced (BNode l v 1 r) (bheight r + (if side then 0 else 1)) (BAVL_rebalance_node (BNode l v 1 r) side deltac)"
proof -
  obtain cl cv cb cr where r: "r = BNode cl cv cb cr" and cb: "cb = -1 \<or> cb = 0 \<or> cb = 1"
    using balanced_node [OF assms(2)] assms(3) bheight_nonneg [of l] by (metis add_nonneg_pos zero_less_numeral)
  define hl where "hl = bheight l"
  have b: "balanced cl" "balanced cr" "bheight cr = bheight cl + cb" "max (bheight cl) (bheight cr) = hl + 1"
    using assms r by (auto simp: hl_def)
  consider "cb = 1" | "cb = 0" | (d) "cb = -1" using cb by blast
  then show ?thesis
  proof cases
    case d
    then have cl: "bheight cl = hl + 1" "bheight cr = hl" using b by (auto simp: max_def split: if_splits)
    then obtain gl gv gb gr where g: "cl = BNode gl gv gb gr" "gb = -1 \<or> gb = 0 \<or> gb = 1"
      using balanced_node [OF b(1)] bheight_nonneg [of l] by (metis add_nonneg_pos hl_def zero_less_one)
    then have "balanced gl" "balanced gr" "bheight gr = bheight gl + gb" "max (bheight gl) (bheight gr) = hl" using b(1) cl by auto
    then show ?thesis using g(2) assms(1,4) b(2) cl unfolding r g(1) d
      by (auto simp: rebalance_right grows_def BAVL_MAX_def hl_def max_def split: if_splits)
  qed (use assms b in \<open>auto simp: r rebalance_right grows_def hl_def max_def split: if_splits\<close>)
qed

lemma rotate_left_ok:
  assumes "balanced l" "balanced r" "bheight l = bheight r + 2" "deltac = (if side then -1 else 1)"
  shows "rebalanced (BNode l v (-1) r) (bheight l + (if side then 1 else 0)) (BAVL_rebalance_node (BNode l v (-1) r) side deltac)"
proof -
  obtain cl cv cb cr where l: "l = BNode cl cv cb cr" and cb: "cb = -1 \<or> cb = 0 \<or> cb = 1"
    using balanced_node [OF assms(1)] assms(3) bheight_nonneg [of r] by (metis add_nonneg_pos zero_less_numeral)
  define hr where "hr = bheight r"
  have b: "balanced cl" "balanced cr" "bheight cr = bheight cl + cb" "max (bheight cl) (bheight cr) = hr + 1"
    using assms l by (auto simp: hr_def)
  consider "cb = -1" | "cb = 0" | (d) "cb = 1" using cb by blast
  then show ?thesis
  proof cases
    case d
    then have cr: "bheight cr = hr + 1" "bheight cl = hr" using b by (auto simp: max_def split: if_splits)
    then obtain gl gv gb gr where g: "cr = BNode gl gv gb gr" "gb = -1 \<or> gb = 0 \<or> gb = 1"
      using balanced_node [OF b(2)] bheight_nonneg [of r] by (metis add_nonneg_pos hr_def zero_less_one)
    then have "balanced gl" "balanced gr" "bheight gr = bheight gl + gb" "max (bheight gl) (bheight gr) = hr" using b(2) cr by auto
    then show ?thesis using g(2) assms(2,4) b(1) cr unfolding l g(1) d
      by (auto simp: rebalance_left grows_def BAVL_MAX_def hr_def max_def split: if_splits)
  qed (use assms b in \<open>auto simp: l rebalance_left grows_def hr_def max_def split: if_splits\<close>)
qed

lemma rebalance_node_ok:
  assumes "off_balance n side deltac old" "deltac = 1 \<or> deltac = -1"
  shows "rebalanced n (max old (bheight (link (\<not> side) n)) + 1) (BAVL_rebalance_node n side deltac)"
proof -
  obtain l v b r where n: "n = BNode l v b r" "balanced l" "balanced r" "-1 \<le> b" "b \<le> 1" "0 \<le> old"
      "bheight (if side then r else l) = old + deltac" "b = (if side then old - bheight l else bheight r - old)"
    using assms(1) by (auto simp: off_balance_def)
  define nb where "nb = b - BAVL_OPTNEG deltac side"
  have nb: "nb = bheight r - bheight l" using n(7,8) by (cases side) (auto simp: nb_def BAVL_OPTNEG_def)
  consider (even) "-1 \<le> nb" "nb \<le> 1" | (right) "nb = 2" | (left) "nb = -2"
  proof -
    have "-2 \<le> nb \<and> nb \<le> 2" using n(4,5) assms(2) by (cases side) (auto simp: nb_def BAVL_OPTNEG_def)
    then show ?thesis using that by linarith
  qed
  then show ?thesis
  proof cases
    case even
    have "rebalanced n (max old (bheight (link (\<not> side) n)) + 1)
        (Some (BNode l v nb r, BAVL_MAX deltac (BAVL_OPTNEG b side) - BAVL_MAX 0 (BAVL_OPTNEG b side)))"
      using n even nb assms(2) by (cases side) (auto simp: BAVL_OPTNEG_def BAVL_MAX_def max_def)
    then show ?thesis unfolding rebalance_even [OF n(4,5) assms(2) nb_def even, of l v r, folded n(1), symmetric] .
  next
    case right
    then have h: "bheight r = bheight l + 2" "deltac = (if side then 1 else -1)" "b = 1"
      using nb n assms(2) by (cases side; auto simp: nb_def BAVL_OPTNEG_def)+
    have m: "max old (bheight (link (\<not> side) n)) + 1 = bheight r + (if side then 0 else 1)"
      using h n by (cases side) auto
    show ?thesis unfolding m unfolding n(1) h(3) by (rule rotate_right_ok [OF n(2,3) h(1,2)])
  next
    case left
    then have h: "bheight l = bheight r + 2" "deltac = (if side then -1 else 1)" "b = -1"
      using nb n assms(2) by (cases side; auto simp: nb_def BAVL_OPTNEG_def)+
    have m: "max old (bheight (link (\<not> side) n)) + 1 = bheight l + (if side then 1 else 0)"
      using h n by (cases side) auto
    show ?thesis unfolding m unfolding n(1) h(3) by (rule rotate_left_ok [OF n(2,3) h(1,2)])
  qed
qed

lemma parent_off_balance:
  assumes "balanced n" "bheight n = old + delta" "path_balanced old (Frame s w c sib # p)" "0 \<le> old"
  shows "off_balance (bavl_parent n (Frame s w c sib)) s delta old"
  using assms by (cases s) (simp_all add: off_balance_def)

lemma rebalance_ok:
  assumes "off_balance n side deltac old" "-1 \<le> deltac" "deltac \<le> 1" "path_balanced (max old (bheight (link (\<not> side) n)) + 1) p"
  shows "\<exists>t. BAVL_rebalance n side deltac p = Some t \<and> balanced t \<and> inorder t = path_pre p @ inorder n @ path_post p"
  using assms
proof (induction p arbitrary: n side deltac old)
  case Nil
  obtain l v b r where n: "n = BNode l v b r" "-1 \<le> b" "b \<le> 1" using Nil.prems(1) by (auto simp: off_balance_def)
  show ?case
  proof (cases "deltac = 0")
    case True
    then have "balanced n" using Nil.prems(1) by (auto simp: off_balance_def)
    then show ?thesis using True n by (simp add: BAVL_rebalance.simps)
  next
    case False
    then have "deltac = 1 \<or> deltac = -1" using Nil.prems by linarith
    from rebalance_node_ok [OF Nil.prems(1) this] show ?thesis using False n Nil.prems
      by (auto simp: BAVL_rebalance.simps rebalanced_def)
  qed
next
  case (Cons f p)
  obtain l v b r where n: "n = BNode l v b r" "-1 \<le> b" "b \<le> 1" using Cons.prems(1) by (auto simp: off_balance_def)
  show ?case
  proof (cases "deltac = 0")
    case True
    then have bn: "balanced n" using Cons.prems(1) by (auto simp: off_balance_def)
    have "bheight n = max old (bheight (link (\<not> side) n)) + 1" using True Cons.prems(1) by (auto simp: off_balance_def max.commute)
    then have "balanced (bavl_root n (f # p))" using balanced_root [OF bn, of "f # p"] Cons.prems(4) by simp
    then show ?thesis using True n by (simp add: BAVL_rebalance.simps inorder_root del: bavl_root.simps)
  next
    case False
    then have "deltac = 1 \<or> deltac = -1" using Cons.prems by linarith
    from rebalance_node_ok [OF Cons.prems(1) this] obtain n' delta where
      r: "BAVL_rebalance_node n side deltac = Some (n', delta)" "balanced n'" "inorder n' = inorder n"
        "bheight n' = max old (bheight (link (\<not> side) n)) + 1 + delta" "delta = -1 \<or> delta = 0 \<or> delta = 1"
      unfolding rebalanced_def by blast
    obtain s w c sib where f: "f = Frame s w c sib" by (cases f)
    let ?old = "max old (bheight (link (\<not> side) n)) + 1"
    have o: "off_balance (bavl_parent n' f) s delta ?old"
      unfolding f by (rule parent_off_balance [where p = p]) (use Cons.prems(4) r(2,4) f in \<open>simp_all add: le_max_iff_disj\<close>)
    have "link (\<not> s) (bavl_parent n' f) = sib" by (simp add: f)
    then obtain t where "BAVL_rebalance (bavl_parent n' f) s delta p = Some t" "balanced t"
        "inorder t = path_pre p @ inorder (bavl_parent n' f) @ path_post p"
      using Cons.IH [OF o] Cons.prems(4) r(5) f by auto
    moreover have "BAVL_rebalance n side deltac (f # p) = BAVL_rebalance (bavl_parent n' f) s delta p"
    proof -
      have "\<not> (\<not> (- 1 \<le> delta \<and> delta \<le> 1))" using r(5) by linarith
      then show ?thesis using r(1) False n Cons.prems(2,3) by (subst BAVL_rebalance.simps) (simp add: f)
    qed
    moreover have "path_pre (f # p) @ inorder n @ path_post (f # p) = path_pre p @ inorder (bavl_parent n' f) @ path_post p"
      using r(3) f by simp
    ultimately show ?thesis by simp
  qed
qed

lemma balanced_root_iff: "balanced (bavl_root n p) \<longleftrightarrow> balanced n \<and> path_balanced (bheight n) p"
proof (induction p arbitrary: n)
  case (Cons f p)
  show ?case
  proof (cases f)
    case (Frame s v b sib)
    show ?thesis using Cons.IH [of "bavl_parent n f"] Frame by (auto simp: max.commute)
  qed
qed simp

lemma bavl_root_append: "bavl_root n (p @ q) = bavl_root (bavl_root n p) q"
  by (induction p arbitrary: n) auto

subsection \<open>Removing\<close>

lemma subtree_max_path: "BAVL_subtree_max t (q @ p) = (fst (BAVL_subtree_max t q), snd (BAVL_subtree_max t q) @ p)"
proof (induction t q arbitrary: p rule: BAVL_subtree_max.induct)
  case (1 l v b r q)
  then show ?case by (cases "r = Null") auto
qed simp

lemma subtree_max_root: "bavl_root (fst (BAVL_subtree_max t p)) (snd (BAVL_subtree_max t p)) = bavl_root t p"
  by (induction t p rule: BAVL_subtree_max.induct) auto

lemma subtree_max_node: "t \<noteq> Null \<Longrightarrow> \<exists>l v b. fst (BAVL_subtree_max t p) = BNode l v b Null"
  by (induction t p rule: BAVL_subtree_max.induct) auto

lemma subtree_max_post: "path_post (snd (BAVL_subtree_max t p)) = path_post p"
  by (induction t p rule: BAVL_subtree_max.induct) auto

text \<open>Balance does not look at the values on the path.\<close>

lemma path_balanced_value:
  "path_balanced h (q @ Frame s v b sib # p) \<longleftrightarrow> path_balanced h (q @ Frame s w b sib # p)"
proof (induction q arbitrary: h)
  case (Cons f q)
  then show ?case by (cases f) simp
qed simp

lemma path_pre_append: "path_pre (q @ p) = path_pre p @ path_pre q"
proof (induction q)
  case (Cons f q)
  then show ?case by (cases f) simp
qed simp

lemma path_post_append: "path_post (q @ p) = path_post q @ path_post p"
proof (induction q)
  case (Cons f q)
  then show ?case by (cases f) simp
qed simp

lemma parent_link: "link (\<not> s) (bavl_parent n (Frame s v b sib)) = sib"
  by (cases s) simp_all

lemma unlink_ok:
  assumes "balanced (BNode l v b r)" "l = Null \<or> r = Null" "path_balanced (bheight (BNode l v b r)) p"
  shows "\<exists>t. BAVL_unlink (BNode l w b r) p = Some t \<and> balanced t \<and> inorder t = path_pre p @ inorder l @ inorder r @ path_post p"
proof -
  define c where "c = (if l \<noteq> Null then l else r)"
  have c: "balanced c" "inorder c = inorder l @ inorder r" "bheight c = bheight (BNode l v b r) + (-1)"
    using assms(1,2) by (auto simp: c_def)
  show ?thesis
  proof (cases p)
    case Nil
    then show ?thesis using assms(2) c by (auto simp: BAVL_unlink_def c_def Let_def)
  next
    case (Cons f q)
    obtain s x y sib where f: "f = Frame s x y sib" by (cases f)
    have "off_balance (bavl_parent c f) s (-1) (bheight (BNode l v b r))"
      unfolding f by (rule parent_off_balance [where p = q, OF c(1,3)]) (use assms(3) Cons f in \<open>simp_all add: le_max_iff_disj\<close>)
    moreover have "path_balanced (max (bheight (BNode l v b r)) (bheight (link (\<not> s) (bavl_parent c f))) + 1) q"
      using assms(3) Cons f by (simp add: parent_link del: bavl_parent.simps)
    ultimately obtain t where
      "BAVL_rebalance (bavl_parent c f) s (-1) q = Some t" "balanced t" "inorder t = path_pre q @ inorder (bavl_parent c f) @ path_post q"
      using rebalance_ok [of "bavl_parent c f" s "-1" "bheight (BNode l v b r)" q] by force
    then show ?thesis using assms(2) c(2) Cons f by (auto simp: BAVL_unlink_def c_def Let_def)
  qed
qed

lemma remove_ok:
  assumes "balanced (bavl_root (BNode l v b r) p)"
  shows "\<exists>t. BAVL_Remove (BNode l v b r) p = Some t \<and> balanced t \<and> inorder t = path_pre p @ inorder l @ inorder r @ path_post p"
proof (cases "l \<noteq> Null \<and> r \<noteq> Null")
  case True
  obtain ml mv mb where m: "fst (BAVL_subtree_max l []) = BNode ml mv mb Null" using subtree_max_node [of l "[]"] True by blast
  define q where "q = snd (BAVL_subtree_max l [])"
  define f where "f w = Frame False w b r" for w
  have s: "BAVL_subtree_max l (f mv # p) = (BNode ml mv mb Null, q @ f mv # p)"
    using subtree_max_path [of l "[]" "f mv # p"] m by (simp add: q_def)
  have "bavl_root (BNode ml mv mb Null) q = l" using subtree_max_root [of l "[]"] m by (simp add: q_def)
  then have i: "inorder l = path_pre q @ inorder ml @ [mv]" and
    e: "bavl_root (BNode ml mv mb Null) (q @ f v # p) = bavl_root (BNode l v b r) p"
    using inorder_root [of "BNode ml mv mb Null" q] subtree_max_post [of l "[]"] by (simp_all add: q_def bavl_root_append f_def)
  have "balanced (BNode ml mv mb Null)" "path_balanced (bheight (BNode ml mv mb Null)) (q @ f mv # p)"
    using assms e balanced_root_iff [of "BNode ml mv mb Null" "q @ f v # p"] path_balanced_value [of _ q False v b r p mv]
    by (simp_all add: f_def)
  from unlink_ok [OF this(1) _ this(2), of v] obtain t where
    "BAVL_unlink (BNode ml v mb Null) (q @ f mv # p) = Some t" "balanced t"
    "inorder t = path_pre (q @ f mv # p) @ inorder ml @ path_post (q @ f mv # p)" by auto
  moreover have "BAVL_Remove (BNode l v b r) p = BAVL_unlink (BNode ml v mb Null) (q @ f mv # p)"
    using True m s by (simp add: BAVL_Remove_def Let_def f_def)
  moreover have "path_post q = []" using subtree_max_post [of l "[]"] by (simp add: q_def)
  ultimately show ?thesis using i by (auto simp: path_pre_append path_post_append f_def)
next
  case False
  then have "BAVL_Remove (BNode l v b r) p = BAVL_unlink (BNode l v b r) p" by (auto simp: BAVL_Remove_def)
  then show ?thesis using unlink_ok [of l v b r p v] assms False by (simp add: balanced_root_iff)
qed

subsection \<open>Walking\<close>

text \<open>The values before a node in the order of the tree.\<close>

definition before :: "'a BAVLNode \<times> 'a path \<Rightarrow> 'a list" where
  "before z = path_pre (snd z) @ inorder (link False (fst z))"

lemma subtree_end_ok:
  assumes "t \<noteq> Null"
  shows "bavl_root (fst (subtree_end s t p)) (snd (subtree_end s t p)) = bavl_root t p \<and> fst (subtree_end s t p) \<noteq> Null \<and>
    before (subtree_end s t p) = path_pre p @ (if s then butlast (inorder t) else []) \<and> inorder t \<noteq> [] \<and>
    (s \<longrightarrow> nvalue (fst (subtree_end s t p)) = last (inorder t))"
  using assms
proof (induction s t p rule: subtree_end.induct)
  case (1 s l v b r p)
  have "r \<noteq> Null \<Longrightarrow> inorder r \<noteq> []" by (cases r) auto
  then show ?case using 1 by (auto simp: before_def butlast_append)
qed simp

lemma climb_ok:
  assumes "climb s n p = Some z"
  shows "bavl_root (fst z) (snd z) = bavl_root n p \<and> fst z \<noteq> Null \<and>
    (if s then before z = path_pre p @ inorder n else before z @ [nvalue (fst z)] = path_pre p)"
  using assms
proof (induction s n p rule: climb.induct)
  case (2 s n f p)
  then show ?case by (cases f) (auto simp: before_def split: if_splits)
qed simp

lemma climb_None: "climb s n p = None \<longleftrightarrow> (if s then path_post p = [] else path_pre p = [])"
proof (induction s n p rule: climb.induct)
  case (2 s n f p)
  then show ?case by (cases f) auto
qed simp

lemma next_ok:
  assumes "n = BNode l v b r"
  shows "case BAVL_GetNext n p of
      None \<Rightarrow> before (n, p) @ [v] = inorder (bavl_root n p)
    | Some z \<Rightarrow> bavl_root (fst z) (snd z) = bavl_root n p \<and> fst z \<noteq> Null \<and> before z = before (n, p) @ [v]"
proof (cases "r = Null")
  case True
  then have g: "BAVL_GetNext n p = climb True n p" using assms by (simp add: BAVL_GetNext_def)
  show ?thesis
  proof (cases "climb True n p")
    case None
    then show ?thesis using climb_None [of True n p] True g assms by (simp add: inorder_root before_def)
  next
    case (Some z)
    then show ?thesis using climb_ok [OF Some] True g assms by (simp add: before_def)
  qed
next
  case False
  then show ?thesis using subtree_end_ok [of r False "Frame True v b l # p"] assms by (auto simp: BAVL_GetNext_def before_def)
qed

lemma prev_ok:
  assumes "n = BNode l v b r"
  shows "case BAVL_GetPrev n p of
      None \<Rightarrow> before (n, p) = []
    | Some z \<Rightarrow> bavl_root (fst z) (snd z) = bavl_root n p \<and> fst z \<noteq> Null \<and> before z @ [nvalue (fst z)] = before (n, p)"
proof (cases "l = Null")
  case True
  then have g: "BAVL_GetPrev n p = climb False n p" using assms by (simp add: BAVL_GetPrev_def)
  show ?thesis
  proof (cases "climb False n p")
    case None
    then show ?thesis using climb_None [of False n p] True g assms by (simp add: before_def)
  next
    case (Some z)
    then show ?thesis using climb_ok [OF Some] True g assms by (simp add: before_def)
  qed
next
  case False
  then show ?thesis using subtree_end_ok [of l True "Frame False v b r # p"] assms
    by (auto simp: BAVL_GetPrev_def before_def append_butlast_last_id)
qed

subsection \<open>Height\<close>

text \<open>A tree of height \<open>h\<close> has at least \<open>2 ^ (h div 2) - 1\<close> values.\<close>

lemma height_log: "balanced t \<Longrightarrow> 2 ^ nat (bheight t div 2) \<le> length (inorder t) + 1"
proof (induction t)
  case (BNode l v b r)
  have p: "(2 :: nat) ^ nat (k div 2) \<le> 2 ^ nat (h div 2)" if "k \<le> h" for k h :: int
    by (rule power_increasing) (use that in \<open>auto intro: nat_mono zdiv_mono1\<close>)
  let ?h = "bheight (BNode l v b r)"
  have ih: "2 ^ nat (bheight l div 2) \<le> length (inorder l) + 1" "2 ^ nat (bheight r div 2) \<le> length (inorder r) + 1"
    using BNode by auto
  have h: "?h - 2 \<le> bheight l" "?h - 2 \<le> bheight r" using BNode.prems by auto
  have "(2 :: nat) ^ nat (?h div 2) \<le> 2 * 2 ^ nat ((?h - 2) div 2)"
  proof (cases "?h \<ge> 2")
    case True
    then have "nat (?h div 2) = Suc (nat ((?h - 2) div 2))" by linarith
    then show ?thesis by (simp del: bheight.simps)
  next
    case False
    then have "nat (?h div 2) = 0" by linarith
    then show ?thesis by (simp del: bheight.simps)
  qed
  also have "\<dots> \<le> 2 ^ nat (bheight l div 2) + 2 ^ nat (bheight r div 2)" using p [OF h(1)] p [OF h(2)] by linarith
  also have "\<dots> \<le> length (inorder (BNode l v b r)) + 1" using ih by simp
  finally show ?case .
qed simp

subsection \<open>Order\<close>

definition ordered_by :: "('a \<Rightarrow> 'a \<Rightarrow> int) \<Rightarrow> 'a list \<Rightarrow> bool" where
  "ordered_by cmp xs \<longleftrightarrow> sorted_wrt (\<lambda>x y. cmp x y = -1) xs"

definition tree_ok :: "('a \<Rightarrow> 'a \<Rightarrow> int) \<Rightarrow> 'a BAVLNode \<Rightarrow> bool" where
  "tree_ok cmp t \<longleftrightarrow> balanced t \<and> ordered_by cmp (inorder t)"

text \<open>The reference: insertion into an ordered list.\<close>

fun ins_by :: "('a \<Rightarrow> 'a \<Rightarrow> int) \<Rightarrow> 'a \<Rightarrow> 'a list \<Rightarrow> 'a list" where
  "ins_by cmp x [] = [x]"
| "ins_by cmp x (y # ys) = (if cmp x y = -1 then x # y # ys else y # ins_by cmp x ys)"

lemma find_root: "BAVL_find cmp x t p = Some (Equal c q) \<Longrightarrow> bavl_root c q = bavl_root t p \<and> c \<noteq> Null \<and> cmp x (nvalue c) = 0"
  by (induction cmp x t p rule: BAVL_find.induct) (auto split: if_splits)

lemma root_value: "c \<noteq> Null \<Longrightarrow> nvalue c \<in> set (inorder (bavl_root c q))"
  by (cases c) (auto simp: inorder_root)

text \<open>What \<open>BAVL.h\<close> asks of a comparator: its values are -1, 0 and 1 and the relation it defines is a total order.\<close>

locale value_order =
  fixes cmp :: "'a \<Rightarrow> 'a \<Rightarrow> int"
  assumes cmp_range: "cmp x y = -1 \<or> cmp x y = 0 \<or> cmp x y = 1"
    and cmp_swap: "cmp y x = - cmp x y"
    and cmp_trans: "cmp x y \<le> 0 \<Longrightarrow> cmp y z \<le> 0 \<Longrightarrow> cmp x z \<le> 0"
begin

lemma cmp_refl [simp]: "cmp x x = 0"
  using cmp_swap [of x x] by simp

lemma less_trans: "cmp x y = -1 \<Longrightarrow> cmp y z = -1 \<Longrightarrow> cmp x z = -1"
  using cmp_trans [of x y z] cmp_trans [of y z x] cmp_swap [of x y] cmp_swap [of x z] cmp_range [of x z] by force

lemma greater [simp]: "cmp x y = 1 \<longleftrightarrow> cmp y x = -1"
  using cmp_swap [of x y] by auto

lemma equal_swap: "cmp x y = 0 \<longleftrightarrow> cmp y x = 0"
  using cmp_swap [of x y] by auto

lemma ordered_append: "ordered_by cmp (xs @ ys) \<longleftrightarrow> ordered_by cmp xs \<and> ordered_by cmp ys \<and> (\<forall>x \<in> set xs. \<forall>y \<in> set ys. cmp x y = -1)"
  by (simp add: ordered_by_def sorted_wrt_append)

lemma ordered_Cons: "ordered_by cmp (x # xs) \<longleftrightarrow> (\<forall>y \<in> set xs. cmp x y = -1) \<and> ordered_by cmp xs"
  by (simp add: ordered_by_def)

lemma find_ok:
  assumes "t \<noteq> Null" "ordered_by cmp (inorder (bavl_root t p))"
    "\<forall>y \<in> set (path_pre p). cmp y x = -1" "\<forall>y \<in> set (path_post p). cmp x y = -1"
  shows "(\<exists>c q. BAVL_find cmp x t p = Some (Equal c q)) \<or>
    (\<exists>c q s. BAVL_find cmp x t p = Some (Below c q s) \<and> bavl_root c q = bavl_root t p \<and> c \<noteq> Null \<and> link s c = Null \<and>
       (\<forall>y \<in> set (path_pre q). cmp y x = -1) \<and> (\<forall>y \<in> set (path_post q). cmp x y = -1) \<and>
       (\<forall>y \<in> set (inorder c). if s then cmp y x = -1 else cmp x y = -1))"
  using assms
proof (induction t arbitrary: p)
  case (BNode l v b r)
  have o: "ordered_by cmp (inorder l @ v # inorder r)"
    using BNode.prems(2) by (simp add: inorder_root ordered_append ordered_Cons)
  consider (eq) "cmp x v = 0" | (gt) "cmp v x = -1" | (lt) "cmp x v = -1" using cmp_range [of x v] greater by blast
  then show ?case
  proof cases
    case eq
    then show ?thesis by simp
  next
    case gt
    then have g: "cmp x v = 1" by simp
    have a: "\<forall>y \<in> set (inorder l @ [v]). cmp y x = -1" using gt o less_trans [of _ v x] by (simp add: ordered_append ordered_Cons)
    show ?thesis
    proof (cases "r = Null")
      case True
      then show ?thesis using g a BNode.prems by (auto simp del: greater)
    next
      case False
      then have f: "BAVL_find cmp x (BNode l v b r) p = BAVL_find cmp x r (Frame True v b l # p)" using g by (simp del: greater)
      have "bavl_root r (Frame True v b l # p) = bavl_root (BNode l v b r) p" by simp
      moreover have "\<forall>y \<in> set (path_pre (Frame True v b l # p)). cmp y x = -1" using a BNode.prems(3) by auto
      ultimately show ?thesis unfolding f using BNode.IH(2) [of "Frame True v b l # p"] False BNode.prems(2,4) by simp
    qed
  next
    case lt
    then have g: "cmp x v \<noteq> 0" "cmp x v \<noteq> 1" by (simp_all del: greater)
    have a: "\<forall>y \<in> set (v # inorder r). cmp x y = -1" using lt o less_trans [of x v] by (simp add: ordered_append ordered_Cons)
    show ?thesis
    proof (cases "l = Null")
      case True
      then show ?thesis using g lt a BNode.prems by (auto simp del: greater)
    next
      case False
      then have f: "BAVL_find cmp x (BNode l v b r) p = BAVL_find cmp x l (Frame False v b r # p)" using g lt by (simp del: greater)
      have "bavl_root l (Frame False v b r # p) = bavl_root (BNode l v b r) p" by simp
      moreover have "\<forall>y \<in> set (path_post (Frame False v b r # p)). cmp x y = -1" using a BNode.prems(4) by auto
      ultimately show ?thesis unfolding f using BNode.IH(1) [of "Frame False v b r # p"] False BNode.prems(2,3) by simp
    qed
  qed
qed simp

lemma ins_by_middle:
  "(\<forall>y \<in> set xs. cmp y x = -1) \<Longrightarrow> (\<forall>y \<in> set ys. cmp x y = -1) \<Longrightarrow> ins_by cmp x (xs @ ys) = xs @ x # ys"
proof (induction xs)
  case Nil
  then show ?case by (cases ys) auto
next
  case (Cons y xs)
  then have "cmp y x = -1" by simp
  then have "cmp x y \<noteq> -1" using cmp_swap [of x y] by linarith
  then show ?case using Cons by simp
qed

lemma lookup_exact:
  assumes "tree_ok cmp t"
  shows "(\<exists>c q. BAVL_LookupExact cmp t x = Some (c, q) \<and> bavl_root c q = t \<and> c \<noteq> Null \<and> cmp x (nvalue c) = 0) \<or>
    (BAVL_LookupExact cmp t x = None \<and> (\<forall>y \<in> set (inorder t). cmp x y \<noteq> 0))"
proof (cases "t = Null")
  case False
  have "ordered_by cmp (inorder (bavl_root t []))" using assms by (simp add: tree_ok_def)
  from find_ok [OF False this, of x]
  consider c q where "BAVL_find cmp x t [] = Some (Equal c q)"
    | (b) c q s where "BAVL_find cmp x t [] = Some (Below c q s)" "bavl_root c q = t"
      "\<forall>y \<in> set (path_pre q). cmp y x = -1" "\<forall>y \<in> set (path_post q). cmp x y = -1"
      "\<forall>y \<in> set (inorder c). if s then cmp y x = -1 else cmp x y = -1" by auto
  then show ?thesis
  proof cases
    case 1
    then show ?thesis using find_root [OF 1] by (simp add: BAVL_LookupExact_def)
  next
    case b
    have "cmp x y \<noteq> 0" if "y \<in> set (inorder t)" for y
    proof -
      have "cmp y x = -1 \<or> cmp x y = -1" using that b(3-5) inorder_root [of c q] unfolding b(2) by (auto split: if_splits)
      then show ?thesis using equal_swap [of x y] by auto
    qed
    then show ?thesis using b(1) by (simp add: BAVL_LookupExact_def)
  qed
qed (simp add: BAVL_LookupExact_def)

lemma insert_new:
  assumes "tree_ok cmp t" "\<forall>y \<in> set (inorder t). cmp x y \<noteq> 0"
  shows "\<exists>t'. BAVL_Insert cmp t x = Some (t', True) \<and> tree_ok cmp t' \<and> inorder t' = ins_by cmp x (inorder t)"
proof (cases "t = Null")
  case True
  then show ?thesis by (simp add: BAVL_Insert_def tree_ok_def ordered_by_def)
next
  case False
  have o: "ordered_by cmp (inorder (bavl_root t []))" using assms by (simp add: tree_ok_def)
  have "BAVL_find cmp x t [] \<noteq> Some (Equal c q)" for c q
    using find_root [of cmp x t "[]" c q] root_value [of c q] assms(2) by auto
  then obtain c q s where b: "BAVL_find cmp x t [] = Some (Below c q s)" "bavl_root c q = t" "c \<noteq> Null" "link s c = Null"
      "\<forall>y \<in> set (path_pre q). cmp y x = -1" "\<forall>y \<in> set (path_post q). cmp x y = -1"
      "\<forall>y \<in> set (inorder c). if s then cmp y x = -1 else cmp x y = -1"
    using find_ok [OF False o, of x] by auto
  obtain l v k r where c: "c = BNode l v k r" using b(3) by (cases c) auto
  let ?n = "set_link s (BNode Null x 0 Null) c"
  have bal: "balanced c" "path_balanced (bheight c) q" using assms(1) b(2) balanced_root_iff [of c q] by (simp_all add: tree_ok_def)
  have "off_balance ?n s 1 0" using bal(1) b(4) c by (cases s) (simp_all add: off_balance_def)
  moreover have "path_balanced (max 0 (bheight (link (\<not> s) ?n)) + 1) q" using bal(2) b(4) c by (cases s) (simp_all add: max.commute)
  ultimately obtain t' where t': "BAVL_rebalance ?n s 1 q = Some t'" "balanced t'" "inorder t' = path_pre q @ inorder ?n @ path_post q"
    using rebalance_ok [of ?n s 1 0 q] by auto
  obtain xs ys where xy: "inorder t = xs @ ys" "inorder t' = xs @ x # ys" "\<forall>y \<in> set xs. cmp y x = -1" "\<forall>y \<in> set ys. cmp x y = -1"
  proof (cases s)
    case True
    show ?thesis by (rule that [of "path_pre q @ inorder c" "path_post q"]) (use True b t' c inorder_root [of c q] in auto)
  next
    case False
    show ?thesis by (rule that [of "path_pre q" "inorder c @ path_post q"]) (use False b t' c inorder_root [of c q] in auto)
  qed
  have "ordered_by cmp (xs @ x # ys)"
    using o xy(3,4) unfolding bavl_root.simps xy(1) by (auto simp: ordered_append ordered_Cons)
  then show ?thesis using False b(1) t'(1,2) xy ins_by_middle [OF xy(3,4)] by (simp add: BAVL_Insert_def tree_ok_def)
qed

lemma insert_present:
  assumes "tree_ok cmp t" "y \<in> set (inorder t)" "cmp x y = 0"
  shows "BAVL_Insert cmp t x = Some (t, False)"
proof -
  have "t \<noteq> Null" using assms(2) by auto
  then obtain c q where "BAVL_find cmp x t [] = Some (Equal c q)"
    using lookup_exact [OF assms(1), of x] assms(2,3) by (auto simp: BAVL_LookupExact_def split: option.splits found.splits)
  then show ?thesis using \<open>t \<noteq> Null\<close> by (simp add: BAVL_Insert_def)
qed

lemma remove_tree:
  assumes "tree_ok cmp t" "bavl_root c q = t" "c \<noteq> Null"
  shows "\<exists>t'. BAVL_Remove c q = Some t' \<and> tree_ok cmp t' \<and> inorder t' = remove1 (nvalue c) (inorder t)"
proof -
  obtain l v k r where c: "c = BNode l v k r" using assms(3) by (cases c) auto
  have t: "inorder t = (path_pre q @ inorder l) @ v # inorder r @ path_post q" using assms(2) c inorder_root [of c q] by simp
  obtain t' where t': "BAVL_Remove c q = Some t'" "balanced t'" "inorder t' = path_pre q @ inorder l @ inorder r @ path_post q"
    using remove_ok [of l v k r q] assms(1,2) c by (auto simp: tree_ok_def)
  have o: "ordered_by cmp ((path_pre q @ inorder l) @ v # inorder r @ path_post q)" using assms(1) t by (simp add: tree_ok_def)
  have "v \<notin> set (path_pre q @ inorder l)" using o ordered_append [of "path_pre q @ inorder l" "v # inorder r @ path_post q"] by force
  then have "inorder t' = remove1 (nvalue c) (inorder t)" unfolding t t'(3) c by (simp add: remove1_append)
  moreover have "ordered_by cmp (inorder t')" unfolding t'(3) using o by (auto simp: ordered_append ordered_Cons)
  ultimately show ?thesis using t'(1,2) by (simp add: tree_ok_def)
qed

lemma verify_ok: "balanced t \<Longrightarrow> ordered_by cmp (inorder t) \<Longrightarrow> BAVL_assert_recurser cmp t = Some (bheight t)"
proof (induction t)
  case (BNode l v b r)
  have "cmp (nvalue l) v = -1" if "l \<noteq> Null"
    using root_value [OF that, of "[]"] BNode.prems(2) by (simp add: ordered_append ordered_Cons)
  moreover have "cmp v (nvalue r) = -1" if "r \<noteq> Null"
    using root_value [OF that, of "[]"] BNode.prems(2) by (simp add: ordered_append ordered_Cons)
  moreover have m: "BAVL_MAX x y = max x y" for x y by (simp add: BAVL_MAX_def max_def)
  ultimately show ?case using BNode unfolding BAVL_assert_recurser.simps m by (auto simp: ordered_append ordered_Cons)
qed simp

end

lemma B_COMPARE_order: "value_order (B_COMPARE :: 'a :: linorder \<Rightarrow> 'a \<Rightarrow> int)"
  by unfold_locales (auto simp: B_COMPARE_def split: if_splits)

interpretation ports: value_order "B_COMPARE :: u16 \<Rightarrow> u16 \<Rightarrow> int"
  by (rule B_COMPARE_order)

subsection \<open>Runs\<close>

text \<open>Operations on a tree that a client does: inserting a value, and removing the node that a lookup finds.  The result is the tree and
  what the operation returned.\<close>

datatype 'a bavl_op = OpInsert 'a | OpRemove 'a

definition BAVL_op :: "('a \<Rightarrow> 'a \<Rightarrow> int) \<Rightarrow> 'a BAVLNode \<Rightarrow> 'a bavl_op \<Rightarrow> ('a BAVLNode \<times> bool) option" where
  "BAVL_op cmp t x =
     (case x of
        OpInsert x \<Rightarrow> BAVL_Insert cmp t x
      | OpRemove x \<Rightarrow> (case BAVL_LookupExact cmp t x of
            None \<Rightarrow> Some (t, False)
          | Some (c, p) \<Rightarrow> map_option (\<lambda>t. (t, True)) (BAVL_Remove c p)))"

fun BAVL_run :: "('a \<Rightarrow> 'a \<Rightarrow> int) \<Rightarrow> 'a BAVLNode \<Rightarrow> 'a bavl_op list \<Rightarrow> ('a BAVLNode \<times> bool list) option" where
  "BAVL_run cmp t [] = Some (t, [])"
| "BAVL_run cmp t (x # xs) =
     (case BAVL_op cmp t x of None \<Rightarrow> None
      | Some (t, r) \<Rightarrow> map_option (\<lambda>(t, rs). (t, r # rs)) (BAVL_run cmp t xs))"

text \<open>The same on an ordered list.\<close>

definition list_op :: "('a \<Rightarrow> 'a \<Rightarrow> int) \<Rightarrow> 'a list \<Rightarrow> 'a bavl_op \<Rightarrow> 'a list \<times> bool" where
  "list_op cmp xs x =
     (case x of
        OpInsert x \<Rightarrow> if \<exists>y \<in> set xs. cmp x y = 0 then (xs, False) else (ins_by cmp x xs, True)
      | OpRemove x \<Rightarrow> if \<exists>y \<in> set xs. cmp x y = 0 then (filter (\<lambda>y. cmp x y \<noteq> 0) xs, True) else (xs, False))"

fun list_run :: "('a \<Rightarrow> 'a \<Rightarrow> int) \<Rightarrow> 'a list \<Rightarrow> 'a bavl_op list \<Rightarrow> 'a list \<times> bool list" where
  "list_run cmp xs [] = (xs, [])"
| "list_run cmp xs (x # ops) = (let (xs, r) = list_op cmp xs x; (xs, rs) = list_run cmp xs ops in (xs, r # rs))"

context value_order
begin

lemma remove1_equal:
  assumes "ordered_by cmp xs" "y \<in> set xs" "cmp x y = 0"
  shows "remove1 y xs = filter (\<lambda>z. cmp x z \<noteq> 0) xs"
  using assms
proof (induction xs)
  case (Cons z zs)
  have eq: "cmp x b \<noteq> 0" if "cmp x a = 0" "cmp a b = -1" for a b
  proof
    assume "cmp x b = 0"
    then have "cmp b x \<le> 0" using equal_swap [of x b] by simp
    then have "cmp b a \<le> 0" using cmp_trans [of b x a] that(1) by linarith
    then show False using cmp_swap [where x = a and y = b] that(2) by linarith
  qed
  show ?case
  proof (cases "z = y")
    case True
    then have "filter (\<lambda>z. cmp x z \<noteq> 0) zs = zs" using Cons.prems eq [of y] by (auto simp: ordered_Cons filter_id_conv)
    then show ?thesis using True Cons.prems by simp
  next
    case False
    then have "cmp z y = -1" "y \<in> set zs" using Cons.prems by (auto simp: ordered_Cons)
    then have "cmp x z \<noteq> 0" using eq [of z y] Cons.prems(3) by blast
    then show ?thesis using False Cons by (auto simp: ordered_Cons)
  qed
qed simp

lemma op_refines:
  assumes "tree_ok cmp t"
  shows "\<exists>t'. BAVL_op cmp t x = Some (t', snd (list_op cmp (inorder t) x)) \<and> tree_ok cmp t' \<and> inorder t' = fst (list_op cmp (inorder t) x)"
proof (cases x)
  case (OpInsert y)
  show ?thesis
  proof (cases "\<exists>z \<in> set (inorder t). cmp y z = 0")
    case True
    then show ?thesis using insert_present [OF assms, of _ y] assms OpInsert by (auto simp: BAVL_op_def list_op_def)
  next
    case False
    then show ?thesis using insert_new [OF assms, of y] OpInsert by (auto simp: BAVL_op_def list_op_def)
  qed
next
  case (OpRemove y)
  from lookup_exact [OF assms, of y] show ?thesis
  proof
    assume "\<exists>c q. BAVL_LookupExact cmp t y = Some (c, q) \<and> bavl_root c q = t \<and> c \<noteq> Null \<and> cmp y (nvalue c) = 0"
    then obtain c q where c: "BAVL_LookupExact cmp t y = Some (c, q)" "bavl_root c q = t" "c \<noteq> Null" "cmp y (nvalue c) = 0" by blast
    have v: "nvalue c \<in> set (inorder t)" using root_value [OF c(3), of q] c(2) by simp
    obtain t' where "BAVL_Remove c q = Some t'" "tree_ok cmp t'" "inorder t' = remove1 (nvalue c) (inorder t)"
      using remove_tree [OF assms c(2,3)] by blast
    moreover have "remove1 (nvalue c) (inorder t) = filter (\<lambda>z. cmp y z \<noteq> 0) (inorder t)"
      using remove1_equal [OF _ v c(4)] assms by (simp add: tree_ok_def)
    ultimately show ?thesis using c(1,4) v OpRemove by (auto simp: BAVL_op_def list_op_def)
  next
    assume "BAVL_LookupExact cmp t y = None \<and> (\<forall>z \<in> set (inorder t). cmp y z \<noteq> 0)"
    then show ?thesis using assms OpRemove by (auto simp: BAVL_op_def list_op_def)
  qed
qed

lemma run_refines:
  assumes "tree_ok cmp t"
  shows "\<exists>t'. BAVL_run cmp t ops = Some (t', snd (list_run cmp (inorder t) ops)) \<and> tree_ok cmp t' \<and> inorder t' = fst (list_run cmp (inorder t) ops)"
  using assms
proof (induction ops arbitrary: t)
  case (Cons x ops)
  from op_refines [OF Cons.prems, of x] obtain t1 where
    t1: "BAVL_op cmp t x = Some (t1, snd (list_op cmp (inorder t) x))" "tree_ok cmp t1" "inorder t1 = fst (list_op cmp (inorder t) x)" by blast
  from Cons.IH [OF t1(2)] show ?case using t1 by (auto split: prod.splits)
qed simp

end

text \<open>The nodes that are visited from the first one on.\<close>

fun BAVL_walk :: "nat \<Rightarrow> ('a BAVLNode \<times> 'a path) option \<Rightarrow> 'a list" where
  "BAVL_walk 0 z = []"
| "BAVL_walk (Suc n) None = []"
| "BAVL_walk (Suc n) (Some (c, p)) = nvalue c # BAVL_walk n (BAVL_GetNext c p)"

lemma walk_ok:
  assumes "bavl_root c p = t" "c \<noteq> Null"
  shows "BAVL_walk n (Some (c, p)) = take n (drop (length (before (c, p))) (inorder t))"
  using assms
proof (induction n arbitrary: c p)
  case (Suc n)
  obtain l v b r where c: "c = BNode l v b r" using Suc.prems(2) by (cases c) auto
  have i: "inorder t = before (c, p) @ v # inorder r @ path_post p" using Suc.prems(1) c inorder_root [of c p] by (simp add: before_def)
  show ?case
  proof (cases "BAVL_GetNext c p")
    case None
    then have "before (c, p) @ [v] = inorder t" using next_ok [OF c, of p] Suc.prems(1) by simp
    then have "drop (length (before (c, p))) (inorder t) = [v]" by (metis append_eq_conv_conj)
    then show ?thesis using None c by (cases n) simp_all
  next
    case (Some z)
    then have z: "bavl_root (fst z) (snd z) = t" "fst z \<noteq> Null" "before z = before (c, p) @ [v]"
      using next_ok [OF c, of p] Suc.prems(1) by simp_all
    have "BAVL_walk n (Some z) = take n (drop (Suc (length (before (c, p)))) (inorder t))"
      using Suc.IH [of "fst z" "snd z"] z by simp
    moreover have "drop (length (before (c, p))) (inorder t) = v # drop (Suc (length (before (c, p)))) (inorder t)" by (simp add: i)
    ultimately show ?thesis using Some c by (cases z) simp
  qed
qed simp

lemma find_depth:
  "BAVL_find cmp x t p = Some (Equal c q) \<or> BAVL_find cmp x t p = Some (Below c q s) \<Longrightarrow> int (length q) < int (length p) + bheight t"
proof (induction cmp x t p rule: BAVL_find.induct)
  case (2 cmp x l v b r p)
  have h: "bheight l < bheight (BNode l v b r)" "bheight r < bheight (BNode l v b r)" by simp_all
  show ?case
  proof (cases "c = BNode l v b r \<and> q = p")
    case True
    have "0 < bheight (BNode l v b r)" using h bheight_nonneg [of l] by linarith
    then show ?thesis using True by (simp del: bheight.simps)
  next
    case False
    then consider "int (length q) < int (length (Frame True v b l # p)) + bheight r" | "int (length q) < int (length (Frame False v b r # p)) + bheight l"
      using 2 by (simp del: bheight.simps split: if_splits)
    then show ?thesis using h by cases simp_all
  qed
qed simp

subsection \<open>Properties\<close>

text \<open>C8: The tree is an ordered set.  For every comparator that is a total order and every sequence of insertions and removals on the empty tree, no
  assertion of the code fails, every operation returns what it returns on the ordered list that is the
  reference, the values in order are that list, the tree is balanced, with correct balance factors, and
  \<open>BAVL_Verify\<close> accepts it.\<close>

theorem BAVL_refines_list:
  assumes "value_order cmp"
  shows "\<exists>t. BAVL_run cmp Null ops = Some (t, snd (list_run cmp [] ops)) \<and> inorder t = fst (list_run cmp [] ops) \<and>
    balanced t \<and> ordered_by cmp (inorder t) \<and> BAVL_Verify cmp t"
proof -
  have "tree_ok cmp Null" by (simp add: tree_ok_def ordered_by_def)
  from value_order.run_refines [OF assms this, of ops] show ?thesis
    using value_order.verify_ok [OF assms] by (fastforce simp: tree_ok_def BAVL_Verify_def)
qed

theorem BAVL_refines_list_witness:
  "\<exists>t. BAVL_run B_COMPARE Null [OpInsert (3 :: u16), OpInsert 2, OpInsert 1, OpInsert 2, OpRemove 3] = Some (t, [True, True, True, False, True]) \<and>
     inorder t = [1, 2]"
  using BAVL_refines_list [OF B_COMPARE_order, of "[OpInsert (3 :: u16), OpInsert 2, OpInsert 1, OpInsert 2, OpRemove 3]"]
  by (auto simp: list_op_def B_COMPARE_def)

text \<open>Walking a tree from its first node with \<open>BAVL_GetNext\<close> visits every value once, in order, and ends; \<open>BAVL_GetPrev\<close> goes from a node of the
  same tree to the node with the value just before its own, and from the first node nowhere.\<close>

theorem BAVL_walk_inorder:
  "BAVL_walk n (BAVL_GetFirst t) = take n (inorder t) \<and>
   (case BAVL_GetPrev (BNode l v b r) p of
      None \<Rightarrow> before (BNode l v b r, p) = []
    | Some (c, q) \<Rightarrow> bavl_root c q = bavl_root (BNode l v b r) p \<and> before (c, q) @ [nvalue c] = before (BNode l v b r, p))"
proof -
  have "BAVL_walk n (BAVL_GetFirst t) = take n (inorder t)"
  proof (cases "t = Null")
    case True
    then show ?thesis by (cases n) (simp_all add: BAVL_GetFirst_def)
  next
    case False
    then show ?thesis
      using subtree_end_ok [OF False, of False "[]"] walk_ok [of "fst (subtree_end False t [])" "snd (subtree_end False t [])" t n]
      by (simp add: BAVL_GetFirst_def)
  qed
  then show ?thesis using prev_ok [OF refl, of l v b r p] by (auto split: option.splits)
qed

text \<open>A search in a balanced tree of \<open>n\<close> values goes down at most \<open>2 log2 (n + 1)\<close> levels, whatever the comparator answers.\<close>

theorem BAVL_search_depth:
  assumes "balanced t" "BAVL_Lookup cmp t x = Some (c, p)"
  shows "2 ^ (length p div 2) \<le> length (inorder t) + 1"
proof -
  have "\<exists>s. BAVL_find cmp x t [] = Some (Equal c p) \<or> BAVL_find cmp x t [] = Some (Below c p s)"
    using assms(2) by (auto simp: BAVL_Lookup_def split: option.splits found.splits)
  then have "int (length p) < bheight t" using find_depth [of cmp x t "[]" c p] by auto
  then have "length p div 2 \<le> nat (bheight t div 2)" by linarith
  then have "(2 :: nat) ^ (length p div 2) \<le> 2 ^ nat (bheight t div 2)" by (rule power_increasing) simp
  then show ?thesis using height_log [OF assms(1)] by linarith
qed

theorem BAVL_search_depth_witness:
  "(2 :: nat) ^ (length [Frame False (2 :: u16) 0 (BNode Null 3 0 Null)] div 2) \<le> 4"
  using BAVL_search_depth [of "BNode (BNode Null 1 0 Null) (2 :: u16) 0 (BNode Null 3 0 Null)" B_COMPARE 1 "BNode Null 1 0 Null"
      "[Frame False 2 0 (BNode Null 3 0 Null)]"]
  by (simp add: BAVL_Lookup_def B_COMPARE_def)

end
