(* ===== verification/UdpGw.thy ===== *)
theory UdpGw
  imports IpUdp Bavl FlowInterfaces
begin

text \<open>
  \<open>badvpn/tun2socks/SocksUdpGwClient.c\<close> (as built for Android) with \<open>badvpn/flow/BufferWriter.c\<close>, \<open>badvpn/protocol/udpgw_proto.h\<close>,
  \<open>badvpn/misc/bsize.h\<close> and the order of addresses of \<open>badvpn/system/BAddr.h\<close>: UDP datagrams of the tunnel are relayed over one UDP
  socket per local address, with the header of the SOCKS UDP association in front, or, for DNS queries, as
  they are.  Connections are found in an AVL tree by their local address and kept in the order of
  their last use; at the limit the one used longest ago is freed.

  A connection is identified by a number; \<open>ug_conns\<close> is the heap.  A node of the tree carries the local address the
  comparator reads and the connection it is embedded in.  \<open>None\<close> stands for a failed assertion, a write past
  a buffer, or a use of freed memory.  \<open>ug_sent\<close> (destination and contents of every datagram
  handed to a socket) and \<open>ug_received\<close> (arguments of \<open>handler_received\<close>) are history.  The packet a new connection is made
  for stays in the buffer of the device until the first job of the connection has sent it; \<open>uc_first_data\<close> is its contents.
\<close>

subsection \<open>Sizes\<close>

record bsize_t =
  is_overflow :: bool
  bs_value :: nat

definition bsize_fromsize :: "nat \<Rightarrow> bsize_t" where
  "bsize_fromsize v = \<lparr>is_overflow = False, bs_value = v\<rparr>"

definition bsize_fromint :: "nat \<Rightarrow> int \<Rightarrow> bsize_t" where
  "bsize_fromint size_max v = \<lparr>is_overflow = (v < 0 \<or> v > int size_max), bs_value = nat (v mod (int size_max + 1))\<rparr>"

definition bsize_add :: "nat \<Rightarrow> bsize_t \<Rightarrow> bsize_t \<Rightarrow> bsize_t" where
  "bsize_add size_max s1 s2 =
     \<lparr>is_overflow = (is_overflow s1 \<or> is_overflow s2 \<or> bs_value s2 > size_max - bs_value s1),
      bs_value = (bs_value s1 + bs_value s2) mod (size_max + 1)\<rparr>"

definition bsize_max :: "bsize_t \<Rightarrow> bsize_t \<Rightarrow> bsize_t" where
  "bsize_max s1 s2 =
     \<lparr>is_overflow = (is_overflow s1 \<or> is_overflow s2), bs_value = (if bs_value s1 > bs_value s2 then bs_value s1 else bs_value s2)\<rparr>"

definition INT_MAX :: int where "INT_MAX = 2147483647"

definition bsize_toint :: "bsize_t \<Rightarrow> int option" where
  "bsize_toint s = (if is_overflow s \<or> int (bs_value s) > INT_MAX then None else Some (int (bs_value s)))"

definition udpgw_compute_mtu :: "nat \<Rightarrow> int \<Rightarrow> int" where
  "udpgw_compute_mtu size_max dgram_mtu =
     (let bs = bsize_add size_max (bsize_fromsize 4)
                 (bsize_add size_max (bsize_max (bsize_fromsize 6) (bsize_fromsize 18)) (bsize_fromint size_max dgram_mtu))
      in case bsize_toint bs of None \<Rightarrow> -1 | Some s \<Rightarrow> s)"

subsection \<open>The order of addresses\<close>

fun memcmp :: "bytes \<Rightarrow> bytes \<Rightarrow> int" where
  "memcmp (a # as) (b # bs) = (if a < b then -1 else if a > b then 1 else memcmp as bs)"
| "memcmp [] (b # bs) = -1"
| "memcmp (a # as) [] = 1"
| "memcmp [] [] = 0"

definition BADDR_TYPE :: "BAddr \<Rightarrow> int" where
  "BADDR_TYPE a = (case a of BAddrNone \<Rightarrow> 0 | BAddrIPv4 _ _ \<Rightarrow> 1 | BAddrIPv6 _ _ \<Rightarrow> 2)"

definition BAddr_CompareOrder :: "BAddr \<Rightarrow> BAddr \<Rightarrow> int" where
  "BAddr_CompareOrder addr1 addr2 =
     (let cmp = B_COMPARE (BADDR_TYPE addr1) (BADDR_TYPE addr2) in
      if cmp \<noteq> 0 then cmp
      else case (addr1, addr2) of
        (BAddrIPv4 ip1 port1, BAddrIPv4 ip2 port2) \<Rightarrow>
          (let cmp = B_COMPARE (ntoh32 ip1) (ntoh32 ip2) in
           if cmp \<noteq> 0 then cmp else B_COMPARE (ntoh16 port1) (ntoh16 port2))
      | (BAddrIPv6 ip1 port1, BAddrIPv6 ip2 port2) \<Rightarrow>
          (let cmp = memcmp ip1 ip2 in
           if cmp \<noteq> 0 then B_COMPARE cmp 0 else B_COMPARE (ntoh16 port1) (ntoh16 port2))
      | _ \<Rightarrow> 0)"

subsection \<open>Buffer writer\<close>

record BufferWriter =
  bw_recv_interface :: PacketRecvInterface
  bw_out_have :: bool
  bw_d_mtu :: int
  bw_d_writing :: bool

definition bw_output_handler_recv :: "BufferWriter \<Rightarrow> BufferWriter option" where
  "bw_output_handler_recv o' = (if bw_out_have o' then None else Some (o'\<lparr>bw_out_have := True\<rparr>))"

definition BufferWriter_Init :: "int \<Rightarrow> BufferWriter option" where
  "BufferWriter_Init mtu =
     (if \<not> mtu \<ge> 0 then None
      else Some \<lparr>bw_recv_interface = PacketRecvInterface_Init mtu, bw_out_have = False, bw_d_mtu = mtu, bw_d_writing = False\<rparr>)"

definition BufferWriter_StartPacket :: "BufferWriter \<Rightarrow> (BufferWriter \<times> bool) option" where
  "BufferWriter_StartPacket o' =
     (if bw_d_writing o' then None
      else if \<not> bw_out_have o' then Some (o', False)
      else Some (o'\<lparr>bw_d_writing := True\<rparr>, True))"

definition BufferWriter_EndPacket :: "BufferWriter \<Rightarrow> int \<Rightarrow> BufferWriter option" where
  "BufferWriter_EndPacket o' len =
     (if \<not> len \<ge> 0 \<or> \<not> len \<le> bw_d_mtu o' \<or> \<not> bw_out_have o' \<or> \<not> bw_d_writing o' then None
      else map_option (\<lambda>i. o'\<lparr>bw_out_have := False, bw_recv_interface := i, bw_d_writing := False\<rparr>)
             (PacketRecvInterface_Done (bw_recv_interface o') len))"

subsection \<open>Connections\<close>

record SocksUdpGwClient_connection =
  uc_local_addr :: BAddr
  uc_remote_addr :: BAddr
  uc_first_job :: bool
  uc_first_data :: bytes
  uc_is_dns :: bool
  uc_send_addr :: BAddr
  uc_udp_send_writer :: BufferWriter
  uc_udp_recv_if :: PacketPassInterface

record SocksUdpGwClient =
  ug_udp_mtu :: int
  ug_udpgw_mtu :: int
  ug_socks_server_addr :: BAddr
  ug_dnsgw :: BAddr
  ug_num_connections :: int
  ug_max_connections :: int
  ug_connections_tree :: "(BAddr \<times> nat) BAVLNode"
  ug_connections_list :: "nat list"
  ug_conns :: "nat \<Rightarrow> SocksUdpGwClient_connection option"
  ug_next :: nat
  ug_sent :: "(BAddr \<times> bytes) list"
  ug_received :: "(BAddr \<times> BAddr \<times> bytes) list"

definition SOCKS_ATYP_IPV4 :: byte where "SOCKS_ATYP_IPV4 = 1"
definition SOCKS_ATYP_IPV6 :: byte where "SOCKS_ATYP_IPV6 = 4"

definition conaddr_comparator :: "BAddr \<times> nat \<Rightarrow> BAddr \<times> nat \<Rightarrow> int" where
  "conaddr_comparator v1 v2 = BAddr_CompareOrder (fst v1) (fst v2)"

text \<open>The test on \<open>is_dns\<close> in \<open>find_connection\<close> has the condition \<open>!con && \<dots>\<close>, which is false for every connection found.\<close>

text \<open>The connection a node belongs to is never null, so the test in \<open>find_connection\<close> never holds.\<close>

definition find_connection :: "SocksUdpGwClient \<Rightarrow> BAddr \<Rightarrow> bool \<Rightarrow> nat option" where
  "find_connection o' local_addr is_dns =
     (case BAVL_LookupExact conaddr_comparator (ug_connections_tree o') (local_addr, 0) of
        None \<Rightarrow> None
      | Some (tree_node, _) \<Rightarrow>
          let con = Some (snd (nvalue tree_node))
          in if con = None \<and> map_option uc_is_dns (ug_conns o' (the con)) \<noteq> Some is_dns then None else con)"

text \<open>The header and the address in front of a datagram for the SOCKS server.\<close>

definition socks_udp_header_image :: "BAddr \<Rightarrow> bytes" where
  "socks_udp_header_image remote_addr =
     [0, 0, 0, (case remote_addr of BAddrIPv4 _ _ \<Rightarrow> SOCKS_ATYP_IPV4 | _ \<Rightarrow> SOCKS_ATYP_IPV6)]"

definition udpgw_addr_image :: "BAddr \<Rightarrow> bytes" where
  "udpgw_addr_image remote_addr =
     (case remote_addr of
        BAddrIPv4 ip port \<Rightarrow> le32_bytes ip @ le16_bytes port
      | BAddrIPv6 ip port \<Rightarrow> take 16 ip @ le16_bytes port
      | BAddrNone \<Rightarrow> [])"

text \<open>Copying into the packet under construction, which has room for the given number of bytes.\<close>

definition copy_out :: "int \<Rightarrow> bytes option \<Rightarrow> bytes \<Rightarrow> bytes option" where
  "copy_out mtu packet data =
     (case packet of None \<Rightarrow> None | Some out \<Rightarrow> if int (length out + length data) > mtu then None else Some (out @ data))"

text \<open>The connection afterwards and the datagram, or none when the buffer was full (result 1).\<close>

definition connection_send :: "SocksUdpGwClient_connection \<Rightarrow> bytes \<Rightarrow> (SocksUdpGwClient_connection \<times> bytes option) option" where
  "connection_send o' data =
     (case BufferWriter_StartPacket (uc_udp_send_writer o') of
        None \<Rightarrow> None
      | Some (w, False) \<Rightarrow> Some (o'\<lparr>uc_udp_send_writer := w\<rparr>, None)
      | Some (w, True) \<Rightarrow>
          let mtu = bw_d_mtu w;
              out = Some [];
              out = (if \<not> uc_is_dns o'
                     then copy_out mtu (copy_out mtu out (socks_udp_header_image (uc_remote_addr o'))) (udpgw_addr_image (uc_remote_addr o'))
                     else out);
              out = copy_out mtu out data
          in (case out of None \<Rightarrow> None
              | Some packet \<Rightarrow>
                  map_option (\<lambda>w. (o'\<lparr>uc_udp_send_writer := w\<rparr>, Some packet)) (BufferWriter_EndPacket w (int (length packet)))))"

text \<open>Storing a connection after a send, with the datagram in the history.\<close>

definition after_send :: "SocksUdpGwClient \<Rightarrow> nat \<Rightarrow> SocksUdpGwClient_connection \<Rightarrow> bytes option \<Rightarrow> SocksUdpGwClient" where
  "after_send c i con packet =
     c\<lparr>ug_conns := (ug_conns c)(i \<mapsto> con),
       ug_sent := ug_sent c @ (case packet of None \<Rightarrow> [] | Some p \<Rightarrow> [(uc_send_addr con, p)])\<rparr>"

definition connection_first_job_handler :: "SocksUdpGwClient \<Rightarrow> nat \<Rightarrow> SocksUdpGwClient option" where
  "connection_first_job_handler c i =
     (case ug_conns c i of None \<Rightarrow> None
      | Some con \<Rightarrow>
          map_option (\<lambda>(con, packet). after_send c i con packet) (connection_send (con\<lparr>uc_first_job := False\<rparr>) (uc_first_data con)))"

text \<open>What can fail when a connection is made.\<close>

record connection_env =
  ce_malloc :: bool
  ce_dgram :: bool
  ce_reuse :: bool
  ce_packet_buffer :: bool
  ce_recv_buffer :: bool

text \<open>\<open>PacketBuffer_Init\<close> becomes the user of the writer's interface and asks it for a packet; the receive buffer becomes the
  user of the receive interface.  The result says whether the connection was made.\<close>

definition connection_init :: "connection_env \<Rightarrow> SocksUdpGwClient \<Rightarrow> BAddr \<Rightarrow> BAddr \<Rightarrow> bytes \<Rightarrow> bool \<Rightarrow> (SocksUdpGwClient \<times> bool) option" where
  "connection_init env client local_addr remote_addr data is_dns =
     (if \<not> ce_malloc env then Some (client, False)
      else if \<not> ce_dgram env then Some (client, False)
      else if \<not> ce_reuse env then Some (client, False)
      else
        let send_addr = (if is_dns then ug_dnsgw client else ug_socks_server_addr client) in
        case BufferWriter_Init (ug_udp_mtu client) of None \<Rightarrow> None
        | Some w \<Rightarrow>
            if \<not> ce_packet_buffer env then Some (client, False)
            else
              (case Option.bind (PacketRecvInterface_Receiver_Init (bw_recv_interface w)) (\<lambda>i. PacketRecvInterface_Receiver_Recv i (Some 0)) of
                 None \<Rightarrow> None
               | Some wi \<Rightarrow>
                   if \<not> ce_recv_buffer env then Some (client, False)
                   else
                     (case PacketPassInterface_Sender_Init (PacketPassInterface_Init (ug_udp_mtu client)) of None \<Rightarrow> None
                      | Some ri \<Rightarrow>
                          let i = ug_next client;
                              con = \<lparr>uc_local_addr = local_addr, uc_remote_addr = remote_addr, uc_first_job = True, uc_first_data = data,
                                     uc_is_dns = is_dns, uc_send_addr = send_addr,
                                     uc_udp_send_writer = w\<lparr>bw_recv_interface := wi\<rparr>, uc_udp_recv_if = ri\<rparr>
                          in (case BAVL_Insert conaddr_comparator (ug_connections_tree client) (local_addr, i) of
                                Some (t, True) \<Rightarrow>
                                  Some (client\<lparr>ug_conns := (ug_conns client)(i \<mapsto> con), ug_next := i + 1, ug_connections_tree := t,
                                               ug_connections_list := ug_connections_list client @ [i],
                                               ug_num_connections := ug_num_connections client + 1\<rparr>, True)
                              | _ \<Rightarrow> None))))"

text \<open>Nothing takes the first job of a freed connection off the list of pending jobs: when it is still to run, it runs on freed memory.\<close>

definition connection_free :: "SocksUdpGwClient \<Rightarrow> nat \<Rightarrow> SocksUdpGwClient option" where
  "connection_free client i =
     (case ug_conns client i of None \<Rightarrow> None
      | Some con \<Rightarrow>
          if uc_first_job con then None
          else
          let client = client\<lparr>ug_num_connections := ug_num_connections client - 1\<rparr> in
          if i \<notin> set (ug_connections_list client) then None
          else
            let client = client\<lparr>ug_connections_list := remove1 i (ug_connections_list client)\<rparr> in
            (case BAVL_LookupExact conaddr_comparator (ug_connections_tree client) (uc_local_addr con, i) of
               None \<Rightarrow> None
             | Some (node, path) \<Rightarrow>
                 if snd (nvalue node) \<noteq> i then None
                 else map_option (\<lambda>t. client\<lparr>ug_connections_tree := t, ug_conns := (ug_conns client)(i := None)\<rparr>)
                        (BAVL_Remove node path)))"

definition remove_lru_connection :: "SocksUdpGwClient \<Rightarrow> BAddr \<Rightarrow> bool \<Rightarrow> SocksUdpGwClient option" where
  "remove_lru_connection o' local_addr is_dns =
     (if find_connection o' local_addr is_dns \<noteq> None \<or> \<not> ug_num_connections o' > 0 then None
      else case ug_connections_list o' of [] \<Rightarrow> None | con # _ \<Rightarrow> connection_free o' con)"

definition reset_connection :: "SocksUdpGwClient_connection \<Rightarrow> BAddr \<Rightarrow> BAddr \<Rightarrow> bool \<Rightarrow> SocksUdpGwClient_connection" where
  "reset_connection con local_addr remote_addr is_dns =
     con\<lparr>uc_local_addr := local_addr, uc_remote_addr := remote_addr, uc_is_dns := is_dns\<rparr>"

definition is_ip :: "BAddr \<Rightarrow> bool" where
  "is_ip a \<longleftrightarrow> (case a of BAddrNone \<Rightarrow> False | _ \<Rightarrow> True)"

definition SocksUdpGwClient_SubmitPacket ::
  "connection_env \<Rightarrow> SocksUdpGwClient \<Rightarrow> BAddr \<Rightarrow> BAddr \<Rightarrow> bool \<Rightarrow> bytes \<Rightarrow> SocksUdpGwClient option" where
  "SocksUdpGwClient_SubmitPacket env o' local_addr remote_addr is_dns data =
     (if \<not> is_ip local_addr \<or> \<not> is_ip remote_addr \<or> \<not> int (length data) \<le> ug_udp_mtu o' then None
      else
        case find_connection o' local_addr is_dns of
          None \<Rightarrow>
            (case (if ug_num_connections o' = ug_max_connections o' then remove_lru_connection o' local_addr is_dns else Some o') of
               None \<Rightarrow> None
             | Some o' \<Rightarrow> map_option fst (connection_init env o' local_addr remote_addr data is_dns))
        | Some i \<Rightarrow>
            (case ug_conns o' i of None \<Rightarrow> None
             | Some con \<Rightarrow>
                 (case connection_send (reset_connection con local_addr remote_addr is_dns) data of
                    None \<Rightarrow> None
                  | Some (con, None) \<Rightarrow> Some (after_send o' i con None)
                  | Some (con, Some packet) \<Rightarrow>
                      if i \<notin> set (ug_connections_list o') then None
                      else Some ((after_send o' i con (Some packet))
                             \<lparr>ug_connections_list := remove1 i (ug_connections_list o') @ [i]\<rparr>))))"

text \<open>The address a datagram of the SOCKS server starts with, and the rest; none when it is refused.\<close>

definition parse_socks_udp :: "bytes \<Rightarrow> (BAddr \<times> bytes) option" where
  "parse_socks_udp data =
     (if length data < 4 then None
      else
        let frag = data ! 2; atyp = data ! 3; data = drop 4 data in
        if frag \<noteq> 0 then None
        else if atyp = SOCKS_ATYP_IPV6 then
          if length data < 18 then None
          else Some (BAddr_MakeIPv6 (take 16 data) (le16_of (drop 16 data)), drop 18 data)
        else
          if length data < 6 then None
          else Some (BAddr_MakeIPv4 (le32_of data) (le16_of (drop 4 data)), drop 6 data))"

definition dgram_handler_received :: "SocksUdpGwClient \<Rightarrow> nat \<Rightarrow> bytes \<Rightarrow> SocksUdpGwClient option" where
  "dgram_handler_received client i data =
     (case ug_conns client i of None \<Rightarrow> None
      | Some o' \<Rightarrow>
          if \<not> int (length data) \<le> ug_udpgw_mtu client then None
          else case PacketPassInterface_Done (uc_udp_recv_if o') of None \<Rightarrow> None
          | Some ri \<Rightarrow>
              let o' = o'\<lparr>uc_udp_recv_if := ri\<rparr>;
                  parsed = (if \<not> uc_is_dns o' then parse_socks_udp data else Some (uc_remote_addr o', data))
              in (case parsed of
                    None \<Rightarrow> Some (client\<lparr>ug_conns := (ug_conns client)(i \<mapsto> o')\<rparr>)
                  | Some (remote_addr, data) \<Rightarrow>
                      let o' = o'\<lparr>uc_remote_addr := remote_addr\<rparr>;
                          client = client\<lparr>ug_conns := (ug_conns client)(i \<mapsto> o')\<rparr>
                      in if int (length data) > ug_udp_mtu client then Some client
                         else Some (client\<lparr>ug_received := ug_received client @ [(uc_local_addr o', remote_addr, data)]\<rparr>)))"

text \<open>\<open>SocksUdpGwClient_Init\<close> does not assign \<open>num_connections\<close> on Android; the client is part of a global of \<open>tun2socks.c\<close>, which is zeroed.\<close>

definition SocksUdpGwClient_Init :: "nat \<Rightarrow> int \<Rightarrow> int \<Rightarrow> BAddr \<Rightarrow> BAddr \<Rightarrow> SocksUdpGwClient option" where
  "SocksUdpGwClient_Init size_max udp_mtu max_connections socks_server_addr dnsgw =
     (if socks_server_addr = BAddrNone then None
      else Some \<lparr>ug_udp_mtu = udp_mtu, ug_udpgw_mtu = udpgw_compute_mtu size_max udp_mtu, ug_socks_server_addr = socks_server_addr,
             ug_dnsgw = dnsgw, ug_num_connections = 0, ug_max_connections = (if max_connections > 65536 then 65536 else max_connections),
             ug_connections_tree = Null, ug_connections_list = [], ug_conns = (\<lambda>_. None), ug_next = 0, ug_sent = [], ug_received = []\<rparr>)"

lemma connection_free_shorter:
  "connection_free c i = Some c' \<Longrightarrow> length (ug_connections_list c') < length (ug_connections_list c)"
  by (auto simp: connection_free_def Let_def length_remove1 split: option.splits if_splits prod.splits intro!: diff_less length_pos_if_in_set)

function free_connections :: "SocksUdpGwClient \<Rightarrow> SocksUdpGwClient option" where
  "free_connections o' =
     (case ug_connections_list o' of
        [] \<Rightarrow> Some o'
      | con # _ \<Rightarrow> (case connection_free o' con of None \<Rightarrow> None | Some o' \<Rightarrow> free_connections o'))"
  by pat_completeness auto

termination
  by (relation "measure (\<lambda>c. length (ug_connections_list c))") (auto dest: connection_free_shorter)

declare free_connections.simps [simp del]

definition SocksUdpGwClient_Free :: "SocksUdpGwClient \<Rightarrow> SocksUdpGwClient option" where
  "SocksUdpGwClient_Free o' = free_connections o'"

subsection \<open>The order of addresses is a total order\<close>

context value_order
begin

lemma less_le_trans: "cmp x y = -1 \<Longrightarrow> cmp y z \<le> 0 \<Longrightarrow> cmp x z = -1"
proof -
  assume a: "cmp x y = -1" "cmp y z \<le> 0"
  have "cmp x z \<le> 0" using cmp_trans [of x y z] a by linarith
  moreover have "cmp x z \<noteq> 0"
  proof
    assume "cmp x z = 0"
    then have "cmp z x \<le> 0" using cmp_swap [where x = x and y = z] by linarith
    then have "cmp y x \<le> 0" using cmp_trans [of y z x] a(2) by blast
    then show False using a(1) cmp_swap [where x = x and y = y] by linarith
  qed
  ultimately show ?thesis using cmp_range [of x z] by linarith
qed

lemma le_less_trans: "cmp x y \<le> 0 \<Longrightarrow> cmp y z = -1 \<Longrightarrow> cmp x z = -1"
proof -
  assume a: "cmp x y \<le> 0" "cmp y z = -1"
  have "cmp x z \<le> 0" using cmp_trans [of x y z] a by linarith
  moreover have "cmp x z \<noteq> 0"
  proof
    assume "cmp x z = 0"
    then have "cmp z x \<le> 0" using cmp_swap [where x = x and y = z] by linarith
    then have "cmp z y \<le> 0" using cmp_trans [of z x y] a(1) by blast
    then show False using a(2) cmp_swap [where x = y and y = z] by linarith
  qed
  ultimately show ?thesis using cmp_range [of x z] by linarith
qed

end

lemma order_key: "value_order (\<lambda>x y. B_COMPARE (k x) (k y))"
  by unfold_locales (auto simp: B_COMPARE_def split: if_splits)

lemma order_image: "value_order cmp \<Longrightarrow> value_order (\<lambda>x y. cmp (k x) (k y))"
  unfolding value_order_def by blast

definition lex_cmp :: "('a \<Rightarrow> 'a \<Rightarrow> int) \<Rightarrow> ('a \<Rightarrow> 'a \<Rightarrow> int) \<Rightarrow> 'a \<Rightarrow> 'a \<Rightarrow> int" where
  "lex_cmp f g x y = (if f x y \<noteq> 0 then f x y else g x y)"

lemma order_lex:
  assumes f: "value_order f" and g: "value_order g"
  shows "value_order (lex_cmp f g)"
proof
  fix x y z
  show "lex_cmp f g x y = -1 \<or> lex_cmp f g x y = 0 \<or> lex_cmp f g x y = 1"
    using value_order.cmp_range [OF f, of x y] value_order.cmp_range [OF g, of x y] by (auto simp: lex_cmp_def)
  show "lex_cmp f g y x = - lex_cmp f g x y"
    using value_order.cmp_swap [OF f, where x = x and y = y] value_order.cmp_swap [OF g, where x = x and y = y] by (simp add: lex_cmp_def)
  assume a: "lex_cmp f g x y \<le> 0" "lex_cmp f g y z \<le> 0"
  then have f0: "f x y \<le> 0" "f y z \<le> 0" by (auto simp: lex_cmp_def split: if_splits)
  then consider "f x y = -1" | "f y z = -1" | (z) "f x y = 0" "f y z = 0"
    using value_order.cmp_range [OF f, of x y] value_order.cmp_range [OF f, of y z] by linarith
  then show "lex_cmp f g x z \<le> 0"
  proof cases
    case 1
    then show ?thesis using value_order.less_le_trans [OF f 1 f0(2)] by (simp add: lex_cmp_def)
  next
    case 2
    then show ?thesis using value_order.le_less_trans [OF f f0(1) 2] by (simp add: lex_cmp_def)
  next
    case z
    then have "g x y \<le> 0" "g y z \<le> 0" using a by (simp_all add: lex_cmp_def)
    then have "g x z \<le> 0" using value_order.cmp_trans [OF g] by blast
    moreover have "f x z \<le> 0" using value_order.cmp_trans [OF f f0] .
    ultimately show ?thesis by (simp add: lex_cmp_def)
  qed
qed

lemma memcmp_eq: "memcmp xs ys = 0 \<longleftrightarrow> xs = ys"
  by (induction xs ys rule: memcmp.induct) auto

lemma memcmp_order: "value_order memcmp"
proof
  fix x y z :: bytes
  show "memcmp x y = -1 \<or> memcmp x y = 0 \<or> memcmp x y = 1" by (induction x y rule: memcmp.induct) auto
  show "memcmp y x = - memcmp x y" by (induction x y rule: memcmp.induct) auto
  show "memcmp x y \<le> 0 \<Longrightarrow> memcmp y z \<le> 0 \<Longrightarrow> memcmp x z \<le> 0"
  proof (induction x y arbitrary: z rule: memcmp.induct)
    case (1 a as b bs)
    then show ?case by (cases z) (auto split: if_splits)
  next
    case (2 b bs)
    then show ?case by (cases z) (auto split: if_splits)
  qed simp_all
qed

definition addr_ip4 :: "BAddr \<Rightarrow> u32" where
  "addr_ip4 a = (case a of BAddrIPv4 ip _ \<Rightarrow> ntoh32 ip | _ \<Rightarrow> 0)"

definition addr_ip6 :: "BAddr \<Rightarrow> bytes" where
  "addr_ip6 a = (case a of BAddrIPv6 ip _ \<Rightarrow> ip | _ \<Rightarrow> [])"

definition addr_port :: "BAddr \<Rightarrow> u16" where
  "addr_port a = (case a of BAddrIPv4 _ port \<Rightarrow> ntoh16 port | BAddrIPv6 _ port \<Rightarrow> ntoh16 port | _ \<Rightarrow> 0)"

lemma B_COMPARE_eq [simp]: "B_COMPARE x x = 0" by (simp add: B_COMPARE_def)

lemma B_COMPARE_zero: "B_COMPARE x y = 0 \<longleftrightarrow> x = y" by (auto simp: B_COMPARE_def)

lemma memcmp_sign: "B_COMPARE (memcmp xs ys) 0 = memcmp xs ys"
  using value_order.cmp_range [OF memcmp_order, of xs ys] by (auto simp: B_COMPARE_def)

lemma compare_lex:
  "BAddr_CompareOrder =
     lex_cmp (\<lambda>x y. B_COMPARE (BADDR_TYPE x) (BADDR_TYPE y)) (lex_cmp (\<lambda>x y. B_COMPARE (addr_ip4 x) (addr_ip4 y))
       (lex_cmp (\<lambda>x y. memcmp (addr_ip6 x) (addr_ip6 y)) (\<lambda>x y. B_COMPARE (addr_port x) (addr_port y))))"
proof (intro ext)
  fix a b
  show "BAddr_CompareOrder a b =
     lex_cmp (\<lambda>x y. B_COMPARE (BADDR_TYPE x) (BADDR_TYPE y)) (lex_cmp (\<lambda>x y. B_COMPARE (addr_ip4 x) (addr_ip4 y))
       (lex_cmp (\<lambda>x y. memcmp (addr_ip6 x) (addr_ip6 y)) (\<lambda>x y. B_COMPARE (addr_port x) (addr_port y)))) a b"
    by (cases a; cases b)
      (simp_all add: BAddr_CompareOrder_def lex_cmp_def BADDR_TYPE_def addr_ip4_def addr_ip6_def addr_port_def memcmp_sign Let_def, simp_all add: B_COMPARE_def)
qed

lemma BAddr_order: "value_order BAddr_CompareOrder"
  unfolding compare_lex by (intro order_lex order_key order_image [OF memcmp_order])

lemma ntoh_inj: "ntoh16 p = ntoh16 q \<longleftrightarrow> p = q" "ntoh32 i = ntoh32 j \<longleftrightarrow> i = j"
proof -
  show "ntoh16 p = ntoh16 q \<longleftrightarrow> p = q" by (metis hton16_inverse(3))
  have "rev (le32_bytes x) = le32_bytes (ntoh32 x)" for x by (simp add: ntoh32_def hton32_image)
  then show "ntoh32 i = ntoh32 j \<longleftrightarrow> i = j" by (metis le_of_bytes_self(2) rev_rev_ident)
qed

lemma compare_equal: "BAddr_CompareOrder a b = 0 \<longleftrightarrow> a = b"
  by (cases a; cases b)
    (auto simp: BAddr_CompareOrder_def BADDR_TYPE_def Let_def B_COMPARE_zero memcmp_eq memcmp_sign ntoh_inj)

interpretation conaddr: value_order conaddr_comparator
  unfolding conaddr_comparator_def by (rule order_image [OF BAddr_order])

subsection \<open>Events\<close>

datatype ug_event =
    Submit connection_env BAddr BAddr bool bytes
  | FirstJob nat
  | WriterReady nat
  | WriterDone nat
  | WriterRequest nat
  | Datagram nat bytes

definition on_conn :: "SocksUdpGwClient \<Rightarrow> nat \<Rightarrow> (SocksUdpGwClient_connection \<Rightarrow> bool) \<Rightarrow> bool" where
  "on_conn c i P \<longleftrightarrow> (case ug_conns c i of None \<Rightarrow> False | Some con \<Rightarrow> P con)"

definition first_jobs_done :: "SocksUdpGwClient \<Rightarrow> bool" where
  "first_jobs_done c \<longleftrightarrow> list_all (\<lambda>i. \<not> on_conn c i uc_first_job) (ug_connections_list c)"

text \<open>What can happen: a packet is submitted (the job set last runs first, so a first job has run before the next packet is
  taken from the device; this is an assumption here, on which the safety of \<open>connection_free\<close> rests, since it does not free the first
  job), a scheduled job runs, the packet buffer asks for a packet, and a datagram of at most the
  size of the receive buffer arrives.\<close>

fun ug_possible :: "SocksUdpGwClient \<Rightarrow> ug_event \<Rightarrow> bool" where
  "ug_possible c (Submit env l r d data) \<longleftrightarrow> is_ip l \<and> is_ip r \<and> int (length data) \<le> ug_udp_mtu c \<and> first_jobs_done c"
| "ug_possible c (FirstJob i) \<longleftrightarrow> on_conn c i uc_first_job"
| "ug_possible c (WriterReady i) \<longleftrightarrow> on_conn c i (\<lambda>con. pri_job_operation (bw_recv_interface (uc_udp_send_writer con)))"
| "ug_possible c (WriterDone i) \<longleftrightarrow> on_conn c i (\<lambda>con. pri_job_done (bw_recv_interface (uc_udp_send_writer con)))"
| "ug_possible c (WriterRequest i) \<longleftrightarrow> on_conn c i (\<lambda>con. pri_state (bw_recv_interface (uc_udp_send_writer con)) = STATE_NONE)"
| "ug_possible c (Datagram i data) \<longleftrightarrow> int (length data) \<le> ug_udp_mtu c \<and> on_conn c i (\<lambda>con. ppi_state (uc_udp_recv_if con) = STATE_NONE)"

definition with_conn :: "SocksUdpGwClient \<Rightarrow> nat \<Rightarrow> (SocksUdpGwClient_connection \<Rightarrow> SocksUdpGwClient_connection option) \<Rightarrow> SocksUdpGwClient option" where
  "with_conn c i f =
     (case ug_conns c i of None \<Rightarrow> None | Some con \<Rightarrow> map_option (\<lambda>con. c\<lparr>ug_conns := (ug_conns c)(i \<mapsto> con)\<rparr>) (f con))"

definition with_writer_if :: "(PacketRecvInterface \<Rightarrow> PacketRecvInterface option) \<Rightarrow> SocksUdpGwClient_connection \<Rightarrow> SocksUdpGwClient_connection option" where
  "with_writer_if f con =
     map_option (\<lambda>i. con\<lparr>uc_udp_send_writer := (uc_udp_send_writer con)\<lparr>bw_recv_interface := i\<rparr>\<rparr>) (f (bw_recv_interface (uc_udp_send_writer con)))"

fun ug_step :: "SocksUdpGwClient \<Rightarrow> ug_event \<Rightarrow> SocksUdpGwClient option" where
  "ug_step c (Submit env l r d data) = SocksUdpGwClient_SubmitPacket env c l r d data"
| "ug_step c (FirstJob i) = connection_first_job_handler c i"
| "ug_step c (WriterReady i) =
     with_conn c i (\<lambda>con.
       Option.bind (with_writer_if (\<lambda>i. map_option fst (PacketRecvInterface_job_operation i)) con)
         (\<lambda>con. map_option (\<lambda>w. con\<lparr>uc_udp_send_writer := w\<rparr>) (bw_output_handler_recv (uc_udp_send_writer con))))"
| "ug_step c (WriterDone i) = with_conn c i (with_writer_if (\<lambda>i. map_option fst (PacketRecvInterface_job_done i)))"
| "ug_step c (WriterRequest i) = with_conn c i (with_writer_if (\<lambda>i. PacketRecvInterface_Receiver_Recv i (Some 0)))"
| "ug_step c (Datagram i data) =
     Option.bind
       (with_conn c i (\<lambda>con. map_option (\<lambda>ri. con\<lparr>uc_udp_recv_if := ri\<rparr>)
         (Option.bind (PacketPassInterface_Sender_Send (uc_udp_recv_if con) (Some 0) (int (length data)))
           (\<lambda>ri. map_option fst (PacketPassInterface_job_operation ri)))))
       (\<lambda>c. Option.bind (dgram_handler_received c i data)
         (\<lambda>c. with_conn c i (\<lambda>con. map_option (\<lambda>ri. con\<lparr>uc_udp_recv_if := ri\<rparr>) (PacketPassInterface_job_done (uc_udp_recv_if con)))))"

text \<open>A submitted packet that leaves room for the longest header.\<close>

fun leaves_room :: "SocksUdpGwClient \<Rightarrow> ug_event \<Rightarrow> bool" where
  "leaves_room c (Submit env l r d data) \<longleftrightarrow> int (length data) + 22 \<le> ug_udp_mtu c"
| "leaves_room c ev \<longleftrightarrow> True"

inductive ug_reach :: "SocksUdpGwClient \<Rightarrow> bool" where
  start: "SocksUdpGwClient_Init size_max udp_mtu max_connections socks_server_addr dnsgw = Some c \<Longrightarrow> 0 \<le> udp_mtu \<Longrightarrow> udp_mtu + 22 \<le> INT_MAX \<Longrightarrow>
     INT_MAX \<le> int size_max \<Longrightarrow> 0 < max_connections \<Longrightarrow> ug_reach c"
| step: "ug_reach c \<Longrightarrow> ug_possible c ev \<Longrightarrow> leaves_room c ev \<Longrightarrow> ug_step c ev = Some c' \<Longrightarrow> ug_reach c'"

subsection \<open>Invariant\<close>

definition bw_ok :: "int \<Rightarrow> BufferWriter \<Rightarrow> bool" where
  "bw_ok mtu w \<longleftrightarrow> bw_d_mtu w = mtu \<and> pri_mtu (bw_recv_interface w) = mtu \<and> pri_inv (bw_recv_interface w) \<and>
     pri_has_user (bw_recv_interface w) \<and> \<not> bw_d_writing w \<and> (bw_out_have w \<longleftrightarrow> pri_state (bw_recv_interface w) = STATE_BUSY)"

definition con_ok :: "int \<Rightarrow> SocksUdpGwClient_connection \<Rightarrow> bool" where
  "con_ok mtu con \<longleftrightarrow> bw_ok mtu (uc_udp_send_writer con) \<and> ppi_inv (uc_udp_recv_if con) \<and> ppi_has_user (uc_udp_recv_if con) \<and>
     ppi_mtu (uc_udp_recv_if con) = mtu \<and> (uc_first_job con \<longrightarrow> int (length (uc_first_data con)) + 22 \<le> mtu)"

definition local_of :: "SocksUdpGwClient \<Rightarrow> nat \<Rightarrow> BAddr" where
  "local_of c i = (case ug_conns c i of None \<Rightarrow> BAddrNone | Some con \<Rightarrow> uc_local_addr con)"

definition table_ok :: "SocksUdpGwClient \<Rightarrow> bool" where
  "table_ok c \<longleftrightarrow> distinct (ug_connections_list c) \<and> (\<forall>i. ug_conns c i \<noteq> None \<longleftrightarrow> i \<in> set (ug_connections_list c)) \<and>
     ug_num_connections c = int (length (ug_connections_list c)) \<and> ug_num_connections c \<le> ug_max_connections c \<and> 0 < ug_max_connections c \<and>
     tree_ok conaddr_comparator (ug_connections_tree c) \<and>
     set (inorder (ug_connections_tree c)) = (\<lambda>i. (local_of c i, i)) ` set (ug_connections_list c) \<and>
     (\<forall>i \<in> set (ug_connections_list c). i < ug_next c)"

definition ug_inv :: "SocksUdpGwClient \<Rightarrow> bool" where
  "ug_inv c \<longleftrightarrow> table_ok c \<and> 0 \<le> ug_udp_mtu c \<and> ug_udp_mtu c \<le> ug_udpgw_mtu c \<and>
     (\<forall>i con. ug_conns c i = Some con \<longrightarrow> con_ok (ug_udp_mtu c) con)"

lemma find_cases:
  assumes "table_ok c"
  shows "(find_connection c a d = None \<and> (\<forall>i \<in> set (ug_connections_list c). local_of c i \<noteq> a)) \<or>
    (\<exists>i \<in> set (ug_connections_list c). find_connection c a d = Some i \<and> local_of c i = a)"
proof -
  have t: "tree_ok conaddr_comparator (ug_connections_tree c)"
    and s: "set (inorder (ug_connections_tree c)) = (\<lambda>i. (local_of c i, i)) ` set (ug_connections_list c)"
    using assms by (simp_all add: table_ok_def)
  from conaddr.lookup_exact [OF t, of "(a, 0)"] show ?thesis
  proof
    assume "\<exists>n q. BAVL_LookupExact conaddr_comparator (ug_connections_tree c) (a, 0) = Some (n, q) \<and>
      bavl_root n q = ug_connections_tree c \<and> n \<noteq> Null \<and> conaddr_comparator (a, 0) (nvalue n) = 0"
    then obtain n q where n: "BAVL_LookupExact conaddr_comparator (ug_connections_tree c) (a, 0) = Some (n, q)"
      "bavl_root n q = ug_connections_tree c" "n \<noteq> Null" "conaddr_comparator (a, 0) (nvalue n) = 0" by blast
    have "nvalue n \<in> set (inorder (ug_connections_tree c))" using root_value [OF n(3), of q] n(2) by simp
    then obtain i where "nvalue n = (local_of c i, i)" "i \<in> set (ug_connections_list c)" using s by auto
    then show ?thesis using n(1,4) by (auto simp: find_connection_def Let_def conaddr_comparator_def compare_equal)
  next
    assume "BAVL_LookupExact conaddr_comparator (ug_connections_tree c) (a, 0) = None \<and>
      (\<forall>y \<in> set (inorder (ug_connections_tree c)). conaddr_comparator (a, 0) y \<noteq> 0)"
    then show ?thesis by (auto simp: s find_connection_def Let_def conaddr_comparator_def compare_equal)
  qed
qed

lemma ordered_apart:
  "ordered_by conaddr_comparator xs \<Longrightarrow> x \<in> set xs \<Longrightarrow> y \<in> set xs \<Longrightarrow> x \<noteq> y \<Longrightarrow> conaddr_comparator x y \<noteq> 0"
proof (induction xs)
  case (Cons z zs)
  have z: "conaddr_comparator z u = -1" if "u \<in> set zs" for u using Cons.prems(1) that by (simp add: conaddr.ordered_Cons)
  consider "x = z" "y \<in> set zs" | "y = z" "x \<in> set zs" | "x \<in> set zs" "y \<in> set zs" using Cons.prems by auto
  then show ?case
  proof cases
    case 1
    then show ?thesis using z [of y] by simp
  next
    case 2
    then show ?thesis using z [of x] conaddr.equal_swap [of x y] by simp
  next
    case 3
    then show ?thesis using Cons by (simp add: conaddr.ordered_Cons)
  qed
qed simp

lemma local_inj:
  assumes "table_ok c" "i \<in> set (ug_connections_list c)" "j \<in> set (ug_connections_list c)" "local_of c i = local_of c j"
  shows "i = j"
proof (rule ccontr)
  assume n: "i \<noteq> j"
  let ?xs = "inorder (ug_connections_tree c)"
  have m: "(local_of c i, i) \<in> set ?xs" "(local_of c j, j) \<in> set ?xs" and o: "ordered_by conaddr_comparator ?xs"
    using assms(1-3) by (simp_all add: table_ok_def tree_ok_def)
  from ordered_apart [OF o m] show False using n assms(4) by (simp add: conaddr_comparator_def compare_equal)
qed

lemma set_ins_by [simp]: "set (ins_by cmp x xs) = insert x (set xs)"
  by (induction xs) auto

lemma ordered_distinct: "ordered_by conaddr_comparator xs \<Longrightarrow> distinct xs"
proof (induction xs)
  case (Cons x xs)
  then show ?case using conaddr.cmp_refl [of x] by (fastforce simp: conaddr.ordered_Cons)
qed simp

lemma local_of_update [simp]: "ug_conns c i = Some con \<Longrightarrow> uc_local_addr con' = uc_local_addr con \<Longrightarrow>
    local_of (c\<lparr>ug_conns := (ug_conns c)(i \<mapsto> con')\<rparr>) = local_of c"
  by (auto simp: local_of_def)

lemma table_frame:
  assumes "table_ok c" "ug_conns c i = Some con" "uc_local_addr con' = uc_local_addr con"
  shows "table_ok (c\<lparr>ug_conns := (ug_conns c)(i \<mapsto> con')\<rparr>)"
  using assms unfolding table_ok_def local_of_update [OF assms(2,3)] by auto

lemma inv_frame:
  assumes "ug_inv c" "ug_conns c i = Some con" "uc_local_addr con' = uc_local_addr con" "con_ok (ug_udp_mtu c) con'"
  shows "ug_inv (c\<lparr>ug_conns := (ug_conns c)(i \<mapsto> con')\<rparr>)"
  using assms table_frame [OF _ assms(2,3)] by (auto simp: ug_inv_def)

lemma history_frame [simp]:
  "ug_inv (c\<lparr>ug_sent := s\<rparr>) = ug_inv c" "ug_inv (c\<lparr>ug_received := r\<rparr>) = ug_inv c"
  by (simp_all add: ug_inv_def table_ok_def local_of_def)

lemma listed: "table_ok c \<Longrightarrow> i \<in> set (ug_connections_list c) \<longleftrightarrow> ug_conns c i \<noteq> None"
  by (simp add: table_ok_def)

lemma connection_free_ok:
  assumes "table_ok c" "i \<in> set (ug_connections_list c)" "\<not> on_conn c i uc_first_job"
  shows "\<exists>t. connection_free c i = Some (c\<lparr>ug_num_connections := ug_num_connections c - 1,
      ug_connections_list := remove1 i (ug_connections_list c), ug_connections_tree := t, ug_conns := (ug_conns c)(i := None)\<rparr>) \<and>
    table_ok (c\<lparr>ug_num_connections := ug_num_connections c - 1,
      ug_connections_list := remove1 i (ug_connections_list c), ug_connections_tree := t, ug_conns := (ug_conns c)(i := None)\<rparr>)"
proof -
  let ?t = "ug_connections_tree c" and ?l = "ug_connections_list c"
  obtain con where con: "ug_conns c i = Some con" using assms listed by blast
  then have fj: "\<not> uc_first_job con" using assms(3) by (simp add: on_conn_def)
  have loc: "local_of c i = uc_local_addr con" using con by (simp add: local_of_def)
  have t: "tree_ok conaddr_comparator ?t" and s: "set (inorder ?t) = (\<lambda>j. (local_of c j, j)) ` set ?l" and d: "distinct ?l"
    using assms by (simp_all add: table_ok_def)
  have m: "(uc_local_addr con, i) \<in> set (inorder ?t)" using s assms(2) loc by force
  obtain n q where n: "BAVL_LookupExact conaddr_comparator ?t (uc_local_addr con, i) = Some (n, q)"
      "bavl_root n q = ?t" "n \<noteq> Null" "conaddr_comparator (uc_local_addr con, i) (nvalue n) = 0"
    using conaddr.lookup_exact [OF t, of "(uc_local_addr con, i)"] m conaddr.cmp_refl by blast
  have "nvalue n \<in> set (inorder ?t)" using root_value [OF n(3), of q] n(2) by simp
  then obtain j where j: "nvalue n = (local_of c j, j)" "j \<in> set ?l" using s by auto
  then have "local_of c j = local_of c i" using n(4) loc by (simp add: conaddr_comparator_def compare_equal)
  then have ji: "j = i" using local_inj [OF assms(1) j(2) assms(2)] by simp
  obtain t' where t': "BAVL_Remove n q = Some t'" "tree_ok conaddr_comparator t'" "inorder t' = remove1 (nvalue n) (inorder ?t)"
    using conaddr.remove_tree [OF t n(2,3)] by blast
  have "set (inorder t') = set (inorder ?t) - {(local_of c i, i)}"
    using t'(3) t ordered_distinct by (simp add: j ji tree_ok_def set_remove1_eq)
  then have st: "set (inorder t') = (\<lambda>j. (local_of c j, j)) ` (set ?l - {i})" unfolding s by auto
  let ?c = "c\<lparr>ug_num_connections := ug_num_connections c - 1, ug_connections_list := remove1 i ?l,
      ug_connections_tree := t', ug_conns := (ug_conns c)(i := None)\<rparr>"
  have "connection_free c i = Some ?c"
    using con fj assms(2) n(1) j ji t'(1) by (simp add: connection_free_def Let_def)
  moreover have "table_ok ?c"
  proof -
    have l: "local_of ?c j = local_of c j" if "j \<noteq> i" for j using that by (simp add: local_of_def)
    have "(\<lambda>j. (local_of ?c j, j)) ` (set ?l - {i}) = (\<lambda>j. (local_of c j, j)) ` (set ?l - {i})" using l by (intro image_cong) auto
    moreover have "0 < length ?l" using assms(2) by (cases ?l) auto
    moreover have "int (length (remove1 i ?l)) = int (length ?l) - 1" using assms(2) \<open>0 < length ?l\<close>
      by (simp add: length_remove1 of_nat_diff Suc_le_eq del: length_greater_0_conv)
    ultimately show ?thesis using assms(1) t'(2) st d unfolding table_ok_def by (auto simp: set_remove1_eq distinct_remove1)
  qed
  ultimately show ?thesis by blast
qed

definition env_ok :: "connection_env \<Rightarrow> bool" where
  "env_ok env \<longleftrightarrow> ce_malloc env \<and> ce_dgram env \<and> ce_reuse env \<and> ce_packet_buffer env \<and> ce_recv_buffer env"

lemma connection_init_cases:
  assumes "table_ok c" "ug_num_connections c < ug_max_connections c" "\<forall>i \<in> set (ug_connections_list c). local_of c i \<noteq> l" "0 \<le> ug_udp_mtu c"
  shows "if env_ok env then (\<exists>t con. connection_init env c l r data d = Some (c\<lparr>ug_conns := (ug_conns c)(ug_next c \<mapsto> con), ug_next := ug_next c + 1,
        ug_connections_tree := t, ug_connections_list := ug_connections_list c @ [ug_next c], ug_num_connections := ug_num_connections c + 1\<rparr>, True) \<and>
      table_ok (c\<lparr>ug_conns := (ug_conns c)(ug_next c \<mapsto> con), ug_next := ug_next c + 1,
        ug_connections_tree := t, ug_connections_list := ug_connections_list c @ [ug_next c], ug_num_connections := ug_num_connections c + 1\<rparr>) \<and>
      uc_local_addr con = l \<and> (int (length data) + 22 \<le> ug_udp_mtu c \<longrightarrow> con_ok (ug_udp_mtu c) con))
    else connection_init env c l r data d = Some (c, False)"
proof (cases "env_ok env")
  case True
  let ?t = "ug_connections_tree c" and ?l = "ug_connections_list c" and ?i = "ug_next c"
  define w where "w = \<lparr>bw_recv_interface = (PacketRecvInterface_Init (ug_udp_mtu c))\<lparr>pri_has_user := True, pri_job_operation_data := Some 0,
      pri_job_operation := True, pri_state := STATE_OPERATION_PENDING\<rparr>, bw_out_have = False, bw_d_mtu = ug_udp_mtu c, bw_d_writing = False\<rparr>"
  define con where "con = \<lparr>uc_local_addr = l, uc_remote_addr = r, uc_first_job = True, uc_first_data = data, uc_is_dns = d,
      uc_send_addr = (if d then ug_dnsgw c else ug_socks_server_addr c), uc_udp_send_writer = w,
      uc_udp_recv_if = (PacketPassInterface_Init (ug_udp_mtu c))\<lparr>ppi_has_user := True\<rparr>\<rparr>"
  have t: "tree_ok conaddr_comparator ?t" and s: "set (inorder ?t) = (\<lambda>j. (local_of c j, j)) ` set ?l" and f: "?i \<notin> set ?l"
    using assms(1) by (auto simp: table_ok_def)
  have "\<forall>y \<in> set (inorder ?t). conaddr_comparator (l, ?i) y \<noteq> 0"
    unfolding s using assms(3) by (auto simp: conaddr_comparator_def compare_equal)
  from conaddr.insert_new [OF t this] obtain t' where t': "BAVL_Insert conaddr_comparator ?t (l, ?i) = Some (t', True)"
      "tree_ok conaddr_comparator t'" "inorder t' = ins_by conaddr_comparator (l, ?i) (inorder ?t)" by blast
  let ?c = "c\<lparr>ug_conns := (ug_conns c)(?i \<mapsto> con), ug_next := ?i + 1, ug_connections_tree := t',
      ug_connections_list := ?l @ [?i], ug_num_connections := ug_num_connections c + 1\<rparr>"
  have "connection_init env c l r data d = Some (?c, True)"
    using True t'(1) assms(4)
    by (simp add: env_ok_def connection_init_def BufferWriter_Init_def pri_defs PacketPassInterface_Sender_Init_def PacketPassInterface_Init_def
        w_def con_def Let_def)
  moreover have "table_ok ?c"
  proof -
    have l: "local_of ?c j = local_of c j" if "j \<noteq> ?i" for j using that by (simp add: local_of_def)
    have "local_of ?c ?i = l" by (simp add: local_of_def con_def)
    moreover have "(\<lambda>j. (local_of ?c j, j)) ` set ?l = (\<lambda>j. (local_of c j, j)) ` set ?l"
    proof (intro image_cong refl)
      fix j
      assume "j \<in> set ?l"
      then have "j \<noteq> ?i" using f by auto
      then show "(local_of ?c j, j) = (local_of c j, j)" using l [of j] by simp
    qed
    ultimately have "set (inorder t') = (\<lambda>j. (local_of ?c j, j)) ` set (?l @ [?i])" using t'(3) s by simp
    moreover have "\<forall>j \<in> set (?l @ [?i]). j < ?i + 1" using assms(1) by (auto simp: table_ok_def less_SucI)
    ultimately show ?thesis using assms(1,2) t'(2) f unfolding table_ok_def by (auto simp: less_SucI)
  qed
  moreover have "int (length data) + 22 \<le> ug_udp_mtu c \<longrightarrow> con_ok (ug_udp_mtu c) con"
    by (simp add: con_def con_ok_def bw_ok_def w_def pri_inv_def PacketRecvInterface_Init_def ppi_inv_def PacketPassInterface_Init_def)
  moreover have "uc_local_addr con = l" by (simp add: con_def)
  ultimately show ?thesis using True by auto
next
  case False
  then show ?thesis using assms(4)
    by (auto simp: env_ok_def connection_init_def BufferWriter_Init_def pri_defs PacketPassInterface_Sender_Init_def PacketPassInterface_Init_def Let_def)
qed

subsection \<open>Operations keep the invariant\<close>

text \<open>The datagram a connection makes of its payload.\<close>

definition send_header :: "BAddr \<Rightarrow> bool \<Rightarrow> bytes" where
  "send_header r d = (if d then [] else socks_udp_header_image r @ udpgw_addr_image r)"

lemma send_header_length: "length (send_header r d) \<le> 22"
  by (simp add: send_header_def socks_udp_header_image_def udpgw_addr_image_def split: BAddr.splits)

lemma copy_out_Some [simp]: "copy_out mtu (Some out) data = (if int (length out + length data) > mtu then None else Some (out @ data))"
  "copy_out mtu None data = None"
  by (simp_all add: copy_out_def)

lemma connection_send_eq:
  fixes data :: bytes
  assumes "bw_ok mtu (uc_udp_send_writer con)"
  defines "packet \<equiv> send_header (uc_remote_addr con) (uc_is_dns con) @ data"
  shows "connection_send con data =
    (if \<not> bw_out_have (uc_udp_send_writer con) then Some (con, None)
     else if int (length packet) > mtu then None
     else Some (con\<lparr>uc_udp_send_writer := (uc_udp_send_writer con)\<lparr>bw_out_have := False, bw_d_writing := False, bw_recv_interface :=
       (bw_recv_interface (uc_udp_send_writer con))\<lparr>pri_job_done_len := int (length packet), pri_job_done := True, pri_state := STATE_DONE_PENDING\<rparr>\<rparr>\<rparr>, Some packet))"
proof -
  have c: "con\<lparr>uc_udp_send_writer := uc_udp_send_writer con\<rparr> = con" by simp
  show ?thesis using assms c
    by (auto simp: connection_send_def BufferWriter_StartPacket_def BufferWriter_EndPacket_def bw_ok_def packet_def send_header_def
        PacketRecvInterface_Done_def Let_def)
qed

lemma sent_ok:
  assumes "con_ok mtu con" "connection_send con data = Some (con', packet)"
  shows "con_ok mtu con' \<and> uc_local_addr con' = uc_local_addr con \<and> uc_send_addr con' = uc_send_addr con \<and> uc_is_dns con' = uc_is_dns con \<and>
    uc_udp_recv_if con' = uc_udp_recv_if con \<and>
    packet = (if bw_out_have (uc_udp_send_writer con) then Some (send_header (uc_remote_addr con) (uc_is_dns con) @ data) else None)"
proof -
  have w: "bw_ok mtu (uc_udp_send_writer con)" using assms(1) by (simp add: con_ok_def)
  note e = assms(2) [unfolded connection_send_eq [OF w]]
  show ?thesis
  proof (cases "bw_out_have (uc_udp_send_writer con)")
    case True
    let ?n = "length (send_header (uc_remote_addr con) (uc_is_dns con) @ data)"
    have n: "int ?n \<le> mtu" using e True by (simp split: if_splits)
    have c: "con' = con\<lparr>uc_udp_send_writer := (uc_udp_send_writer con)\<lparr>bw_out_have := False, bw_d_writing := False, bw_recv_interface :=
       (bw_recv_interface (uc_udp_send_writer con))\<lparr>pri_job_done_len := int ?n, pri_job_done := True, pri_state := STATE_DONE_PENDING\<rparr>\<rparr>\<rparr>"
      "packet = Some (send_header (uc_remote_addr con) (uc_is_dns con) @ data)"
      using e True n by simp_all
    have "bw_ok mtu (uc_udp_send_writer con')" using w n True unfolding c(1) by (simp add: bw_ok_def pri_inv_def)
    then show ?thesis using assms(1) True c(2) unfolding con_ok_def c(1) by simp
  next
    case False
    then show ?thesis using e assms(1) by simp
  qed
qed

lemma send_some:
  assumes "con_ok mtu con" "int (length data) + 22 \<le> mtu"
  shows "\<exists>con' packet. connection_send con data = Some (con', packet)"
proof -
  have "int (length (send_header (uc_remote_addr con) (uc_is_dns con) @ data)) \<le> mtu"
    using send_header_length [of "uc_remote_addr con" "uc_is_dns con"] assms(2) by simp
  then show ?thesis using connection_send_eq [of mtu con data] assms(1) by (auto simp: con_ok_def)
qed

lemma after_send_inv:
  assumes "ug_inv c" "ug_conns c i = Some con" "uc_local_addr con' = uc_local_addr con" "con_ok (ug_udp_mtu c) con'"
  shows "ug_inv (after_send c i con' packet)"
proof -
  have "after_send c i con' packet = (c\<lparr>ug_conns := (ug_conns c)(i \<mapsto> con')\<rparr>)
      \<lparr>ug_sent := ug_sent c @ (case packet of None \<Rightarrow> [] | Some p \<Rightarrow> [(uc_send_addr con', p)])\<rparr>" by (simp add: after_send_def)
  then show ?thesis using inv_frame [OF assms] by (simp only: history_frame)
qed

lemma reorder_inv:
  assumes "ug_inv c" "set l = set (ug_connections_list c)" "distinct l"
  shows "ug_inv (c\<lparr>ug_connections_list := l\<rparr>)"
proof -
  have "length l = length (ug_connections_list c)" using assms by (simp add: ug_inv_def table_ok_def distinct_card [symmetric])
  moreover have "local_of (c\<lparr>ug_connections_list := l\<rparr>) = local_of c" by (auto simp: local_of_def)
  ultimately show ?thesis using assms by (simp add: ug_inv_def table_ok_def)
qed

lemma first_job_inv:
  assumes "ug_inv c" "on_conn c i uc_first_job"
  shows "\<exists>c'. connection_first_job_handler c i = Some c' \<and> ug_inv c'"
proof -
  obtain con where con: "ug_conns c i = Some con" "uc_first_job con" using assms(2) by (auto simp: on_conn_def split: option.splits)
  let ?con = "con\<lparr>uc_first_job := False\<rparr>"
  have ok: "con_ok (ug_udp_mtu c) con" using assms(1) con by (simp add: ug_inv_def)
  then have k: "con_ok (ug_udp_mtu c) ?con" by (simp add: con_ok_def)
  obtain con' packet where s: "connection_send ?con (uc_first_data con) = Some (con', packet)"
    using send_some [OF k, of "uc_first_data con"] ok con(2) by (auto simp: con_ok_def)
  have "ug_inv (after_send c i con' packet)"
    by (rule after_send_inv [OF assms(1) con(1)]) (use sent_ok [OF k s] in simp_all)
  then show ?thesis using con(1) s by (simp add: connection_first_job_handler_def)
qed

lemma with_conn_inv:
  assumes "ug_inv c" "ug_conns c i = Some con" "f con = Some con'" "uc_local_addr con' = uc_local_addr con" "con_ok (ug_udp_mtu c) con'"
  shows "with_conn c i f = Some (c\<lparr>ug_conns := (ug_conns c)(i \<mapsto> con')\<rparr>) \<and> ug_inv (c\<lparr>ug_conns := (ug_conns c)(i \<mapsto> con')\<rparr>)"
  using inv_frame [OF assms(1,2,4,5)] assms(2,3) by (simp add: with_conn_def)

lemma writer_inv:
  assumes "ug_inv c" "ug_possible c ev" "ev = WriterReady i \<or> ev = WriterDone i \<or> ev = WriterRequest i"
  shows "\<exists>c'. ug_step c ev = Some c' \<and> ug_inv c'"
proof -
  obtain con where con: "ug_conns c i = Some con" using assms(2,3) by (auto simp: on_conn_def split: option.splits)
  then have ok: "con_ok (ug_udp_mtu c) con" using assms(1) by (simp add: ug_inv_def)
  from assms(3) show ?thesis
  proof (elim disjE)
    assume "ev = WriterReady i"
    then show ?thesis using with_conn_inv [OF assms(1) con] ok assms(2) con
      by (auto simp: on_conn_def with_writer_if_def pri_defs con_ok_def bw_ok_def pri_inv_def bw_output_handler_recv_def)
  next
    assume "ev = WriterDone i"
    then show ?thesis using with_conn_inv [OF assms(1) con] ok assms(2) con
      by (auto simp: on_conn_def with_writer_if_def pri_defs con_ok_def bw_ok_def pri_inv_def)
  next
    assume "ev = WriterRequest i"
    then show ?thesis using with_conn_inv [OF assms(1) con] ok assms(2) con
      by (auto simp: on_conn_def with_writer_if_def pri_defs con_ok_def bw_ok_def pri_inv_def)
  qed
qed

subsection \<open>The least recently used connection\<close>

text \<open>The reference: keys in the order of their last use, at most a given number of them.\<close>

definition lru :: "nat \<Rightarrow> bool \<Rightarrow> 'a \<Rightarrow> 'a list \<Rightarrow> 'a list" where
  "lru limit used k xs =
     (if k \<in> set xs then if used then remove1 k xs @ [k] else xs
      else
        let ys = (if length xs = limit then tl xs else xs)
        in if used then ys @ [k] else ys)"

definition ug_keys :: "SocksUdpGwClient \<Rightarrow> BAddr list" where
  "ug_keys c = map (local_of c) (ug_connections_list c)"

text \<open>Whether a submitted packet uses a connection: the existing one takes the packet, or a new one is made.\<close>

definition submit_uses :: "connection_env \<Rightarrow> SocksUdpGwClient \<Rightarrow> BAddr \<Rightarrow> bool" where
  "submit_uses env c l \<longleftrightarrow>
     (case find_connection c l False of
        Some i \<Rightarrow> on_conn c i (\<lambda>con. bw_out_have (uc_udp_send_writer con))
      | None \<Rightarrow> env_ok env)"

lemma map_remove1_inj: "inj_on f (set xs) \<Longrightarrow> i \<in> set xs \<Longrightarrow> map f (remove1 i xs) = remove1 (f i) (map f xs)"
  by (induction xs) (auto simp: inj_on_def)

lemma keys_inj: "table_ok c \<Longrightarrow> inj_on (local_of c) (set (ug_connections_list c))"
  using local_inj by (fastforce simp: inj_on_def)

lemma local_of_list [simp]: "local_of (c\<lparr>ug_connections_list := l\<rparr>) = local_of c"
  by (intro ext) (simp add: local_of_def)

lemma find_dns: "find_connection c l d = find_connection c l False"
  by (auto simp: find_connection_def Let_def split: option.splits)

lemma after_send_fields [simp]:
  "ug_connections_list (after_send c i con p) = ug_connections_list c" "ug_conns (after_send c i con p) = (ug_conns c)(i \<mapsto> con)"
  "ug_udp_mtu (after_send c i con p) = ug_udp_mtu c" "ug_max_connections (after_send c i con p) = ug_max_connections c"
  by (simp_all add: after_send_def)

lemma submit_existing:
  assumes "ug_inv c" "is_ip l" "is_ip r" "int (length data) \<le> ug_udp_mtu c" "find_connection c l d = Some i" "ug_conns c i = Some con"
    "connection_send (reset_connection con l r d) data = Some (con', packet)"
  shows "\<exists>c'. SocksUdpGwClient_SubmitPacket env c l r d data = Some c' \<and> ug_inv c' \<and>
    ug_keys c' = lru (nat (ug_max_connections c)) (bw_out_have (uc_udp_send_writer con)) l (ug_keys c)"
proof -
  have t: "table_ok c" and ok: "con_ok (ug_udp_mtu c) con" using assms(1,6) by (simp_all add: ug_inv_def)
  have i: "i \<in> set (ug_connections_list c)" "local_of c i = l" using find_cases [OF t, of l d] assms(5) by auto
  then have loc: "uc_local_addr con = l" using assms(6) by (simp add: local_of_def)
  have k: "con_ok (ug_udp_mtu c) (reset_connection con l r d)" using ok by (simp add: con_ok_def reset_connection_def)
  note s = sent_ok [OF k assms(7)]
  have l': "uc_local_addr con' = uc_local_addr con" using s loc by (simp add: reset_connection_def)
  let ?c = "after_send c i con' packet"
  have inv: "ug_inv ?c" by (rule after_send_inv [OF assms(1,6) l']) (use s in simp)
  have lo: "local_of ?c = local_of c" using assms(6) l' by (auto simp: local_of_def)
  have mem: "l \<in> set (ug_keys c)" using i by (auto simp: ug_keys_def)
  show ?thesis
  proof (cases packet)
    case None
    then have "\<not> bw_out_have (uc_udp_send_writer con)" using s by (simp add: reset_connection_def split: if_splits)
    then show ?thesis using None assms inv lo mem by (simp add: SocksUdpGwClient_SubmitPacket_def lru_def ug_keys_def)
  next
    case (Some p)
    then have h: "bw_out_have (uc_udp_send_writer con)" using s by (simp add: reset_connection_def split: if_splits)
    let ?l = "remove1 i (ug_connections_list c) @ [i]"
    have d: "distinct (ug_connections_list c)" using t by (simp add: table_ok_def)
    have "ug_inv (?c\<lparr>ug_connections_list := ?l\<rparr>)"
      by (rule reorder_inv [OF inv]) (use d i in \<open>auto simp: set_remove1_eq distinct_remove1\<close>)
    moreover have "local_of (?c\<lparr>ug_connections_list := ?l\<rparr>) = local_of c" using lo by simp
    ultimately show ?thesis using Some assms i h mem map_remove1_inj [OF keys_inj [OF t] i(1)]
      by (simp add: SocksUdpGwClient_SubmitPacket_def lru_def ug_keys_def)
  qed
qed

lemma init_uses:
  assumes "ug_num_connections c < ug_max_connections c" "\<forall>i \<in> set (ug_connections_list c). local_of c i \<noteq> l"
    "ug_inv c" "int (length data) + 22 \<le> ug_udp_mtu c"
  shows "\<exists>c'. connection_init env c l r data d = Some (c', env_ok env) \<and> ug_inv c' \<and>
    ug_keys c' = (if env_ok env then ug_keys c @ [l] else ug_keys c)"
proof (cases "env_ok env")
  case True
  have t: "table_ok c" "0 \<le> ug_udp_mtu c" using assms(3) by (simp_all add: ug_inv_def)
  define c' where "c' t con = c\<lparr>ug_conns := (ug_conns c)(ug_next c \<mapsto> con), ug_next := ug_next c + 1,
    ug_connections_tree := t, ug_connections_list := ug_connections_list c @ [ug_next c], ug_num_connections := ug_num_connections c + 1\<rparr>" for t con
  obtain t con where c: "connection_init env c l r data d = Some (c' t con, True)" "table_ok (c' t con)" "uc_local_addr con = l" "con_ok (ug_udp_mtu c) con"
    using connection_init_cases [OF t(1) assms(1,2) t(2), of env r data d] True assms(4) by (auto simp: c'_def)
  have "local_of (c' t con) j = local_of c j" if "j \<in> set (ug_connections_list c)" for j
    using that t(1) by (auto simp: c'_def local_of_def table_ok_def)
  moreover have "local_of (c' t con) (ug_next c) = l" using c(3) by (simp add: c'_def local_of_def)
  ultimately have "ug_keys (c' t con) = ug_keys c @ [l]" by (simp add: ug_keys_def c'_def)
  moreover have "ug_inv (c' t con)" using c(2,4) assms(3) by (auto simp: ug_inv_def c'_def)
  ultimately show ?thesis using c(1) True by auto
next
  case False
  have t: "table_ok c" "0 \<le> ug_udp_mtu c" using assms(3) by (simp_all add: ug_inv_def)
  then show ?thesis using connection_init_cases [OF t(1) assms(1,2) t(2), of env r data d] False assms(3) by simp
qed

lemma free_first_inv:
  assumes "ug_inv c" "ug_connections_list c = i # ks" "first_jobs_done c"
  shows "\<exists>c'. connection_free c i = Some c' \<and> ug_inv c' \<and> ug_keys c' = tl (ug_keys c) \<and> ug_num_connections c' = ug_num_connections c - 1 \<and>
    ug_max_connections c' = ug_max_connections c \<and> ug_udp_mtu c' = ug_udp_mtu c"
proof -
  have t: "table_ok c" "i \<in> set (ug_connections_list c)" "i \<notin> set ks" using assms by (auto simp: ug_inv_def table_ok_def)
  define c' where "c' t = c\<lparr>ug_num_connections := ug_num_connections c - 1,
      ug_connections_list := remove1 i (ug_connections_list c), ug_connections_tree := t, ug_conns := (ug_conns c)(i := None)\<rparr>" for t
  obtain t where c: "connection_free c i = Some (c' t)" "table_ok (c' t)"
    using connection_free_ok [OF t(1,2)] assms(2,3) by (auto simp: c'_def first_jobs_done_def)
  have "local_of (c' t) j = local_of c j" if "j \<in> set ks" for j using that t(3) by (auto simp: c'_def local_of_def)
  then have "ug_keys (c' t) = tl (ug_keys c)" using assms(2) by (simp add: ug_keys_def c'_def)
  moreover have "ug_inv (c' t)" using c(2) assms(1) by (auto simp: ug_inv_def c'_def)
  ultimately show ?thesis using c(1) by (auto simp: c'_def)
qed

lemma submit_inv:
  assumes "ug_inv c" "is_ip l" "is_ip r" "int (length data) + 22 \<le> ug_udp_mtu c" "first_jobs_done c"
  shows "\<exists>c'. SocksUdpGwClient_SubmitPacket env c l r d data = Some c' \<and> ug_inv c' \<and>
    ug_keys c' = lru (nat (ug_max_connections c)) (submit_uses env c l) l (ug_keys c)"
proof -
  have t: "table_ok c" using assms(1) by (simp add: ug_inv_def)
  from find_cases [OF t, of l d] show ?thesis
  proof
    assume n: "find_connection c l d = None \<and> (\<forall>i \<in> set (ug_connections_list c). local_of c i \<noteq> l)"
    have u: "submit_uses env c l \<longleftrightarrow> env_ok env"
      using n by (simp add: submit_uses_def find_dns [of c l d])
    have k: "l \<notin> set (ug_keys c)" using n by (auto simp: ug_keys_def)
    define c1 where "c1 = (if ug_num_connections c = ug_max_connections c then remove_lru_connection c l d else Some c)"
    have "\<exists>c2. c1 = Some c2 \<and> ug_inv c2 \<and> ug_num_connections c2 < ug_max_connections c2 \<and> ug_max_connections c2 = ug_max_connections c \<and>
        ug_udp_mtu c2 = ug_udp_mtu c \<and> ug_keys c2 = (if length (ug_keys c) = nat (ug_max_connections c) then tl (ug_keys c) else ug_keys c)"
    proof (cases "ug_num_connections c = ug_max_connections c")
      case True
      then obtain i ks where l: "ug_connections_list c = i # ks" using t by (cases "ug_connections_list c") (auto simp: table_ok_def)
      have p: "ug_num_connections c > 0" "length (ug_keys c) = nat (ug_max_connections c)"
        using t True by (auto simp: table_ok_def ug_keys_def)
      have "c1 = connection_free c i" using True n p l by (simp add: c1_def remove_lru_connection_def)
      then show ?thesis using free_first_inv [OF assms(1) l assms(5)] True p by auto
    next
      case False
      then show ?thesis using assms(1) t by (auto simp: c1_def table_ok_def ug_keys_def)
    qed
    then obtain c2 where c2: "c1 = Some c2" "ug_inv c2" "ug_num_connections c2 < ug_max_connections c2" "ug_max_connections c2 = ug_max_connections c"
        "ug_udp_mtu c2 = ug_udp_mtu c" "ug_keys c2 = (if length (ug_keys c) = nat (ug_max_connections c) then tl (ug_keys c) else ug_keys c)" by blast
    have "l \<notin> set (ug_keys c2)" using k c2(6) by (cases "ug_keys c") (auto split: if_splits)
    then have "\<forall>i \<in> set (ug_connections_list c2). local_of c2 i \<noteq> l" by (auto simp: ug_keys_def)
    from init_uses [OF c2(3) this c2(2), of data env r d] obtain c' where
      "connection_init env c2 l r data d = Some (c', submit_uses env c l)" "ug_inv c'"
      "ug_keys c' = (if submit_uses env c l then ug_keys c2 @ [l] else ug_keys c2)"
      using c2(5) assms(4) u by auto
    then show ?thesis using n assms c2(1,6) k
      by (auto simp: SocksUdpGwClient_SubmitPacket_def c1_def [symmetric] lru_def Let_def)
  next
    assume "\<exists>i \<in> set (ug_connections_list c). find_connection c l d = Some i \<and> local_of c i = l"
    then obtain i where i: "find_connection c l d = Some i" "i \<in> set (ug_connections_list c)" by blast
    then obtain con where con: "ug_conns c i = Some con" using listed [OF t] by blast
    then have "con_ok (ug_udp_mtu c) (reset_connection con l r d)" using assms(1) by (auto simp: ug_inv_def con_ok_def reset_connection_def)
    from send_some [OF this assms(4)] obtain con' packet where "connection_send (reset_connection con l r d) data = Some (con', packet)" by blast
    from submit_existing [OF assms(1-3) _ i(1) con this, of env] show ?thesis
      using assms(4) i con by (simp add: submit_uses_def find_dns [of c l d] on_conn_def)
  qed
qed

subsection \<open>Datagrams received and reachable states\<close>

text \<open>What a received datagram means for its connection: who sent it, and the payload; none when it is refused.\<close>

definition received_from :: "SocksUdpGwClient_connection \<Rightarrow> bytes \<Rightarrow> (BAddr \<times> bytes) option" where
  "received_from con data = (if uc_is_dns con then Some (uc_remote_addr con, data) else parse_socks_udp data)"

definition received_if :: "PacketPassInterface \<Rightarrow> bytes \<Rightarrow> PacketPassInterface" where
  "received_if ri data = ri\<lparr>ppi_job_operation_data := Some 0, ppi_job_operation_len := int (length data),
     ppi_cancel_requested := False, ppi_job_operation := False, ppi_job_requestcancel := False, ppi_job_done := False, ppi_state := STATE_NONE\<rparr>"

lemma parse_length: "parse_socks_udp data = Some (r, rest) \<Longrightarrow> length rest \<le> length data"
  by (auto simp: parse_socks_udp_def Let_def split: if_splits)

lemma datagram_step:
  assumes "ug_inv c" "ug_conns c i = Some con" "ppi_state (uc_udp_recv_if con) = STATE_NONE" "int (length data) \<le> ug_udp_mtu c"
  shows "ug_step c (Datagram i data) =
    Some (case received_from con data of
        None \<Rightarrow> c\<lparr>ug_conns := (ug_conns c)(i \<mapsto> con\<lparr>uc_udp_recv_if := received_if (uc_udp_recv_if con) data\<rparr>)\<rparr>
      | Some (r, d) \<Rightarrow> c\<lparr>ug_received := ug_received c @ [(uc_local_addr con, r, d)],
          ug_conns := (ug_conns c)(i \<mapsto> con\<lparr>uc_remote_addr := r, uc_udp_recv_if := received_if (uc_udp_recv_if con) data\<rparr>)\<rparr>)"
proof -
  have ok: "con_ok (ug_udp_mtu c) con" "ug_udp_mtu c \<le> ug_udpgw_mtu c" using assms(1,2) by (simp_all add: ug_inv_def)
  let ?ri = "(uc_udp_recv_if con)\<lparr>ppi_job_operation_data := Some 0, ppi_job_operation_len := int (length data),
     ppi_cancel_requested := False, ppi_job_operation := False, ppi_state := STATE_BUSY\<rparr>"
  let ?c = "c\<lparr>ug_conns := (ug_conns c)(i \<mapsto> con\<lparr>uc_udp_recv_if := ?ri\<rparr>)\<rparr>"
  have d: "PacketPassInterface_Done ?ri = Some (?ri\<lparr>ppi_job_requestcancel := False, ppi_job_done := True, ppi_state := STATE_DONE_PENDING\<rparr>)"
    by (simp add: ppi_defs)
  have b: "ug_step c (Datagram i data) = Option.bind (dgram_handler_received ?c i data)
         (\<lambda>c. with_conn c i (\<lambda>con. map_option (\<lambda>ri. con\<lparr>uc_udp_recv_if := ri\<rparr>) (PacketPassInterface_job_done (uc_udp_recv_if con))))"
    using ok assms by (simp add: con_ok_def with_conn_def PacketPassInterface_Sender_Send_def PacketPassInterface_job_operation_def)
  show ?thesis
  proof (cases "received_from con data")
    case None
    then show ?thesis unfolding b using ok assms(4) d
      by (auto simp: dgram_handler_received_def received_from_def received_if_def with_conn_def PacketPassInterface_job_done_def split: if_splits)
  next
    case (Some p)
    obtain r rest where p: "p = (r, rest)" by fastforce
    have "int (length rest) \<le> ug_udp_mtu c" using Some p assms(4) parse_length [of data r rest] by (auto simp: received_from_def split: if_splits)
    then show ?thesis unfolding b using ok assms(4) d Some p
      by (auto simp: dgram_handler_received_def received_from_def received_if_def with_conn_def PacketPassInterface_job_done_def split: if_splits)
  qed
qed

lemma datagram_inv:
  assumes "ug_inv c" "ug_possible c (Datagram i data)"
  shows "\<exists>c'. ug_step c (Datagram i data) = Some c' \<and> ug_inv c'"
proof -
  obtain con where con: "ug_conns c i = Some con" "ppi_state (uc_udp_recv_if con) = STATE_NONE" "int (length data) \<le> ug_udp_mtu c"
    using assms(2) by (auto simp: on_conn_def split: option.splits)
  have ok: "con_ok (ug_udp_mtu c) con" using assms(1) con by (simp add: ug_inv_def)
  have k: "con_ok (ug_udp_mtu c) (con\<lparr>uc_udp_recv_if := received_if (uc_udp_recv_if con) data\<rparr>)" 
    "con_ok (ug_udp_mtu c) (con\<lparr>uc_remote_addr := r, uc_udp_recv_if := received_if (uc_udp_recv_if con) data\<rparr>)" for r
    using ok by (simp_all add: con_ok_def received_if_def ppi_inv_def)
  show ?thesis
  proof (cases "received_from con data")
    case None
    then show ?thesis unfolding datagram_step [OF assms(1) con] using inv_frame [OF assms(1) con(1) _ k(1)] by simp
  next
    case (Some p)
    let ?c = "c\<lparr>ug_received := ug_received c @ [(uc_local_addr con, fst p, snd p)]\<rparr>"
    have "ug_inv ?c" "ug_conns ?c i = Some con" using assms(1) con(1) by simp_all
    from inv_frame [OF this, of "con\<lparr>uc_remote_addr := fst p, uc_udp_recv_if := received_if (uc_udp_recv_if con) data\<rparr>"] show ?thesis
      unfolding datagram_step [OF assms(1) con] using Some k(2) by (simp add: case_prod_beta)
  qed
qed

lemma compute_mtu:
  assumes "0 \<le> mtu" "mtu + 22 \<le> INT_MAX" "INT_MAX \<le> int size_max"
  shows "udpgw_compute_mtu size_max mtu = mtu + 22"
proof -
  obtain m where m: "mtu = int m" using assms(1) nonneg_int_cases by blast
  then have s: "m + 22 \<le> size_max" using assms by linarith
  then have o: "\<not> size_max - 18 < m \<and> \<not> size_max - 4 < 18 + m" by linarith
  have "mtu mod (int size_max + 1) = mtu" "(18 + m) mod (size_max + 1) = 18 + m" "(22 + m) mod (size_max + 1) = 22 + m"
    using m s by simp_all
  then show ?thesis using m o assms
    by (simp add: udpgw_compute_mtu_def bsize_add_def bsize_fromsize_def bsize_max_def bsize_fromint_def bsize_toint_def Let_def)
qed

lemma start_inv:
  assumes "SocksUdpGwClient_Init size_max mtu max_connections s dns = Some c" "0 \<le> mtu" "mtu + 22 \<le> INT_MAX"
    "INT_MAX \<le> int size_max" "0 < max_connections"
  shows "ug_inv c"
  using assms compute_mtu [OF assms(2-4)]
  by (auto simp: SocksUdpGwClient_Init_def ug_inv_def table_ok_def tree_ok_def ordered_by_def split: if_splits)

lemma step_inv:
  assumes "ug_inv c" "ug_possible c ev" "leaves_room c ev"
  shows "\<exists>c'. ug_step c ev = Some c' \<and> ug_inv c'"
proof (cases ev)
  case (Submit env l r d data)
  then show ?thesis using submit_inv [OF assms(1), of l r data env d] assms(2,3) by auto
next
  case (FirstJob i)
  then show ?thesis using first_job_inv [OF assms(1)] assms(2) by simp
next
  case (Datagram i data)
  then show ?thesis using datagram_inv [OF assms(1)] assms(2) by simp
qed (use writer_inv [OF assms(1,2)] in blast)+

lemma ug_reach_inv: "ug_reach c \<Longrightarrow> ug_inv c"
proof (induction rule: ug_reach.induct)
  case (start size_max udp_mtu max_connections socks_server_addr dnsgw c)
  then show ?case by (rule start_inv)
next
  case (step c ev c')
  then show ?case using step_inv [of c ev] by auto
qed

subsection \<open>Properties\<close>

text \<open>A sequence of events, each of them possible and leaving room for the header when it happens.\<close>

fun ug_run :: "SocksUdpGwClient \<Rightarrow> ug_event list \<Rightarrow> SocksUdpGwClient option" where
  "ug_run c [] = Some c"
| "ug_run c (ev # evs) = (if ug_possible c ev \<and> leaves_room c ev then Option.bind (ug_step c ev) (\<lambda>c. ug_run c evs) else None)"

lemma ug_run_reach: "ug_reach c \<Longrightarrow> ug_run c evs = Some c' \<Longrightarrow> ug_reach c'"
  by (induction evs arbitrary: c) (auto split: if_splits bind_splits intro: ug_reach.step)

lemma run_append: "ug_run c (es @ fs) = Option.bind (ug_run c es) (\<lambda>c. ug_run c fs)"
  by (induction es arbitrary: c) (auto split: bind_splits)

lemma inv_con: "ug_inv c \<Longrightarrow> ug_conns c i = Some con \<Longrightarrow> con_ok (ug_udp_mtu c) con"
  by (simp add: ug_inv_def)

lemma free_list_ok:
  "table_ok c \<Longrightarrow> first_jobs_done c \<Longrightarrow> ug_connections_list c = l \<Longrightarrow>
    \<exists>c'. free_connections c = Some c' \<and> table_ok c' \<and> ug_connections_list c' = []"
proof (induction l arbitrary: c)
  case Nil
  then show ?case by (simp add: free_connections.simps)
next
  case (Cons i l)
  have i: "i \<in> set (ug_connections_list c)" "\<not> on_conn c i uc_first_job" "i \<notin> set l"
    using Cons.prems by (auto simp: first_jobs_done_def table_ok_def)
  from connection_free_ok [OF Cons.prems(1) i(1,2)] obtain c1 where c1: "connection_free c i = Some c1" "table_ok c1"
      "ug_connections_list c1 = l" "ug_conns c1 = (ug_conns c)(i := None)" using Cons.prems(3) by fastforce
  have "first_jobs_done c1" using Cons.prems(2,3) c1(3,4) i(3) by (auto simp: first_jobs_done_def on_conn_def list_all_iff)
  then show ?case using Cons.IH [OF c1(2) _ c1(3)] c1(1) Cons.prems(3) by (simp add: free_connections.simps [of c])
qed

definition wf_addr :: "BAddr \<Rightarrow> bool" where
  "wf_addr a \<longleftrightarrow> (case a of BAddrNone \<Rightarrow> False | BAddrIPv4 _ _ \<Rightarrow> True | BAddrIPv6 ip _ \<Rightarrow> length ip = 16)"

lemma header_parses:
  assumes "wf_addr r"
  shows "parse_socks_udp (send_header r False @ data) = Some (r, data)"
proof (cases r)
  case (BAddrIPv4 ip port)
  have "drop 4 (le32_bytes ip @ xs) = xs" "drop 6 (le32_bytes ip @ le16_bytes port @ xs) = xs" for xs
    by (simp_all add: drop_append [of _ "le32_bytes ip"] drop_append [of _ "le16_bytes port"])
  then show ?thesis using BAddrIPv4
    by (simp add: parse_socks_udp_def send_header_def socks_udp_header_image_def udpgw_addr_image_def SOCKS_ATYP_IPV4_def SOCKS_ATYP_IPV6_def
        BAddr_MakeIPv4_def Let_def)
next
  case (BAddrIPv6 ip port)
  then have l: "length ip = 16" using assms by (simp add: wf_addr_def)
  have "drop 16 (ip @ le16_bytes port @ xs) = le16_bytes port @ xs" "drop 18 (ip @ le16_bytes port @ xs) = xs" "take 16 (ip @ le16_bytes port @ xs) = ip" for xs
    using l by simp_all
  then show ?thesis using BAddrIPv6 l
    by (simp add: parse_socks_udp_def send_header_def socks_udp_header_image_def udpgw_addr_image_def SOCKS_ATYP_IPV6_def BAddr_MakeIPv6_def Let_def)
qed (use assms in \<open>simp add: wf_addr_def\<close>)

lemma submit_ready:
  assumes "ug_inv c" "ug_possible c (Submit env l r d data)" "find_connection c l d = Some i" "ug_conns c i = Some con"
    "bw_out_have (uc_udp_send_writer con)"
  shows "if int (length (send_header r d @ data)) > ug_udp_mtu c then SocksUdpGwClient_SubmitPacket env c l r d data = None
    else map_option ug_sent (SocksUdpGwClient_SubmitPacket env c l r d data) = Some (ug_sent c @ [(uc_send_addr con, send_header r d @ data)])"
proof -
  let ?con = "reset_connection con l r d"
  have ok: "con_ok (ug_udp_mtu c) ?con" using assms(1,4) by (auto simp: ug_inv_def con_ok_def reset_connection_def)
  have i: "i \<in> set (ug_connections_list c)" using assms(1,4) listed by (auto simp: ug_inv_def)
  have f: "uc_remote_addr ?con = r" "uc_is_dns ?con = d" "uc_udp_send_writer ?con = uc_udp_send_writer con" "uc_send_addr ?con = uc_send_addr con"
    by (simp_all add: reset_connection_def)
  have w: "bw_ok (ug_udp_mtu c) (uc_udp_send_writer ?con)" using ok by (simp add: con_ok_def)
  note e = connection_send_eq [OF w, of data, unfolded f(1-3)]
  show ?thesis using assms(2-5) i f(4) by (simp add: SocksUdpGwClient_SubmitPacket_def e after_send_def)
qed

lemma init_made:
  assumes "connection_init env c l r data d = Some (c', True)"
  shows "ug_sent c' = ug_sent c \<and> ug_received c' = ug_received c \<and> (\<exists>con. ug_conns c' (ug_next c) = Some con \<and> uc_local_addr con = l \<and> uc_remote_addr con = r \<and> uc_first_job con \<and>
    uc_first_data con = data \<and> uc_is_dns con = d \<and> uc_send_addr con = (if d then ug_dnsgw c else ug_socks_server_addr c) \<and>
    pri_job_operation (bw_recv_interface (uc_udp_send_writer con)) \<and> ppi_state (uc_udp_recv_if con) = STATE_NONE)"
  using assms
  by (auto simp: connection_init_def BufferWriter_Init_def pri_defs PacketPassInterface_Sender_Init_def PacketPassInterface_Init_def Let_def split: if_splits option.splits bool.splits bind_splits prod.splits)

lemma free_keeps:
  "connection_free c i = Some c' \<Longrightarrow>
    ug_next c' = ug_next c \<and> ug_sent c' = ug_sent c \<and> ug_received c' = ug_received c \<and> ug_dnsgw c' = ug_dnsgw c \<and> ug_socks_server_addr c' = ug_socks_server_addr c"
  by (auto simp: connection_free_def Let_def split: option.splits if_splits prod.splits)

lemma submit_new:
  assumes "ug_inv c" "ug_possible c (Submit env l r d data)" "leaves_room c (Submit env l r d data)" "find_connection c l d = None" "env_ok env"
  shows "\<exists>c' con. SocksUdpGwClient_SubmitPacket env c l r d data = Some c' \<and> ug_inv c' \<and> ug_sent c' = ug_sent c \<and> ug_received c' = ug_received c \<and>
    ug_conns c' (ug_next c) = Some con \<and> uc_local_addr con = l \<and> uc_remote_addr con = r \<and> uc_first_job con \<and> uc_first_data con = data \<and> uc_is_dns con = d \<and>
    uc_send_addr con = (if d then ug_dnsgw c else ug_socks_server_addr c) \<and> pri_job_operation (bw_recv_interface (uc_udp_send_writer con)) \<and>
    ppi_state (uc_udp_recv_if con) = STATE_NONE"
proof -
  from submit_inv [OF assms(1), of l r data env d] assms(2,3) obtain c' where c': "SocksUdpGwClient_SubmitPacket env c l r d data = Some c'" "ug_inv c'"
    "ug_keys c' = lru (nat (ug_max_connections c)) (submit_uses env c l) l (ug_keys c)" by auto
  define c1 where "c1 = (if ug_num_connections c = ug_max_connections c then remove_lru_connection c l d else Some c)"
  obtain c2 made where c2: "c1 = Some c2" "connection_init env c2 l r data d = Some (c', made)"
    using c'(1) assms(2,4) by (auto simp: SocksUdpGwClient_SubmitPacket_def c1_def [symmetric] split: option.splits)
  have k: "ug_next c2 = ug_next c \<and> ug_sent c2 = ug_sent c \<and> ug_received c2 = ug_received c \<and> ug_dnsgw c2 = ug_dnsgw c \<and> ug_socks_server_addr c2 = ug_socks_server_addr c"
    using c2(1) free_keeps by (auto simp: c1_def remove_lru_connection_def split: if_splits list.splits)
  have "made" using c2(2) assms(5) by (auto simp: connection_init_def env_ok_def Let_def split: if_splits option.splits prod.splits bool.splits)
  then show ?thesis using init_made [of env c2 l r data d c'] c2(2) c' k by auto
qed

text \<open>C15: the relay never breaks an assertion of the code, never writes past a buffer and never uses a freed
  connection, whatever the tunnel and the sockets do, provided that every submitted packet leaves
  22 bytes of the MTU for the header, and that the first job of a connection runs before the next packet is submitted (the job queue
  is last in, first out); and the state it reaches is one from which this holds again.\<close>

theorem udpgw_safe:
  assumes "ug_reach c" "ug_possible c ev" "leaves_room c ev"
  shows "\<exists>c'. ug_step c ev = Some c' \<and> ug_reach c'"
  using step_inv [OF ug_reach_inv [OF assms(1)] assms(2,3)] assms ug_reach.step by blast

text \<open>C7: the connections are a cache of local addresses in the order of their last use: a packet that leaves room for the header, submitted when the first
  jobs of all connections have run, changes the list of addresses exactly as the reference does (an address in use moves to the end, at the limit the
  address used longest ago goes, a new one is appended when its connection can be made), the counter is
  the number of connections and within the limit, no address has two connections, and the AVL tree finds exactly the addresses of the list.\<close>

theorem udpgw_lru:
  assumes "ug_reach c" "ug_possible c (Submit env l r d data)" "leaves_room c (Submit env l r d data)"
  shows "\<exists>c'. SocksUdpGwClient_SubmitPacket env c l r d data = Some c' \<and>
    ug_keys c' = lru (nat (ug_max_connections c)) (submit_uses env c l) l (ug_keys c) \<and> distinct (ug_keys c') \<and>
    ug_num_connections c' = int (length (ug_keys c')) \<and> ug_num_connections c' \<le> ug_max_connections c' \<and>
    (\<forall>a d. find_connection c' a d = None \<longleftrightarrow> a \<notin> set (ug_keys c'))"
proof -
  from submit_inv [OF ug_reach_inv [OF assms(1)], of l r data env d] assms(2,3)
  obtain c' where c': "SocksUdpGwClient_SubmitPacket env c l r d data = Some c'" "ug_inv c'"
    "ug_keys c' = lru (nat (ug_max_connections c)) (submit_uses env c l) l (ug_keys c)" by auto
  then have t: "table_ok c'" by (simp add: ug_inv_def)
  have "distinct (ug_keys c')" using t keys_inj [OF t] by (simp add: ug_keys_def distinct_map table_ok_def)
  moreover have "find_connection c' a d = None \<longleftrightarrow> a \<notin> set (ug_keys c')" for a d
    using find_cases [OF t, of a d] by (auto simp: ug_keys_def)
  ultimately show ?thesis using c' t by (auto simp: table_ok_def ug_keys_def)
qed

text \<open>C18: the data structure of every reachable relay is well formed: the tree passes the code's own check (order and balance factors),
  its nodes are exactly the connections of the list, each under its local address, every connection is
  listed once, and every socket's interfaces are in a state their modules allow.\<close>

theorem udpgw_well_formed:
  assumes "ug_reach c"
  shows "BAVL_Verify conaddr_comparator (ug_connections_tree c) \<and> distinct (ug_connections_list c) \<and>
    set (inorder (ug_connections_tree c)) = (\<lambda>i. (local_of c i, i)) ` set (ug_connections_list c) \<and>
    {i. ug_conns c i \<noteq> None} = set (ug_connections_list c) \<and>
    (\<forall>i. on_conn c i (con_ok (ug_udp_mtu c)) \<longleftrightarrow> i \<in> set (ug_connections_list c))"
proof -
  have inv: "ug_inv c" "table_ok c" using ug_reach_inv [OF assms] by (simp_all add: ug_inv_def)
  have "tree_ok conaddr_comparator (ug_connections_tree c)" using inv(2) by (simp add: table_ok_def)
  then have "BAVL_Verify conaddr_comparator (ug_connections_tree c)"
    using conaddr.verify_ok [of "ug_connections_tree c"] by (simp add: tree_ok_def BAVL_Verify_def)
  moreover have "on_conn c i (con_ok (ug_udp_mtu c)) \<longleftrightarrow> i \<in> set (ug_connections_list c)" for i
    using listed [OF inv(2), of i] inv_con [OF inv(1), of i] by (cases "ug_conns c i") (simp_all add: on_conn_def)
  moreover have "{i. ug_conns c i \<noteq> None} = set (ug_connections_list c)" using listed [OF inv(2)] by blast
  ultimately show ?thesis using inv(2) unfolding table_ok_def by blast
qed

text \<open>Freeing the relay frees every connection: the list, the tree and the counter end up empty and no connection is left.\<close>

theorem udpgw_free_all:
  assumes "ug_reach c" "first_jobs_done c"
  shows "\<exists>c'. SocksUdpGwClient_Free c = Some c' \<and> ug_num_connections c' = 0 \<and> BAVL_IsEmpty (ug_connections_tree c') \<and> (\<forall>i. ug_conns c' i = None)"
proof -
  have "table_ok c" using ug_reach_inv [OF assms(1)] by (simp add: ug_inv_def)
  from free_list_ok [OF this assms(2) refl] obtain c' where c': "free_connections c = Some c'" "table_ok c'" "ug_connections_list c' = []"
    by blast
  then have "inorder (ug_connections_tree c') = []" by (simp add: table_ok_def)
  then have "BAVL_IsEmpty (ug_connections_tree c')" by (cases "ug_connections_tree c'") (simp_all add: BAVL_IsEmpty_def)
  then show ?thesis using c' by (simp add: SocksUdpGwClient_Free_def table_ok_def)
qed

text \<open>The header in front of a datagram is read back: the parser of the receiving side gets the remote address and the payload of
  every datagram for an IPv4 or IPv6 address.\<close>

theorem udpgw_roundtrip:
  assumes "wf_addr r"
  shows "parse_socks_udp (socks_udp_header_image r @ udpgw_addr_image r @ data) = Some (r, data)"
  using header_parses [OF assms, where data = data] by (simp add: send_header_def)

text \<open>C31: a packet the relay accepts (its size is at most the MTU) for a connection that is ready to send is
  written past the end of the writer's buffer exactly when the payload and the header together exceed the MTU; the
  writer's buffer has the size of the MTU and the room for the header is not added.\<close>

theorem udpgw_overrun:
  assumes "ug_reach c" "ug_possible c (Submit env l r d data)" "find_connection c l d = Some i"
    "on_conn c i (\<lambda>con. bw_out_have (uc_udp_send_writer con))"
  shows "SocksUdpGwClient_SubmitPacket env c l r d data = None \<longleftrightarrow> int (length (send_header r d)) + int (length data) > ug_udp_mtu c"
proof -
  obtain con where con: "ug_conns c i = Some con" "bw_out_have (uc_udp_send_writer con)" using assms(4) by (auto simp: on_conn_def split: option.splits)
  show ?thesis using submit_ready [OF ug_reach_inv [OF assms(1)] assms(2,3) con] by (auto split: if_splits)
qed

lemma relays:
  assumes "ug_reach c" "ug_possible c (Submit env l r d data)" "leaves_room c (Submit env l r d data)" "find_connection c l d = None" "env_ok env"
  shows "\<exists>c' con. ug_run c [Submit env l r d data, WriterReady (ug_next c), FirstJob (ug_next c)] = Some c' \<and>
    ug_sent c' = ug_sent c @ [(if d then ug_dnsgw c else ug_socks_server_addr c, send_header r d @ data)] \<and> ug_inv c' \<and>
    ug_received c' = ug_received c \<and> ug_conns c' (ug_next c) = Some con \<and> uc_local_addr con = l \<and> uc_is_dns con = d \<and> ppi_state (uc_udp_recv_if con) = STATE_NONE"
proof -
  from submit_new [OF ug_reach_inv [OF assms(1)] assms(2-5)] obtain c1 con where c1: "SocksUdpGwClient_SubmitPacket env c l r d data = Some c1" "ug_inv c1"
    "ug_sent c1 = ug_sent c" "ug_conns c1 (ug_next c) = Some con" "uc_local_addr con = l" "uc_remote_addr con = r" "uc_first_job con" "uc_first_data con = data" "uc_is_dns con = d"
    "uc_send_addr con = (if d then ug_dnsgw c else ug_socks_server_addr c)" "pri_job_operation (bw_recv_interface (uc_udp_send_writer con))" "ppi_state (uc_udp_recv_if con) = STATE_NONE" "ug_received c1 = ug_received c" by blast
  have ok: "con_ok (ug_udp_mtu c1) con" using c1(2,4) by (simp add: ug_inv_def)
  let ?i = "bw_recv_interface (uc_udp_send_writer con)"
  let ?w = "(uc_udp_send_writer con)\<lparr>bw_recv_interface := ?i\<lparr>pri_job_operation := False, pri_state := STATE_BUSY\<rparr>, bw_out_have := True\<rparr>"
  let ?c2 = "c1\<lparr>ug_conns := (ug_conns c1)(ug_next c \<mapsto> con\<lparr>uc_udp_send_writer := ?w\<rparr>)\<rparr>"
  have p: "ug_possible c1 (WriterReady (ug_next c))" using c1(4,11) by (simp add: on_conn_def)
  have s: "ug_step c1 (WriterReady (ug_next c)) = Some ?c2"
    using ok c1(4,11) by (simp add: with_conn_def with_writer_if_def pri_defs con_ok_def bw_ok_def pri_inv_def bw_output_handler_recv_def)
  then have i2: "ug_inv ?c2" using writer_inv [OF c1(2) p] by auto
  have p2: "ug_possible ?c2 (FirstJob (ug_next c))" using c1(7) by (simp add: on_conn_def)
  let ?con = "con\<lparr>uc_udp_send_writer := ?w, uc_first_job := False\<rparr>"
  obtain c3 where c3: "ug_step ?c2 (FirstJob (ug_next c)) = Some c3" "ug_inv c3" using first_job_inv [OF i2] p2 by auto
  have "con_ok (ug_udp_mtu c1) (con\<lparr>uc_udp_send_writer := ?w\<rparr>)" using inv_con [OF i2, of "ug_next c"] by simp
  then have k: "con_ok (ug_udp_mtu c1) ?con" by (simp add: con_ok_def)
  obtain con' packet where con': "connection_send ?con data = Some (con', packet)" "c3 = after_send ?c2 (ug_next c) con' packet"
    using c3(1) c1(8) by (auto simp: connection_first_job_handler_def)
  have "ug_sent c3 = ug_sent c @ [(if d then ug_dnsgw c else ug_socks_server_addr c, send_header r d @ data)]"
    using sent_ok [OF k con'(1)] con'(2) c1(3,6,9,10) by (simp add: after_send_def)
  then show ?thesis using assms(2,3) c1(1) p s p2 c3 con'(2) sent_ok [OF k con'(1)] c1(5,9,12,13) by (simp add: after_send_def)
qed

text \<open>The first packet of a local address is sent: once its connection is made and the writer is ready, the
  first job hands one datagram to the socket, for a DNS query the query itself to the DNS gateway, otherwise header and
  payload to the SOCKS server.\<close>

theorem udpgw_relays:
  assumes "ug_reach c" "ug_possible c (Submit env l r d data)" "leaves_room c (Submit env l r d data)" "find_connection c l d = None" "env_ok env"
  shows "\<exists>c'. ug_run c [Submit env l r d data, WriterReady (ug_next c), FirstJob (ug_next c)] = Some c' \<and>
    ug_sent c' = ug_sent c @ [(if d then ug_dnsgw c else ug_socks_server_addr c, send_header r d @ data)]"
  using relays [OF assms] by blast

text \<open>Whatever datagram of the SOCKS server or the DNS gateway arrives on a connection, the handler is called exactly when the datagram
  is accepted (unfragmented, with a whole header), once, with the connection's local address and the
  address and payload of the datagram, and the connection is ready for the next one.\<close>

theorem udpgw_delivers:
  assumes "ug_reach c" "ug_possible c (Datagram i data)" "ug_conns c i = Some con"
  shows "map_option ug_received (ug_step c (Datagram i data)) =
      Some (ug_received c @ (case received_from con data of None \<Rightarrow> [] | Some (r, d) \<Rightarrow> [(uc_local_addr con, r, d)])) \<and>
    map_option (\<lambda>c'. on_conn c' i (\<lambda>con. ppi_state (uc_udp_recv_if con) = STATE_NONE)) (ug_step c (Datagram i data)) = Some True"
proof -
  have "ppi_state (uc_udp_recv_if con) = STATE_NONE" "int (length data) \<le> ug_udp_mtu c" using assms(2,3) by (simp_all add: on_conn_def)
  from datagram_step [OF ug_reach_inv [OF assms(1)] assms(3) this] show ?thesis
    by (simp add: on_conn_def received_if_def split: option.splits prod.splits)
qed

subsection \<open>A relay with one connection\<close>

definition demo_env :: connection_env where
  "demo_env = \<lparr>ce_malloc = True, ce_dgram = True, ce_reuse = True, ce_packet_buffer = True, ce_recv_buffer = True\<rparr>"

definition demo_local :: BAddr where "demo_local = BAddrIPv4 1 2"
definition demo_remote :: BAddr where "demo_remote = BAddrIPv4 3 4"
definition demo_server :: BAddr where "demo_server = BAddrIPv4 5 6"
definition demo_dnsgw :: BAddr where "demo_dnsgw = BAddrIPv4 7 8"

definition demo_start :: SocksUdpGwClient where
  "demo_start = the (SocksUdpGwClient_Init 4294967295 40 1 demo_server demo_dnsgw)"

definition demo_first :: "ug_event list" where
  "demo_first = [Submit demo_env demo_local demo_remote False [1, 2], WriterReady 0, FirstJob 0]"

definition demo_again :: "ug_event list" where
  "demo_again = [WriterDone 0, WriterRequest 0, WriterReady 0]"

definition demo :: SocksUdpGwClient where
  "demo = the (ug_run demo_start (demo_first @ demo_again))"

lemma ug_demo_start_reach: "ug_reach demo_start"
proof -
  have "SocksUdpGwClient_Init 4294967295 40 1 demo_server demo_dnsgw = Some demo_start" by (simp add: demo_start_def SocksUdpGwClient_Init_def demo_server_def)
  then show ?thesis by (rule ug_reach.start) (simp_all add: INT_MAX_def)
qed

definition demo_facts where
  "demo_facts c = (ug_keys c, first_jobs_done c, find_connection c demo_local False,
     on_conn c 0 (\<lambda>con. bw_out_have (uc_udp_send_writer con)), ug_udp_mtu c, ug_max_connections c, ug_sent c, ug_received c,
     on_conn c 0 (\<lambda>con. ppi_state (uc_udp_recv_if con) = STATE_NONE),
     map_option (\<lambda>con. (uc_is_dns con, uc_local_addr con, uc_send_addr con)) (ug_conns c 0), ug_socks_server_addr c)"

lemma demo_runs:
  "map_option demo_facts (ug_run demo_start (demo_first @ demo_again)) =
     Some ([demo_local], True, Some 0, True, 40, 1, [(demo_server, [0, 0, 0, 1, 3, 0, 0, 0, 4, 0, 1, 2])], [], True, Some (False, demo_local, demo_server), demo_server)"
  by code_simp

lemma demo_Some: "ug_run demo_start (demo_first @ demo_again) = Some demo"
  using demo_runs by (auto simp: demo_def)

lemma ug_demo_reach: "ug_reach demo"
  by (rule ug_run_reach [OF ug_demo_start_reach demo_Some])

lemma demo_state:
  "ug_keys demo = [demo_local]" "first_jobs_done demo" "find_connection demo demo_local d = Some 0"
  "on_conn demo 0 (\<lambda>con. bw_out_have (uc_udp_send_writer con))" "ug_udp_mtu demo = 40" "ug_max_connections demo = 1"
  "ug_sent demo = [(demo_server, [0, 0, 0, 1, 3, 0, 0, 0, 4, 0, 1, 2])]" "ug_received demo = []"
  "on_conn demo 0 (\<lambda>con. ppi_state (uc_udp_recv_if con) = STATE_NONE)"
  "\<exists>con. ug_conns demo 0 = Some con \<and> \<not> uc_is_dns con \<and> uc_local_addr con = demo_local \<and> uc_send_addr con = demo_server"
  "ug_socks_server_addr demo = demo_server"
  using demo_runs unfolding demo_Some find_dns [of _ _ d] by (auto simp: demo_facts_def)

text \<open>A submitted packet of a second local address, when the limit is one connection.\<close>

definition demo_other :: BAddr where "demo_other = BAddrIPv4 1 3"

lemma demo_possible:
  assumes "int (length data) \<le> 40"
  shows "ug_possible demo (Submit demo_env demo_local demo_remote d data)" "ug_possible demo (Submit demo_env demo_other demo_remote d data)"
  using assms demo_state by (simp_all add: is_ip_def demo_local_def demo_remote_def demo_other_def)

theorem udpgw_safe_witness:
  "\<exists>c'. ug_step demo (Submit demo_env demo_other demo_remote True [9]) = Some c' \<and> ug_reach c'"
  by (rule udpgw_safe [OF ug_demo_reach demo_possible(2)]) (simp_all add: demo_state)

theorem udpgw_lru_witness:
  "\<exists>c'. SocksUdpGwClient_SubmitPacket demo_env demo demo_other demo_remote False [9] = Some c' \<and> ug_keys c' = [demo_other] \<and> ug_num_connections c' = 1"
proof -
  have n: "find_connection demo demo_other False = None"
    using find_cases [of demo demo_other False] ug_reach_inv [OF ug_demo_reach] demo_state(1)
    by (auto simp: ug_inv_def ug_keys_def demo_other_def demo_local_def)
  have "ug_keys demo \<noteq> [demo_other]" using demo_state(1) by (simp add: demo_other_def demo_local_def)
  then show ?thesis using udpgw_lru [OF ug_demo_reach demo_possible(2), of "[9]" False] demo_state(1,5,6) n
    by (auto simp: lru_def submit_uses_def env_ok_def demo_env_def demo_local_def demo_other_def)
qed

theorem udpgw_well_formed_witness:
  "BAVL_Verify conaddr_comparator (ug_connections_tree demo) \<and> {i. ug_conns demo i \<noteq> None} = set (ug_connections_list demo)"
  using udpgw_well_formed [OF ug_demo_reach] by simp

theorem udpgw_free_all_witness: "\<exists>c'. SocksUdpGwClient_Free demo = Some c' \<and> ug_num_connections c' = 0"
  using udpgw_free_all [OF ug_demo_reach demo_state(2)] by blast

theorem udpgw_roundtrip_witness: "parse_socks_udp [0, 0, 0, 1, 3, 0, 0, 0, 4, 0, 1, 2] = Some (demo_remote, [1, 2])"
proof -
  have e: "socks_udp_header_image demo_remote @ udpgw_addr_image demo_remote @ [1, 2] = [0, 0, 0, 1, 3, 0, 0, 0, 4, 0, 1, 2]" by code_simp
  have "wf_addr demo_remote" by (simp add: wf_addr_def demo_remote_def)
  from udpgw_roundtrip [OF this, of "[1, 2]"] show ?thesis unfolding e .
qed

theorem udpgw_overrun_witness:
  "length (replicate 31 (0 :: byte)) \<le> 40 \<and> SocksUdpGwClient_SubmitPacket demo_env demo demo_local demo_remote False (replicate 31 0) = None"
proof -
  have "length (send_header demo_remote False) = 10" by code_simp
  then show ?thesis using udpgw_overrun [OF ug_demo_reach demo_possible(1) demo_state(3,4), of "replicate 31 0"] demo_state(5) by simp
qed

theorem udpgw_relays_witness:
  "\<exists>c'. ug_run demo_start [Submit demo_env demo_local demo_remote True [9], WriterReady (ug_next demo_start), FirstJob (ug_next demo_start)] = Some c' \<and>
     ug_sent c' = [(demo_dnsgw, [9])]"
proof -
  have "ug_possible demo_start (Submit demo_env demo_local demo_remote True [9])" "leaves_room demo_start (Submit demo_env demo_local demo_remote True [9])"
    "find_connection demo_start demo_local True = None" "env_ok demo_env" "ug_sent demo_start = []" "ug_dnsgw demo_start = demo_dnsgw"
    by code_simp+
  then show ?thesis using udpgw_relays [OF ug_demo_start_reach, of demo_env demo_local demo_remote True "[9]"]
    by (simp add: send_header_def del: ug_run.simps ug_possible.simps leaves_room.simps)
qed

theorem udpgw_delivers_witness:
  "map_option ug_received (ug_step demo (Datagram 0 [0, 0, 0, 1, 3, 0, 0, 0, 4, 0, 7])) = Some [(demo_local, demo_remote, [7])]"
proof -
  obtain con where con: "ug_conns demo 0 = Some con" "\<not> uc_is_dns con" "uc_local_addr con = demo_local" using demo_state(10) by blast
  have "parse_socks_udp [0, 0, 0, 1, 3, 0, 0, 0, 4, 0, 7] = Some (demo_remote, [7])" by code_simp
  moreover have "ug_possible demo (Datagram 0 [0, 0, 0, 1, 3, 0, 0, 0, 4, 0, 7])" using demo_state(5,9) by simp
  ultimately show ?thesis using udpgw_delivers [OF ug_demo_reach _ con(1), of "[0, 0, 0, 1, 3, 0, 0, 0, 4, 0, 7]"] con(2,3) demo_state(8)
    by (simp add: received_from_def del: ug_step.simps ug_possible.simps)
qed

lemma find_own:
  assumes "table_ok c" "ug_conns c i = Some con"
  shows "find_connection c (uc_local_addr con) d = Some i"
proof -
  have i: "i \<in> set (ug_connections_list c)" and l: "local_of c i = uc_local_addr con" using listed [OF assms(1)] assms(2) by (auto simp: local_of_def)
  then obtain j where j: "j \<in> set (ug_connections_list c)" "find_connection c (uc_local_addr con) d = Some j" "local_of c j = local_of c i"
    using find_cases [OF assms(1), of "uc_local_addr con" d] by auto
  then show ?thesis using local_inj [OF assms(1) j(1) i j(3)] by simp
qed

text \<open>C33: a DNS query from a local address that already has a connection to the SOCKS server which is ready to send goes to the SOCKS server
  instead of the DNS gateway, and without the header the server expects: \<open>find_connection\<close> returns that connection,
  since its test on \<open>is_dns\<close> never holds.\<close>

theorem udpgw_dns_misdirected:
  assumes "ug_reach c" "ug_possible c (Submit env l r True data)" "ug_conns c i = Some con" "uc_local_addr con = l" "\<not> uc_is_dns con"
    "uc_send_addr con = ug_socks_server_addr c" "bw_out_have (uc_udp_send_writer con)"
  shows "find_connection c l True = Some i \<and>
    map_option ug_sent (SocksUdpGwClient_SubmitPacket env c l r True data) = Some (ug_sent c @ [(ug_socks_server_addr c, data)])"
proof -
  have inv: "ug_inv c" by (rule ug_reach_inv [OF assms(1)])
  then have f: "find_connection c l True = Some i" using find_own [OF _ assms(3)] assms(4) by (simp add: ug_inv_def)
  then show ?thesis using submit_ready [OF inv assms(2) f assms(3,7)] assms(2,6) by (simp add: send_header_def)
qed

theorem udpgw_dns_misdirected_witness:
  "map_option ug_sent (SocksUdpGwClient_SubmitPacket demo_env demo demo_local demo_remote True [9]) =
     Some [(demo_server, [0, 0, 0, 1, 3, 0, 0, 0, 4, 0, 1, 2]), (demo_server, [9])]"
proof -
  obtain con where con: "ug_conns demo 0 = Some con" "uc_send_addr con = demo_server" "uc_local_addr con = demo_local" "\<not> uc_is_dns con"
    using demo_state(10) by blast
  have "bw_out_have (uc_udp_send_writer con)" using demo_state(4) con by (simp add: on_conn_def)
  from udpgw_dns_misdirected [OF ug_demo_reach demo_possible(1) con(1,3,4) _ this, of "[9]"] show ?thesis
    using con(2) demo_state(7,11) by simp
qed

subsection \<open>From the device to the SOCKS server and back\<close>

lemma ipv6_check_lengths:
  "ipv6_check data = Some (h, p) \<Longrightarrow> length (i6_source_address h) = 16 \<and> length (i6_destination_address h) = 16"
  by (auto simp: ipv6_check_def ipv6_header_load_def mem_read_def Let_def split: if_splits)

lemma device_addrs:
  assumes "process_device_udp_packet options pkt = Some (l, r, d, data)"
  shows "same_family options l r \<and> length data \<le> uo_udp_mtu options \<and> uo_udpgw options"
  using assms
  by (auto simp: process_device_udp_packet_def same_family_def BAddr_MakeIPv4_def BAddr_MakeIPv6_def Let_def
      dest!: ipv6_check_lengths split: if_splits option.splits prod.splits)

lemma family_wf: "same_family options l r \<Longrightarrow> wf_addr r \<and> is_ip l \<and> is_ip r"
  by (auto simp: same_family_def wf_addr_def is_ip_def split: BAddr.splits)

lemma free_mtu: "connection_free c i = Some c' \<Longrightarrow> ug_udp_mtu c' = ug_udp_mtu c"
  by (auto simp: connection_free_def Let_def split: option.splits if_splits prod.splits)

lemma init_mtu: "connection_init env c l r data d = Some (c', b) \<Longrightarrow> ug_udp_mtu c' = ug_udp_mtu c"
  by (auto simp: connection_init_def Let_def split: if_splits option.splits prod.splits bool.splits)

lemma submit_mtu: "SocksUdpGwClient_SubmitPacket env c l r d data = Some c' \<Longrightarrow> ug_udp_mtu c' = ug_udp_mtu c"
  by (auto simp: SocksUdpGwClient_SubmitPacket_def remove_lru_connection_def after_send_def
      dest!: free_mtu init_mtu split: if_splits option.splits prod.splits list.splits)

lemma with_conn_mtu: "with_conn c i f = Some c' \<Longrightarrow> ug_udp_mtu c' = ug_udp_mtu c"
  by (auto simp: with_conn_def split: option.splits)

lemma dgram_mtu: "dgram_handler_received c i data = Some c' \<Longrightarrow> ug_udp_mtu c' = ug_udp_mtu c"
  by (auto simp: dgram_handler_received_def Let_def split: option.splits if_splits prod.splits)

lemma step_mtu: "ug_step c ev = Some c' \<Longrightarrow> ug_udp_mtu c' = ug_udp_mtu c"
  by (cases ev)
    (auto simp: connection_first_job_handler_def after_send_def dest!: submit_mtu with_conn_mtu dgram_mtu split: option.splits bind_splits)

lemma run_mtu: "ug_run c es = Some c' \<Longrightarrow> ug_udp_mtu c' = ug_udp_mtu c"
  by (induction es arbitrary: c) (auto dest: step_mtu split: if_splits bind_splits)

text \<open>C2: a UDP packet of the device whose local address has no connection yet, which is not a DNS query and leaves room for the header,
  and whose connection can be made, reaches the SOCKS server, when the jobs it sets run next, as one
  datagram with the remote address in its header; and when the server answers with the same header, the answer comes back to the device as
  one packet, from that remote address to the sender, that passes every check of the device's own parser.\<close>

theorem udp_relay_end_to_end:
  assumes "ug_reach c" "first_jobs_done c" "ug_udp_mtu c = int (uo_udp_mtu options)"
    "process_device_udp_packet options pkt = Some (l, r, False, data)" "length data + 22 \<le> uo_udp_mtu options"
    "find_connection c l False = None" "env_ok env"
    "length answer + 22 \<le> uo_udp_mtu options" "udp_fits l (length buf) (length answer)"
  shows "\<exists>c' out dns. ug_run c [Submit env l r False data, WriterReady (ug_next c), FirstJob (ug_next c),
        Datagram (ug_next c) (socks_udp_header_image r @ udpgw_addr_image r @ answer)] = Some c' \<and>
    ug_sent c' = ug_sent c @ [(ug_socks_server_addr c, socks_udp_header_image r @ udpgw_addr_image r @ data)] \<and>
    ug_received c' = ug_received c @ [(l, r, answer)] \<and>
    udpgw_client_handler_received options buf l r answer = DevSend out \<and>
    process_device_udp_packet options out = Some (r, l, dns, answer)"
proof -
  have d: "same_family options l r" "uo_udpgw options" using device_addrs [OF assms(4)] by simp_all
  note w = family_wf [OF d(1)]
  let ?e = "[Submit env l r False data, WriterReady (ug_next c), FirstJob (ug_next c)]" and ?a = "send_header r False @ answer"
  have p: "ug_possible c (Submit env l r False data)" "leaves_room c (Submit env l r False data)" using assms(2,3,5) w by simp_all
  from relays [OF assms(1) p assms(6,7)] obtain c1 con where c1: "ug_run c ?e = Some c1"
    "ug_sent c1 = ug_sent c @ [(ug_socks_server_addr c, send_header r False @ data)]" "ug_inv c1" "ug_received c1 = ug_received c"
    "ug_conns c1 (ug_next c) = Some con" "uc_local_addr con = l" "\<not> uc_is_dns con" "ppi_state (uc_udp_recv_if con) = STATE_NONE" by auto
  have m: "ug_udp_mtu c1 = ug_udp_mtu c" using run_mtu [OF c1(1)] .
  have a: "int (length ?a) \<le> ug_udp_mtu c1" using send_header_length [of r False] assms(3,8) m by simp
  have rec: "received_from con ?a = Some (r, answer)" using c1(7) header_parses [of r answer] w by (simp add: received_from_def)
  have possible: "ug_possible c1 (Datagram (ug_next c) ?a)" using a c1(5,8) by (simp add: on_conn_def)
  note step = datagram_step [OF c1(3,5,8) a, unfolded rec option.case prod.case c1(6)]
  have "ug_run c (?e @ [Datagram (ug_next c) ?a]) = ug_step c1 (Datagram (ug_next c) ?a)"
    unfolding run_append c1(1) using possible by simp
  moreover from answer_roundtrip [OF d(2,1), of answer buf] assms(8,9)
  obtain out dns where "udpgw_client_handler_received options buf l r answer = DevSend out" "process_device_udp_packet options out = Some (r, l, dns, answer)" by auto
  ultimately show ?thesis using step c1(2,4) by (simp add: send_header_def del: ug_run.simps ug_step.simps)
qed

text \<open>C32: the SOCKS server decides whether the code's assertion holds: a datagram with an IPv6 address in its header on a connection of an IPv4 sender is
  accepted and handed to \<open>udpgw_client_handler_received\<close>, whose assertion that the two addresses are of one family fails.\<close>

theorem udpgw_family_unchecked:
  assumes "ug_reach c" "ug_conns c i = Some con" "uc_local_addr con = BAddrIPv4 ip port" "\<not> uc_is_dns con" "length ip6 = 16"
    "ug_possible c (Datagram i (socks_udp_header_image (BAddrIPv6 ip6 port6) @ udpgw_addr_image (BAddrIPv6 ip6 port6) @ data))"
  shows "map_option ug_received (ug_step c (Datagram i (socks_udp_header_image (BAddrIPv6 ip6 port6) @ udpgw_addr_image (BAddrIPv6 ip6 port6) @ data))) =
      Some (ug_received c @ [(BAddrIPv4 ip port, BAddrIPv6 ip6 port6, data)]) \<and>
    udpgw_client_handler_received options buf (BAddrIPv4 ip port) (BAddrIPv6 ip6 port6) data = DevFault"
proof -
  let ?r = "BAddrIPv6 ip6 port6"
  let ?a = "send_header ?r False @ data"
  have p: "ug_possible c (Datagram i ?a)" using assms(6) by (simp add: send_header_def)
  have "wf_addr ?r" using assms(5) by (simp add: wf_addr_def)
  then have rec: "received_from con ?a = Some (?r, data)" using assms(4) header_parses by (simp add: received_from_def)
  have "ppi_state (uc_udp_recv_if con) = STATE_NONE" "int (length ?a) \<le> ug_udp_mtu c" using p assms(2) by (simp_all add: on_conn_def)
  from datagram_step [OF ug_reach_inv [OF assms(1)] assms(2) this, unfolded rec option.case prod.case] show ?thesis
    using assms(3) by (simp add: send_header_def udpgw_client_handler_received_def Let_def del: ug_step.simps)
qed

theorem udpgw_family_unchecked_witness:
  "map_option ug_received (ug_step demo (Datagram 0 (socks_udp_header_image (BAddrIPv6 (replicate 16 1) 2) @ udpgw_addr_image (BAddrIPv6 (replicate 16 1) 2) @ [7]))) =
     Some [(demo_local, BAddrIPv6 (replicate 16 1) 2, [7])] \<and>
   udpgw_client_handler_received demo_udp_options (replicate 64 0) demo_local (BAddrIPv6 (replicate 16 1) 2) [7] = DevFault"
proof -
  let ?a = "socks_udp_header_image (BAddrIPv6 (replicate 16 1) 2) @ udpgw_addr_image (BAddrIPv6 (replicate 16 1) 2) @ [7]"
  obtain con where con: "ug_conns demo 0 = Some con" "\<not> uc_is_dns con" "uc_local_addr con = BAddrIPv4 1 2"
    using demo_state(10) by (auto simp: demo_local_def)
  have "length ?a = 23" by code_simp
  then have "ug_possible demo (Datagram 0 ?a)" using demo_state(5,9) by simp
  from udpgw_family_unchecked [OF ug_demo_reach con(1,3,2) _ this] show ?thesis
    using demo_state(8) unfolding demo_local_def by (simp del: ug_step.simps)
qed

lemma no_dnsgw: "process_device_udp_packet options pkt = Some (l, r, d, data) \<Longrightarrow> \<not> uo_dnsgw options \<Longrightarrow> \<not> d"
  by (auto simp: process_device_udp_packet_def Let_def split: if_splits option.splits prod.splits)

definition demo_options :: udp_options where
  "demo_options = \<lparr>uo_udpgw = True, uo_dnsgw = False, uo_ip6 = False, uo_udp_mtu = 1472\<rparr>"

lemma demo_packet: "\<exists>pkt. process_device_udp_packet demo_options pkt = Some (demo_local, demo_remote, False, [5, 6, 7])"
proof -
  have "uo_udpgw demo_options" "same_family demo_options demo_remote demo_local" "udp_fits demo_remote (length (replicate 64 (0 :: byte))) (length [5 :: byte, 6, 7])"
    "length [5 :: byte, 6, 7] \<le> uo_udp_mtu demo_options" "\<not> uo_dnsgw demo_options"
    by (simp_all add: demo_options_def same_family_def demo_remote_def demo_local_def udp_fits_def udp_overhead_def)
  then show ?thesis using answer_roundtrip [of demo_options demo_remote demo_local "[5, 6, 7]" "replicate 64 0"] no_dnsgw [of demo_options]
    by fastforce
qed

definition demo_relay :: SocksUdpGwClient where
  "demo_relay = the (SocksUdpGwClient_Init 4294967295 1472 1 demo_server demo_dnsgw)"

lemma demo_relay_reach: "ug_reach demo_relay"
proof -
  have "SocksUdpGwClient_Init 4294967295 1472 1 demo_server demo_dnsgw = Some demo_relay" by (simp add: demo_relay_def SocksUdpGwClient_Init_def demo_server_def)
  then show ?thesis by (rule ug_reach.start) (simp_all add: INT_MAX_def)
qed

theorem udp_relay_end_to_end_witness:
  "\<exists>c' out dns. ug_run demo_relay [Submit demo_env demo_local demo_remote False [5, 6, 7], WriterReady (ug_next demo_relay), FirstJob (ug_next demo_relay),
        Datagram (ug_next demo_relay) (socks_udp_header_image demo_remote @ udpgw_addr_image demo_remote @ [8, 9])] = Some c' \<and>
    ug_received c' = [(demo_local, demo_remote, [8, 9])] \<and>
    udpgw_client_handler_received demo_options (replicate 64 0) demo_local demo_remote [8, 9] = DevSend out \<and>
    process_device_udp_packet demo_options out = Some (demo_remote, demo_local, dns, [8, 9])"
proof -
  obtain pkt where p: "process_device_udp_packet demo_options pkt = Some (demo_local, demo_remote, False, [5, 6, 7])" using demo_packet by blast
  have "first_jobs_done demo_relay" "ug_udp_mtu demo_relay = int (uo_udp_mtu demo_options)" "length [5 :: byte, 6, 7] + 22 \<le> uo_udp_mtu demo_options"
    "find_connection demo_relay demo_local False = None" "env_ok demo_env" "length [8 :: byte, 9] + 22 \<le> uo_udp_mtu demo_options"
    "udp_fits demo_local (length (replicate 64 (0 :: byte))) (length [8 :: byte, 9])" "ug_received demo_relay = []"
    by code_simp+
  then show ?thesis using udp_relay_end_to_end [OF demo_relay_reach _ _ p, of demo_env "[8, 9]" "replicate 64 0"]
    by (auto simp del: ug_run.simps)
qed

end
