(* ===== verification/SocksClient.thy ===== *)
theory SocksClient
  imports UdpGw TcpClient "HOL-Library.Monad_Syntax"
begin

text \<open>
  \<open>badvpn/socksclient/BSocksClient.c\<close> with \<open>badvpn/flow/PacketStreamSender.c\<close>: the SOCKS5 handshake of a TCP connection of the tunnel.
  Control messages are built in one heap buffer, sent as packets over the stream of the connection, and
  the replies are received into the buffer piece by piece; when the reply has been received the
  connection is handed over.  Addresses are offsets into the buffer.

  Jobs and the work of the connection (\<open>BConnection\<close>) are events: it reads a part of what it is told to send out of
  the buffer, and writes what has arrived into it.  \<open>sc_sent\<close> and \<open>sc_received\<close> (the bytes on the
  wire) and \<open>sc_handler\<close> (the calls of the handler) are history.  \<open>None\<close> stands for a failed assertion, an access outside
  the buffer, or a use of something that is not there.
\<close>

subsection \<open>Sending packets over a stream\<close>

record PacketStreamSender =
  pss_input :: PacketPassInterface
  pss_output :: StreamPassInterface
  pss_in_len :: int
  pss_in :: int
  pss_in_used :: int

definition pss_send_data :: "PacketStreamSender \<Rightarrow> PacketStreamSender option" where
  "pss_send_data s =
     (if \<not> pss_in_len s \<ge> 0 then None
      else if pss_in_used s < pss_in_len s
      then map_option (\<lambda>i. s\<lparr>pss_output := i\<rparr>)
             (StreamPassInterface_Sender_Send (pss_output s) (Some (pss_in s + pss_in_used s)) (pss_in_len s - pss_in_used s))
      else map_option (\<lambda>i. s\<lparr>pss_in_len := -1, pss_input := i\<rparr>) (PacketPassInterface_Done (pss_input s)))"

definition pss_input_handler_send :: "PacketStreamSender \<Rightarrow> int \<Rightarrow> int \<Rightarrow> PacketStreamSender option" where
  "pss_input_handler_send s data data_len =
     (if pss_in_len s \<noteq> -1 \<or> \<not> data_len \<ge> 0 then None
      else pss_send_data (s\<lparr>pss_in_len := data_len, pss_in := data, pss_in_used := 0\<rparr>))"

definition pss_output_handler_done :: "PacketStreamSender \<Rightarrow> int \<Rightarrow> PacketStreamSender option" where
  "pss_output_handler_done s data_len =
     (if \<not> pss_in_len s \<ge> 0 \<or> \<not> data_len > 0 \<or> \<not> data_len \<le> pss_in_len s - pss_in_used s then None
      else pss_send_data (s\<lparr>pss_in_used := pss_in_used s + data_len\<rparr>))"

definition PacketStreamSender_Init :: "StreamPassInterface \<Rightarrow> int \<Rightarrow> PacketStreamSender option" where
  "PacketStreamSender_Init output mtu =
     (if \<not> mtu \<ge> 0 then None
      else map_option (\<lambda>output. \<lparr>pss_input = PacketPassInterface_Init mtu, pss_output = output, pss_in_len = -1, pss_in = 0, pss_in_used = 0\<rparr>)
             (StreamPassInterface_Sender_Init output))"

subsection \<open>The client\<close>

definition SOCKS_VERSION :: byte where "SOCKS_VERSION = 5"
definition SOCKS_METHOD_NO_AUTHENTICATION_REQUIRED :: int where "SOCKS_METHOD_NO_AUTHENTICATION_REQUIRED = 0"
definition SOCKS_METHOD_USERNAME_PASSWORD :: int where "SOCKS_METHOD_USERNAME_PASSWORD = 2"
definition SOCKS_CMD_CONNECT :: byte where "SOCKS_CMD_CONNECT = 1"
definition SOCKS_REP_SUCCEEDED :: byte where "SOCKS_REP_SUCCEEDED = 0"

datatype BSocksClient_state =
    STATE_CONNECTING | STATE_SENDING_HELLO | STATE_SENT_HELLO | STATE_SENDING_PASSWORD | STATE_SENT_PASSWORD
  | STATE_SENDING_REQUEST | STATE_SENT_REQUEST | STATE_RECEIVED_REPLY_HEADER | STATE_UP

record BSocksClient_auth_info =
  auth_type :: int
  ai_username :: bytes
  ai_password :: bytes

definition BSocksClient_auth_none :: BSocksClient_auth_info where
  "BSocksClient_auth_none = \<lparr>auth_type = SOCKS_METHOD_NO_AUTHENTICATION_REQUIRED, ai_username = [], ai_password = []\<rparr>"

definition BSocksClient_auth_password :: "bytes \<Rightarrow> bytes \<Rightarrow> BSocksClient_auth_info" where
  "BSocksClient_auth_password username password =
     \<lparr>auth_type = SOCKS_METHOD_USERNAME_PASSWORD, ai_username = username, ai_password = password\<rparr>"

record sc_control_io =
  ct_send_sender :: PacketStreamSender
  ct_recv_if :: StreamRecvInterface
  ct_recv_dest :: int
  ct_recv_len :: int
  ct_recv_total :: int

record BSocksClient =
  sc_auth_info :: "BSocksClient_auth_info list"
  sc_dest_addr :: BAddr
  sc_state :: BSocksClient_state
  sc_buffer :: "bytes option"
  sc_connector :: bool
  sc_con :: bool
  sc_control :: "sc_control_io option"
  sc_up :: "(StreamPassInterface \<times> StreamRecvInterface) option"
  sc_handler :: "socks_event list"
  sc_sent :: bytes
  sc_received :: bytes

text \<open>What the system decides: the largest \<open>size_t\<close>, whether a connection can be made of the connected socket, and the result of
  \<open>BRealloc\<close>: failure, or a block with the old contents and some bytes behind them.\<close>

record sc_env =
  se_size_max :: nat
  se_con_init :: bool
  se_realloc :: "bytes option"

definition error_reported :: "BSocksClient \<Rightarrow> bool" where
  "error_reported o' \<longleftrightarrow> BSOCKSCLIENT_EVENT_ERROR \<in> set (sc_handler o') \<or> BSOCKSCLIENT_EVENT_ERROR_CLOSED \<in> set (sc_handler o')"

definition report_error :: "BSocksClient \<Rightarrow> socks_event \<Rightarrow> BSocksClient option" where
  "report_error o' error = (if error_reported o' then None else Some (o'\<lparr>sc_handler := sc_handler o' @ [error]\<rparr>))"

definition with_control :: "BSocksClient \<Rightarrow> (sc_control_io \<Rightarrow> sc_control_io option) \<Rightarrow> BSocksClient option" where
  "with_control o' f = (case sc_control o' of None \<Rightarrow> None | Some ct \<Rightarrow> map_option (\<lambda>ct. o'\<lparr>sc_control := Some ct\<rparr>) (f ct))"

definition init_control_io :: "BSocksClient \<Rightarrow> BSocksClient option" where
  "init_control_io o' =
     (if \<not> sc_con o' \<or> sc_control o' \<noteq> None \<or> sc_up o' \<noteq> None then None
      else do {
        recv_if \<leftarrow> StreamRecvInterface_Receiver_Init StreamRecvInterface_Init;
        sender \<leftarrow> PacketStreamSender_Init StreamPassInterface_Init INT_MAX;
        send_if \<leftarrow> PacketPassInterface_Sender_Init (pss_input sender);
        Some (o'\<lparr>sc_control := Some \<lparr>ct_send_sender = sender\<lparr>pss_input := send_if\<rparr>, ct_recv_if = recv_if,
                   ct_recv_dest = 0, ct_recv_len = 0, ct_recv_total = 0\<rparr>\<rparr>)
      })"

definition free_control_io :: "BSocksClient \<Rightarrow> BSocksClient option" where
  "free_control_io o' = (if sc_control o' = None then None else Some (o'\<lparr>sc_control := None\<rparr>))"

definition init_up_io :: "BSocksClient \<Rightarrow> BSocksClient option" where
  "init_up_io o' =
     (if \<not> sc_con o' \<or> sc_control o' \<noteq> None \<or> sc_up o' \<noteq> None then None
      else Some (o'\<lparr>sc_up := Some (StreamPassInterface_Init, StreamRecvInterface_Init)\<rparr>))"

definition free_up_io :: "BSocksClient \<Rightarrow> BSocksClient option" where
  "free_up_io o' = (if sc_up o' = None then None else Some (o'\<lparr>sc_up := None\<rparr>))"

definition BConnection_Free :: "BSocksClient \<Rightarrow> BSocksClient option" where
  "BConnection_Free o' = (if \<not> sc_con o' \<or> sc_control o' \<noteq> None \<or> sc_up o' \<noteq> None then None else Some (o'\<lparr>sc_con := False\<rparr>))"

definition reserve_buffer :: "sc_env \<Rightarrow> BSocksClient \<Rightarrow> bsize_t \<Rightarrow> BSocksClient \<times> bool" where
  "reserve_buffer env o' sz =
     (if is_overflow sz then (o', False)
      else case se_realloc env of None \<Rightarrow> (o', False)
      | Some junk \<Rightarrow>
          (o'\<lparr>sc_buffer := Some (take (bs_value sz)
                 ((case sc_buffer o' of None \<Rightarrow> [] | Some b \<Rightarrow> b) @ junk @ replicate (bs_value sz) 0))\<rparr>, True))"

definition buffer_write :: "BSocksClient \<Rightarrow> nat \<Rightarrow> bytes \<Rightarrow> BSocksClient option" where
  "buffer_write o' off data =
     (case sc_buffer o' of None \<Rightarrow> None
      | Some b \<Rightarrow> if off + length data > length b then None else Some (o'\<lparr>sc_buffer := Some (mem_write b off data)\<rparr>))"

definition buffer_read :: "BSocksClient \<Rightarrow> nat \<Rightarrow> nat \<Rightarrow> bytes option" where
  "buffer_read o' off n =
     (case sc_buffer o' of None \<Rightarrow> None | Some b \<Rightarrow> if off + n > length b then None else Some (mem_read b off n))"

definition do_receive :: "BSocksClient \<Rightarrow> BSocksClient option" where
  "do_receive o' = with_control o' (\<lambda>ct.
     if \<not> ct_recv_len ct < ct_recv_total ct then None
     else map_option (\<lambda>i. ct\<lparr>ct_recv_if := i\<rparr>)
            (StreamRecvInterface_Receiver_Recv (ct_recv_if ct) (Some (ct_recv_dest ct + ct_recv_len ct)) (ct_recv_total ct - ct_recv_len ct)))"

definition start_receive :: "BSocksClient \<Rightarrow> int \<Rightarrow> int \<Rightarrow> BSocksClient option" where
  "start_receive o' dest total_len =
     (if \<not> total_len > 0 then None
      else with_control o' (\<lambda>ct. Some (ct\<lparr>ct_recv_dest := dest, ct_recv_len := 0, ct_recv_total := total_len\<rparr>)) \<bind> do_receive)"

text \<open>Passing the start of the buffer to the sender.\<close>

definition send_buffer :: "BSocksClient \<Rightarrow> int \<Rightarrow> BSocksClient option" where
  "send_buffer o' data_len = with_control o' (\<lambda>ct.
     map_option (\<lambda>i. ct\<lparr>ct_send_sender := (ct_send_sender ct)\<lparr>pss_input := i\<rparr>\<rparr>)
       (PacketPassInterface_Sender_Send (pss_input (ct_send_sender ct)) (Some 0) data_len))"

definition bsize_mul :: "nat \<Rightarrow> bsize_t \<Rightarrow> bsize_t \<Rightarrow> bsize_t" where
  "bsize_mul size_max s1 s2 =
     \<lparr>is_overflow = (is_overflow s1 \<or> is_overflow s2 \<or> (bs_value s1 \<noteq> 0 \<and> bs_value s2 > size_max div bs_value s1)),
      bs_value = bs_value s1 * bs_value s2 mod (size_max + 1)\<rparr>"

fun write_hello_methods :: "BSocksClient \<Rightarrow> nat \<Rightarrow> BSocksClient_auth_info list \<Rightarrow> BSocksClient option" where
  "write_hello_methods o' i [] = Some o'"
| "write_hello_methods o' i (a # as) = buffer_write o' (2 + i) [word_of_int (auth_type a)] \<bind> (\<lambda>o'. write_hello_methods o' (i + 1) as)"

definition connector_handler :: "sc_env \<Rightarrow> BSocksClient \<Rightarrow> bool \<Rightarrow> BSocksClient option" where
  "connector_handler env o' is_error =
     (let fail0 = (\<lambda>o'. report_error o' BSOCKSCLIENT_EVENT_ERROR);
          fail1 = (\<lambda>o'. free_control_io o' \<bind> BConnection_Free \<bind> fail0)
      in if sc_state o' \<noteq> STATE_CONNECTING then None
         else if is_error then fail0 o'
         else if \<not> se_con_init env then fail0 o'
         else do {
           o' \<leftarrow> init_control_io (o'\<lparr>sc_con := True\<rparr>);
           let n = length (sc_auth_info o');
           if n = 0 \<or> n > 255 then fail1 o'
           else
             let sz = bsize_add (se_size_max env) (bsize_fromsize 2) (bsize_mul (se_size_max env) (bsize_fromsize n) (bsize_fromsize 1));
                 (o', ok) = reserve_buffer env o' sz
             in if \<not> ok then fail1 o'
                else do {
                  o' \<leftarrow> buffer_write o' 0 [SOCKS_VERSION, word_of_nat n];
                  o' \<leftarrow> write_hello_methods o' 0 (sc_auth_info o');
                  o' \<leftarrow> send_buffer o' (int (bs_value sz));
                  Some (o'\<lparr>sc_state := STATE_SENDING_HELLO\<rparr>)
                }
         })"

datatype BConnection_event = BCONNECTION_EVENT_ERROR | BCONNECTION_EVENT_RECVCLOSED

definition connection_handler :: "BSocksClient \<Rightarrow> BConnection_event \<Rightarrow> BSocksClient option" where
  "connection_handler o' event =
     (if sc_state o' = STATE_CONNECTING then None
      else if sc_state o' = STATE_UP \<and> event = BCONNECTION_EVENT_RECVCLOSED then report_error o' BSOCKSCLIENT_EVENT_ERROR_CLOSED
      else report_error o' BSOCKSCLIENT_EVENT_ERROR)"

definition auth_finished :: "sc_env \<Rightarrow> BSocksClient \<Rightarrow> BSocksClient option" where
  "auth_finished env o' =
     (let sz = bsize_fromsize 4;
          sz = (case sc_dest_addr o' of
                    BAddrIPv4 _ _ \<Rightarrow> bsize_add (se_size_max env) sz (bsize_fromsize 6)
                  | BAddrIPv6 _ _ \<Rightarrow> bsize_add (se_size_max env) sz (bsize_fromsize 18)
                  | BAddrNone \<Rightarrow> sz);
          (o', ok) = reserve_buffer env o' sz
      in if \<not> ok then report_error o' BSOCKSCLIENT_EVENT_ERROR
         else do {
           (o', atyp) \<leftarrow> (case sc_dest_addr o' of
               BAddrIPv4 ip port \<Rightarrow> map_option (\<lambda>o'. (o', SOCKS_ATYP_IPV4)) (buffer_write o' 4 (le32_bytes ip @ le16_bytes port))
             | BAddrIPv6 ip port \<Rightarrow> map_option (\<lambda>o'. (o', SOCKS_ATYP_IPV6)) (buffer_write o' 4 (take 16 ip @ le16_bytes port))
             | BAddrNone \<Rightarrow> None);
           o' \<leftarrow> buffer_write o' 0 [SOCKS_VERSION, SOCKS_CMD_CONNECT, 0, atyp];
           o' \<leftarrow> send_buffer o' (int (bs_value sz));
           Some (o'\<lparr>sc_state := STATE_SENDING_REQUEST\<rparr>)
         })"

definition send_password :: "sc_env \<Rightarrow> BSocksClient \<Rightarrow> BSocksClient_auth_info \<Rightarrow> BSocksClient option" where
  "send_password env o' ai =
     (let ulen = length (ai_username ai); plen = length (ai_password ai) in
      if ulen = 0 \<or> ulen > 255 \<or> plen = 0 \<or> plen > 255 then report_error o' BSOCKSCLIENT_EVENT_ERROR
      else
        let sz = bsize_fromsize (1 + 1 + ulen + 1 + plen);
            (o', ok) = reserve_buffer env o' sz
        in if \<not> ok then report_error o' BSOCKSCLIENT_EVENT_ERROR
           else do {
             o' \<leftarrow> buffer_write o' 0 [1];
             o' \<leftarrow> buffer_write o' 1 [word_of_nat ulen];
             o' \<leftarrow> buffer_write o' 2 (ai_username ai);
             o' \<leftarrow> buffer_write o' (2 + ulen) [word_of_nat plen];
             o' \<leftarrow> buffer_write o' (3 + ulen) (ai_password ai);
             o' \<leftarrow> send_buffer o' (int (bs_value sz));
             Some (o'\<lparr>sc_state := STATE_SENDING_PASSWORD\<rparr>)
           })"

text \<open>The branches of \<open>recv_handler_done\<close>.\<close>

definition received_hello :: "sc_env \<Rightarrow> BSocksClient \<Rightarrow> BSocksClient option" where
  "received_hello env o' = do {
     imsg \<leftarrow> buffer_read o' 0 2;
     if imsg ! 0 \<noteq> SOCKS_VERSION then report_error o' BSOCKSCLIENT_EVENT_ERROR
     else case find (\<lambda>ai. auth_type ai = uint (imsg ! 1)) (sc_auth_info o') of
       None \<Rightarrow> report_error o' BSOCKSCLIENT_EVENT_ERROR
     | Some ai \<Rightarrow>
         if auth_type ai = SOCKS_METHOD_NO_AUTHENTICATION_REQUIRED then auth_finished env o'
         else if auth_type ai = SOCKS_METHOD_USERNAME_PASSWORD then send_password env o' ai
         else None
   }"

definition received_reply_header :: "BSocksClient \<Rightarrow> BSocksClient option" where
  "received_reply_header o' = do {
     imsg \<leftarrow> buffer_read o' 0 4;
     if imsg ! 0 \<noteq> SOCKS_VERSION then report_error o' BSOCKSCLIENT_EVENT_ERROR
     else if imsg ! 1 \<noteq> SOCKS_REP_SUCCEEDED then report_error o' BSOCKSCLIENT_EVENT_ERROR
     else if imsg ! 3 = SOCKS_ATYP_IPV4 then map_option (\<lambda>o'. o'\<lparr>sc_state := STATE_RECEIVED_REPLY_HEADER\<rparr>) (start_receive o' 4 6)
     else if imsg ! 3 = SOCKS_ATYP_IPV6 then map_option (\<lambda>o'. o'\<lparr>sc_state := STATE_RECEIVED_REPLY_HEADER\<rparr>) (start_receive o' 4 18)
     else report_error o' BSOCKSCLIENT_EVENT_ERROR
   }"

definition received_password_reply :: "sc_env \<Rightarrow> BSocksClient \<Rightarrow> BSocksClient option" where
  "received_password_reply env o' = do {
     imsg \<leftarrow> buffer_read o' 0 2;
     if imsg ! 0 \<noteq> 1 then report_error o' BSOCKSCLIENT_EVENT_ERROR
     else if imsg ! 1 \<noteq> 0 then report_error o' BSOCKSCLIENT_EVENT_ERROR
     else auth_finished env o'
   }"

definition received_reply :: "BSocksClient \<Rightarrow> BSocksClient option" where
  "received_reply o' =
     (if sc_buffer o' = None then None
      else do {
        o' \<leftarrow> free_control_io (o'\<lparr>sc_buffer := None\<rparr>);
        o' \<leftarrow> init_up_io o';
        Some (o'\<lparr>sc_state := STATE_UP, sc_handler := sc_handler o' @ [BSOCKSCLIENT_EVENT_UP]\<rparr>)
      })"

definition recv_handler_done :: "sc_env \<Rightarrow> BSocksClient \<Rightarrow> int \<Rightarrow> BSocksClient option" where
  "recv_handler_done env o' data_len =
     (case sc_control o' of None \<Rightarrow> None
      | Some ct \<Rightarrow>
          if \<not> data_len \<ge> 0 \<or> \<not> data_len \<le> ct_recv_total ct - ct_recv_len ct then None
          else
            let ct = ct\<lparr>ct_recv_len := ct_recv_len ct + data_len\<rparr>;
                o' = o'\<lparr>sc_control := Some ct\<rparr>
            in if ct_recv_len ct < ct_recv_total ct then do_receive o'
               else
                 (case sc_state o' of
                    STATE_SENT_HELLO \<Rightarrow> received_hello env o'
                  | STATE_SENT_REQUEST \<Rightarrow> received_reply_header o'
                  | STATE_SENT_PASSWORD \<Rightarrow> received_password_reply env o'
                  | STATE_RECEIVED_REPLY_HEADER \<Rightarrow> received_reply o'
                  | _ \<Rightarrow> None))"

definition send_handler_done :: "sc_env \<Rightarrow> BSocksClient \<Rightarrow> BSocksClient option" where
  "send_handler_done env o' =
     (let await = (\<lambda>sz total_len state.
            let (o', ok) = reserve_buffer env o' sz in
            if \<not> ok then report_error o' BSOCKSCLIENT_EVENT_ERROR
            else map_option (\<lambda>o'. o'\<lparr>sc_state := state\<rparr>) (start_receive o' 0 total_len))
      in if sc_buffer o' = None then None
         else case sc_state o' of
           STATE_SENDING_HELLO \<Rightarrow> await (bsize_fromsize 2) 2 STATE_SENT_HELLO
         | STATE_SENDING_REQUEST \<Rightarrow>
             await (bsize_add (se_size_max env) (bsize_fromsize 4) (bsize_max (bsize_fromsize 6) (bsize_fromsize 18))) 4 STATE_SENT_REQUEST
         | STATE_SENDING_PASSWORD \<Rightarrow> await (bsize_fromsize 2) 2 STATE_SENT_PASSWORD
         | _ \<Rightarrow> None)"

text \<open>An assertion that fails is \<open>None\<close>; a connector that cannot be made is \<open>Some None\<close>.\<close>

definition BSocksClient_Init ::
  "bool \<Rightarrow> BAddr \<Rightarrow> BSocksClient_auth_info list \<Rightarrow> BAddr \<Rightarrow> BSocksClient option option" where
  "BSocksClient_Init connector_ok server_addr auth_info dest_addr =
     (if server_addr = BAddrNone \<or> \<not> is_ip dest_addr \<or>
         \<not> list_all (\<lambda>ai. auth_type ai = SOCKS_METHOD_NO_AUTHENTICATION_REQUIRED \<or> auth_type ai = SOCKS_METHOD_USERNAME_PASSWORD) auth_info
      then None
      else if \<not> connector_ok then Some None
      else Some (Some \<lparr>sc_auth_info = auth_info, sc_dest_addr = dest_addr, sc_state = STATE_CONNECTING, sc_buffer = None,
        sc_connector = True, sc_con = False, sc_control = None, sc_up = None, sc_handler = [], sc_sent = [], sc_received = []\<rparr>))"

definition BSocksClient_Free :: "BSocksClient \<Rightarrow> BSocksClient option" where
  "BSocksClient_Free o' = do {
     o' \<leftarrow> (if sc_state o' \<noteq> STATE_CONNECTING
            then (if sc_state o' = STATE_UP then free_up_io o' else free_control_io o') \<bind> BConnection_Free
            else Some o');
     if \<not> sc_connector o' then None
     else Some (o'\<lparr>sc_connector := False, sc_buffer := None\<rparr>)
   }"

definition BSocksClient_GetSendInterface :: "BSocksClient \<Rightarrow> StreamPassInterface option" where
  "BSocksClient_GetSendInterface o' = (if sc_state o' \<noteq> STATE_UP then None else map_option fst (sc_up o'))"

definition BSocksClient_GetRecvInterface :: "BSocksClient \<Rightarrow> StreamRecvInterface option" where
  "BSocksClient_GetRecvInterface o' = (if sc_state o' \<noteq> STATE_UP then None else map_option snd (sc_up o'))"

subsection \<open>Events\<close>

datatype sc_event =
    Connector sc_env bool
  | Connection BConnection_event
  | SendPacketJob
  | SendStreamJob
  | SendSome nat
  | SendStreamDone
  | SendPacketDone sc_env
  | RecvJob
  | RecvSome bytes
  | RecvDone sc_env

definition on_control :: "BSocksClient \<Rightarrow> (sc_control_io \<Rightarrow> bool) \<Rightarrow> bool" where
  "on_control c P \<longleftrightarrow> (case sc_control c of None \<Rightarrow> False | Some ct \<Rightarrow> P ct)"

text \<open>The C standard has \<open>SIZE_MAX\<close> at least 65535.\<close>

definition size_fine :: "sc_env \<Rightarrow> bool" where "size_fine env \<longleftrightarrow> 65535 \<le> se_size_max env"

text \<open>Nothing happens after an error has been reported: the client is freed.  The connector reports once, the connection fails or is
  closed at any time, jobs run when they are scheduled, and the connection sends or receives a part of what it was asked to.\<close>

definition sc_possible :: "BSocksClient \<Rightarrow> sc_event \<Rightarrow> bool" where
  "sc_possible c ev \<longleftrightarrow> \<not> error_reported c \<and>
     (case ev of
        Connector env _ \<Rightarrow> sc_state c = STATE_CONNECTING \<and> size_fine env
      | Connection _ \<Rightarrow> sc_con c
      | SendPacketJob \<Rightarrow> on_control c (\<lambda>ct. ppi_job_operation (pss_input (ct_send_sender ct)))
      | SendStreamJob \<Rightarrow> on_control c (\<lambda>ct. si_job_operation (pss_output (ct_send_sender ct)))
      | SendSome k \<Rightarrow> on_control c (\<lambda>ct. si_state (pss_output (ct_send_sender ct)) = STATE_BUSY \<and> 0 < k \<and>
          int k \<le> si_job_operation_len (pss_output (ct_send_sender ct)))
      | SendStreamDone \<Rightarrow> on_control c (\<lambda>ct. si_job_done (pss_output (ct_send_sender ct)))
      | SendPacketDone env \<Rightarrow> on_control c (\<lambda>ct. ppi_job_done (pss_input (ct_send_sender ct))) \<and> size_fine env
      | RecvJob \<Rightarrow> on_control c (\<lambda>ct. si_job_operation (ct_recv_if ct))
      | RecvSome data \<Rightarrow> on_control c (\<lambda>ct. si_state (ct_recv_if ct) = STATE_BUSY \<and> data \<noteq> [] \<and>
          int (length data) \<le> si_job_operation_len (ct_recv_if ct))
      | RecvDone env \<Rightarrow> on_control c (\<lambda>ct. si_job_done (ct_recv_if ct)) \<and> size_fine env)"

definition with_sender :: "BSocksClient \<Rightarrow> (PacketStreamSender \<Rightarrow> PacketStreamSender option) \<Rightarrow> BSocksClient option" where
  "with_sender c f = with_control c (\<lambda>ct. map_option (\<lambda>s. ct\<lparr>ct_send_sender := s\<rparr>) (f (ct_send_sender ct)))"

definition with_recv_if :: "BSocksClient \<Rightarrow> (StreamRecvInterface \<Rightarrow> StreamRecvInterface option) \<Rightarrow> BSocksClient option" where
  "with_recv_if c f = with_control c (\<lambda>ct. map_option (\<lambda>i. ct\<lparr>ct_recv_if := i\<rparr>) (f (ct_recv_if ct)))"

text \<open>The address an interface was given.\<close>

definition operation_at :: "StreamInterface \<Rightarrow> nat option" where
  "operation_at i = (case si_job_operation_data i of None \<Rightarrow> None | Some a \<Rightarrow> if a < 0 then None else Some (nat a))"

fun sc_step :: "BSocksClient \<Rightarrow> sc_event \<Rightarrow> BSocksClient option" where
  "sc_step c (Connector env is_error) = connector_handler env c is_error"
| "sc_step c (Connection ev) = connection_handler c ev"
| "sc_step c SendPacketJob = with_sender c (\<lambda>s.
     case PacketPassInterface_job_operation (pss_input s) of
       Some (i, Some data, len) \<Rightarrow> pss_input_handler_send (s\<lparr>pss_input := i\<rparr>) data len
     | _ \<Rightarrow> None)"
| "sc_step c SendStreamJob = with_sender c (\<lambda>s. map_option (\<lambda>r. s\<lparr>pss_output := fst r\<rparr>) (StreamPassInterface_job_operation (pss_output s)))"
| "sc_step c (SendSome k) =
     (case sc_control c of None \<Rightarrow> None
      | Some ct \<Rightarrow> do {
          a \<leftarrow> operation_at (pss_output (ct_send_sender ct));
          data \<leftarrow> buffer_read c a k;
          c \<leftarrow> with_sender c (\<lambda>s. map_option (\<lambda>i. s\<lparr>pss_output := i\<rparr>) (StreamPassInterface_Done (pss_output s) (int k)));
          Some (c\<lparr>sc_sent := sc_sent c @ data\<rparr>)
        })"
| "sc_step c SendStreamDone = with_sender c (\<lambda>s.
     case StreamPassInterface_job_done (pss_output s) of
       None \<Rightarrow> None
     | Some (i, len) \<Rightarrow> pss_output_handler_done (s\<lparr>pss_output := i\<rparr>) len)"
| "sc_step c (SendPacketDone env) =
     with_sender c (\<lambda>s. map_option (\<lambda>i. s\<lparr>pss_input := i\<rparr>) (PacketPassInterface_job_done (pss_input s))) \<bind> send_handler_done env"
| "sc_step c RecvJob = with_recv_if c (\<lambda>i. map_option fst (StreamRecvInterface_job_operation i))"
| "sc_step c (RecvSome data) =
     (case sc_control c of None \<Rightarrow> None
      | Some ct \<Rightarrow> do {
          a \<leftarrow> operation_at (ct_recv_if ct);
          c \<leftarrow> buffer_write c a data;
          c \<leftarrow> with_recv_if c (\<lambda>i. StreamRecvInterface_Done i (int (length data)));
          Some (c\<lparr>sc_received := sc_received c @ data\<rparr>)
        })"
| "sc_step c (RecvDone env) =
     (case sc_control c of None \<Rightarrow> None
      | Some ct \<Rightarrow> do {
          (i, len) \<leftarrow> StreamRecvInterface_job_done (ct_recv_if ct);
          recv_handler_done env (c\<lparr>sc_control := Some (ct\<lparr>ct_recv_if := i\<rparr>)\<rparr>) len
        })"

inductive sc_reach :: "BSocksClient \<Rightarrow> bool" where
  start: "BSocksClient_Init True server_addr auth_info dest_addr = Some (Some c) \<Longrightarrow> wf_addr dest_addr \<Longrightarrow> sc_reach c"
| step: "sc_reach c \<Longrightarrow> sc_possible c ev \<Longrightarrow> sc_step c ev = Some c' \<Longrightarrow> sc_reach c'"

subsection \<open>The protocol\<close>

text \<open>The messages of RFC 1928 and RFC 1929.\<close>

definition hello_msg :: "BSocksClient_auth_info list \<Rightarrow> bytes" where
  "hello_msg as = [5, word_of_nat (length as)] @ map (\<lambda>a. word_of_int (auth_type a)) as"

definition password_msg :: "BSocksClient_auth_info \<Rightarrow> bytes" where
  "password_msg ai = [1, word_of_nat (length (ai_username ai))] @ ai_username ai @ [word_of_nat (length (ai_password ai))] @ ai_password ai"

definition request_msg :: "BAddr \<Rightarrow> bytes" where
  "request_msg a =
     (case a of BAddrIPv4 ip port \<Rightarrow> [5, 1, 0, 1] @ le32_bytes ip @ le16_bytes port
      | BAddrIPv6 ip port \<Rightarrow> [5, 1, 0, 4] @ ip @ le16_bytes port
      | BAddrNone \<Rightarrow> [])"

definition method_info :: "BSocksClient_auth_info list \<Rightarrow> int \<Rightarrow> BSocksClient_auth_info option" where
  "method_info as m = find (\<lambda>a. auth_type a = m) as"

definition valid_cred :: "BSocksClient_auth_info \<Rightarrow> bool" where
  "valid_cred ai \<longleftrightarrow> 0 < length (ai_username ai) \<and> length (ai_username ai) \<le> 255 \<and> 0 < length (ai_password ai) \<and> length (ai_password ai) \<le> 255"

definition reply_addr_len :: "byte \<Rightarrow> nat" where
  "reply_addr_len atyp = (if atyp = 1 then 6 else 18)"

datatype verdict = More | Refused | Accepted

text \<open>What the bytes received from the server so far say, once authentication is done, and from the beginning.\<close>

definition reply_verdict :: "bytes \<Rightarrow> verdict" where
  "reply_verdict r =
     (if length r < 4 then More
      else if r ! 0 \<noteq> 5 \<or> r ! 1 \<noteq> 0 \<or> r ! 3 \<notin> {1, 4} then Refused
      else if length r < 4 + reply_addr_len (r ! 3) then More else Accepted)"

definition server_verdict :: "BSocksClient_auth_info list \<Rightarrow> bytes \<Rightarrow> verdict" where
  "server_verdict as r =
     (if length r < 2 then More
      else if r ! 0 \<noteq> 5 then Refused
      else case method_info as (uint (r ! 1)) of
        None \<Rightarrow> Refused
      | Some ai \<Rightarrow>
          if auth_type ai = 0 then reply_verdict (drop 2 r)
          else if \<not> valid_cred ai then Refused
          else if length r < 4 then More
          else if r ! 2 \<noteq> 1 \<or> r ! 3 \<noteq> 0 then Refused
          else reply_verdict (drop 4 r))"

text \<open>The server's part of a completed authentication, and what the client has sent for it.\<close>

definition auth_done :: "BSocksClient_auth_info list \<Rightarrow> bytes \<Rightarrow> bytes \<Rightarrow> bool" where
  "auth_done as base sent \<longleftrightarrow>
     base = [5, 0] \<and> method_info as 0 \<noteq> None \<and> sent = hello_msg as \<or>
     base = [5, 2, 1, 0] \<and> (\<exists>ai. method_info as 2 = Some ai \<and> valid_cred ai \<and> sent = hello_msg as @ password_msg ai)"

definition reply_header :: "bytes \<Rightarrow> bool" where
  "reply_header h \<longleftrightarrow> length h = 4 \<and> h ! 0 = 5 \<and> h ! 1 = 0 \<and> h ! 3 \<in> {1, 4}"

subsection \<open>Invariant\<close>

definition sender_base :: "PacketStreamSender \<Rightarrow> bool" where
  "sender_base s \<longleftrightarrow> ppi_inv (pss_input s) \<and> ppi_has_user (pss_input s) \<and> ppi_mtu (pss_input s) = INT_MAX \<and>
     si_inv (pss_output s) \<and> si_has_user (pss_output s)"

definition sender_idle :: "PacketStreamSender \<Rightarrow> bool" where
  "sender_idle s \<longleftrightarrow> sender_base s \<and> ppi_state (pss_input s) = STATE_NONE \<and> si_state (pss_output s) = STATE_NONE \<and> pss_in_len s = -1"

text \<open>The sender has a message and has sent the given number of bytes of it.\<close>

definition sender_at :: "bytes \<Rightarrow> nat \<Rightarrow> PacketStreamSender \<Rightarrow> bool" where
  "sender_at msg n s \<longleftrightarrow> sender_base s \<and>
     (case ppi_state (pss_input s) of
        STATE_NONE \<Rightarrow> False
      | STATE_OPERATION_PENDING \<Rightarrow> n = 0 \<and> pss_in_len s = -1 \<and> si_state (pss_output s) = STATE_NONE \<and>
          ppi_job_operation_data (pss_input s) = Some 0 \<and> ppi_job_operation_len (pss_input s) = int (length msg)
      | STATE_BUSY \<Rightarrow> pss_in_len s = int (length msg) \<and> pss_in s = 0 \<and> 0 \<le> pss_in_used s \<and> pss_in_used s < pss_in_len s \<and>
          si_state (pss_output s) \<noteq> STATE_NONE \<and> si_job_operation_data (pss_output s) = Some (pss_in_used s) \<and>
          si_job_operation_len (pss_output s) = pss_in_len s - pss_in_used s \<and>
          int n = pss_in_used s + (if si_state (pss_output s) = STATE_DONE_PENDING then si_job_done_len (pss_output s) else 0)
      | STATE_DONE_PENDING \<Rightarrow> n = length msg \<and> pss_in_len s = -1 \<and> si_state (pss_output s) = STATE_NONE)"

definition recv_idle :: "StreamInterface \<Rightarrow> bool" where
  "recv_idle i \<longleftrightarrow> si_inv i \<and> si_has_user i \<and> si_state i = STATE_NONE"

text \<open>Receiving at an offset; so many bytes have arrived.\<close>

definition recv_at :: "nat \<Rightarrow> nat \<Rightarrow> nat \<Rightarrow> sc_control_io \<Rightarrow> bool" where
  "recv_at dest total_len n ct \<longleftrightarrow> si_inv (ct_recv_if ct) \<and> si_has_user (ct_recv_if ct) \<and> si_state (ct_recv_if ct) \<noteq> STATE_NONE \<and>
     ct_recv_dest ct = int dest \<and> ct_recv_total ct = int total_len \<and> 0 \<le> ct_recv_len ct \<and> ct_recv_len ct < ct_recv_total ct \<and>
     si_job_operation_data (ct_recv_if ct) = Some (ct_recv_dest ct + ct_recv_len ct) \<and>
     si_job_operation_len (ct_recv_if ct) = ct_recv_total ct - ct_recv_len ct \<and>
     int n = ct_recv_len ct + (if si_state (ct_recv_if ct) = STATE_DONE_PENDING then si_job_done_len (ct_recv_if ct) else 0)"

definition sc_sending :: "BSocksClient \<Rightarrow> bytes \<Rightarrow> bytes \<Rightarrow> bytes \<Rightarrow> bool" where
  "sc_sending c msg sent received \<longleftrightarrow>
     (\<exists>ct n. sc_control c = Some ct \<and> sc_buffer c = Some msg \<and> 0 < length msg \<and> length msg \<le> 1024 \<and> recv_idle (ct_recv_if ct) \<and> sender_at msg n (ct_send_sender ct) \<and>
       sc_sent c = sent @ take n msg \<and> sc_received c = received)"

definition sc_receiving :: "BSocksClient \<Rightarrow> nat \<Rightarrow> nat \<Rightarrow> bytes \<Rightarrow> bytes \<Rightarrow> bool" where
  "sc_receiving c dest total_len sent received \<longleftrightarrow>
     (\<exists>ct b n. sc_control c = Some ct \<and> sc_buffer c = Some b \<and> dest + total_len \<le> length b \<and> sender_idle (ct_send_sender ct) \<and>
       recv_at dest total_len n ct \<and> sc_sent c = sent \<and> sc_received c = received @ mem_read b dest n)"

definition sc_phase :: "BSocksClient \<Rightarrow> bool" where
  "sc_phase c \<longleftrightarrow>
     (let as = sc_auth_info c in
      case sc_state c of
        STATE_CONNECTING \<Rightarrow> sc_sent c = [] \<and> sc_received c = []
      | STATE_SENDING_HELLO \<Rightarrow> sc_sending c (hello_msg as) [] []
      | STATE_SENT_HELLO \<Rightarrow> sc_receiving c 0 2 (hello_msg as) []
      | STATE_SENDING_PASSWORD \<Rightarrow> (\<exists>ai. method_info as 2 = Some ai \<and> valid_cred ai \<and> sc_sending c (password_msg ai) (hello_msg as) [5, 2])
      | STATE_SENT_PASSWORD \<Rightarrow> (\<exists>ai. method_info as 2 = Some ai \<and> valid_cred ai \<and> sc_receiving c 0 2 (hello_msg as @ password_msg ai) [5, 2])
      | STATE_SENDING_REQUEST \<Rightarrow> (\<exists>base sent. auth_done as base sent \<and> sc_sending c (request_msg (sc_dest_addr c)) sent base)
      | STATE_SENT_REQUEST \<Rightarrow> (\<exists>base sent. auth_done as base sent \<and> sc_receiving c 0 4 (sent @ request_msg (sc_dest_addr c)) base \<and>
          map_option length (sc_buffer c) = Some 22)
      | STATE_RECEIVED_REPLY_HEADER \<Rightarrow> (\<exists>base sent h. auth_done as base sent \<and> reply_header h \<and>
          sc_receiving c 4 (reply_addr_len (h ! 3)) (sent @ request_msg (sc_dest_addr c)) (base @ h))
      | STATE_UP \<Rightarrow> (\<exists>base sent h a. auth_done as base sent \<and> reply_header h \<and> length a = reply_addr_len (h ! 3) \<and>
          sc_sent c = sent @ request_msg (sc_dest_addr c) \<and> sc_received c = base @ h @ a))"

text \<open>What is there to be freed.\<close>

definition sc_resources :: "BSocksClient \<Rightarrow> bool" where
  "sc_resources c \<longleftrightarrow> sc_connector c \<and> sc_con c = (sc_state c \<noteq> STATE_CONNECTING) \<and> (sc_up c \<noteq> None) = (sc_state c = STATE_UP) \<and>
     (sc_control c \<noteq> None) = (sc_state c \<noteq> STATE_CONNECTING \<and> sc_state c \<noteq> STATE_UP) \<and> (sc_state c \<in> {STATE_CONNECTING, STATE_UP} \<longrightarrow> sc_buffer c = None)"

definition sc_calls :: "BSocksClient \<Rightarrow> bool" where
  "sc_calls c \<longleftrightarrow>
     (if sc_state c = STATE_UP
      then sc_handler c \<in> {[BSOCKSCLIENT_EVENT_UP], [BSOCKSCLIENT_EVENT_UP, BSOCKSCLIENT_EVENT_ERROR], [BSOCKSCLIENT_EVENT_UP, BSOCKSCLIENT_EVENT_ERROR_CLOSED]}
      else sc_handler c \<in> {[], [BSOCKSCLIENT_EVENT_ERROR]})"

definition sc_inv :: "BSocksClient \<Rightarrow> bool" where
  "sc_inv c \<longleftrightarrow> list_all (\<lambda>a. auth_type a = 0 \<or> auth_type a = 2) (sc_auth_info c) \<and> wf_addr (sc_dest_addr c) \<and>
     sc_resources c \<and> sc_calls c \<and> (\<not> error_reported c \<longrightarrow> sc_phase c)"

subsection \<open>Sending and receiving\<close>

lemmas sender_defs = sender_at_def sender_base_def sender_idle_def pss_send_data_def pss_input_handler_send_def pss_output_handler_done_def

text \<open>How many more steps a message can take.\<close>

definition stream_rank :: "StreamInterface \<Rightarrow> int" where
  "stream_rank i =
     (case si_state i of STATE_NONE \<Rightarrow> 0 | STATE_OPERATION_PENDING \<Rightarrow> 3 * si_job_operation_len i + 1 | STATE_BUSY \<Rightarrow> 3 * si_job_operation_len i
      | STATE_DONE_PENDING \<Rightarrow> 3 * si_job_operation_len i - 1)"

definition send_rank :: "PacketStreamSender \<Rightarrow> int" where
  "send_rank s =
     (case ppi_state (pss_input s) of STATE_NONE \<Rightarrow> 0 | STATE_OPERATION_PENDING \<Rightarrow> 3 * ppi_job_operation_len (pss_input s) + 3
      | STATE_BUSY \<Rightarrow> stream_rank (pss_output s) + 1 | STATE_DONE_PENDING \<Rightarrow> 1)"

lemmas rank_defs = stream_rank_def send_rank_def

lemma sender_packet_job:
  assumes "sender_at msg n s" "ppi_job_operation (pss_input s)" "msg \<noteq> []"
  shows "\<exists>s'. (case PacketPassInterface_job_operation (pss_input s) of
       Some (i, Some data, len) \<Rightarrow> pss_input_handler_send (s\<lparr>pss_input := i\<rparr>) data len | _ \<Rightarrow> None) = Some s' \<and> sender_at msg n s' \<and> send_rank s' < send_rank s"
proof -
  have "ppi_state (pss_input s) = STATE_OPERATION_PENDING" using assms by (simp add: sender_at_def sender_base_def ppi_inv_def)
  then show ?thesis using assms
    by (auto simp: sender_defs rank_defs ppi_inv_def si_inv_def PacketPassInterface_job_operation_def StreamPassInterface_Sender_Send_def)
qed

lemma sender_stream_job:
  assumes "sender_at msg n s" "si_job_operation (pss_output s)"
  shows "\<exists>s'. map_option (\<lambda>r. s\<lparr>pss_output := fst r\<rparr>) (StreamPassInterface_job_operation (pss_output s)) = Some s' \<and> sender_at msg n s' \<and> send_rank s' < send_rank s"
proof -
  have o: "si_state (pss_output s) = STATE_OPERATION_PENDING" using assms by (simp add: sender_at_def sender_base_def si_inv_def)
  then have "ppi_state (pss_input s) = STATE_BUSY" using assms(1) by (auto simp: sender_at_def split: if_state.splits)
  then show ?thesis using assms o by (auto simp: sender_defs rank_defs ppi_inv_def si_inv_def StreamPassInterface_job_operation_def)
qed

lemma sender_some:
  assumes "sender_at msg n s" "si_state (pss_output s) = STATE_BUSY" "0 < k" "int k \<le> si_job_operation_len (pss_output s)"
  shows "operation_at (pss_output s) = Some n \<and> n + k \<le> length msg \<and>
    (\<exists>i. StreamPassInterface_Done (pss_output s) (int k) = Some i \<and> sender_at msg (n + k) (s\<lparr>pss_output := i\<rparr>) \<and> send_rank (s\<lparr>pss_output := i\<rparr>) < send_rank s)"
proof -
  have i: "ppi_state (pss_input s) = STATE_BUSY" using assms by (auto simp: sender_at_def split: if_state.splits)
  then have n: "int n = pss_in_used s" "si_job_operation_data (pss_output s) = Some (int n)" "pss_in_len s = int (length msg)"
    "si_job_operation_len (pss_output s) = int (length msg) - int n"
    using assms(1,2) by (simp_all add: sender_at_def)
  then show ?thesis using assms i by (auto simp: sender_defs rank_defs ppi_inv_def si_inv_def StreamPassInterface_Done_def operation_at_def)
qed

lemma sender_stream_done:
  assumes "sender_at msg n s" "si_job_done (pss_output s)"
  shows "\<exists>s'. (case StreamPassInterface_job_done (pss_output s) of None \<Rightarrow> None
       | Some (i, len) \<Rightarrow> pss_output_handler_done (s\<lparr>pss_output := i\<rparr>) len) = Some s' \<and> sender_at msg n s' \<and> send_rank s' < send_rank s"
proof -
  have o: "si_state (pss_output s) = STATE_DONE_PENDING" using assms by (simp add: sender_at_def sender_base_def si_inv_def)
  then have i: "ppi_state (pss_input s) = STATE_BUSY" using assms(1) by (auto simp: sender_at_def split: if_state.splits)
  have n: "int n = pss_in_used s + si_job_done_len (pss_output s)" "pss_in_len s = int (length msg)" "0 < si_job_done_len (pss_output s)"
    "si_job_done_len (pss_output s) \<le> pss_in_len s - pss_in_used s" "0 \<le> pss_in_used s"
    using assms(1) o i by (simp_all add: sender_at_def sender_base_def si_inv_def)
  show ?thesis
  proof (cases "n < length msg")
    case True
    then show ?thesis using assms o i n
      by (auto simp: sender_defs rank_defs ppi_inv_def si_inv_def StreamPassInterface_job_done_def StreamPassInterface_Sender_Send_def)
  next
    case False
    then have "int n = int (length msg)" using n by linarith
    then show ?thesis using assms o i n
      by (auto simp: sender_defs rank_defs ppi_inv_def si_inv_def StreamPassInterface_job_done_def PacketPassInterface_Done_def)
  qed
qed

lemma sender_packet_done:
  assumes "sender_at msg n s" "ppi_job_done (pss_input s)"
  shows "n = length msg \<and> (\<exists>i. PacketPassInterface_job_done (pss_input s) = Some i \<and> sender_idle (s\<lparr>pss_input := i\<rparr>))"
proof -
  have "ppi_state (pss_input s) = STATE_DONE_PENDING" using assms by (simp add: sender_at_def sender_base_def ppi_inv_def)
  then show ?thesis using assms by (auto simp: sender_defs ppi_inv_def PacketPassInterface_job_done_def)
qed

lemma sender_idle_quiet:
  assumes "sender_idle s"
  shows "\<not> ppi_job_operation (pss_input s)" "\<not> ppi_job_done (pss_input s)" "\<not> si_job_operation (pss_output s)" "\<not> si_job_done (pss_output s)"
    "si_state (pss_output s) \<noteq> STATE_BUSY"
  using assms by (simp_all add: sender_idle_def sender_base_def ppi_inv_def si_inv_def)

lemma recv_idle_quiet:
  assumes "recv_idle i"
  shows "\<not> si_job_operation i" "\<not> si_job_done i" "si_state i \<noteq> STATE_BUSY"
  using assms by (simp_all add: recv_idle_def si_inv_def)

lemma sender_starts:
  assumes "sender_idle s" "0 < length msg" "length msg \<le> 1024"
  shows "\<exists>i. PacketPassInterface_Sender_Send (pss_input s) (Some 0) (int (length msg)) = Some i \<and> sender_at msg 0 (s\<lparr>pss_input := i\<rparr>)"
proof -
  have "int (length msg) \<le> INT_MAX" using assms(3) by (simp add: INT_MAX_def)
  then show ?thesis using assms by (auto simp: sender_defs ppi_inv_def PacketPassInterface_Sender_Send_def)
qed

lemma recv_job:
  assumes "recv_at d t n ct" "si_job_operation (ct_recv_if ct)"
  shows "\<exists>i. map_option fst (StreamRecvInterface_job_operation (ct_recv_if ct)) = Some i \<and> recv_at d t n (ct\<lparr>ct_recv_if := i\<rparr>) \<and>
    stream_rank i < stream_rank (ct_recv_if ct)"
proof -
  have "si_state (ct_recv_if ct) = STATE_OPERATION_PENDING" using assms by (simp add: recv_at_def si_inv_def)
  then show ?thesis using assms by (auto simp: recv_at_def si_inv_def rank_defs StreamRecvInterface_job_operation_def)
qed

lemma recv_some:
  assumes "recv_at d t n ct" "si_state (ct_recv_if ct) = STATE_BUSY" "0 < k" "int k \<le> si_job_operation_len (ct_recv_if ct)"
  shows "operation_at (ct_recv_if ct) = Some (d + n) \<and> n + k \<le> t \<and>
    (\<exists>i. StreamRecvInterface_Done (ct_recv_if ct) (int k) = Some i \<and> recv_at d t (n + k) (ct\<lparr>ct_recv_if := i\<rparr>) \<and>
      stream_rank i < stream_rank (ct_recv_if ct))"
proof -
  have n: "int n = ct_recv_len ct" "si_job_operation_data (ct_recv_if ct) = Some (int d + int n)" "ct_recv_total ct = int t"
    "si_job_operation_len (ct_recv_if ct) = int t - int n"
    using assms(1,2) by (simp_all add: recv_at_def)
  have nt: "n + k \<le> t" using n(4) assms(4) by linarith
  let ?i = "(ct_recv_if ct)\<lparr>si_job_done_len := int k, si_job_done := True, si_state := STATE_DONE_PENDING\<rparr>"
  have "StreamRecvInterface_Done (ct_recv_if ct) (int k) = Some ?i" using assms by (simp add: StreamRecvInterface_Done_def)
  moreover have "recv_at d t (n + k) (ct\<lparr>ct_recv_if := ?i\<rparr>)" using assms(1,2,3) nt by (simp add: recv_at_def si_inv_def)
  moreover have "operation_at (ct_recv_if ct) = Some (d + n)" using n(2) by (simp add: operation_at_def nat_int_add)
  moreover have "stream_rank ?i < stream_rank (ct_recv_if ct)" using assms(2) by (simp add: stream_rank_def)
  ultimately show ?thesis using nt by blast
qed

lemma recv_done:
  assumes "recv_at d t n ct" "si_job_done (ct_recv_if ct)"
  shows "\<exists>i len. StreamRecvInterface_job_done (ct_recv_if ct) = Some (i, len) \<and> recv_idle i \<and> 0 \<le> len \<and> ct_recv_len ct + len = int n \<and>
    n \<le> t \<and> ct_recv_total ct = int t \<and> ct_recv_dest ct = int d \<and> stream_rank (ct_recv_if ct) > 3 * (int t - int n) + 1"
proof -
  have d: "si_state (ct_recv_if ct) = STATE_DONE_PENDING" using assms by (simp add: recv_at_def si_inv_def)
  then have "recv_idle ((ct_recv_if ct)\<lparr>si_job_done := False, si_state := STATE_NONE\<rparr>)" using assms(1) by (simp add: recv_at_def recv_idle_def si_inv_def)
  moreover have "0 \<le> si_job_done_len (ct_recv_if ct)" "ct_recv_len ct + si_job_done_len (ct_recv_if ct) = int n" "n \<le> t" "ct_recv_total ct = int t" "ct_recv_dest ct = int d"
    using assms(1) d by (simp_all add: recv_at_def si_inv_def)
  moreover have "stream_rank (ct_recv_if ct) > 3 * (int t - int n) + 1" using assms(1) d by (simp add: recv_at_def si_inv_def stream_rank_def)
  ultimately show ?thesis using assms(2) d by (simp add: StreamRecvInterface_job_done_def)
qed

lemma recv_starts:
  assumes "recv_idle (ct_recv_if ct)" "n < t" "ct_recv_dest ct = int d" "ct_recv_total ct = int t" "ct_recv_len ct = int n"
  shows "\<exists>i. StreamRecvInterface_Receiver_Recv (ct_recv_if ct) (Some (ct_recv_dest ct + ct_recv_len ct)) (ct_recv_total ct - ct_recv_len ct) = Some i \<and>
    recv_at d t n (ct\<lparr>ct_recv_if := i\<rparr>) \<and> stream_rank i = 3 * (int t - int n) + 1"
  using assms by (auto simp: recv_at_def recv_idle_def si_inv_def stream_rank_def StreamRecvInterface_Receiver_Recv_def)

text \<open>What the input and output of a message leave unchanged.\<close>

definition sc_same :: "BSocksClient \<Rightarrow> BSocksClient \<Rightarrow> bool" where
  "sc_same c c' \<longleftrightarrow> sc_auth_info c' = sc_auth_info c \<and> sc_dest_addr c' = sc_dest_addr c \<and> sc_state c' = sc_state c \<and> sc_connector c' = sc_connector c \<and>
     sc_con c' = sc_con c \<and> sc_up c' = sc_up c \<and> sc_handler c' = sc_handler c \<and> (sc_control c' = None) = (sc_control c = None) \<and>
     map_option length (sc_buffer c') = map_option length (sc_buffer c)"

definition io_rank :: "BSocksClient \<Rightarrow> int" where
  "io_rank c = (case sc_control c of None \<Rightarrow> 0 | Some ct \<Rightarrow> send_rank (ct_send_sender ct) + stream_rank (ct_recv_if ct))"

fun state_rank :: "BSocksClient_state \<Rightarrow> int" where
  "state_rank STATE_CONNECTING = 8"
| "state_rank STATE_SENDING_HELLO = 7"
| "state_rank STATE_SENT_HELLO = 6"
| "state_rank STATE_SENDING_PASSWORD = 5"
| "state_rank STATE_SENT_PASSWORD = 4"
| "state_rank STATE_SENDING_REQUEST = 3"
| "state_rank STATE_SENT_REQUEST = 2"
| "state_rank STATE_RECEIVED_REPLY_HEADER = 1"
| "state_rank STATE_UP = 0"

lemma read_written:
  assumes "d + n + length data \<le> length b"
  shows "mem_read (mem_write b (d + n) data) d (n + length data) = mem_read b d n @ data"
proof -
  have "drop d (take (d + n) b) = take n (drop d b)" by (simp add: drop_take)
  then show ?thesis using assms by (simp add: mem_read_def mem_write_def)
qed

lemma sending_step:
  assumes "sc_sending c msg sent r" "sc_possible c ev" "ev \<in> {SendPacketJob, SendStreamJob, SendStreamDone} \<union> range SendSome"
  shows "\<exists>c'. sc_step c ev = Some c' \<and> sc_sending c' msg sent r \<and> sc_same c c' \<and> io_rank c' < io_rank c"
proof -
  have m: "msg \<noteq> []" "0 < length msg" "length msg \<le> 1024" using assms(1) by (auto simp: sc_sending_def)
  obtain ct n where c: "sc_control c = Some ct" "sc_buffer c = Some msg" "recv_idle (ct_recv_if ct)" "sender_at msg n (ct_send_sender ct)"
      "sc_sent c = sent @ take n msg" "sc_received c = r" using assms(1) by (auto simp: sc_sending_def)
  have step: "sc_sending (c\<lparr>sc_control := Some (ct\<lparr>ct_send_sender := s\<rparr>)\<rparr>) msg sent r \<and> sc_same c (c\<lparr>sc_control := Some (ct\<lparr>ct_send_sender := s\<rparr>)\<rparr>) \<and>
      io_rank (c\<lparr>sc_control := Some (ct\<lparr>ct_send_sender := s\<rparr>)\<rparr>) < io_rank c"
    if "sender_at msg n s" "send_rank s < send_rank (ct_send_sender ct)" for s using c m that by (auto simp: sc_sending_def sc_same_def io_rank_def)
  from assms(3) consider "ev = SendPacketJob" | "ev = SendStreamJob" | "ev = SendStreamDone" | k where "ev = SendSome k" by auto
  then show ?thesis
  proof cases
    case 1
    then have "ppi_job_operation (pss_input (ct_send_sender ct))" using assms(2) c(1) by (simp add: sc_possible_def on_control_def)
    from sender_packet_job [OF c(4) this m(1)] show ?thesis using 1 c(1) step by (auto simp: with_sender_def with_control_def)
  next
    case 2
    then have "si_job_operation (pss_output (ct_send_sender ct))" using assms(2) c(1) by (simp add: sc_possible_def on_control_def)
    from sender_stream_job [OF c(4) this] show ?thesis using 2 c(1) step by (auto simp: with_sender_def with_control_def)
  next
    case 3
    then have "si_job_done (pss_output (ct_send_sender ct))" using assms(2) c(1) by (simp add: sc_possible_def on_control_def)
    from sender_stream_done [OF c(4) this] show ?thesis using 3 c(1) step by (auto simp: with_sender_def with_control_def)
  next
    case (4 k)
    then have "si_state (pss_output (ct_send_sender ct)) = STATE_BUSY" "0 < k" "int k \<le> si_job_operation_len (pss_output (ct_send_sender ct))"
      using assms(2) c(1) by (simp_all add: sc_possible_def on_control_def)
    from sender_some [OF c(4) this] obtain i where i: "operation_at (pss_output (ct_send_sender ct)) = Some n" "n + k \<le> length msg"
      "StreamPassInterface_Done (pss_output (ct_send_sender ct)) (int k) = Some i" "sender_at msg (n + k) ((ct_send_sender ct)\<lparr>pss_output := i\<rparr>)"
      "send_rank ((ct_send_sender ct)\<lparr>pss_output := i\<rparr>) < send_rank (ct_send_sender ct)" by blast
    let ?c = "c\<lparr>sc_control := Some (ct\<lparr>ct_send_sender := (ct_send_sender ct)\<lparr>pss_output := i\<rparr>\<rparr>), sc_sent := sc_sent c @ mem_read msg n k\<rparr>"
    have "sc_step c ev = Some ?c" using 4 c(1,2) i by (simp add: with_sender_def with_control_def buffer_read_def)
    moreover have "sc_sent c @ mem_read msg n k = sent @ take (n + k) msg" using c(5) by (simp add: mem_read_def take_add)
    ultimately show ?thesis using c i(4,5) m(2,3) by (auto simp: sc_sending_def sc_same_def io_rank_def)
  qed
qed

lemma receiving_step:
  assumes "sc_receiving c d t sent r" "sc_possible c ev" "ev \<in> insert RecvJob (range RecvSome)"
  shows "\<exists>c'. sc_step c ev = Some c' \<and> sc_receiving c' d t sent r \<and> sc_same c c' \<and> io_rank c' < io_rank c"
proof -
  obtain ct b n where c: "sc_control c = Some ct" "sc_buffer c = Some b" "d + t \<le> length b" "sender_idle (ct_send_sender ct)" "recv_at d t n ct"
      "sc_sent c = sent" "sc_received c = r @ mem_read b d n" using assms(1) by (auto simp: sc_receiving_def)
  from assms(3) consider "ev = RecvJob" | data where "ev = RecvSome data" by auto
  then show ?thesis
  proof cases
    case 1
    then have "si_job_operation (ct_recv_if ct)" using assms(2) c(1) by (simp add: sc_possible_def on_control_def)
    from recv_job [OF c(5) this] obtain i where i: "map_option fst (StreamRecvInterface_job_operation (ct_recv_if ct)) = Some i"
      "recv_at d t n (ct\<lparr>ct_recv_if := i\<rparr>)" "stream_rank i < stream_rank (ct_recv_if ct)" by blast
    let ?c = "c\<lparr>sc_control := Some (ct\<lparr>ct_recv_if := i\<rparr>)\<rparr>"
    have "sc_step c ev = Some ?c" using 1 c(1) i(1) by (simp add: with_recv_if_def with_control_def del: map_option_eq_Some)
    then show ?thesis using c i(2,3) by (auto simp: sc_receiving_def sc_same_def io_rank_def)
  next
    case (2 data)
    then have "si_state (ct_recv_if ct) = STATE_BUSY" "0 < length data" "int (length data) \<le> si_job_operation_len (ct_recv_if ct)"
      using assms(2) c(1) by (simp_all add: sc_possible_def on_control_def)
    from recv_some [OF c(5) this] obtain i where i: "operation_at (ct_recv_if ct) = Some (d + n)" "n + length data \<le> t"
      "StreamRecvInterface_Done (ct_recv_if ct) (int (length data)) = Some i" "recv_at d t (n + length data) (ct\<lparr>ct_recv_if := i\<rparr>)"
      "stream_rank i < stream_rank (ct_recv_if ct)" by blast
    have len: "d + n + length data \<le> length b" using i(2) c(3) by linarith
    let ?b = "mem_write b (d + n) data"
    let ?c = "c\<lparr>sc_buffer := Some ?b, sc_control := Some (ct\<lparr>ct_recv_if := i\<rparr>), sc_received := sc_received c @ data\<rparr>"
    have "sc_step c ev = Some ?c" using 2 c(1,2) i len by (simp add: with_recv_if_def with_control_def buffer_write_def)
    moreover have "sc_received c @ data = r @ mem_read ?b d (n + length data)" using c(7) read_written [OF len] by simp
    ultimately show ?thesis using c i(4,5) len by (auto simp: sc_receiving_def sc_same_def io_rank_def)
  qed
qed

lemma sending_quiet: "sc_sending c msg sent r \<Longrightarrow> sc_possible c ev \<Longrightarrow> sc_state c \<noteq> STATE_CONNECTING \<Longrightarrow>
    ev \<in> {SendPacketJob, SendStreamJob, SendStreamDone} \<union> range SendSome \<union> range SendPacketDone \<union> range Connection"
  by (cases ev) (auto simp: sc_sending_def sc_possible_def on_control_def dest: recv_idle_quiet)

lemma receiving_quiet: "sc_receiving c d t sent r \<Longrightarrow> sc_possible c ev \<Longrightarrow> sc_state c \<noteq> STATE_CONNECTING \<Longrightarrow>
    ev \<in> insert RecvJob (range RecvSome) \<union> range RecvDone \<union> range Connection"
  by (cases ev) (auto simp: sc_receiving_def sc_possible_def on_control_def dest: sender_idle_quiet)

subsection \<open>Handlers\<close>

lemma mem_write_append:
  "off + length xs + length ys \<le> length b \<Longrightarrow> mem_write (mem_write b off xs) (off + length xs) ys = mem_write b off (xs @ ys)"
  by (simp add: mem_write_def ac_simps)

lemma mem_write_all: "length xs = length b \<Longrightarrow> mem_write b 0 xs = xs"
  by (simp add: mem_write_def)

lemma mem_write_front: "length b = length h + length a \<Longrightarrow> mem_write (mem_write b (length h) a) 0 h = h @ a"
  by (simp add: mem_write_def)

definition control_idle :: "BSocksClient \<Rightarrow> bool" where
  "control_idle c \<longleftrightarrow> on_control c (\<lambda>ct. recv_idle (ct_recv_if ct) \<and> sender_idle (ct_send_sender ct))"

lemma send_buffer_starts:
  assumes "control_idle c" "sc_buffer c = Some msg" "0 < length msg" "length msg \<le> 1024"
  shows "\<exists>ct. send_buffer c (int (length msg)) = Some (c\<lparr>sc_control := Some ct\<rparr>) \<and>
    sc_sending (c\<lparr>sc_control := Some ct, sc_state := st\<rparr>) msg (sc_sent c) (sc_received c)"
proof -
  obtain ct where ct: "sc_control c = Some ct" "recv_idle (ct_recv_if ct)" "sender_idle (ct_send_sender ct)"
    using assms(1) by (auto simp: control_idle_def on_control_def split: option.splits)
  from sender_starts [OF ct(3) assms(3,4)] obtain i where i: "PacketPassInterface_Sender_Send (pss_input (ct_send_sender ct)) (Some 0) (int (length msg)) = Some i"
    "sender_at msg 0 ((ct_send_sender ct)\<lparr>pss_input := i\<rparr>)" by blast
  show ?thesis
    by (rule exI [where x = "ct\<lparr>ct_send_sender := (ct_send_sender ct)\<lparr>pss_input := i\<rparr>\<rparr>"])
      (use ct i assms(2-4) in \<open>auto simp: send_buffer_def with_control_def sc_sending_def\<close>)
qed

lemma start_receive_starts:
  assumes "control_idle c" "sc_buffer c = Some b" "d + t \<le> length b" "0 < t"
  shows "\<exists>ct. start_receive c (int d) (int t) = Some (c\<lparr>sc_control := Some ct\<rparr>) \<and>
    sc_receiving (c\<lparr>sc_control := Some ct, sc_state := st\<rparr>) d t (sc_sent c) (sc_received c)"
proof -
  obtain ct where ct: "sc_control c = Some ct" "recv_idle (ct_recv_if ct)" "sender_idle (ct_send_sender ct)"
    using assms(1) by (auto simp: control_idle_def on_control_def split: option.splits)
  let ?ct = "ct\<lparr>ct_recv_dest := int d, ct_recv_len := 0, ct_recv_total := int t\<rparr>"
  from recv_starts [of ?ct 0 t d] ct(2) assms(4) obtain i where
    i: "StreamRecvInterface_Receiver_Recv (ct_recv_if ct) (Some (int d)) (int t) = Some i" "recv_at d t 0 (?ct\<lparr>ct_recv_if := i\<rparr>)" by auto
  have "start_receive c (int d) (int t) = Some (c\<lparr>sc_control := Some (?ct\<lparr>ct_recv_if := i\<rparr>)\<rparr>)"
    using ct(1) i(1) assms(4) by (simp add: start_receive_def do_receive_def with_control_def)
  moreover have "sc_receiving (c\<lparr>sc_control := Some (?ct\<lparr>ct_recv_if := i\<rparr>), sc_state := st\<rparr>) d t (sc_sent c) (sc_received c)"
    unfolding sc_receiving_def using ct(3) i(2) assms(2,3) by (intro exI conjI) (auto simp: mem_read_def)
  ultimately show ?thesis by blast
qed

lemma reserve_cases:
  assumes "\<not> is_overflow sz"
  shows "if se_realloc env = None then reserve_buffer env c sz = (c, False)
    else \<exists>b. length b = bs_value sz \<and> reserve_buffer env c sz = (c\<lparr>sc_buffer := Some b\<rparr>, True)"
proof (cases "se_realloc env")
  case (Some junk)
  let ?b = "take (bs_value sz) ((case sc_buffer c of None \<Rightarrow> [] | Some b \<Rightarrow> b) @ junk @ replicate (bs_value sz) 0)"
  have "length ?b = bs_value sz" "reserve_buffer env c sz = (c\<lparr>sc_buffer := Some ?b\<rparr>, True)" using assms Some by (simp_all add: reserve_buffer_def)
  then have "\<exists>b. length b = bs_value sz \<and> reserve_buffer env c sz = (c\<lparr>sc_buffer := Some b\<rparr>, True)" by blast
  then show ?thesis using Some by simp
qed (use assms in \<open>simp add: reserve_buffer_def\<close>)

lemma small_size:
  assumes "a + b \<le> 65535" "size_fine env"
  shows "bsize_add (se_size_max env) (bsize_fromsize a) (bsize_fromsize b) = bsize_fromsize (a + b)"
  using assms by (simp add: bsize_add_def bsize_fromsize_def size_fine_def)

lemma small_mul: "a \<le> 65535 \<Longrightarrow> size_fine env \<Longrightarrow> bsize_mul (se_size_max env) (bsize_fromsize a) (bsize_fromsize 1) = bsize_fromsize a"
proof -
  assume a: "a \<le> 65535" "size_fine env"
  have "a \<le> se_size_max env" using a by (simp add: size_fine_def)
  then have "0 < se_size_max env div a" if "a \<noteq> 0" using that by (simp add: div_greater_zero_iff)
  then show ?thesis using a by (fastforce simp: bsize_mul_def bsize_fromsize_def size_fine_def)
qed

lemma bsize_fields [simp]: "is_overflow (bsize_fromsize n) = False" "bs_value (bsize_fromsize n) = n"
  by (simp_all add: bsize_fromsize_def)

text \<open>A handler that sends the next message, or reports an error when there is no memory.\<close>

definition sends_next :: "sc_env \<Rightarrow> BSocksClient \<Rightarrow> BSocksClient_state \<Rightarrow> bytes \<Rightarrow> BSocksClient option \<Rightarrow> bool" where
  "sends_next env c st msg res \<longleftrightarrow>
     (if se_realloc env = None then res = Some (c\<lparr>sc_handler := sc_handler c @ [BSOCKSCLIENT_EVENT_ERROR]\<rparr>)
      else \<exists>b ct. res = Some (c\<lparr>sc_buffer := Some b, sc_control := Some ct, sc_state := st\<rparr>) \<and>
        sc_sending (c\<lparr>sc_buffer := Some b, sc_control := Some ct, sc_state := st\<rparr>) msg (sc_sent c) (sc_received c))"

lemma control_idle_buffer [simp]: "control_idle (c\<lparr>sc_buffer := x\<rparr>) = control_idle c" "control_idle (c\<lparr>sc_handler := h\<rparr>) = control_idle c"
  by (simp_all add: control_idle_def on_control_def)

lemma auth_finished_ok:
  assumes "control_idle c" "\<not> error_reported c" "wf_addr (sc_dest_addr c)" "size_fine env"
  shows "sends_next env c STATE_SENDING_REQUEST (request_msg (sc_dest_addr c)) (auth_finished env c)"
proof -
  define addr where "addr = (case sc_dest_addr c of BAddrIPv4 ip port \<Rightarrow> le32_bytes ip @ le16_bytes port | BAddrIPv6 ip port \<Rightarrow> take 16 ip @ le16_bytes port | BAddrNone \<Rightarrow> [])"
  define atyp where "atyp = (case sc_dest_addr c of BAddrIPv4 _ _ \<Rightarrow> SOCKS_ATYP_IPV4 | _ \<Rightarrow> SOCKS_ATYP_IPV6)"
  let ?h = "[SOCKS_VERSION, SOCKS_CMD_CONNECT, 0, atyp]"
  have r: "?h @ addr = request_msg (sc_dest_addr c)" and l: "4 + length addr \<le> 22"
    using assms(3) by (auto simp: addr_def atyp_def request_msg_def wf_addr_def SOCKS_VERSION_def SOCKS_CMD_CONNECT_def SOCKS_ATYP_IPV4_def SOCKS_ATYP_IPV6_def split: BAddr.splits)
  have len: "length (request_msg (sc_dest_addr c)) = 4 + length addr" unfolding r [symmetric] by simp
  have e: "auth_finished env c = (let (c1, ok) = reserve_buffer env c (bsize_fromsize (4 + length addr)) in
      if \<not> ok then report_error c1 BSOCKSCLIENT_EVENT_ERROR
      else do { c1 \<leftarrow> buffer_write c1 4 addr; c1 \<leftarrow> buffer_write c1 0 ?h; c1 \<leftarrow> send_buffer c1 (int (4 + length addr)); Some (c1\<lparr>sc_state := STATE_SENDING_REQUEST\<rparr>) })"
    using assms(3,4) reserve_cases [of "bsize_fromsize (4 + length addr)" env c]
    by (cases "sc_dest_addr c") (auto simp: auth_finished_def addr_def atyp_def wf_addr_def small_size map_option_case Let_def split: option.splits if_splits)
  show ?thesis
  proof (cases "se_realloc env = None")
    case True
    then show ?thesis using e reserve_cases [of "bsize_fromsize (4 + length addr)" env c] assms(2) by (simp add: sends_next_def report_error_def)
  next
    case False
    then obtain b where b: "length b = 4 + length addr" "reserve_buffer env c (bsize_fromsize (4 + length addr)) = (c\<lparr>sc_buffer := Some b\<rparr>, True)"
      using reserve_cases [of "bsize_fromsize (4 + length addr)" env c] by auto
    have m: "mem_write (mem_write b 4 addr) 0 ?h = request_msg (sc_dest_addr c)" using mem_write_front [of b ?h addr] b(1) r by (simp add: numeral_eq_Suc)
    let ?c = "c\<lparr>sc_buffer := Some (request_msg (sc_dest_addr c))\<rparr>"
    from send_buffer_starts [of ?c "request_msg (sc_dest_addr c)" STATE_SENDING_REQUEST] assms(1) len l obtain ct where
      ct: "send_buffer ?c (int (4 + length addr)) = Some (?c\<lparr>sc_control := Some ct\<rparr>)"
      "sc_sending (?c\<lparr>sc_control := Some ct, sc_state := STATE_SENDING_REQUEST\<rparr>) (request_msg (sc_dest_addr c)) (sc_sent c) (sc_received c)" by auto
    have "auth_finished env c = Some (?c\<lparr>sc_control := Some ct, sc_state := STATE_SENDING_REQUEST\<rparr>)"
      unfolding e using b m ct(1) by (simp add: buffer_write_def)
    then show ?thesis using False ct(2) by (auto simp: sends_next_def)
  qed
qed

lemma send_password_ok:
  assumes "control_idle c" "\<not> error_reported c"
  shows "if valid_cred ai then sends_next env c STATE_SENDING_PASSWORD (password_msg ai) (send_password env c ai)
    else send_password env c ai = Some (c\<lparr>sc_handler := sc_handler c @ [BSOCKSCLIENT_EVENT_ERROR]\<rparr>)"
proof (cases "valid_cred ai")
  case True
  let ?u = "ai_username ai" and ?p = "ai_password ai"
  let ?n = "1 + 1 + length ?u + 1 + length ?p"
  have v: "0 < length ?u" "length ?u \<le> 255" "0 < length ?p" "length ?p \<le> 255" using True by (simp_all add: valid_cred_def)
  have len: "length (password_msg ai) = ?n" by (simp add: password_msg_def)
  show ?thesis
  proof (cases "se_realloc env = None")
    case N: True
    then show ?thesis using True v assms(2) reserve_cases [of "bsize_fromsize ?n" env c]
      by (simp add: sends_next_def send_password_def report_error_def Let_def)
  next
    case False
    then obtain b where b: "length b = ?n" "reserve_buffer env c (bsize_fromsize ?n) = (c\<lparr>sc_buffer := Some b\<rparr>, True)"
      using reserve_cases [of "bsize_fromsize ?n" env c] by auto
    have w1: "mem_write (mem_write b 0 [1]) 1 [word_of_nat (length ?u)] = mem_write b 0 [1, word_of_nat (length ?u)]"
      using mem_write_append [of 0 "[1]" "[word_of_nat (length ?u)]" b] b(1) by simp
    have w2: "mem_write (mem_write b 0 [1, word_of_nat (length ?u)]) 2 ?u = mem_write b 0 ([1, word_of_nat (length ?u)] @ ?u)"
      using mem_write_append [of 0 "[1, word_of_nat (length ?u)]" ?u b] b(1) by (simp add: numeral_2_eq_2)
    have w3: "mem_write (mem_write b 0 ([1, word_of_nat (length ?u)] @ ?u)) (2 + length ?u) [word_of_nat (length ?p)] =
        mem_write b 0 ([1, word_of_nat (length ?u)] @ ?u @ [word_of_nat (length ?p)])"
      using mem_write_append [of 0 "[1, word_of_nat (length ?u)] @ ?u" "[word_of_nat (length ?p)]" b] b(1) by simp
    have w4: "mem_write (mem_write b 0 ([1, word_of_nat (length ?u)] @ ?u @ [word_of_nat (length ?p)])) (3 + length ?u) ?p = password_msg ai"
      using mem_write_append [of 0 "[1, word_of_nat (length ?u)] @ ?u @ [word_of_nat (length ?p)]" ?p b] mem_write_all [of "password_msg ai" b] b(1) len
      by (simp add: password_msg_def eval_nat_numeral)
    let ?c = "c\<lparr>sc_buffer := Some (password_msg ai)\<rparr>"
    from send_buffer_starts [of ?c "password_msg ai" STATE_SENDING_PASSWORD] assms(1) len v obtain ct where
      ct: "send_buffer ?c (int ?n) = Some (?c\<lparr>sc_control := Some ct\<rparr>)"
      "sc_sending (?c\<lparr>sc_control := Some ct, sc_state := STATE_SENDING_PASSWORD\<rparr>) (password_msg ai) (sc_sent c) (sc_received c)" by auto
    have "send_password env c ai = Some (?c\<lparr>sc_control := Some ct, sc_state := STATE_SENDING_PASSWORD\<rparr>)"
      unfolding send_password_def Let_def bsize_fields b(2) prod.case
      using v b(1) ct(1) w1 w2 w3 w4 by (simp add: buffer_write_def)
    then show ?thesis using True False ct(2) by (auto simp: sends_next_def)
  qed
next
  case False
  then show ?thesis using assms(2) by (auto simp: valid_cred_def send_password_def report_error_def Let_def not_le)
qed

lemma write_methods:
  "sc_buffer c = Some b \<Longrightarrow> 2 + i + length as \<le> length b \<Longrightarrow>
    write_hello_methods c i as = Some (c\<lparr>sc_buffer := Some (mem_write b (2 + i) (map (\<lambda>a. word_of_int (auth_type a)) as))\<rparr>)"
proof (induction as arbitrary: c b i)
  case Nil
  then show ?case by (simp add: mem_write_def)
next
  case (Cons a as)
  let ?b = "mem_write b (2 + i) [word_of_int (auth_type a)]"
  have l: "length ?b = length b" using Cons.prems(2) by simp
  have "mem_write ?b (2 + (i + 1)) (map (\<lambda>a. word_of_int (auth_type a)) as) = mem_write b (2 + i) (map (\<lambda>a. word_of_int (auth_type a)) (a # as))"
    using mem_write_append [of "2 + i" "[word_of_int (auth_type a)]" "map (\<lambda>a. word_of_int (auth_type a)) as" b] Cons.prems(2) by simp
  then show ?case using Cons.prems Cons.IH [of "c\<lparr>sc_buffer := Some ?b\<rparr>" ?b "i + 1"] l by (simp add: buffer_write_def)
qed

lemma control_io_started:
  assumes "sc_control c = None" "sc_up c = None"
  shows "\<exists>ct. init_control_io (c\<lparr>sc_con := True\<rparr>) = Some (c\<lparr>sc_con := True, sc_control := Some ct\<rparr>) \<and> control_idle (c\<lparr>sc_con := True, sc_control := Some ct\<rparr>)"
  using assms by (auto simp: init_control_io_def si_defs PacketStreamSender_Init_def ppi_defs INT_MAX_def control_idle_def on_control_def
      recv_idle_def sender_idle_def sender_base_def si_inv_def ppi_inv_def)

definition methods_ok :: "BSocksClient \<Rightarrow> bool" where
  "methods_ok c \<longleftrightarrow> 0 < length (sc_auth_info c) \<and> length (sc_auth_info c) \<le> 255"

lemma connector_ok:
  assumes "sc_state c = STATE_CONNECTING" "sc_control c = None" "sc_up c = None" "\<not> sc_con c" "\<not> error_reported c" "size_fine env"
  shows "if is_error \<or> \<not> se_con_init env \<or> \<not> methods_ok c \<or> se_realloc env = None
    then connector_handler env c is_error = Some (c\<lparr>sc_handler := sc_handler c @ [BSOCKSCLIENT_EVENT_ERROR]\<rparr>)
    else \<exists>b ct. connector_handler env c is_error = Some (c\<lparr>sc_con := True, sc_buffer := Some b, sc_control := Some ct, sc_state := STATE_SENDING_HELLO\<rparr>) \<and>
      sc_sending (c\<lparr>sc_con := True, sc_buffer := Some b, sc_control := Some ct, sc_state := STATE_SENDING_HELLO\<rparr>) (hello_msg (sc_auth_info c)) (sc_sent c) (sc_received c)"
proof -
  obtain ct0 where ct0: "init_control_io (c\<lparr>sc_con := True\<rparr>) = Some (c\<lparr>sc_con := True, sc_control := Some ct0\<rparr>)"
    "control_idle (c\<lparr>sc_con := True, sc_control := Some ct0\<rparr>)" using control_io_started [OF assms(2,3)] by blast
  let ?n = "length (sc_auth_info c)" and ?c0 = "c\<lparr>sc_con := True, sc_control := Some ct0\<rparr>"
  have undone: "free_control_io ?c0 \<bind> BConnection_Free \<bind> (\<lambda>o'. report_error o' BSOCKSCLIENT_EVENT_ERROR) =
      Some (c\<lparr>sc_handler := sc_handler c @ [BSOCKSCLIENT_EVENT_ERROR]\<rparr>)"
    using assms(2-5) by (simp add: free_control_io_def BConnection_Free_def report_error_def error_reported_def)
  consider "is_error \<or> \<not> se_con_init env" | "\<not> is_error" "se_con_init env" "\<not> methods_ok c"
    | "\<not> is_error" "se_con_init env" "methods_ok c" by blast
  then show ?thesis
  proof cases
    case 1
    then show ?thesis using assms(1,5) by (auto simp: connector_handler_def report_error_def Let_def)
  next
    case 2
    then show ?thesis using assms(1) ct0(1) undone by (auto simp: connector_handler_def methods_ok_def Let_def)
  next
    case 3
    then have n: "0 < ?n" "?n \<le> 255" by (simp_all add: methods_ok_def)
    have sz: "bsize_add (se_size_max env) (bsize_fromsize 2) (bsize_mul (se_size_max env) (bsize_fromsize ?n) (bsize_fromsize 1)) = bsize_fromsize (2 + ?n)"
      using n small_mul [of ?n env] small_size [of 2 ?n env] assms(6) by simp
    have e: "connector_handler env c is_error = (let (o', ok) = reserve_buffer env ?c0 (bsize_fromsize (2 + ?n)) in
        if \<not> ok then free_control_io o' \<bind> BConnection_Free \<bind> (\<lambda>o'. report_error o' BSOCKSCLIENT_EVENT_ERROR)
        else do { o' \<leftarrow> buffer_write o' 0 [SOCKS_VERSION, word_of_nat ?n]; o' \<leftarrow> write_hello_methods o' 0 (sc_auth_info o');
                  o' \<leftarrow> send_buffer o' (int (2 + ?n)); Some (o'\<lparr>sc_state := STATE_SENDING_HELLO\<rparr>) })"
      using 3 n assms(1) ct0(1) sz by (simp add: connector_handler_def Let_def case_prod_beta)
    show ?thesis
    proof (cases "se_realloc env = None")
      case True
      then show ?thesis using e undone reserve_cases [of "bsize_fromsize (2 + ?n)" env ?c0] by simp
    next
      case False
      then obtain b where b: "length b = 2 + ?n" "reserve_buffer env ?c0 (bsize_fromsize (2 + ?n)) = (?c0\<lparr>sc_buffer := Some b\<rparr>, True)"
        using reserve_cases [of "bsize_fromsize (2 + ?n)" env ?c0] by auto
      let ?h = "[SOCKS_VERSION, word_of_nat ?n]" and ?m = "map (\<lambda>a. word_of_int (auth_type a)) (sc_auth_info c)"
      have w: "mem_write (mem_write b 0 ?h) 2 ?m = hello_msg (sc_auth_info c)"
        using mem_write_append [of 0 ?h ?m b] mem_write_all [of "?h @ ?m" b] b(1) by (simp add: hello_msg_def SOCKS_VERSION_def numeral_2_eq_2)
      let ?c1 = "?c0\<lparr>sc_buffer := Some (hello_msg (sc_auth_info c))\<rparr>"
      have len: "length (hello_msg (sc_auth_info c)) = 2 + ?n" by (simp add: hello_msg_def)
      from send_buffer_starts [of ?c1 "hello_msg (sc_auth_info c)" STATE_SENDING_HELLO] ct0(2) len n obtain ct where
        ct: "send_buffer ?c1 (int (2 + ?n)) = Some (?c1\<lparr>sc_control := Some ct\<rparr>)"
        "sc_sending (?c1\<lparr>sc_control := Some ct, sc_state := STATE_SENDING_HELLO\<rparr>) (hello_msg (sc_auth_info c)) (sc_sent c) (sc_received c)" by auto
      have m: "write_hello_methods (?c0\<lparr>sc_buffer := Some (mem_write b 0 ?h)\<rparr>) 0 (sc_auth_info c) = Some ?c1"
        using write_methods [of "?c0\<lparr>sc_buffer := Some (mem_write b 0 ?h)\<rparr>" "mem_write b 0 ?h" 0 "sc_auth_info c"] b(1) w by simp
      have "connector_handler env c is_error = Some (?c1\<lparr>sc_control := Some ct, sc_state := STATE_SENDING_HELLO\<rparr>)"
        unfolding e using b m ct(1) by (simp add: buffer_write_def)
      then show ?thesis using 3 False ct(2) by auto
    qed
  qed
qed

lemma sent_all:
  assumes "sc_sending c msg sent r" "sc_possible c (SendPacketDone env)"
  shows "\<exists>ct. control_idle (c\<lparr>sc_control := Some ct\<rparr>) \<and> sc_buffer c = Some msg \<and> sc_sent c = sent @ msg \<and> sc_received c = r \<and>
    sc_step c (SendPacketDone env) = send_handler_done env (c\<lparr>sc_control := Some ct\<rparr>)"
proof -
  obtain ct n where c: "sc_control c = Some ct" "sc_buffer c = Some msg" "recv_idle (ct_recv_if ct)" "sender_at msg n (ct_send_sender ct)"
      "sc_sent c = sent @ take n msg" "sc_received c = r" using assms(1) by (auto simp: sc_sending_def)
  have "ppi_job_done (pss_input (ct_send_sender ct))" using assms(2) c(1) by (simp add: sc_possible_def on_control_def)
  from sender_packet_done [OF c(4) this] obtain i where i: "n = length msg" "PacketPassInterface_job_done (pss_input (ct_send_sender ct)) = Some i"
    "sender_idle ((ct_send_sender ct)\<lparr>pss_input := i\<rparr>)" by blast
  show ?thesis
    by (rule exI [where x = "ct\<lparr>ct_send_sender := (ct_send_sender ct)\<lparr>pss_input := i\<rparr>\<rparr>"])
      (use c i in \<open>simp add: control_idle_def on_control_def with_sender_def with_control_def\<close>)
qed

text \<open>A handler that starts to receive the next message, or reports an error when there is no memory.\<close>

definition awaits_next :: "sc_env \<Rightarrow> BSocksClient \<Rightarrow> BSocksClient_state \<Rightarrow> nat \<Rightarrow> nat \<Rightarrow> BSocksClient option \<Rightarrow> bool" where
  "awaits_next env c st n t res \<longleftrightarrow>
     (if se_realloc env = None then res = Some (c\<lparr>sc_handler := sc_handler c @ [BSOCKSCLIENT_EVENT_ERROR]\<rparr>)
      else \<exists>b ct. res = Some (c\<lparr>sc_buffer := Some b, sc_control := Some ct, sc_state := st\<rparr>) \<and> length b = n \<and>
        sc_receiving (c\<lparr>sc_buffer := Some b, sc_control := Some ct, sc_state := st\<rparr>) 0 t (sc_sent c) (sc_received c))"

lemma awaits:
  assumes "control_idle c" "\<not> error_reported c" "0 < t" "t \<le> n" "k = int t"
  shows "awaits_next env c st n t (let (o', ok) = reserve_buffer env c (bsize_fromsize n) in
      if \<not> ok then report_error o' BSOCKSCLIENT_EVENT_ERROR else map_option (\<lambda>o'. o'\<lparr>sc_state := st\<rparr>) (start_receive o' 0 k))"
proof (cases "se_realloc env = None")
  case True
  then show ?thesis using reserve_cases [of "bsize_fromsize n" env c] assms(2) by (simp add: awaits_next_def report_error_def)
next
  case False
  then obtain b where b: "length b = n" "reserve_buffer env c (bsize_fromsize n) = (c\<lparr>sc_buffer := Some b\<rparr>, True)"
    using reserve_cases [of "bsize_fromsize n" env c] by auto
  from start_receive_starts [of "c\<lparr>sc_buffer := Some b\<rparr>" b 0 t st] assms b(1) obtain ct where
    "start_receive (c\<lparr>sc_buffer := Some b\<rparr>) 0 (int t) = Some (c\<lparr>sc_buffer := Some b, sc_control := Some ct\<rparr>)"
    "sc_receiving (c\<lparr>sc_buffer := Some b, sc_control := Some ct, sc_state := st\<rparr>) 0 t (sc_sent c) (sc_received c)" by auto
  then show ?thesis using False b assms(5) by (auto simp: awaits_next_def)
qed

lemma send_done_ok:
  assumes "control_idle c" "\<not> error_reported c" "size_fine env" "sc_buffer c \<noteq> None"
  shows "sc_state c = STATE_SENDING_HELLO \<Longrightarrow> awaits_next env c STATE_SENT_HELLO 2 2 (send_handler_done env c)"
    "sc_state c = STATE_SENDING_PASSWORD \<Longrightarrow> awaits_next env c STATE_SENT_PASSWORD 2 2 (send_handler_done env c)"
    "sc_state c = STATE_SENDING_REQUEST \<Longrightarrow> awaits_next env c STATE_SENT_REQUEST 22 4 (send_handler_done env c)"
proof -
  obtain y where y: "sc_buffer c = Some y" using assms(4) by blast
  have m: "bsize_add (se_size_max env) (bsize_fromsize 4) (bsize_max (bsize_fromsize 6) (bsize_fromsize 18)) = bsize_fromsize 22"
    using small_size [of 4 18 env] assms(3) by (simp add: bsize_max_def bsize_fromsize_def)
  show "sc_state c = STATE_SENDING_HELLO \<Longrightarrow> awaits_next env c STATE_SENT_HELLO 2 2 (send_handler_done env c)"
    using awaits [OF assms(1,2), of 2 2 2 env STATE_SENT_HELLO] y by (simp add: send_handler_done_def Let_def)
  show "sc_state c = STATE_SENDING_PASSWORD \<Longrightarrow> awaits_next env c STATE_SENT_PASSWORD 2 2 (send_handler_done env c)"
    using awaits [OF assms(1,2), of 2 2 2 env STATE_SENT_PASSWORD] y by (simp add: send_handler_done_def Let_def)
  show "sc_state c = STATE_SENDING_REQUEST \<Longrightarrow> awaits_next env c STATE_SENT_REQUEST 22 4 (send_handler_done env c)"
    using awaits [OF assms(1,2), of 4 22 4 env STATE_SENT_REQUEST] y m by (simp add: send_handler_done_def Let_def)
qed

definition received_all :: "sc_env \<Rightarrow> BSocksClient \<Rightarrow> BSocksClient option" where
  "received_all env c =
     (case sc_state c of
        STATE_SENT_HELLO \<Rightarrow> received_hello env c
      | STATE_SENT_REQUEST \<Rightarrow> received_reply_header c
      | STATE_SENT_PASSWORD \<Rightarrow> received_password_reply env c
      | STATE_RECEIVED_REPLY_HEADER \<Rightarrow> received_reply c
      | _ \<Rightarrow> None)"

lemma recv_done_cases:
  assumes "sc_receiving c d t sent r" "sc_possible c (RecvDone env)"
  obtains (more) c' where "sc_step c (RecvDone env) = Some c'" "sc_receiving c' d t sent r" "sc_same c c'" "length (sc_received c) < length r + t"
      "sc_received c' = sc_received c" "io_rank c' < io_rank c"
    | (all) ct b where "sc_buffer c = Some b" "d + t \<le> length b" "control_idle (c\<lparr>sc_control := Some ct\<rparr>)" "sc_sent c = sent"
      "sc_received c = r @ mem_read b d t" "sc_step c (RecvDone env) = received_all env (c\<lparr>sc_control := Some ct\<rparr>)"
proof -
  obtain ct b n where c: "sc_control c = Some ct" "sc_buffer c = Some b" "d + t \<le> length b" "sender_idle (ct_send_sender ct)" "recv_at d t n ct"
      "sc_sent c = sent" "sc_received c = r @ mem_read b d n" using assms(1) by (auto simp: sc_receiving_def)
  have "si_job_done (ct_recv_if ct)" using assms(2) c(1) by (simp add: sc_possible_def on_control_def)
  from recv_done [OF c(5) this] obtain i len where i: "StreamRecvInterface_job_done (ct_recv_if ct) = Some (i, len)" "recv_idle i" "0 \<le> len"
    "ct_recv_len ct + len = int n" "n \<le> t" "ct_recv_total ct = int t" "ct_recv_dest ct = int d"
    "stream_rank (ct_recv_if ct) > 3 * (int t - int n) + 1" by blast
  let ?ct = "ct\<lparr>ct_recv_if := i, ct_recv_len := int n\<rparr>"
  have len: "len \<le> ct_recv_total ct - ct_recv_len ct" using i(4-6) by linarith
  show ?thesis
  proof (cases "n < t")
    case True
    from recv_starts [of ?ct n t d] i(2,6,7) True obtain j where j:
      "StreamRecvInterface_Receiver_Recv i (Some (int d + int n)) (int t - int n) = Some j" "recv_at d t n (?ct\<lparr>ct_recv_if := j\<rparr>)"
      "stream_rank j = 3 * (int t - int n) + 1" by auto
    let ?c = "c\<lparr>sc_control := Some (?ct\<lparr>ct_recv_if := j\<rparr>)\<rparr>"
    have "sc_step c (RecvDone env) = Some ?c"
      using c(1) i len True j(1) by (simp add: recv_handler_done_def do_receive_def with_control_def Let_def)
    moreover have "sc_receiving ?c d t sent r" unfolding sc_receiving_def
      by (rule exI [where x = "?ct\<lparr>ct_recv_if := j\<rparr>"], rule exI [where x = b], rule exI [where x = n]) (use c j(2) in simp)
    moreover have "sc_same c ?c" using c(1) by (simp add: sc_same_def)
    moreover have "length (sc_received c) < length r + t" using c(3,7) True by simp
    moreover have "io_rank ?c < io_rank c" using c(1) i(8) j(3) by (simp add: io_rank_def)
    ultimately show ?thesis by (intro more [of ?c]) simp_all
  next
    case False
    then have "n = t" using i(5) by simp
    then have "sc_step c (RecvDone env) = received_all env (c\<lparr>sc_control := Some ?ct\<rparr>)"
      using c(1) i len by (simp add: recv_handler_done_def received_all_def Let_def)
    moreover have "control_idle (c\<lparr>sc_control := Some ?ct\<rparr>)" using i(2) c(4) by (simp add: control_idle_def on_control_def)
    ultimately show ?thesis using c(2,3,6,7) \<open>n = t\<close> by (intro all) simp_all
  qed
qed

subsection \<open>The handlers keep the invariant\<close>

lemma error_appended [simp]: "error_reported (c\<lparr>sc_handler := sc_handler c @ [BSOCKSCLIENT_EVENT_ERROR]\<rparr>)"
  "error_reported (c\<lparr>sc_handler := sc_handler c @ [BSOCKSCLIENT_EVENT_ERROR_CLOSED]\<rparr>)"
  by (simp_all add: error_reported_def)

lemma error_frame [simp]: "error_reported (c\<lparr>sc_control := x\<rparr>) = error_reported c" "error_reported (c\<lparr>sc_buffer := y\<rparr>) = error_reported c"
    "error_reported (c\<lparr>sc_state := z\<rparr>) = error_reported c"
  by (simp_all add: error_reported_def)

lemma calls_quiet: "sc_calls c \<Longrightarrow> \<not> error_reported c \<Longrightarrow> sc_handler c = (if sc_state c = STATE_UP then [BSOCKSCLIENT_EVENT_UP] else [])"
  by (auto simp: sc_calls_def error_reported_def split: if_splits)

lemma error_inv:
  assumes "sc_inv c" "\<not> error_reported c"
  shows "sc_inv (c\<lparr>sc_handler := sc_handler c @ [BSOCKSCLIENT_EVENT_ERROR]\<rparr>)"
    "sc_state c = STATE_UP \<Longrightarrow> sc_inv (c\<lparr>sc_handler := sc_handler c @ [BSOCKSCLIENT_EVENT_ERROR_CLOSED]\<rparr>)"
proof -
  have h: "sc_handler c = (if sc_state c = STATE_UP then [BSOCKSCLIENT_EVENT_UP] else [])"
    using assms calls_quiet [of c] by (simp add: sc_inv_def)
  have r: "sc_resources (c\<lparr>sc_handler := h'\<rparr>) = sc_resources c" for h' by (simp add: sc_resources_def)
  show "sc_inv (c\<lparr>sc_handler := sc_handler c @ [BSOCKSCLIENT_EVENT_ERROR]\<rparr>)"
    using assms(1) r error_appended(1) [of c] h by (simp add: sc_inv_def sc_calls_def)
  show "sc_inv (c\<lparr>sc_handler := sc_handler c @ [BSOCKSCLIENT_EVENT_ERROR_CLOSED]\<rparr>)" if "sc_state c = STATE_UP"
    using assms(1) r error_appended(2) [of c] h that by (simp add: sc_inv_def sc_calls_def)
qed

lemma error_inv_control:
  assumes "sc_inv c" "\<not> error_reported c" "sc_state c \<notin> {STATE_CONNECTING, STATE_UP}"
  shows "sc_inv (c\<lparr>sc_control := Some ct, sc_handler := sc_handler c @ [BSOCKSCLIENT_EVENT_ERROR]\<rparr>)"
proof -
  have h: "sc_handler c = []" using assms calls_quiet [of c] by (simp add: sc_inv_def)
  have "sc_resources (c\<lparr>sc_control := Some ct, sc_handler := [BSOCKSCLIENT_EVENT_ERROR]\<rparr>)" using assms(1,3) by (auto simp: sc_inv_def sc_resources_def)
  then show ?thesis using assms h by (simp add: sc_inv_def sc_calls_def error_reported_def)
qed

text \<open>A step within the exchange of messages.\<close>

lemma inner_inv:
  assumes "sc_inv c" "\<not> error_reported c" "sc_state c \<notin> {STATE_CONNECTING, STATE_UP}" "st \<notin> {STATE_CONNECTING, STATE_UP}"
    "sc_phase (c\<lparr>sc_buffer := Some b, sc_control := Some ct, sc_state := st\<rparr>)"
  shows "sc_inv (c\<lparr>sc_buffer := Some b, sc_control := Some ct, sc_state := st\<rparr>)"
  using assms calls_quiet [of c] by (auto simp: sc_inv_def sc_resources_def sc_calls_def)

lemma same_inv:
  assumes "sc_inv c" "\<not> error_reported c" "sc_same c c'" "sc_phase c'" "sc_state c \<notin> {STATE_CONNECTING, STATE_UP}"
  shows "sc_inv c'"
  using assms by (auto simp: sc_inv_def sc_resources_def sc_calls_def sc_same_def error_reported_def)

lemma sends_next_inv:
  assumes "sends_next env (c\<lparr>sc_control := Some ct0\<rparr>) st msg res" "sc_inv c" "\<not> error_reported c" "sc_state c \<notin> {STATE_CONNECTING, STATE_UP}"
    "st \<notin> {STATE_CONNECTING, STATE_UP}"
    "\<And>c'. sc_sending c' msg (sc_sent c) (sc_received c) \<Longrightarrow> sc_state c' = st \<Longrightarrow> sc_auth_info c' = sc_auth_info c \<Longrightarrow> sc_dest_addr c' = sc_dest_addr c \<Longrightarrow> sc_phase c'"
  shows "\<exists>c'. res = Some c' \<and> sc_inv c' \<and> (error_reported c' \<longleftrightarrow> se_realloc env = None) \<and> sc_state c' \<noteq> STATE_UP \<and>
    (error_reported c' \<or> sc_state c' = st)"
proof (cases "se_realloc env = None")
  case True
  show ?thesis using error_inv_control [OF assms(2-4), of ct0] assms(1,4) True by (auto simp: sends_next_def error_reported_def)
next
  case False
  then obtain b ct where r: "res = Some (c\<lparr>sc_buffer := Some b, sc_control := Some ct, sc_state := st\<rparr>)"
    "sc_sending (c\<lparr>sc_buffer := Some b, sc_control := Some ct, sc_state := st\<rparr>) msg (sc_sent c) (sc_received c)"
    using assms(1) by (auto simp: sends_next_def)
  have "sc_inv (c\<lparr>sc_buffer := Some b, sc_control := Some ct, sc_state := st\<rparr>)"
    by (rule inner_inv [OF assms(2-5)], rule assms(6) [OF r(2)]) simp_all
  then show ?thesis using r(1) False assms(3,5) by (auto simp: error_reported_def)
qed

lemma awaits_next_inv:
  assumes "awaits_next env (c\<lparr>sc_control := Some ct0\<rparr>) st n t res" "sc_inv c" "\<not> error_reported c" "sc_state c \<notin> {STATE_CONNECTING, STATE_UP}"
    "st \<notin> {STATE_CONNECTING, STATE_UP}"
    "\<And>c'. sc_receiving c' 0 t (sc_sent c) (sc_received c) \<Longrightarrow> map_option length (sc_buffer c') = Some n \<Longrightarrow> sc_state c' = st \<Longrightarrow> sc_auth_info c' = sc_auth_info c \<Longrightarrow>
      sc_dest_addr c' = sc_dest_addr c \<Longrightarrow> sc_phase c'"
  shows "\<exists>c'. res = Some c' \<and> sc_inv c' \<and> (error_reported c' \<or> sc_state c' = st)"
proof (cases "se_realloc env = None")
  case True
  show ?thesis using error_inv_control [OF assms(2-4), of ct0] assms(1) True by (auto simp: awaits_next_def error_reported_def)
next
  case False
  then obtain b ct where r: "res = Some (c\<lparr>sc_buffer := Some b, sc_control := Some ct, sc_state := st\<rparr>)" "length b = n"
    "sc_receiving (c\<lparr>sc_buffer := Some b, sc_control := Some ct, sc_state := st\<rparr>) 0 t (sc_sent c) (sc_received c)"
    using assms(1) by (auto simp: awaits_next_def)
  have "sc_inv (c\<lparr>sc_buffer := Some b, sc_control := Some ct, sc_state := st\<rparr>)"
    by (rule inner_inv [OF assms(2-5)], rule assms(6) [OF r(3)]) (use r(2) in simp_all)
  then show ?thesis using r(1) by simp
qed

lemma send_done_inv:
  assumes "sc_inv c" "sc_possible c (SendPacketDone env)" "sc_state c \<in> {STATE_SENDING_HELLO, STATE_SENDING_PASSWORD, STATE_SENDING_REQUEST}"
  shows "\<exists>c'. sc_step c (SendPacketDone env) = Some c' \<and> sc_inv c' \<and> (error_reported c' \<or> state_rank (sc_state c') < state_rank (sc_state c))"
proof -
  have e: "\<not> error_reported c" and f: "size_fine env" using assms(2) by (simp_all add: sc_possible_def)
  have p: "sc_phase c" using assms(1) e by (simp add: sc_inv_def)
  have go: "\<exists>c'. sc_step c (SendPacketDone env) = Some c' \<and> sc_inv c' \<and> (error_reported c' \<or> state_rank (sc_state c') < state_rank (sc_state c))"
    if "state_rank st < state_rank (sc_state c)" "sc_sending c msg sent r"
      "\<And>ct. sc_buffer c \<noteq> None \<Longrightarrow> control_idle (c\<lparr>sc_control := Some ct\<rparr>) \<Longrightarrow> awaits_next env (c\<lparr>sc_control := Some ct\<rparr>) st n t (send_handler_done env (c\<lparr>sc_control := Some ct\<rparr>))"
      "st \<notin> {STATE_CONNECTING, STATE_UP}"
      "\<And>c'. sc_receiving c' 0 t (sent @ msg) r \<Longrightarrow> map_option length (sc_buffer c') = Some n \<Longrightarrow> sc_state c' = st \<Longrightarrow> sc_auth_info c' = sc_auth_info c \<Longrightarrow>
        sc_dest_addr c' = sc_dest_addr c \<Longrightarrow> sc_phase c'" for msg sent r st n t
  proof -
    from sent_all [OF that(2) assms(2)] obtain ct where ct: "control_idle (c\<lparr>sc_control := Some ct\<rparr>)" "sc_buffer c = Some msg" "sc_sent c = sent @ msg" "sc_received c = r"
      "sc_step c (SendPacketDone env) = send_handler_done env (c\<lparr>sc_control := Some ct\<rparr>)" by blast
    from awaits_next_inv [OF that(3) [OF _ ct(1)] assms(1) e _ that(4)] that(1,5) assms(3) ct show ?thesis by auto
  qed
  from assms(3) consider "sc_state c = STATE_SENDING_HELLO" | "sc_state c = STATE_SENDING_PASSWORD" | "sc_state c = STATE_SENDING_REQUEST" by blast
  then show ?thesis
  proof cases
    case 1
    then have s: "sc_sending c (hello_msg (sc_auth_info c)) [] []" using p by (simp add: sc_phase_def)
    show ?thesis by (rule go [OF _ s, of STATE_SENT_HELLO 2 2]) (use 1 e f send_done_ok(1) in \<open>auto simp: sc_phase_def\<close>)
  next
    case 2
    then obtain ai where ai: "method_info (sc_auth_info c) 2 = Some ai" "valid_cred ai" "sc_sending c (password_msg ai) (hello_msg (sc_auth_info c)) [5, 2]"
      using p by (auto simp: sc_phase_def Let_def)
    show ?thesis by (rule go [OF _ ai(3), of STATE_SENT_PASSWORD 2 2]) (use 2 e f send_done_ok(2) ai(1,2) in \<open>auto simp: sc_phase_def\<close>)
  next
    case 3
    then obtain base sent where b: "auth_done (sc_auth_info c) base sent" "sc_sending c (request_msg (sc_dest_addr c)) sent base"
      using p by (auto simp: sc_phase_def Let_def)
    show ?thesis by (rule go [OF _ b(2), of STATE_SENT_REQUEST 22 4]) (use 3 e f send_done_ok(3) b(1) in \<open>auto simp: sc_phase_def\<close>)
  qed
qed

lemma method_info_type: "method_info as m = Some ai \<Longrightarrow> auth_type ai = m"
  by (auto simp: method_info_def find_Some_iff)

lemma verdict_base: "auth_done as base sent \<Longrightarrow> server_verdict as (base @ r) = reply_verdict r"
  by (auto simp: auth_done_def server_verdict_def method_info_type)

lemma reply_verdict_header: "reply_header h \<Longrightarrow> reply_verdict (h @ r) = (if length r < reply_addr_len (h ! 3) then More else Accepted)"
  by (auto simp: reply_header_def reply_verdict_def nth_append)

text \<open>The outcome of a completed receive operation: the invariant holds, an error has been reported exactly when what the server
  has sent is refused (or there is no memory), and the client is up exactly when it is accepted.\<close>

definition decided :: "sc_env \<Rightarrow> BSocksClient \<Rightarrow> BSocksClient option \<Rightarrow> bool" where
  "decided env c res \<longleftrightarrow>
     (\<exists>c'. res = Some c' \<and> sc_inv c' \<and> (se_realloc env \<noteq> None \<longrightarrow> (error_reported c' \<longleftrightarrow> server_verdict (sc_auth_info c) (sc_received c) = Refused)) \<and>
       (sc_state c' = STATE_UP \<longleftrightarrow> server_verdict (sc_auth_info c) (sc_received c) = Accepted) \<and>
       (error_reported c' \<or> state_rank (sc_state c') < state_rank (sc_state c) \<or> sc_state c' = sc_state c \<and> io_rank c' < io_rank c))"

lemma decided_error:
  assumes "sc_inv c" "\<not> error_reported c" "sc_state c \<notin> {STATE_CONNECTING, STATE_UP}" "server_verdict (sc_auth_info c) (sc_received c) = Refused"
  shows "decided env c (report_error (c\<lparr>sc_control := Some ct\<rparr>) BSOCKSCLIENT_EVENT_ERROR)"
proof -
  let ?c = "c\<lparr>sc_control := Some ct, sc_handler := sc_handler c @ [BSOCKSCLIENT_EVENT_ERROR]\<rparr>"
  have "sc_inv ?c" by (rule error_inv_control [OF assms(1-3)])
  then show ?thesis using assms(2-4) by (simp add: decided_def report_error_def error_reported_def)
qed

lemma decided_sends:
  assumes "sends_next env (c\<lparr>sc_control := Some ct0\<rparr>) st msg res" "sc_inv c" "\<not> error_reported c" "sc_state c \<notin> {STATE_CONNECTING, STATE_UP}"
    "st \<notin> {STATE_CONNECTING, STATE_UP}" "server_verdict (sc_auth_info c) (sc_received c) = More" "state_rank st < state_rank (sc_state c)"
    "\<And>c'. sc_sending c' msg (sc_sent c) (sc_received c) \<Longrightarrow> sc_state c' = st \<Longrightarrow> sc_auth_info c' = sc_auth_info c \<Longrightarrow> sc_dest_addr c' = sc_dest_addr c \<Longrightarrow> sc_phase c'"
  shows "decided env c res"
proof -
  have "\<exists>c'. res = Some c' \<and> sc_inv c' \<and> (error_reported c' \<longleftrightarrow> se_realloc env = None) \<and> sc_state c' \<noteq> STATE_UP \<and> (error_reported c' \<or> sc_state c' = st)"
    by (rule sends_next_inv [OF assms(1-5)]) (rule assms(8))
  then obtain c' where "res = Some c' \<and> sc_inv c' \<and> (error_reported c' \<longleftrightarrow> se_realloc env = None) \<and> sc_state c' \<noteq> STATE_UP \<and> (error_reported c' \<or> sc_state c' = st)" ..
  then show ?thesis using assms(6,7) by (auto simp: decided_def)
qed

lemma decided_more:
  assumes "res = Some c'" "sc_inv c" "\<not> error_reported c" "sc_state c \<notin> {STATE_CONNECTING, STATE_UP}" "sc_same c c'" "sc_phase c'"
    "server_verdict (sc_auth_info c) (sc_received c) = More" "io_rank c' < io_rank c"
  shows "decided env c res"
proof -
  have "sc_inv c'" by (rule same_inv [OF assms(2,3,5,6,4)])
  moreover have "\<not> error_reported c'" "sc_state c' \<noteq> STATE_UP" using assms(3-5) by (auto simp: error_reported_def sc_same_def)
  moreover have "sc_state c' = sc_state c" using assms(5) by (simp add: sc_same_def)
  ultimately show ?thesis using assms(1,7,8) by (simp add: decided_def)
qed

lemma auth_finished_decided:
  assumes "sc_inv c" "\<not> error_reported c" "sc_state c \<in> {STATE_SENT_HELLO, STATE_SENT_PASSWORD}" "size_fine env" "control_idle (c\<lparr>sc_control := Some ct\<rparr>)"
    "auth_done (sc_auth_info c) (sc_received c) (sc_sent c)"
  shows "decided env c (auth_finished env (c\<lparr>sc_control := Some ct\<rparr>))"
proof -
  have n: "sends_next env (c\<lparr>sc_control := Some ct\<rparr>) STATE_SENDING_REQUEST (request_msg (sc_dest_addr c)) (auth_finished env (c\<lparr>sc_control := Some ct\<rparr>))"
    using auth_finished_ok [OF assms(5) _ _ assms(4)] assms(1,2) by (simp add: sc_inv_def)
  have "server_verdict (sc_auth_info c) (sc_received c) = More" using verdict_base [OF assms(6), of "[]"] by (simp add: reply_verdict_def)
  moreover have "sc_state c \<notin> {STATE_CONNECTING, STATE_UP}" "state_rank STATE_SENDING_REQUEST < state_rank (sc_state c)" using assms(3) by auto
  ultimately show ?thesis using assms(6) by (intro decided_sends [OF n assms(1,2)]) (auto simp: sc_phase_def Let_def)
qed

lemma read_two: "2 \<le> length b \<Longrightarrow> \<exists>x y. mem_read b 0 2 = [x, y]"
  by (cases b; cases "tl b") (auto simp: mem_read_def)

lemma uint_method: "uint (y :: byte) = 0 \<longleftrightarrow> y = 0" "uint y = 2 \<longleftrightarrow> y = 2"
  by (simp_all add: word_uint_eq_iff)

lemma hello_decided:
  assumes "sc_inv c" "sc_possible c (RecvDone env)" "sc_state c = STATE_SENT_HELLO"
  shows "decided env c (sc_step c (RecvDone env))"
proof -
  have e: "\<not> error_reported c" and f: "size_fine env" using assms(2) by (simp_all add: sc_possible_def)
  have st: "sc_state c \<notin> {STATE_CONNECTING, STATE_UP}" using assms(3) by simp
  have r: "sc_receiving c 0 2 (hello_msg (sc_auth_info c)) []" using assms(1,3) e by (simp add: sc_inv_def sc_phase_def)
  from r assms(2) show ?thesis
  proof (cases rule: recv_done_cases)
    case (more c')
    then have "server_verdict (sc_auth_info c) (sc_received c) = More" by (simp add: server_verdict_def)
    moreover have "sc_phase c'" using more(2,3) assms(3) by (simp add: sc_phase_def sc_same_def)
    ultimately show ?thesis using decided_more [OF more(1) assms(1) e st more(3)] more(6) by blast
  next
    case (all ct b)
    obtain x y where xy: "mem_read b 0 2 = [x, y]" using read_two [of b] all(2) by auto
    then have rc: "sc_received c = [x, y]" using all(5) by simp
    let ?c = "c\<lparr>sc_control := Some ct\<rparr>"
    have s: "sc_step c (RecvDone env) = received_hello env ?c" using all(6) assms(3) by (simp add: received_all_def)
    have h: "received_hello env ?c = (if x \<noteq> 5 then report_error ?c BSOCKSCLIENT_EVENT_ERROR
        else case method_info (sc_auth_info c) (uint y) of None \<Rightarrow> report_error ?c BSOCKSCLIENT_EVENT_ERROR
        | Some ai \<Rightarrow> if auth_type ai = 0 then auth_finished env ?c else if auth_type ai = 2 then send_password env ?c ai else None)"
      using all(1,2) xy by (simp add: received_hello_def buffer_read_def method_info_def SOCKS_VERSION_def SOCKS_METHOD_NO_AUTHENTICATION_REQUIRED_def
          SOCKS_METHOD_USERNAME_PASSWORD_def split: option.split)
    show ?thesis
    proof (cases "x \<noteq> 5 \<or> method_info (sc_auth_info c) (uint y) = None")
      case True
      then have "server_verdict (sc_auth_info c) (sc_received c) = Refused" using rc by (auto simp: server_verdict_def)
      then show ?thesis using decided_error [OF assms(1) e st, of env ct] True h s by auto
    next
      case False
      then obtain ai where ai: "x = 5" "method_info (sc_auth_info c) (uint y) = Some ai" by auto
      note ty = method_info_type [OF ai(2)]
      have "auth_type ai = 0 \<or> auth_type ai = 2"
        using assms(1) ai(2) by (auto simp: sc_inv_def list_all_iff method_info_def find_Some_iff)
      then consider (none) "y = 0" "auth_type ai = 0" | (pw) "y = 2" "auth_type ai = 2"
        using ty uint_method [of y] by auto
      then show ?thesis
      proof cases
        case none
        then have "auth_done (sc_auth_info c) (sc_received c) (sc_sent c)" using ai rc all(4) by (simp add: auth_done_def)
        from auth_finished_decided [OF assms(1) e _ f all(3) this] show ?thesis using s h ai none assms(3) by simp
      next
        case pw
        then have m: "method_info (sc_auth_info c) 2 = Some ai" using ai by simp
        have v: "server_verdict (sc_auth_info c) (sc_received c) = (if valid_cred ai then More else Refused)"
          using m pw rc ai(1) by (simp add: server_verdict_def)
        have p: "sc_step c (RecvDone env) = send_password env ?c ai" using s h ai pw by simp
        have e': "\<not> error_reported ?c" using e by simp
        show ?thesis
        proof (cases "valid_cred ai")
          case True
          then have n: "sends_next env ?c STATE_SENDING_PASSWORD (password_msg ai) (send_password env ?c ai)" using send_password_ok [OF all(3) e', of ai env] by simp
          show ?thesis unfolding p
            by (rule decided_sends [OF n assms(1) e st]) (use v True m rc pw ai(1) all(4) assms(3) in \<open>auto simp: sc_phase_def Let_def\<close>)
        next
          case False
          then show ?thesis using send_password_ok [OF all(3) e', of ai env] v decided_error [OF assms(1) e st, of env ct] p e'
            by (simp add: report_error_def)
        qed
      qed
    qed
  qed
qed

lemma password_decided:
  assumes "sc_inv c" "sc_possible c (RecvDone env)" "sc_state c = STATE_SENT_PASSWORD"
  shows "decided env c (sc_step c (RecvDone env))"
proof -
  have e: "\<not> error_reported c" and f: "size_fine env" using assms(2) by (simp_all add: sc_possible_def)
  have st: "sc_state c \<notin> {STATE_CONNECTING, STATE_UP}" using assms(3) by simp
  obtain ai where ai: "method_info (sc_auth_info c) 2 = Some ai" "valid_cred ai"
    and r: "sc_receiving c 0 2 (hello_msg (sc_auth_info c) @ password_msg ai) [5, 2]"
    using assms(1,3) e by (auto simp: sc_inv_def sc_phase_def Let_def)
  note ty = method_info_type [OF ai(1)]
  have v: "server_verdict (sc_auth_info c) ([5, 2] @ q) = (if length q < 2 then More else if q ! 0 \<noteq> 1 \<or> q ! 1 \<noteq> 0 then Refused else reply_verdict (drop 2 q))" for q
  proof -
    have n: "(5 # 2 # q) ! 2 = q ! 0" "(5 # 2 # q) ! 3 = q ! 1" "drop 4 (5 # 2 # q) = drop 2 q" by (simp_all add: eval_nat_numeral)
    show ?thesis using ai ty n by (auto simp: server_verdict_def)
  qed
  from r assms(2) show ?thesis
  proof (cases rule: recv_done_cases)
    case (more c')
    obtain q where q: "sc_received c = [5, 2] @ q" using r by (auto simp: sc_receiving_def)
    then have "server_verdict (sc_auth_info c) (sc_received c) = More" using more(4) v by simp
    moreover have "sc_phase c'" using more(2,3) assms(3) ai by (auto simp: sc_phase_def sc_same_def Let_def)
    ultimately show ?thesis using decided_more [OF more(1) assms(1) e st more(3)] more(6) by blast
  next
    case (all ct b)
    obtain x y where xy: "mem_read b 0 2 = [x, y]" using read_two [of b] all(2) by auto
    then have rc: "sc_received c = [5, 2] @ [x, y]" using all(5) by simp
    let ?c = "c\<lparr>sc_control := Some ct\<rparr>"
    have s: "sc_step c (RecvDone env) = (if x \<noteq> 1 \<or> y \<noteq> 0 then report_error ?c BSOCKSCLIENT_EVENT_ERROR else auth_finished env ?c)"
      using all(1,2,6) xy assms(3) by (simp add: received_all_def received_password_reply_def buffer_read_def)
    show ?thesis
    proof (cases "x \<noteq> 1 \<or> y \<noteq> 0")
      case True
      then have "server_verdict (sc_auth_info c) (sc_received c) = Refused" using rc v [of "[x, y]"] by simp
      then show ?thesis using decided_error [OF assms(1) e st, of env ct] True s by simp
    next
      case False
      then have "auth_done (sc_auth_info c) (sc_received c) (sc_sent c)" using rc ai all(4) by (simp add: auth_done_def)
      from auth_finished_decided [OF assms(1) e _ f all(3) this] show ?thesis using s False assms(3) by simp
    qed
  qed
qed

lemma read_four: "4 \<le> length b \<Longrightarrow> length (mem_read b 0 4) = 4" by (simp add: mem_read_def)

lemma header_decided:
  assumes "sc_inv c" "sc_possible c (RecvDone env)" "sc_state c = STATE_SENT_REQUEST"
  shows "decided env c (sc_step c (RecvDone env))"
proof -
  have e: "\<not> error_reported c" using assms(2) by (simp add: sc_possible_def)
  have st: "sc_state c \<notin> {STATE_CONNECTING, STATE_UP}" using assms(3) by simp
  obtain base sent where a: "auth_done (sc_auth_info c) base sent" and r: "sc_receiving c 0 4 (sent @ request_msg (sc_dest_addr c)) base"
    and len: "map_option length (sc_buffer c) = Some 22"
    using assms(1,3) e by (auto simp: sc_inv_def sc_phase_def Let_def)
  from r assms(2) show ?thesis
  proof (cases rule: recv_done_cases)
    case (more c')
    obtain q where q: "sc_received c = base @ q" using r by (auto simp: sc_receiving_def)
    then have "server_verdict (sc_auth_info c) (sc_received c) = More" using more(4) verdict_base [OF a, of q] by (simp add: reply_verdict_def)
    moreover have "sc_phase c'" using more(2,3) assms(3) a len by (auto simp: sc_phase_def sc_same_def Let_def)
    ultimately show ?thesis using decided_more [OF more(1) assms(1) e st more(3)] more(6) by blast
  next
    case (all ct b)
    let ?h = "mem_read b 0 4" and ?c = "c\<lparr>sc_control := Some ct\<rparr>"
    have h: "length ?h = 4" "length b = 22" using all(1) len by (simp_all add: mem_read_def)
    have v: "server_verdict (sc_auth_info c) (sc_received c) = reply_verdict ?h" using verdict_base [OF a] all(5) by simp
    have s: "sc_step c (RecvDone env) = (if ?h ! 0 \<noteq> 5 \<or> ?h ! 1 \<noteq> 0 \<or> ?h ! 3 \<notin> {1, 4} then report_error ?c BSOCKSCLIENT_EVENT_ERROR
        else map_option (\<lambda>o'. o'\<lparr>sc_state := STATE_RECEIVED_REPLY_HEADER\<rparr>) (start_receive ?c 4 (int (reply_addr_len (?h ! 3)))))"
      using all(1,6) h assms(3)
      by (auto simp: received_all_def received_reply_header_def buffer_read_def reply_addr_len_def SOCKS_VERSION_def SOCKS_REP_SUCCEEDED_def
          SOCKS_ATYP_IPV4_def SOCKS_ATYP_IPV6_def)
    show ?thesis
    proof (cases "?h ! 0 \<noteq> 5 \<or> ?h ! 1 \<noteq> 0 \<or> ?h ! 3 \<notin> {1, 4}")
      case True
      then have "server_verdict (sc_auth_info c) (sc_received c) = Refused" using v h by (auto simp: reply_verdict_def)
      then show ?thesis using decided_error [OF assms(1) e st, of env ct] True s by simp
    next
      case False
      then have rh: "reply_header ?h" using h by (simp add: reply_header_def)
      have al: "4 + reply_addr_len (?h ! 3) \<le> length b" "0 < reply_addr_len (?h ! 3)" using h by (simp_all add: reply_addr_len_def)
      from start_receive_starts [OF all(3) _ al, of STATE_RECEIVED_REPLY_HEADER] all(1) obtain ct' where
        ct': "start_receive ?c 4 (int (reply_addr_len (?h ! 3))) = Some (?c\<lparr>sc_control := Some ct'\<rparr>)"
        "sc_receiving (?c\<lparr>sc_control := Some ct', sc_state := STATE_RECEIVED_REPLY_HEADER\<rparr>) 4 (reply_addr_len (?h ! 3)) (sc_sent c) (sc_received c)" by auto
      let ?c' = "c\<lparr>sc_buffer := Some b, sc_control := Some ct', sc_state := STATE_RECEIVED_REPLY_HEADER\<rparr>"
      have c': "?c\<lparr>sc_control := Some ct', sc_state := STATE_RECEIVED_REPLY_HEADER\<rparr> = ?c'" using all(1) by simp
      have ph: "sc_phase ?c'" using ct'(2) rh a all(4,5) unfolding c' by (auto simp: sc_phase_def Let_def)
      have "sc_inv ?c'" by (rule inner_inv [OF assms(1) e st _ ph]) simp
      moreover have "sc_step c (RecvDone env) = Some ?c'" using s False ct'(1) c' by (auto simp del: sc_step.simps)
      moreover have "reply_verdict ?h = More" using reply_verdict_header [OF rh, of "[]"] al(2) by simp
      ultimately show ?thesis using v e assms(3) by (simp add: decided_def error_reported_def)
    qed
  qed
qed

lemma reply_decided:
  assumes "sc_inv c" "sc_possible c (RecvDone env)" "sc_state c = STATE_RECEIVED_REPLY_HEADER"
  shows "decided env c (sc_step c (RecvDone env))"
proof -
  have e: "\<not> error_reported c" using assms(2) by (simp add: sc_possible_def)
  have st: "sc_state c \<notin> {STATE_CONNECTING, STATE_UP}" using assms(3) by simp
  obtain base sent h where a: "auth_done (sc_auth_info c) base sent" and h: "reply_header h"
    and r: "sc_receiving c 4 (reply_addr_len (h ! 3)) (sent @ request_msg (sc_dest_addr c)) (base @ h)"
    using assms(1,3) e by (auto simp: sc_inv_def sc_phase_def Let_def)
  from r assms(2) show ?thesis
  proof (cases rule: recv_done_cases)
    case (more c')
    obtain q where q: "sc_received c = base @ h @ q" using r by (auto simp: sc_receiving_def)
    then have "server_verdict (sc_auth_info c) (sc_received c) = More"
      using more(4) verdict_base [OF a, of "h @ q"] reply_verdict_header [OF h, of q] by simp
    moreover have "sc_phase c'" using more(2,3) assms(3) a h by (auto simp: sc_phase_def sc_same_def Let_def)
    ultimately show ?thesis using decided_more [OF more(1) assms(1) e st more(3)] more(6) by blast
  next
    case (all ct b)
    let ?q = "mem_read b 4 (reply_addr_len (h ! 3))" and ?c = "c\<lparr>sc_control := Some ct\<rparr>"
    have q: "length ?q = reply_addr_len (h ! 3)" using all(2) by simp
    have v: "server_verdict (sc_auth_info c) (sc_received c) = Accepted"
      using all(5) verdict_base [OF a, of "h @ ?q"] reply_verdict_header [OF h, of ?q] q by simp
    let ?c' = "c\<lparr>sc_buffer := None, sc_control := None, sc_up := Some (StreamPassInterface_Init, StreamRecvInterface_Init), sc_state := STATE_UP,
        sc_handler := sc_handler c @ [BSOCKSCLIENT_EVENT_UP]\<rparr>"
    have res: "sc_con c" "sc_up c = None" "sc_connector c" "sc_handler c = []"
      using assms(1,3) e calls_quiet [of c] by (auto simp: sc_inv_def sc_resources_def simp del: not_None_eq)
    have s: "sc_step c (RecvDone env) = Some ?c'"
      using all(1,6) assms(3) res by (simp add: received_all_def received_reply_def free_control_io_def init_up_io_def)
    have "sc_phase ?c'" using a h q all(4,5) by (auto simp: sc_phase_def Let_def)
    then have "sc_inv ?c'" using assms(1) res by (simp add: sc_inv_def sc_resources_def sc_calls_def)
    moreover have "\<not> error_reported ?c'" using res(4) by (simp add: error_reported_def)
    ultimately show ?thesis using s v assms(3) by (simp add: decided_def)
  qed
qed

subsection \<open>Reachable states\<close>

definition sc_rank :: "BSocksClient \<Rightarrow> nat" where
  "sc_rank c = nat (10000 * state_rank (sc_state c) + io_rank c)"

lemma stream_rank_nonneg: "si_inv i \<Longrightarrow> 0 \<le> stream_rank i \<and> (si_job_operation_len i \<le> n \<longrightarrow> stream_rank i \<le> 3 * n + 1 \<or> si_state i = STATE_NONE)"
  by (cases "si_state i") (auto simp: si_inv_def stream_rank_def)

lemma sending_rank: "sc_sending c msg sent r \<Longrightarrow> 0 \<le> io_rank c \<and> io_rank c < 10000"
proof -
  assume a: "sc_sending c msg sent r"
  then obtain ct n where c: "sc_control c = Some ct" "length msg \<le> 1024" "recv_idle (ct_recv_if ct)" "sender_at msg n (ct_send_sender ct)"
    by (auto simp: sc_sending_def)
  have "0 \<le> send_rank (ct_send_sender ct) \<and> send_rank (ct_send_sender ct) < 10000"
    using c(2,4) stream_rank_nonneg [of "pss_output (ct_send_sender ct)" 1024]
    by (auto simp: sender_at_def sender_base_def send_rank_def split: if_state.splits)
  moreover have "stream_rank (ct_recv_if ct) = 0" using c(3) by (simp add: recv_idle_def stream_rank_def)
  ultimately show ?thesis using c(1) by (simp add: io_rank_def)
qed

lemma receiving_rank: "sc_receiving c d t sent r \<Longrightarrow> t \<le> 1024 \<Longrightarrow> 0 \<le> io_rank c \<and> io_rank c < 10000"
proof -
  assume a: "sc_receiving c d t sent r" "t \<le> 1024"
  then obtain ct n where c: "sc_control c = Some ct" "sender_idle (ct_send_sender ct)" "recv_at d t n ct" by (auto simp: sc_receiving_def)
  have "0 \<le> stream_rank (ct_recv_if ct) \<and> stream_rank (ct_recv_if ct) < 10000"
    using c(3) a(2) stream_rank_nonneg [of "ct_recv_if ct" 1024] by (auto simp: recv_at_def)
  moreover have "send_rank (ct_send_sender ct) = 0" using c(2) by (simp add: sender_idle_def send_rank_def)
  ultimately show ?thesis using c(1) by (simp add: io_rank_def)
qed

lemma rank_bounds:
  assumes "sc_inv c" "\<not> error_reported c"
  shows "0 \<le> io_rank c \<and> io_rank c < 10000"
proof -
  have p: "sc_phase c" "sc_resources c" using assms by (simp_all add: sc_inv_def)
  show ?thesis
  proof (cases "sc_state c \<in> {STATE_CONNECTING, STATE_UP}")
    case True
    then have "sc_control c = None" using p(2) by (auto simp: sc_resources_def simp del: not_None_eq)
    then show ?thesis by (simp add: io_rank_def)
  next
    case False
    have "reply_addr_len x \<le> 1024" for x by (simp add: reply_addr_len_def)
    then show ?thesis using p(1) False sending_rank [of c] receiving_rank [of c]
      by (cases "sc_state c") (auto simp: sc_phase_def Let_def)
  qed
qed

lemma state_rank_nonneg: "0 \<le> state_rank s" by (cases s) auto

lemma rank_less:
  assumes "sc_inv c" "\<not> error_reported c" "sc_inv c'" "\<not> error_reported c'"
    "state_rank (sc_state c') < state_rank (sc_state c) \<or> sc_state c' = sc_state c \<and> io_rank c' < io_rank c"
  shows "sc_rank c' < sc_rank c"
  using rank_bounds [OF assms(1,2)] rank_bounds [OF assms(3,4)] assms(5) state_rank_nonneg [of "sc_state c'"] by (auto simp: sc_rank_def nat_less_eq_zless)

text \<open>Every event is handled; unless an error is reported, it brings the handshake nearer to its end.\<close>

definition handled :: "BSocksClient \<Rightarrow> sc_event \<Rightarrow> bool" where
  "handled c ev \<longleftrightarrow> (\<exists>c'. sc_step c ev = Some c' \<and> sc_inv c' \<and>
     (error_reported c' \<or> state_rank (sc_state c') < state_rank (sc_state c) \<or> sc_state c' = sc_state c \<and> io_rank c' < io_rank c))"

lemma connector_handled:
  assumes "sc_inv c" "sc_possible c (Connector env is_error)"
  shows "handled c (Connector env is_error)"
proof -
  have e: "\<not> error_reported c" "sc_state c = STATE_CONNECTING" "size_fine env" using assms(2) by (simp_all add: sc_possible_def)
  have r: "sc_control c = None" "sc_up c = None" "\<not> sc_con c" "sc_handler c = []" "sc_sent c = []" "sc_received c = []" "sc_connector c"
    using assms(1) e calls_quiet [of c] by (auto simp: sc_inv_def sc_resources_def sc_phase_def simp del: not_None_eq)
  note ok = connector_ok [OF e(2) r(1-3) e(1,3), of is_error]
  show ?thesis
  proof (cases "is_error \<or> \<not> se_con_init env \<or> \<not> methods_ok c \<or> se_realloc env = None")
    case True
    then show ?thesis using ok error_inv(1) [OF assms(1) e(1)] error_appended(1) [of c] by (auto simp: handled_def simp del: error_appended)
  next
    case False
    then obtain b ct where c': "sc_step c (Connector env is_error) = Some (c\<lparr>sc_con := True, sc_buffer := Some b, sc_control := Some ct, sc_state := STATE_SENDING_HELLO\<rparr>)"
      "sc_sending (c\<lparr>sc_con := True, sc_buffer := Some b, sc_control := Some ct, sc_state := STATE_SENDING_HELLO\<rparr>) (hello_msg (sc_auth_info c)) [] []"
      using ok r(5,6) by auto
    let ?c = "c\<lparr>sc_con := True, sc_buffer := Some b, sc_control := Some ct, sc_state := STATE_SENDING_HELLO\<rparr>"
    have "sc_phase ?c" using c'(2) by (simp add: sc_phase_def)
    then have "sc_inv ?c" using assms(1) r by (simp add: sc_inv_def sc_resources_def sc_calls_def)
    then show ?thesis using c'(1) e(2) by (auto simp: handled_def)
  qed
qed

lemma connection_handled:
  assumes "sc_inv c" "sc_possible c (Connection ev)"
  shows "handled c (Connection ev)"
proof -
  have e: "\<not> error_reported c" "sc_state c \<noteq> STATE_CONNECTING" using assms by (auto simp: sc_possible_def sc_inv_def sc_resources_def)
  then show ?thesis using error_inv [OF assms(1) e(1)] error_appended [of c]
    by (auto simp: handled_def connection_handler_def report_error_def)
qed

lemma same_handled:
  assumes "sc_inv c" "sc_possible c ev" "sc_step c ev = Some c'" "sc_same c c'" "sc_phase c'" "io_rank c' < io_rank c" "sc_state c \<notin> {STATE_CONNECTING, STATE_UP}"
  shows "handled c ev"
proof -
  have "\<not> error_reported c" using assms(2) by (simp add: sc_possible_def)
  from same_inv [OF assms(1) this assms(4,5,7)] have "sc_inv c'" .
  then show ?thesis using assms(3,4,6) by (auto simp: handled_def sc_same_def)
qed

lemma sending_phase:
  assumes "sc_phase c" "sc_state c \<in> {STATE_SENDING_HELLO, STATE_SENDING_PASSWORD, STATE_SENDING_REQUEST}"
  shows "\<exists>msg sent r. sc_sending c msg sent r \<and> (\<forall>c'. sc_sending c' msg sent r \<longrightarrow> sc_same c c' \<longrightarrow> sc_phase c')"
proof -
  from assms(2) consider "sc_state c = STATE_SENDING_HELLO" | "sc_state c = STATE_SENDING_PASSWORD" | "sc_state c = STATE_SENDING_REQUEST" by blast
  then show ?thesis
  proof cases
    case 3
    then obtain base sent where b: "auth_done (sc_auth_info c) base sent" "sc_sending c (request_msg (sc_dest_addr c)) sent base"
      using assms(1) by (auto simp: sc_phase_def Let_def)
    have "sc_phase c'" if "sc_sending c' (request_msg (sc_dest_addr c)) sent base" "sc_same c c'" for c'
      using that b(1) 3 by (auto simp: sc_phase_def sc_same_def Let_def)
    then show ?thesis using b(2) by blast
  qed (use assms(1) in \<open>auto simp: sc_phase_def sc_same_def Let_def\<close>)
qed

lemma receiving_phase:
  assumes "sc_phase c" "sc_state c \<in> {STATE_SENT_HELLO, STATE_SENT_PASSWORD, STATE_SENT_REQUEST, STATE_RECEIVED_REPLY_HEADER}"
  shows "\<exists>d t sent r. sc_receiving c d t sent r \<and> (\<forall>c'. sc_receiving c' d t sent r \<longrightarrow> sc_same c c' \<longrightarrow> sc_phase c')"
proof -
  from assms(2) consider "sc_state c = STATE_SENT_HELLO" | "sc_state c = STATE_SENT_PASSWORD" | "sc_state c = STATE_SENT_REQUEST" | "sc_state c = STATE_RECEIVED_REPLY_HEADER"
    by blast
  then show ?thesis
  proof cases
    case 2
    then obtain ai where b: "method_info (sc_auth_info c) 2 = Some ai" "valid_cred ai"
      "sc_receiving c 0 2 (hello_msg (sc_auth_info c) @ password_msg ai) [5, 2]" using assms(1) by (auto simp: sc_phase_def Let_def)
    have "sc_phase c'" if "sc_receiving c' 0 2 (hello_msg (sc_auth_info c) @ password_msg ai) [5, 2]" "sc_same c c'" for c'
      using that b(1,2) 2 by (auto simp: sc_phase_def sc_same_def Let_def)
    then show ?thesis using b(3) by blast
  next
    case 3
    then obtain base sent where b: "auth_done (sc_auth_info c) base sent" "sc_receiving c 0 4 (sent @ request_msg (sc_dest_addr c)) base"
      "map_option length (sc_buffer c) = Some 22" using assms(1) by (auto simp: sc_phase_def Let_def)
    have "sc_phase c'" if "sc_receiving c' 0 4 (sent @ request_msg (sc_dest_addr c)) base" "sc_same c c'" for c'
      using that b(1,3) 3 by (auto simp: sc_phase_def sc_same_def Let_def)
    then show ?thesis using b(2) by blast
  next
    case 4
    then obtain base sent h where b: "auth_done (sc_auth_info c) base sent" "reply_header h"
      "sc_receiving c 4 (reply_addr_len (h ! 3)) (sent @ request_msg (sc_dest_addr c)) (base @ h)" using assms(1) by (auto simp: sc_phase_def Let_def)
    have "sc_phase c'" if "sc_receiving c' 4 (reply_addr_len (h ! 3)) (sent @ request_msg (sc_dest_addr c)) (base @ h)" "sc_same c c'" for c'
      using that b(1,2) 4 by (auto simp: sc_phase_def sc_same_def Let_def)
    then show ?thesis using b(3) by blast
  qed (use assms(1) in \<open>auto simp: sc_phase_def sc_same_def Let_def\<close>)
qed

lemma sending_handled:
  assumes "sc_inv c" "sc_possible c ev" "sc_state c \<in> {STATE_SENDING_HELLO, STATE_SENDING_PASSWORD, STATE_SENDING_REQUEST}"
  shows "handled c ev"
proof -
  have e: "\<not> error_reported c" using assms(2) by (simp add: sc_possible_def)
  have p: "sc_phase c" using assms(1) e by (simp add: sc_inv_def)
  obtain msg sent r where s: "sc_sending c msg sent r" "\<And>c'. sc_sending c' msg sent r \<Longrightarrow> sc_same c c' \<Longrightarrow> sc_phase c'"
    using sending_phase [OF p assms(3)] by blast
  have st: "sc_state c \<notin> {STATE_CONNECTING, STATE_UP}" using assms(3) by auto
  from sending_quiet [OF s(1) assms(2)] st consider "ev \<in> {SendPacketJob, SendStreamJob, SendStreamDone} \<union> range SendSome"
    | env where "ev = SendPacketDone env" | cev where "ev = Connection cev" by auto
  then show ?thesis
  proof cases
    case 1
    from sending_step [OF s(1) assms(2) this] obtain c' where c': "sc_step c ev = Some c'" "sc_sending c' msg sent r" "sc_same c c'" "io_rank c' < io_rank c" by blast
    show ?thesis by (rule same_handled [OF assms(1,2) c'(1,3) s(2) [OF c'(2,3)] c'(4) st])
  next
    case 2
    then show ?thesis using send_done_inv [OF assms(1) _ assms(3)] assms(2) by (auto simp: handled_def simp del: sc_step.simps)
  next
    case 3
    then show ?thesis using connection_handled [OF assms(1)] assms(2) by simp
  qed
qed

lemma recv_done_decided:
  assumes "sc_inv c" "sc_possible c (RecvDone env)"
    "sc_state c \<in> {STATE_SENT_HELLO, STATE_SENT_PASSWORD, STATE_SENT_REQUEST, STATE_RECEIVED_REPLY_HEADER}"
  shows "decided env c (sc_step c (RecvDone env))"
  using hello_decided [OF assms(1,2)] password_decided [OF assms(1,2)] header_decided [OF assms(1,2)] reply_decided [OF assms(1,2)] assms(3) by blast

lemma receiving_handled:
  assumes "sc_inv c" "sc_possible c ev" "sc_state c \<in> {STATE_SENT_HELLO, STATE_SENT_PASSWORD, STATE_SENT_REQUEST, STATE_RECEIVED_REPLY_HEADER}"
  shows "handled c ev"
proof -
  have e: "\<not> error_reported c" using assms(2) by (simp add: sc_possible_def)
  have p: "sc_phase c" using assms(1) e by (simp add: sc_inv_def)
  obtain d t sent r where s: "sc_receiving c d t sent r" "\<And>c'. sc_receiving c' d t sent r \<Longrightarrow> sc_same c c' \<Longrightarrow> sc_phase c'"
    using receiving_phase [OF p assms(3)] by blast
  have st: "sc_state c \<notin> {STATE_CONNECTING, STATE_UP}" using assms(3) by auto
  from receiving_quiet [OF s(1) assms(2)] st consider "ev \<in> insert RecvJob (range RecvSome)"
    | env where "ev = RecvDone env" | cev where "ev = Connection cev" by auto
  then show ?thesis
  proof cases
    case 1
    from receiving_step [OF s(1) assms(2) this] obtain c' where c': "sc_step c ev = Some c'" "sc_receiving c' d t sent r" "sc_same c c'" "io_rank c' < io_rank c" by blast
    show ?thesis by (rule same_handled [OF assms(1,2) c'(1,3) s(2) [OF c'(2,3)] c'(4) st])
  next
    case (2 env)
    then show ?thesis using recv_done_decided [OF assms(1) _ assms(3), of env] assms(2) unfolding decided_def handled_def by blast
  next
    case 3
    then show ?thesis using connection_handled [OF assms(1)] assms(2) by simp
  qed
qed

lemma all_handled:
  assumes "sc_inv c" "sc_possible c ev"
  shows "handled c ev"
proof (cases "sc_state c \<in> {STATE_CONNECTING, STATE_UP}")
  case True
  then have "sc_control c = None" using assms(1) by (auto simp: sc_inv_def sc_resources_def simp del: not_None_eq)
  then consider env b where "ev = Connector env b" | cev where "ev = Connection cev"
    using assms(2) by (cases ev) (auto simp: sc_possible_def on_control_def)
  then show ?thesis using connector_handled [OF assms(1)] connection_handled [OF assms(1)] assms(2) by cases auto
next
  case False
  then show ?thesis using sending_handled [OF assms] receiving_handled [OF assms] by (cases "sc_state c") auto
qed

lemma sc_reach_inv: "sc_reach c \<Longrightarrow> sc_inv c"
proof (induction rule: sc_reach.induct)
  case (start server_addr auth_info dest_addr c)
  then show ?case
    by (auto simp: BSocksClient_Init_def sc_inv_def sc_resources_def sc_calls_def sc_phase_def list_all_iff
        SOCKS_METHOD_NO_AUTHENTICATION_REQUIRED_def SOCKS_METHOD_USERNAME_PASSWORD_def split: if_splits)
next
  case (step c ev c')
  then show ?case using all_handled [of c ev] by (auto simp: handled_def)
qed

subsection \<open>Properties\<close>

lemma recv_done_state:
  assumes "sc_inv c" "sc_possible c (RecvDone env)"
  shows "sc_state c \<in> {STATE_SENT_HELLO, STATE_SENT_PASSWORD, STATE_SENT_REQUEST, STATE_RECEIVED_REPLY_HEADER}"
proof (rule ccontr)
  assume n: "\<not> ?thesis"
  have e: "\<not> error_reported c" using assms(2) by (simp add: sc_possible_def)
  obtain ct where ct: "sc_control c = Some ct" "si_job_done (ct_recv_if ct)"
    using assms(2) by (auto simp: sc_possible_def on_control_def split: option.splits)
  then have "sc_state c \<notin> {STATE_CONNECTING, STATE_UP}" using assms(1) by (auto simp: sc_inv_def sc_resources_def)
  then have s: "sc_state c \<in> {STATE_SENDING_HELLO, STATE_SENDING_PASSWORD, STATE_SENDING_REQUEST}" using n by (cases "sc_state c") auto
  obtain msg sent r where "sc_sending c msg sent r" using sending_phase [OF _ s] assms(1) e by (auto simp: sc_inv_def)
  then have "recv_idle (ct_recv_if ct)" using ct(1) by (auto simp: sc_sending_def)
  then show False using ct(2) recv_idle_quiet(2) by blast
qed

text \<open>An event other than a failure of the connection.\<close>

definition moves_on :: "sc_event \<Rightarrow> bool" where
  "moves_on ev \<longleftrightarrow> (case ev of Connection _ \<Rightarrow> False | _ \<Rightarrow> True)"

lemma moves_on_simps [simp]: "moves_on SendPacketJob" "moves_on SendStreamJob" "moves_on (SendSome k)" "moves_on SendStreamDone" "moves_on (SendPacketDone env)"
    "moves_on RecvJob" "moves_on (RecvSome data)" "moves_on (RecvDone env)" "moves_on (Connector env b)" "\<not> moves_on (Connection ev)"
  by (simp_all add: moves_on_def)

lemma sending_enabled:
  assumes "sc_sending c msg sent r" "\<not> error_reported c" "size_fine env"
  shows "\<exists>ev. moves_on ev \<and> sc_possible c ev"
proof -
  obtain ct n where c: "sc_control c = Some ct" "sender_at msg n (ct_send_sender ct)" using assms(1) by (auto simp: sc_sending_def)
  let ?s = "ct_send_sender ct"
  have b: "ppi_inv (pss_input ?s)" "si_inv (pss_output ?s)" using c(2) by (simp_all add: sender_at_def sender_base_def)
  consider "ppi_state (pss_input ?s) = STATE_OPERATION_PENDING" | "ppi_state (pss_input ?s) = STATE_DONE_PENDING"
    | "si_state (pss_output ?s) = STATE_OPERATION_PENDING" | "si_state (pss_output ?s) = STATE_BUSY" | "si_state (pss_output ?s) = STATE_DONE_PENDING"
    using c(2) by (cases "ppi_state (pss_input ?s)"; cases "si_state (pss_output ?s)") (auto simp: sender_at_def)
  then have "sc_possible c SendPacketJob \<or> sc_possible c (SendPacketDone env) \<or> sc_possible c SendStreamJob \<or> sc_possible c (SendSome 1) \<or> sc_possible c SendStreamDone"
    using assms(2,3) c(1) b by cases (simp_all add: sc_possible_def on_control_def ppi_inv_def si_inv_def)
  then show ?thesis using moves_on_simps by blast
qed

lemma receiving_enabled:
  assumes "sc_receiving c d t sent r" "\<not> error_reported c" "size_fine env"
  shows "\<exists>ev. moves_on ev \<and> sc_possible c ev"
proof -
  obtain ct n where c: "sc_control c = Some ct" "recv_at d t n ct" using assms(1) by (auto simp: sc_receiving_def)
  then have "sc_possible c RecvJob \<or> sc_possible c (RecvSome [0]) \<or> sc_possible c (RecvDone env)"
    using assms(2,3) by (cases "si_state (ct_recv_if ct)") (auto simp: sc_possible_def on_control_def recv_at_def si_inv_def)
  then show ?thesis using moves_on_simps by blast
qed

lemma enabled:
  assumes "sc_inv c" "\<not> error_reported c" "sc_state c \<noteq> STATE_UP"
  shows "\<exists>ev. moves_on ev \<and> sc_possible c ev"
proof -
  define env where "env = \<lparr>se_size_max = 65535, se_con_init = True, se_realloc = None\<rparr>"
  have f: "size_fine env" by (simp add: env_def size_fine_def)
  have p: "sc_phase c" using assms(1,2) by (simp add: sc_inv_def)
  consider "sc_state c = STATE_CONNECTING" | "sc_state c \<in> {STATE_SENDING_HELLO, STATE_SENDING_PASSWORD, STATE_SENDING_REQUEST}"
    | "sc_state c \<in> {STATE_SENT_HELLO, STATE_SENT_PASSWORD, STATE_SENT_REQUEST, STATE_RECEIVED_REPLY_HEADER}"
    using assms(3) by (cases "sc_state c") auto
  then show ?thesis
  proof cases
    case 1
    then have "moves_on (Connector env False)" "sc_possible c (Connector env False)" using assms(2) f by (simp_all add: moves_on_def sc_possible_def)
    then show ?thesis by blast
  next
    case 2
    then show ?thesis using sending_phase [OF p] sending_enabled [OF _ assms(2) f] by blast
  next
    case 3
    then show ?thesis using receiving_phase [OF p] receiving_enabled [OF _ assms(2) f] by blast
  qed
qed

text \<open>C14: no assertion of the SOCKS client fails, nothing is read or written outside its buffer and nothing that is not there is used, whatever the
  server sends, in whatever pieces data is sent and received, and whenever memory runs out or the connection fails.\<close>

theorem socks_client_safe:
  assumes "sc_reach c" "sc_possible c ev"
  shows "\<exists>c'. sc_step c ev = Some c' \<and> sc_reach c'"
  using all_handled [OF sc_reach_inv [OF assms(1)] assms(2)] assms sc_reach.step by (auto simp: handled_def simp del: sc_step.simps)

text \<open>C3: the client decides on the bytes of the server as the protocol says, however they are cut into pieces: when a receive operation
  has completed and memory is available, an error is reported exactly when the bytes received so far are a refusal, and the
  connection is up exactly when they are a complete acceptance; otherwise the handshake goes on.\<close>

theorem socks_client_decides:
  assumes "sc_reach c" "sc_possible c (RecvDone env)" "se_realloc env \<noteq> None"
  shows "\<exists>c'. sc_step c (RecvDone env) = Some c' \<and> (error_reported c' \<longleftrightarrow> server_verdict (sc_auth_info c) (sc_received c) = Refused) \<and>
    (sc_state c' = STATE_UP \<longleftrightarrow> server_verdict (sc_auth_info c) (sc_received c) = Accepted)"
proof -
  note inv = sc_reach_inv [OF assms(1)]
  from recv_done_decided [OF inv assms(2) recv_done_state [OF inv assms(2)]] show ?thesis using assms(3) unfolding decided_def by blast
qed

text \<open>C4: when the connection is up, exactly the bytes of the handshake have crossed the wire: the client has sent its greeting, its credentials if the
  server asked for them, and the request for its destination; and it has read the answers to them up to the end of the reply and nothing behind it.\<close>

theorem socks_client_up:
  assumes "sc_reach c" "sc_state c = STATE_UP" "\<not> error_reported c"
  shows "\<exists>auth sent h a. (auth = [5, 0] \<and> method_info (sc_auth_info c) 0 \<noteq> None \<and> sent = [] \<or>
      auth = [5, 2, 1, 0] \<and> (\<exists>ai. method_info (sc_auth_info c) 2 = Some ai \<and> valid_cred ai \<and> sent = password_msg ai)) \<and>
    sc_sent c = hello_msg (sc_auth_info c) @ sent @ request_msg (sc_dest_addr c) \<and>
    sc_received c = auth @ h @ a \<and> reply_header h \<and> length a = reply_addr_len (h ! 3) \<and>
    BSocksClient_GetSendInterface c \<noteq> None \<and> BSocksClient_GetRecvInterface c \<noteq> None"
proof -
  have i: "sc_inv c" by (rule sc_reach_inv [OF assms(1)])
  then have p: "sc_phase c" and u: "sc_up c \<noteq> None" using assms by (simp_all add: sc_inv_def sc_resources_def)
  obtain base sent h a where b: "auth_done (sc_auth_info c) base sent" "reply_header h" "length a = reply_addr_len (h ! 3)"
    "sc_sent c = sent @ request_msg (sc_dest_addr c)" "sc_received c = base @ h @ a" using p assms(2) by (auto simp: sc_phase_def Let_def)
  have g: "BSocksClient_GetSendInterface c \<noteq> None" "BSocksClient_GetRecvInterface c \<noteq> None"
    using u assms(2) by (auto simp: BSocksClient_GetSendInterface_def BSocksClient_GetRecvInterface_def)
  from b(1) consider "base = [5, 0]" "method_info (sc_auth_info c) 0 \<noteq> None" "sent = hello_msg (sc_auth_info c)"
    | ai where "base = [5, 2, 1, 0]" "method_info (sc_auth_info c) 2 = Some ai" "valid_cred ai" "sent = hello_msg (sc_auth_info c) @ password_msg ai"
    by (auto simp: auth_done_def)
  then show ?thesis
  proof cases
    case 1
    then show ?thesis using b(2-5) g by (intro exI [where x = base] exI [where x = "[]"] exI [where x = h] exI [where x = a]) simp
  next
    case (2 ai)
    then show ?thesis using b(2-5) g by (intro exI [where x = base] exI [where x = "password_msg ai"] exI [where x = h] exI [where x = a]) simp
  qed
qed

text \<open>C19: the handler is called as its users rely on it: first with the event that the connection is up, or with an error; then at most once more,
  with an error or, only when the connection has been up, with its end; and the client can be freed at any time, which frees everything it holds, once.\<close>

theorem socks_client_contract:
  assumes "sc_reach c"
  shows "(sc_handler c \<in> {[], [BSOCKSCLIENT_EVENT_ERROR]} \<and> sc_state c \<noteq> STATE_UP \<or>
      sc_handler c \<in> {[BSOCKSCLIENT_EVENT_UP], [BSOCKSCLIENT_EVENT_UP, BSOCKSCLIENT_EVENT_ERROR], [BSOCKSCLIENT_EVENT_UP, BSOCKSCLIENT_EVENT_ERROR_CLOSED]} \<and>
        sc_state c = STATE_UP) \<and>
    (\<exists>c'. BSocksClient_Free c = Some c' \<and> \<not> sc_connector c' \<and> \<not> sc_con c' \<and> sc_control c' = None \<and> sc_up c' = None \<and> sc_buffer c' = None)"
proof -
  have i: "sc_calls c" "sc_resources c" using sc_reach_inv [OF assms] by (simp_all add: sc_inv_def)
  have "\<exists>c'. BSocksClient_Free c = Some c' \<and> \<not> sc_connector c' \<and> \<not> sc_con c' \<and> sc_control c' = None \<and> sc_up c' = None \<and> sc_buffer c' = None"
    using i(2) by (cases "sc_state c")
      (auto simp: sc_resources_def BSocksClient_Free_def free_up_io_def free_control_io_def BConnection_Free_def simp del: not_None_eq)
  moreover have "sc_handler c \<in> {[], [BSOCKSCLIENT_EVENT_ERROR]} \<and> sc_state c \<noteq> STATE_UP \<or>
      sc_handler c \<in> {[BSOCKSCLIENT_EVENT_UP], [BSOCKSCLIENT_EVENT_UP, BSOCKSCLIENT_EVENT_ERROR], [BSOCKSCLIENT_EVENT_UP, BSOCKSCLIENT_EVENT_ERROR_CLOSED]} \<and>
        sc_state c = STATE_UP" using i(1) by (simp add: sc_calls_def split: if_splits)
  ultimately show ?thesis by blast
qed

text \<open>C22: the handshake ends: until the connection is up or an error is reported, some event that moves it on can always happen (a scheduled job, or the
  connection sending or receiving one more byte), and every event that can happen lowers a bound on the number of events left, of at most 90000, or reports an error.\<close>

theorem socks_client_terminates:
  assumes "sc_reach c" "\<not> error_reported c" "sc_state c \<noteq> STATE_UP"
  shows "(\<exists>ev. moves_on ev \<and> sc_possible c ev) \<and> sc_rank c \<le> 90000 \<and>
    (\<forall>ev. sc_possible c ev \<longrightarrow> (\<exists>c'. sc_step c ev = Some c' \<and> (error_reported c' \<or> sc_rank c' < sc_rank c)))"
proof -
  note inv = sc_reach_inv [OF assms(1)]
  have "state_rank (sc_state c) \<le> 8" by (cases "sc_state c") auto
  then have "sc_rank c \<le> 90000" using rank_bounds [OF inv assms(2)] by (auto simp: sc_rank_def nat_le_iff)
  moreover have "\<exists>c'. sc_step c ev = Some c' \<and> (error_reported c' \<or> sc_rank c' < sc_rank c)" if p: "sc_possible c ev" for ev
  proof -
    obtain c' where c': "sc_step c ev = Some c'" "sc_inv c'"
      "error_reported c' \<or> state_rank (sc_state c') < state_rank (sc_state c) \<or> sc_state c' = sc_state c \<and> io_rank c' < io_rank c"
      using all_handled [OF inv p] unfolding handled_def by blast
    then show ?thesis using rank_less [OF inv assms(2) c'(2)] by blast
  qed
  ultimately show ?thesis using enabled [OF inv assms(2,3)] by blast
qed

subsection \<open>A handshake with a password\<close>

fun sc_run :: "BSocksClient \<Rightarrow> sc_event list \<Rightarrow> BSocksClient option" where
  "sc_run c [] = Some c"
| "sc_run c (ev # evs) = (if sc_possible c ev then sc_step c ev \<bind> (\<lambda>c. sc_run c evs) else None)"

lemma sc_run_reach: "sc_reach c \<Longrightarrow> sc_run c evs = Some c' \<Longrightarrow> sc_reach c'"
  by (induction evs arbitrary: c) (auto split: if_splits bind_splits intro: sc_reach.step simp del: sc_step.simps)

definition sd_env :: sc_env where
  "sd_env = \<lparr>se_size_max = 65535, se_con_init = True, se_realloc = Some []\<rparr>"

definition sd_auth :: "BSocksClient_auth_info list" where
  "sd_auth = [BSocksClient_auth_none, BSocksClient_auth_password [117] [112]]"

definition sd_start :: BSocksClient where
  "sd_start = the (the (BSocksClient_Init True (BAddrIPv4 1 2) sd_auth (BAddrIPv4 3 4)))"

definition sd_send :: "nat \<Rightarrow> sc_event list" where
  "sd_send n = [SendPacketJob, SendStreamJob, SendSome 1, SendStreamDone, SendStreamJob, SendSome (n - 1), SendStreamDone, SendPacketDone sd_env]"

definition sd_recv :: "bytes \<Rightarrow> sc_event list" where
  "sd_recv data = [RecvJob, RecvSome (take 1 data), RecvDone sd_env, RecvJob, RecvSome (drop 1 data)]"

definition sd_hello :: "sc_event list" where
  "sd_hello = Connector sd_env False # sd_send 4 @ sd_recv [5, 2] @ [RecvDone sd_env]"

definition sd_last :: "sc_event list" where
  "sd_last = sd_hello @ sd_send 5 @ sd_recv [1, 0] @ [RecvDone sd_env] @ sd_send 10 @ sd_recv [5, 0, 0, 1] @ [RecvDone sd_env] @ sd_recv [9, 9, 9, 9, 9, 9]"

definition sd_facts where
  "sd_facts c = (sc_state c, error_reported c, sc_sent c, sc_received c, sc_possible c (RecvDone sd_env), sc_auth_info c, sc_dest_addr c)"

lemma sd_runs:
  "map_option sd_facts (sc_run sd_start sd_last) =
     Some (STATE_RECEIVED_REPLY_HEADER, False, [5, 2, 0, 2] @ [1, 1, 117, 1, 112] @ [5, 1, 0, 1, 3, 0, 0, 0, 4, 0],
       [5, 2] @ [1, 0] @ [5, 0, 0, 1] @ [9, 9, 9, 9, 9, 9], True, sd_auth, BAddrIPv4 3 4)"
  by code_simp

lemma sd_start_reach: "sc_reach sd_start"
proof -
  have "BSocksClient_Init True (BAddrIPv4 1 2) sd_auth (BAddrIPv4 3 4) = Some (Some sd_start)"
    by (simp add: sd_start_def BSocksClient_Init_def is_ip_def sd_auth_def BSocksClient_auth_none_def BSocksClient_auth_password_def)
  then show ?thesis by (rule sc_reach.start) (simp add: wf_addr_def)
qed

definition sd_before :: BSocksClient where "sd_before = the (sc_run sd_start sd_last)"

lemma sd_before_Some: "sc_run sd_start sd_last = Some sd_before"
  using sd_runs by (auto simp: sd_before_def)

lemma sd_before_reach: "sc_reach sd_before"
  by (rule sc_run_reach [OF sd_start_reach sd_before_Some])

lemma sd_before_facts: "sd_facts sd_before = (STATE_RECEIVED_REPLY_HEADER, False, [5, 2, 0, 2] @ [1, 1, 117, 1, 112] @ [5, 1, 0, 1, 3, 0, 0, 0, 4, 0],
       [5, 2] @ [1, 0] @ [5, 0, 0, 1] @ [9, 9, 9, 9, 9, 9], True, sd_auth, BAddrIPv4 3 4)"
  using sd_runs unfolding sd_before_Some by simp

lemma sd_before_state: "sc_possible sd_before (RecvDone sd_env)" "sc_auth_info sd_before = sd_auth" "\<not> error_reported sd_before"
    "sc_state sd_before = STATE_RECEIVED_REPLY_HEADER" "sc_received sd_before = [5, 2, 1, 0, 5, 0, 0, 1, 9, 9, 9, 9, 9, 9]"
  using sd_before_facts by (simp_all add: sd_facts_def)

lemma sd_accepts: "server_verdict sd_auth [5, 2, 1, 0, 5, 0, 0, 1, 9, 9, 9, 9, 9, 9] = Accepted" by code_simp

theorem socks_client_safe_witness: "\<exists>c'. sc_step sd_before (RecvDone sd_env) = Some c' \<and> sc_reach c'"
  by (rule socks_client_safe [OF sd_before_reach sd_before_state(1)])

theorem socks_client_decides_witness: "\<exists>c'. sc_step sd_before (RecvDone sd_env) = Some c' \<and> sc_state c' = STATE_UP \<and> \<not> error_reported c'"
proof -
  have "se_realloc sd_env \<noteq> None" by (simp add: sd_env_def)
  from socks_client_decides [OF sd_before_reach sd_before_state(1) this] show ?thesis
    unfolding sd_before_state(2,5) sd_accepts by auto
qed

definition sd_up :: BSocksClient where "sd_up = the (sc_run sd_start (sd_last @ [RecvDone sd_env]))"

lemma sd_up_runs: "map_option sd_facts (sc_run sd_start (sd_last @ [RecvDone sd_env])) =
     Some (STATE_UP, False, [5, 2, 0, 2] @ [1, 1, 117, 1, 112] @ [5, 1, 0, 1, 3, 0, 0, 0, 4, 0],
       [5, 2] @ [1, 0] @ [5, 0, 0, 1] @ [9, 9, 9, 9, 9, 9], False, sd_auth, BAddrIPv4 3 4)"
  by code_simp

lemma sd_up_Some: "sc_run sd_start (sd_last @ [RecvDone sd_env]) = Some sd_up"
  using sd_up_runs by (auto simp: sd_up_def)

lemma sd_up_state: "sc_reach sd_up" "sc_state sd_up = STATE_UP" "\<not> error_reported sd_up"
  using sc_run_reach [OF sd_start_reach sd_up_Some] sd_up_runs unfolding sd_up_Some by (simp_all add: sd_facts_def)

theorem socks_client_up_witness:
  "\<exists>sent. sc_sent sd_up = hello_msg (sc_auth_info sd_up) @ sent @ request_msg (sc_dest_addr sd_up) \<and> BSocksClient_GetSendInterface sd_up \<noteq> None"
  using socks_client_up [OF sd_up_state] by blast

theorem socks_client_contract_witness:
  "sc_handler sd_up \<noteq> [] \<and> (\<exists>c'. BSocksClient_Free sd_up = Some c' \<and> sc_up c' = None \<and> \<not> sc_con c')"
  using socks_client_contract [OF sd_up_state(1)] sd_up_state(2) by auto

theorem socks_client_terminates_witness: "(\<exists>ev. moves_on ev \<and> sc_possible sd_before ev) \<and> sc_rank sd_before \<le> 90000"
  using socks_client_terminates [OF sd_before_reach sd_before_state(3)] sd_before_state(4) by simp

end
