(* ===== verification/Spec2Isabelle.thy ===== *)
theory Spec2Isabelle
  imports HttpAuth PacketBuffer PacketProto BPending FairQueue Socks4 Socks5 ConnPressure TcpClient IpUdp Bavl UdpGw SocksClient
begin

text \<open>
  \<^bold>\<open>The program.\<close>  The application is a VPN client for Android.  Its native part, under
  \<open>shadowsocks/src/main/jni\<close>, is C: \<open>redsocks\<close>, a transparent redirector that accepts TCP connections
  and relays them through an HTTP, SOCKS4 or SOCKS5 proxy, built on the event loop of \<open>libevent\<close>;
  and \<open>badvpn\<close>, whose \<open>tun2socks\<close> turns packets of a tunnel device into proxied connections, built on
  a library of flow components (packet buffers, queues, protocol encoders) that talk through
  interfaces with a callback on each side.  This development models the core of both.

  \<^bold>\<open>Conventions.\<close>  Buffers and messages are byte lists, machine integers are words where wrap-around
  matters and \<open>int\<close> otherwise.  An operation that can fail an assertion, touch freed memory or
  leave a buffer has such an outcome as a value (\<open>None\<close>, \<open>Fault\<close>), and the safety theorems show that no
  run produces it.  Results of system calls, times, random numbers and memory failures are
  arguments.  Everything is executable; witnesses are evaluated by \<open>simp\<close> and \<open>code_simp\<close>.

  \<^bold>\<open>Theories.\<close>
  \<^item> \<open>Prelude\<close>: words, memory windows (\<open>memcpy\<close>), byte orders.
  \<^item> \<open>Interfaces\<close>: the locales of the codecs: a codec that decodes what it encodes, a digest that may be
    fed in pieces.  They are interpreted in \<open>Base64\<close> and \<open>Md5\<close>, and used by \<open>HttpAuth\<close>.
  \<^item> \<open>Base64\<close> (\<open>redsocks/base64.c\<close>), \<open>Md5\<close> (\<open>redsocks/md5.c\<close>), \<open>HttpAuth\<close> (\<open>redsocks/http-auth.c\<close>): the codec,
    the digest and the two authentication schemes of an HTTP proxy.  The encoder equals a
    bitwise reference and is inverted by the decoder; the unrolled MD5 block function equals the loop of
    RFC 1321, and hashing in pieces equals hashing the whole; the digest header carries the
    response of RFC 2617.
  \<^item> \<open>FlowInterfaces\<close> (\<open>badvpn/flow/PacketPassInterface\<close>, \<open>PacketRecvInterface\<close>, \<open>StreamPassInterface\<close>,
    \<open>StreamRecvInterface\<close>): the handshake of every flow component, with the jobs it posts;
    \<open>BPending\<close> (\<open>badvpn/base/BPending\<close>): the job queue itself.
  \<^item> \<open>ChunkBuffer2\<close> (\<open>badvpn/structure/ChunkBuffer2.h\<close>) refines a bounded queue of packets;
    \<open>PacketBuffer\<close> (\<open>badvpn/flow/PacketBuffer.c\<close>) is its client and forwards packets in order in every
    interleaving of its two sides.
  \<^item> \<open>PacketProto\<close> (\<open>badvpn/flow/PacketProtoEncoder.c\<close>, \<open>PacketProtoDecoder.c\<close>): framing of packets on a
    stream and its inverse for every fragmentation.
  \<^item> \<open>FairQueue\<close> (\<open>badvpn/flow/PacketPassFairQueue.c\<close>): virtual-time scheduling of flows on one output.
  \<^item> \<open>Bufferevent\<close> (\<open>libevent/bufferevent.c\<close>, \<open>bufferevent_sock.c\<close>, parts of \<open>buffer.c\<close>): socket bufferevents.
  \<^item> \<open>Redsocks\<close> (\<open>redsocks/redsocks.c\<close>): a client connection, the helpers of the proxy protocols, and the
    two-way pump, with the runs of socket events that drive it.
  \<^item> \<open>Handshake\<close>: the locale \<open>relay_handshake\<close>, the contract between \<open>redsocks.c\<close> and a proxy protocol with
    replies of known length, and the theorem on a connection from connecting to relaying.
    \<open>Socks4\<close> (\<open>redsocks/socks4.c\<close>) and \<open>Socks5\<close> (\<open>redsocks/socks5.c\<close>) interpret it.
  \<^item> \<open>ConnPressure\<close> (\<open>redsocks/redsocks.c\<close>): the set of connections of the process, their limit, and the back-off
    of \<open>accept\<close>.
  \<^item> \<open>TcpClient\<close> (\<open>badvpn/tun2socks/tun2socks.c\<close>): a TCP connection of the tunnel between the TCP/IP stack and SOCKS,
    with half closing, aborting from inside a callback of the stack, and its two flows of data.
  \<^item> \<open>IpUdp\<close> (\<open>badvpn/misc/ipv4_proto.h\<close>, \<open>ipv6_proto.h\<close>, \<open>udp_proto.h\<close>, \<open>tun2socks.c\<close>): UDP packets of the tunnel device, checked
    and built, with their checksums.
  \<^item> \<open>Bavl\<close> (\<open>badvpn/structure/BAVL.h\<close>): AVL trees.  The locale \<open>value_order\<close> is the contract of a comparator; under it the
    tree refines an ordered list.  It is interpreted on the order of ports and, in \<open>UdpGw\<close>, on the order of addresses.
  \<^item> \<open>UdpGw\<close> (\<open>badvpn/tun2socks/SocksUdpGwClient.c\<close>, \<open>flow/BufferWriter.c\<close>, \<open>protocol/udpgw_proto.h\<close>): the UDP relay, a cache of connections
    by local address, with the runs of its events; with \<open>IpUdp\<close> it gives the way of a packet from the
    device to the SOCKS server and back.
  \<^item> \<open>SocksClient\<close> (\<open>badvpn/socksclient/BSocksClient.c\<close>, \<open>flow/PacketStreamSender.c\<close>): the SOCKS5 handshake of a TCP connection of the tunnel, whose
    events \<open>TcpClient\<close> takes.  Jobs and the work of the connection are events of a step relation; the client decides on the
    bytes of the server as the grammar of the protocol says, keeps within its buffer, and ends.

  \<^bold>\<open>What is shown.\<close>  Safety: no assertion fails and nothing freed is used, in any interleaving
  (pump, handshakes, packet buffer, decoder, fair queue, TCP connections, UDP relay and SOCKS client of the tunnel).  Conservation and delivery: the streams
  of a relayed connection are unchanged in both directions, and packets keep their order and
  boundaries.  The UDP relay is safe under two assumptions
  of its statement: every packet leaves room for the header, and the first job of a connection runs before the next packet.
  Liveness: a relayed connection always has an event armed that moves it on.
  Bounds: buffers, headers, virtual times and back-off delays stay within their widths.
  A few properties record behaviour the code does not intend; they are findings of the manifest.

  \<^bold>\<open>Bounds and fuel.\<close>  No definition of the code uses fuel (\<open>cb_drain\<close>, which reads a ring out, takes a count, and any count that is large
  enough gives the packets held): loops are structural recursion, or \<open>function\<close> with a
  termination proof (\<open>hs_parse\<close>, the block loop of \<open>md5_append\<close>, \<open>free_connections\<close>).  The 90000 of \<open>socks_client_terminates\<close> bounds the events of a handshake:
  at most nine phases, each of at most 10000.

  \<^bold>\<open>Not modelled.\<close>  The vendored TCP/IP stack (\<open>badvpn/lwip\<close>), the rest of \<open>libevent\<close> (event loop and its
  back ends, HTTP, DNS, TLS, rate limits), \<open>libancillary\<close>, and the generated and auxiliary parts of
  \<open>badvpn\<close> (\<open>ncd\<close>, \<open>client\<close>, \<open>server\<close>, parser generators, examples and tests) are outside the core.  System
  calls are only modelled by the results the callers distinguish.  Of \<open>redsocks\<close>, the pump over
  \<open>splice\<close>, UDP redirection (\<open>redudp.c\<close>, \<open>dnstc.c\<close>), logging and the start-up code are left out.
  The Kotlin and Java application and the Rust \<open>shadowsocks\<close> client are not C.
\<close>

end
